(* ===== verification/Prelude.thy ===== *)
theory Prelude
  imports Main "HOL-Library.Word" "HOL-Library.Monad_Syntax"
begin

unbundle bit_operations_syntax

text \<open>
  Shared ground of the development: the machine types of the C code, byte buffers with
  little-endian fields (the C code overlays packed structs on malloc'ed memory, in host
  byte order, little endian on the x86 hosts it runs on), and list lemmas several
  components need.

  A buffer is the list of the bytes of one malloc'ed block. Every checked access returns an
  option: \<open>None\<close> stands for an access outside the block, which C leaves undefined.
  The locales \<open>field\<close> and \<open>exact_field\<close> are the interface between the byte level and
  the packet code: what reading a field returns after a write, to it or elsewhere.
\<close>

type_synonym byte = "8 word"
type_synonym u16 = "16 word"
type_synonym u32 = "32 word"
type_synonym u64 = "64 word"
type_synonym buf = "byte list"

named_theorems layout_simps \<open>sizes and offsets of the packed structs\<close>
named_theorems access_simps \<open>checked buffer accesses that are in bounds\<close>

subsection \<open>Words and bytes\<close>

primrec le_word :: "byte list \<Rightarrow> 'a::len word" where
  "le_word [] = 0"
| "le_word (b # bs) = ucast b OR push_bit 8 (le_word bs)"

definition le_bytes :: "nat \<Rightarrow> 'a::len word \<Rightarrow> byte list" where
  "le_bytes n w = map (\<lambda>k. ucast (drop_bit (8 * k) w)) [0..<n]"

lemma length_le_bytes [simp]: "length (le_bytes n w) = n"
  by (simp add: le_bytes_def)

lemma bit_le_word:
  "bit (le_word bs :: 'a::len word) i \<longleftrightarrow>
     i < LENGTH('a) \<and> i div 8 < length bs \<and> bit (bs ! (i div 8)) (i mod 8)"
proof (induction bs arbitrary: i)
  case Nil
  then show ?case by simp
next
  case (Cons b bs)
  show ?case
  proof (cases "i < 8")
    case True
    then show ?thesis
      by (auto simp: bit_or_iff bit_push_bit_iff bit_ucast_iff dest: bit_imp_le_length)
  next
    case False
    then obtain j where j: "i = j + 8" by (metis add.commute le_Suc_ex not_less)
    have "\<not> bit b (j + 8)" using bit_imp_le_length by fastforce
    moreover have "(j + 8) div 8 = Suc (j div 8)" and "(j + 8) mod 8 = j mod 8" by simp_all
    ultimately show ?thesis
      by (auto simp: j Cons.IH bit_or_iff bit_push_bit_iff bit_ucast_iff)
  qed
qed

lemma le_word_le_bytes:
  assumes "LENGTH('a::len) = 8 * n"
  shows "le_word (le_bytes n (w :: 'a word)) = w"
proof (rule bit_word_eqI)
  fix i assume i: "i < LENGTH('a)"
  then have "i div 8 < n" using assms by simp
  then show "bit (le_word (le_bytes n w) :: 'a word) i = bit w i"
    using i by (simp add: bit_le_word le_bytes_def bit_ucast_iff bit_drop_bit_eq)
qed

lemma le_bytes_le_word:
  assumes "LENGTH('a::len) = 8 * length bs"
  shows "le_bytes (length bs) (le_word bs :: 'a word) = bs"
proof (rule nth_equalityI)
  show "length (le_bytes (length bs) (le_word bs :: 'a word)) = length bs" by simp
next
  fix k assume "k < length (le_bytes (length bs) (le_word bs :: 'a word))"
  then have k: "k < length bs" by simp
  show "le_bytes (length bs) (le_word bs :: 'a word) ! k = bs ! k"
  proof (rule bit_word_eqI)
    fix i assume i: "i < LENGTH(8)"
    then have "(8 * k + i) div 8 = k" and "(8 * k + i) mod 8 = i" by simp_all
    moreover have "8 * k + i < LENGTH('a)" using i k assms by simp
    ultimately show "bit (le_bytes (length bs) (le_word bs :: 'a word) ! k) i = bit (bs ! k) i"
      using i k by (simp add: le_bytes_def bit_ucast_iff bit_drop_bit_eq bit_le_word)
  qed
qed

subsection \<open>Reading and writing regions of a block\<close>

definition slice :: "buf \<Rightarrow> nat \<Rightarrow> nat \<Rightarrow> buf" where
  "slice b off n = take n (drop off b)"

definition splice :: "buf \<Rightarrow> nat \<Rightarrow> buf \<Rightarrow> buf" where
  "splice b off xs = take off b @ xs @ drop (off + length xs) b"

text \<open>Checked access, as memcpy and field access perform it.\<close>

definition read_at :: "buf \<Rightarrow> nat \<Rightarrow> nat \<Rightarrow> buf option" where
  "read_at b off n = (if off + n \<le> length b then Some (slice b off n) else None)"

definition write_at :: "buf \<Rightarrow> nat \<Rightarrow> buf \<Rightarrow> buf option" where
  "write_at b off xs = (if off + length xs \<le> length b then Some (splice b off xs) else None)"

lemma read_at_Some [access_simps]: "off + n \<le> length b \<Longrightarrow> read_at b off n = Some (slice b off n)"
  by (simp add: read_at_def)

lemma write_at_Some [access_simps]:
  "off + length xs \<le> length b \<Longrightarrow> write_at b off xs = Some (splice b off xs)"
  by (simp add: write_at_def)

lemma length_slice [simp]: "off + n \<le> length b \<Longrightarrow> length (slice b off n) = n"
  by (simp add: slice_def)

lemma length_splice [simp]: "off + length xs \<le> length b \<Longrightarrow> length (splice b off xs) = length b"
  by (simp add: splice_def)

lemma slice_splice_same:
  "off + length xs \<le> length b \<Longrightarrow> n = length xs \<Longrightarrow> slice (splice b off xs) off n = xs"
  by (simp add: slice_def splice_def)

lemma nth_splice:
  "off + length xs \<le> length b \<Longrightarrow> i < length b \<Longrightarrow>
   splice b off xs ! i = (if off \<le> i \<and> i < off + length xs then xs ! (i - off) else b ! i)"
  by (auto simp: splice_def nth_append min_def not_less)

lemma nth_slice: "off + n \<le> length b \<Longrightarrow> i < n \<Longrightarrow> slice b off n ! i = b ! (off + i)"
  by (simp add: slice_def)

lemma slice_splice_other:
  assumes "off + length xs \<le> length b" and "o2 + n \<le> length b"
    and "o2 + n \<le> off \<or> off + length xs \<le> o2"
  shows "slice (splice b off xs) o2 n = slice b o2 n"
  using assms by (intro nth_equalityI) (auto simp: nth_slice nth_splice)

lemma slice_slice: "off + n \<le> m \<Longrightarrow> slice (slice b s m) off n = slice b (s + off) n"
  by (simp add: slice_def drop_take add.commute min_def)

lemma slice_append:
  "off + n \<le> length a \<Longrightarrow> slice (a @ b) off n = slice a off n"
  "length a \<le> off \<Longrightarrow> slice (a @ b) off n = slice b (off - length a) n"
  by (simp_all add: slice_def)

lemma slice_add: "slice b off (m + n) = slice b off m @ slice b (off + m) n"
  by (simp add: slice_def take_add add.commute)

lemma slice_splice_within:
  assumes "off + length xs \<le> length b" and "off \<le> o2" and "o2 + n \<le> off + length xs"
  shows "slice (splice b off xs) o2 n = slice xs (o2 - off) n"
  using assms by (intro nth_equalityI) (auto simp: nth_slice nth_splice)

subsection \<open>The field interface\<close>

text \<open>
  A field type is an encoder of fixed width with a decoder that inverts it. The lemmas are
  proved once, for every width, and interpreted for the integer fields of the packets.
\<close>

locale field =
  fixes enc :: "'v \<Rightarrow> buf" and dec :: "buf \<Rightarrow> 'v" and width :: nat
  assumes enc_length: "length (enc v) = width"
    and dec_enc: "dec (enc v) = v"
begin

lemma get_put_same:
  "off + width \<le> length b \<Longrightarrow> dec (slice (splice b off (enc v)) off width) = v"
  by (simp add: slice_splice_same enc_length dec_enc)

lemma get_put_other:
  "off + width \<le> length b \<Longrightarrow> o2 + n \<le> length b \<Longrightarrow> o2 + n \<le> off \<or> off + width \<le> o2 \<Longrightarrow>
   slice (splice b off (enc v)) o2 n = slice b o2 n"
  by (simp add: slice_splice_other enc_length)

lemma put_length: "off + width \<le> length b \<Longrightarrow> length (splice b off (enc v)) = length b"
  by (simp add: enc_length)

lemma enc_inj: "enc v = enc w \<longleftrightarrow> v = w"
  by (metis dec_enc)

end

text \<open>A field with no unused bit patterns: comparing bytes is comparing values.\<close>

locale exact_field = field +
  assumes enc_dec: "length bs = width \<Longrightarrow> enc (dec bs) = bs"
begin

lemma dec_eq_iff: "length bs = width \<Longrightarrow> length cs = width \<Longrightarrow> dec bs = dec cs \<longleftrightarrow> bs = cs"
  by (metis enc_dec)

lemma put_get_same: "off + width \<le> length b \<Longrightarrow> splice b off (enc (dec (slice b off width))) = b"
  by (simp add: enc_dec splice_def slice_def)
     (metis append.assoc append_take_drop_id take_add)

end

definition get8 :: "buf \<Rightarrow> nat \<Rightarrow> byte option" where
  "get8 b off = map_option hd (read_at b off 1)"

definition rd16 :: "buf \<Rightarrow> nat \<Rightarrow> u16" where
  "rd16 b off = le_word (slice b off 2)"

definition wr16 :: "buf \<Rightarrow> nat \<Rightarrow> u16 \<Rightarrow> buf" where
  "wr16 b off v = splice b off (le_bytes 2 v)"

definition get16 :: "buf \<Rightarrow> nat \<Rightarrow> u16 option" where
  "get16 b off = map_option le_word (read_at b off 2)"

definition put16 :: "buf \<Rightarrow> nat \<Rightarrow> u16 \<Rightarrow> buf option" where
  "put16 b off v = write_at b off (le_bytes 2 v)"

definition get32 :: "buf \<Rightarrow> nat \<Rightarrow> u32 option" where
  "get32 b off = map_option le_word (read_at b off 4)"

definition put32 :: "buf \<Rightarrow> nat \<Rightarrow> u32 \<Rightarrow> buf option" where
  "put32 b off v = write_at b off (le_bytes 4 v)"

definition put8 :: "buf \<Rightarrow> nat \<Rightarrow> byte \<Rightarrow> buf option" where
  "put8 b off v = write_at b off [v]"

definition put64 :: "buf \<Rightarrow> nat \<Rightarrow> u64 \<Rightarrow> buf option" where
  "put64 b off v = write_at b off (le_bytes 8 v)"

definition rd64 :: "buf \<Rightarrow> nat \<Rightarrow> u64" where
  "rd64 b off = le_word (slice b off 8)"

lemma le_bytes_le_word_n:
  "length bs = n \<Longrightarrow> LENGTH('a::len) = 8 * n \<Longrightarrow> le_bytes n (le_word bs :: 'a word) = bs"
  using le_bytes_le_word by blast

interpretation f16: exact_field "le_bytes 2 :: u16 \<Rightarrow> buf" "le_word" "2"
  by unfold_locales (simp_all add: le_word_le_bytes le_bytes_le_word_n)

interpretation f32: exact_field "le_bytes 4 :: u32 \<Rightarrow> buf" "le_word" "4"
  by unfold_locales (simp_all add: le_word_le_bytes le_bytes_le_word_n)

interpretation f64: exact_field "le_bytes 8 :: u64 \<Rightarrow> buf" "le_word" "8"
  by unfold_locales (simp_all add: le_word_le_bytes le_bytes_le_word_n)

lemma get8_Some [access_simps]: "off < length b \<Longrightarrow> get8 b off = Some (b ! off)"
  by (simp add: get8_def read_at_def slice_def hd_drop_conv_nth)

lemma get16_Some [access_simps]: "off + 2 \<le> length b \<Longrightarrow> get16 b off = Some (rd16 b off)"
  by (simp add: get16_def rd16_def access_simps)

lemma put16_Some [access_simps]: "off + 2 \<le> length b \<Longrightarrow> put16 b off v = Some (wr16 b off v)"
  by (simp add: put16_def wr16_def access_simps)

lemma get16_SomeD: "get16 b off = Some v \<Longrightarrow> off + 2 \<le> length b \<and> v = rd16 b off"
  by (auto simp: get16_def rd16_def read_at_def split: if_splits)

lemma length_wr16 [simp]: "off + 2 \<le> length b \<Longrightarrow> length (wr16 b off v) = length b"
  by (simp add: wr16_def)

lemma rd16_wr16_same [simp]: "off + 2 \<le> length b \<Longrightarrow> rd16 (wr16 b off v) off = v"
  by (simp add: rd16_def wr16_def f16.get_put_same)

lemma slice_wr16_other:
  "off + 2 \<le> length b \<Longrightarrow> o2 + n \<le> length b \<Longrightarrow> o2 + n \<le> off \<or> off + 2 \<le> o2 \<Longrightarrow>
   slice (wr16 b off v) o2 n = slice b o2 n"
  by (simp add: wr16_def slice_splice_other)

lemma rd16_wr16_other [simp]:
  "off + 2 \<le> length b \<Longrightarrow> o2 + 2 \<le> length b \<Longrightarrow> o2 + 2 \<le> off \<or> off + 2 \<le> o2 \<Longrightarrow>
   rd16 (wr16 b off v) o2 = rd16 b o2"
  by (simp add: rd16_def slice_wr16_other)

lemma rd16_splice_other:
  "off + length xs \<le> length b \<Longrightarrow> o2 + 2 \<le> length b \<Longrightarrow> o2 + 2 \<le> off \<or> off + length xs \<le> o2 \<Longrightarrow>
   rd16 (splice b off xs) o2 = rd16 b o2"
  by (simp add: rd16_def slice_splice_other)

lemma rd16_slice: "off + 2 \<le> n \<Longrightarrow> rd16 (slice b s n) off = rd16 b (s + off)"
  by (simp add: rd16_def slice_slice)

subsection \<open>Reading back what was written\<close>

definition rd32 :: "buf \<Rightarrow> nat \<Rightarrow> u32" where
  "rd32 b off = le_word (slice b off 4)"

definition wr32 :: "buf \<Rightarrow> nat \<Rightarrow> u32 \<Rightarrow> buf" where
  "wr32 b off v = splice b off (le_bytes 4 v)"

definition wr8 :: "buf \<Rightarrow> nat \<Rightarrow> byte \<Rightarrow> buf" where
  "wr8 b off v = splice b off [v]"

lemma get32_Some [access_simps]: "off + 4 \<le> length b \<Longrightarrow> get32 b off = Some (rd32 b off)"
  by (simp add: get32_def rd32_def access_simps)

lemma put32_Some [access_simps]: "off + 4 \<le> length b \<Longrightarrow> put32 b off v = Some (wr32 b off v)"
  by (simp add: put32_def wr32_def access_simps)

lemma put8_Some [access_simps]: "off + 1 \<le> length b \<Longrightarrow> put8 b off v = Some (wr8 b off v)"
  by (simp add: put8_def wr8_def access_simps)

lemma length_wr32 [simp]: "off + 4 \<le> length b \<Longrightarrow> length (wr32 b off v) = length b"
  by (simp add: wr32_def)

lemma length_wr8 [simp]: "off < length b \<Longrightarrow> length (wr8 b off v) = length b"
  by (simp add: wr8_def)

lemma rd32_wr32_same: "off + 4 \<le> length b \<Longrightarrow> rd32 (wr32 b off v) off = v"
  by (simp add: rd32_def wr32_def f32.get_put_same)

lemma nth_wr8_same: "off < length b \<Longrightarrow> wr8 b off v ! off = v"
  by (simp add: wr8_def nth_splice)

text \<open>A write elsewhere leaves a region, hence every field in it, as it was.\<close>

lemma slice_wr_other:
  "off + 2 \<le> length b \<Longrightarrow> o2 + n \<le> length b \<Longrightarrow> o2 + n \<le> off \<or> off + 2 \<le> o2 \<Longrightarrow>
   slice (wr16 b off v) o2 n = slice b o2 n"
  "off + 4 \<le> length b \<Longrightarrow> o2 + n \<le> length b \<Longrightarrow> o2 + n \<le> off \<or> off + 4 \<le> o2 \<Longrightarrow>
   slice (wr32 b off w) o2 n = slice b o2 n"
  "off < length b \<Longrightarrow> o2 + n \<le> length b \<Longrightarrow> o2 + n \<le> off \<or> off < o2 \<Longrightarrow>
   slice (wr8 b off y) o2 n = slice b o2 n"
  by (auto simp: wr16_def wr32_def wr8_def intro!: slice_splice_other)

lemma nth_by_slice: "i < length b \<Longrightarrow> b ! i = hd (slice b i 1)"
  by (simp add: slice_def hd_drop_conv_nth)

lemma slice_wr_same:
  "off + 2 \<le> length b \<Longrightarrow> slice (wr16 b off v) off 2 = le_bytes 2 v"
  "off + 4 \<le> length b \<Longrightarrow> slice (wr32 b off w) off 4 = le_bytes 4 w"
  "off < length b \<Longrightarrow> slice (wr8 b off y) off 1 = [y]"
  by (auto simp: wr16_def wr32_def wr8_def intro!: slice_splice_same)

text \<open>Loops over the elements of an array that starts at an offset.\<close>

fun put_elems :: "('v \<Rightarrow> buf) \<Rightarrow> nat \<Rightarrow> 'v list \<Rightarrow> buf \<Rightarrow> buf option" where
  "put_elems enc off [] b = Some b"
| "put_elems enc off (x # xs) b = do {
     b \<leftarrow> write_at b off (enc x);
     put_elems enc (off + length (enc x)) xs b
   }"

fun get_elems :: "(buf \<Rightarrow> 'v) \<Rightarrow> nat \<Rightarrow> nat \<Rightarrow> nat \<Rightarrow> buf \<Rightarrow> 'v list option" where
  "get_elems dec width off 0 b = Some []"
| "get_elems dec width off (Suc n) b = do {
     x \<leftarrow> read_at b off width;
     xs \<leftarrow> get_elems dec width (off + width) n b;
     Some (dec x # xs)
   }"

lemma splice_splice_next:
  "off + length xs + length ys \<le> length b \<Longrightarrow>
   splice (splice b off xs) (off + length xs) ys = splice b off (xs @ ys)"
  by (simp add: splice_def ac_simps)

context field
begin

lemma length_concat_enc [simp]: "length (concat (map enc xs)) = width * length xs"
  by (induction xs) (simp_all add: enc_length)

lemma put_elems_write:
  "off + width * length xs \<le> length b \<Longrightarrow>
   put_elems enc off xs b = Some (splice b off (concat (map enc xs)))"
proof (induction xs arbitrary: b off)
  case Nil
  then show ?case by (simp add: splice_def)
next
  case (Cons x xs)
  then show ?case
    by (simp add: write_at_Some enc_length)
       (subst splice_splice_next [where xs = "enc x", unfolded enc_length]; simp add: enc_length)
qed

lemma get_elems_read:
  "off + width * length xs \<le> length b \<Longrightarrow>
   slice b off (width * length xs) = concat (map enc xs) \<Longrightarrow>
   get_elems dec width off (length xs) b = Some xs"
proof (induction xs arbitrary: off)
  case Nil
  then show ?case by simp
next
  case (Cons x xs)
  then have both: "slice b off width @ slice b (off + width) (width * length xs)
      = enc x @ concat (map enc xs)"
    by (simp add: slice_add [symmetric])
  moreover have "length (slice b off width) = length (enc x)"
    using Cons.prems by (simp add: enc_length)
  ultimately have "slice b off width = enc x"
    and "slice b (off + width) (width * length xs) = concat (map enc xs)" by auto
  then show ?case using Cons by (simp add: read_at_Some dec_enc)
qed

lemma get_put_elems:
  "off + width * length xs \<le> length b \<Longrightarrow> n = length xs \<Longrightarrow>
   get_elems dec width off n (splice b off (concat (map enc xs))) = Some xs"
  by (simp add: get_elems_read slice_splice_same)

lemma length_put_elems:
  "off + width * length xs \<le> length b \<Longrightarrow> length (splice b off (concat (map enc xs))) = length b"
  by simp

end

subsection \<open>Lists and bounded words\<close>

text \<open>Checked update of an array at an index the caller does not control.\<close>

definition get_at :: "'a list \<Rightarrow> nat \<Rightarrow> 'a option" where
  "get_at xs i = (if i < length xs then Some (xs ! i) else None)"

definition set_at :: "'a list \<Rightarrow> nat \<Rightarrow> 'a \<Rightarrow> 'a list option" where
  "set_at xs i v = (if i < length xs then Some (xs[i := v]) else None)"

lemma get16_iff: "get16 b off = (if off + 2 \<le> length b then Some (rd16 b off) else None)"
  by (simp add: get16_def rd16_def read_at_def)

lemma rd16_append [simp]: "off + 2 \<le> length xs \<Longrightarrow> rd16 (xs @ ys) off = rd16 xs off"
  by (simp add: rd16_def slice_append)

lemma rd16_take [simp]: "off + 2 \<le> m \<Longrightarrow> rd16 (take m b) off = rd16 b off"
  by (simp add: rd16_def slice_def drop_take min_absorb1)

lemma get_at_Some [access_simps]: "i < length xs \<Longrightarrow> get_at xs i = Some (xs ! i)"
  by (simp add: get_at_def)

lemma set_at_Some [access_simps]: "i < length xs \<Longrightarrow> set_at xs i v = Some (xs[i := v])"
  by (simp add: set_at_def)

lemma nth_update_if: "xs[i := x] ! j = (if i = j \<and> i < length xs then x else xs ! j)"
  by (cases "i < length xs") (simp_all add: nth_list_update list_update_beyond)

lemma list_all2_map_upt: "(\<And>i. i < n \<Longrightarrow> f i = g i) \<Longrightarrow> map f [0..<n] = map g [0..<n]"
  by simp

lemma unat_u16_less: "unat (x :: u16) < 65536"
  using unsigned_less [of x, where 'a = nat] by simp

lemma unat_u16_le: "unat (x :: u16) \<le> 65535"
  using unat_u16_less [of x] by linarith

lemma unat_u8_less: "unat (x :: byte) < 256"
  using unsigned_less [of x, where 'a = nat] by simp

lemma unat_of_nat_u16: "n < 65536 \<Longrightarrow> unat (of_nat n :: u16) = n"
  by (simp add: unat_of_nat)

lemma unat_of_nat_u8: "n < 256 \<Longrightarrow> unat (of_nat n :: byte) = n"
  by (simp add: unat_of_nat)

lemma unat_of_nat_u64: "n < 18446744073709551616 \<Longrightarrow> unat (of_nat n :: u64) = n"
  by (simp add: unat_of_nat)

lemma unat_ucast_u16_u32 [simp]: "unat (ucast (x :: u16) :: u32) = unat x"
  by (simp add: unsigned_ucast_eq take_bit_nat_eq_self less_trans [OF unat_u16_less])

text \<open>A foldl that keeps an invariant.\<close>

lemma foldl_invariant:
  assumes "P s" and "\<And>s x. P s \<Longrightarrow> x \<in> set xs \<Longrightarrow> P (f s x)"
  shows "P (foldl f s xs)"
  using assms by (induction xs arbitrary: s) auto

end
