(* ===== verification/Packets.thy ===== *)
theory Packets
  imports Prelude
begin

text \<open>
  The packet formats of \<open>mixnet/packet.h\<close> and the addresses of \<open>mixnet/address.h\<close>: enumeration,
  sizes and offsets of the packed structs, the fields the node code reads and writes, the
  codec of the links of an LSA, and \<open>clone_packet\<close> of \<open>mixnet/node.c\<close>. The theory also fixes
  how calls of the outside world appear in the model: an \<open>env\<close> supplies the clock, rand() and
  the outcome of every malloc of one handler call, and an \<open>ev\<close> list records what the handler
  does with packet blocks.
\<close>

subsection \<open>Addresses and packet types\<close>

type_synonym mixnet_address = u16

definition INVALID_MIXADDR :: mixnet_address where
  "INVALID_MIXADDR = - 1"

datatype mixnet_packet_type =
    PACKET_TYPE_STP
  | PACKET_TYPE_FLOOD
  | PACKET_TYPE_LSA
  | PACKET_TYPE_DATA
  | PACKET_TYPE_PING

primrec type_code :: "mixnet_packet_type \<Rightarrow> u16" where
  "type_code PACKET_TYPE_STP = 0"
| "type_code PACKET_TYPE_FLOOD = 1"
| "type_code PACKET_TYPE_LSA = 2"
| "type_code PACKET_TYPE_DATA = 3"
| "type_code PACKET_TYPE_PING = 4"

text \<open>The switch on a type field; \<open>None\<close> is its default branch.\<close>

definition type_of_code :: "u16 \<Rightarrow> mixnet_packet_type option" where
  "type_of_code n =
     (if n = 0 then Some PACKET_TYPE_STP
      else if n = 1 then Some PACKET_TYPE_FLOOD
      else if n = 2 then Some PACKET_TYPE_LSA
      else if n = 3 then Some PACKET_TYPE_DATA
      else if n = 4 then Some PACKET_TYPE_PING
      else None)"

lemma type_of_code_type_code [simp]: "type_of_code (type_code k) = Some k"
  by (cases k) (simp_all add: type_of_code_def)

lemma type_of_code_Some_iff: "type_of_code n = Some k \<longleftrightarrow> n = type_code k"
  by (cases k) (auto simp: type_of_code_def)

subsection \<open>Sizes and offsets of the packed structs\<close>

definition sizeof_mixnet_packet :: nat where [simp]: "sizeof_mixnet_packet = 12"
definition sizeof_mixnet_packet_stp :: nat where [simp]: "sizeof_mixnet_packet_stp = 6"
definition sizeof_mixnet_lsa_link_params :: nat where [simp]: "sizeof_mixnet_lsa_link_params = 4"
definition sizeof_mixnet_packet_lsa :: nat where [simp]: "sizeof_mixnet_packet_lsa = 4"
definition sizeof_routing_header :: nat where [simp]: "sizeof_routing_header = 8"
definition sizeof_mixnet_packet_ping :: nat where [simp]: "sizeof_mixnet_packet_ping = 10"
definition sizeof_mixnet_address :: nat where [simp]: "sizeof_mixnet_address = 2"

definition MIN_MIXNET_PACKET_SIZE :: nat where
  [simp]: "MIN_MIXNET_PACKET_SIZE = sizeof_mixnet_packet"
definition MAX_MIXNET_PACKET_SIZE :: nat where [simp]: "MAX_MIXNET_PACKET_SIZE = 4096"
definition MAX_MIXNET_ROUTE_LENGTH :: nat where [simp]: "MAX_MIXNET_ROUTE_LENGTH = 256"

definition MAX_MIXNET_DATA_SIZE :: nat where
  [simp]: "MAX_MIXNET_DATA_SIZE =
     MAX_MIXNET_PACKET_SIZE - sizeof_mixnet_packet
       - (sizeof_routing_header + sizeof_mixnet_address * MAX_MIXNET_ROUTE_LENGTH)"

definition STP_PACKET_SIZE :: nat where
  [simp]: "STP_PACKET_SIZE = sizeof_mixnet_packet + sizeof_mixnet_packet_stp"

definition LSA_PACKET_SIZE :: "nat \<Rightarrow> nat" where
  [simp]: "LSA_PACKET_SIZE n =
     sizeof_mixnet_packet + sizeof_mixnet_packet_lsa + sizeof_mixnet_lsa_link_params * n"

text \<open>Byte offsets from the start of the packet.\<close>

definition off_total_size :: nat where [simp]: "off_total_size = 0"
definition off_type :: nat where [simp]: "off_type = 2"
definition off_reserved :: nat where [simp]: "off_reserved = 4"
definition off_payload :: nat where [simp]: "off_payload = sizeof_mixnet_packet"

definition off_stp_root :: nat where [simp]: "off_stp_root = off_payload"
definition off_stp_path_length :: nat where [simp]: "off_stp_path_length = off_payload + 2"
definition off_stp_node :: nat where [simp]: "off_stp_node = off_payload + 4"

definition off_lsa_node :: nat where [simp]: "off_lsa_node = off_payload"
definition off_lsa_count :: nat where [simp]: "off_lsa_count = off_payload + 2"
definition off_lsa_link :: "nat \<Rightarrow> nat" where
  [simp]: "off_lsa_link k =
     off_payload + sizeof_mixnet_packet_lsa + sizeof_mixnet_lsa_link_params * k"

definition off_rh_src :: nat where [simp]: "off_rh_src = off_payload"
definition off_rh_dst :: nat where [simp]: "off_rh_dst = off_payload + 2"
definition off_rh_route_length :: nat where [simp]: "off_rh_route_length = off_payload + 4"
definition off_rh_hop_index :: nat where [simp]: "off_rh_hop_index = off_payload + 6"
definition off_rh_route :: "nat \<Rightarrow> nat" where
  [simp]: "off_rh_route i = off_payload + sizeof_routing_header + sizeof_mixnet_address * i"

subsection \<open>Field accessors\<close>

definition pkt_total_size :: "buf \<Rightarrow> u16" where "pkt_total_size b = rd16 b off_total_size"
definition pkt_type :: "buf \<Rightarrow> u16" where "pkt_type b = rd16 b off_type"

text \<open>
  A packet block: it holds at least the header and all the bytes its \<open>total_size\<close> declares.
  The framework allocates a received packet with exactly \<open>total_size\<close> bytes (at least the
  header), and a user packet with \<open>MAX_MIXNET_PACKET_SIZE\<close> bytes.
\<close>

definition pkt_block :: "buf \<Rightarrow> bool" where
  "pkt_block b \<longleftrightarrow>
     sizeof_mixnet_packet \<le> length b \<and> unat (pkt_total_size b) \<le> length b"

text \<open>The route array of a routing header, as declared by its length field.\<close>

definition rh_route :: "buf \<Rightarrow> mixnet_address list" where
  "rh_route b = map (\<lambda>i. rd16 b (off_rh_route i)) [0..<unat (rd16 b off_rh_route_length)]"

definition enc_route :: "mixnet_address list \<Rightarrow> buf" where
  "enc_route r = concat (map (le_bytes 2) r)"

lemma enc_route_Nil [simp]: "enc_route [] = []"
  by (simp add: enc_route_def)

lemma length_enc_route [simp]: "length (enc_route r) = 2 * length r"
  by (induction r) (simp_all add: enc_route_def)

lemma slice_enc_route:
  "i < length r \<Longrightarrow> slice (enc_route r) (2 * i) 2 = le_bytes 2 (r ! i)"
proof (induction r arbitrary: i)
  case Nil
  then show ?case by simp
next
  case (Cons a r)
  show ?case
  proof (cases i)
    case 0
    then show ?thesis by (simp add: enc_route_def slice_def)
  next
    case (Suc j)
    then have "slice (enc_route (a # r)) (2 * i) 2 = slice (enc_route r) (2 * j) 2"
      by (simp add: enc_route_def slice_append)
    then show ?thesis using Cons Suc by simp
  qed
qed

lemma rd16_enc_route [simp]: "i < length r \<Longrightarrow> rd16 (enc_route r) (2 * i) = r ! i"
  by (simp add: rd16_def slice_enc_route f16.dec_enc)

subsection \<open>Link parameters of an LSA\<close>

record mixnet_lsa_link_params =
  neighbor_mixaddr :: mixnet_address
  cost :: u16

definition enc_link :: "mixnet_lsa_link_params \<Rightarrow> buf" where
  "enc_link l = le_bytes 2 (neighbor_mixaddr l) @ le_bytes 2 (cost l)"

definition dec_link :: "buf \<Rightarrow> mixnet_lsa_link_params" where
  "dec_link b = \<lparr>neighbor_mixaddr = rd16 b 0, cost = rd16 b 2\<rparr>"

interpretation flink: exact_field enc_link dec_link sizeof_mixnet_lsa_link_params
proof
  fix l :: mixnet_lsa_link_params and bs :: buf
  show "length (enc_link l) = sizeof_mixnet_lsa_link_params" by (simp add: enc_link_def)
  show "dec_link (enc_link l) = l"
    by (simp add: enc_link_def dec_link_def rd16_def slice_append slice_def f16.dec_enc)
  assume bs: "length bs = sizeof_mixnet_lsa_link_params"
  then have "slice bs 0 2 @ slice bs 2 2 = bs" by (simp add: slice_def)
  with bs show "enc_link (dec_link bs) = bs"
    by (simp add: enc_link_def dec_link_def rd16_def f16.enc_dec)
qed

text \<open>The links array as the code indexes it: \<open>n\<close> structs from \<open>off_lsa_link 0\<close> on.\<close>

definition lsa_links :: "buf \<Rightarrow> nat \<Rightarrow> mixnet_lsa_link_params list" where
  "lsa_links b n = map (\<lambda>k. \<lparr>neighbor_mixaddr = rd16 b (off_lsa_link k),
                             cost = rd16 b (off_lsa_link k + 2)\<rparr>) [0..<n]"

definition enc_links :: "mixnet_lsa_link_params list \<Rightarrow> buf" where
  "enc_links ls = concat (map enc_link ls)"

lemma length_lsa_links [simp]: "length (lsa_links b n) = n"
  by (simp add: lsa_links_def)

lemma length_enc_link [simp]: "length (enc_link l) = 4"
  using flink.enc_length by simp

lemma length_enc_links [simp]: "length (enc_links ls) = 4 * length ls"
  by (induction ls) (simp_all add: enc_links_def)

lemma lsa_links_Suc: "lsa_links b (Suc n) = lsa_links b n @ [dec_link (slice b (16 + 4 * n) 4)]"
  by (simp add: lsa_links_def dec_link_def rd16_slice)

lemma enc_lsa_links:
  "16 + 4 * n \<le> length b \<Longrightarrow> enc_links (lsa_links b n) = slice b 16 (4 * n)"
proof (induction n)
  case 0
  then show ?case by (simp add: enc_links_def lsa_links_def slice_def)
next
  case (Suc n)
  have eq: "enc_links (lsa_links b (Suc n)) =
      enc_links (lsa_links b n) @ enc_link (dec_link (slice b (16 + 4 * n) 4))"
    by (simp add: enc_links_def lsa_links_Suc)
  have "enc_link (dec_link (slice b (16 + 4 * n) 4)) = slice b (16 + 4 * n) 4"
    using Suc.prems by (intro flink.enc_dec) simp
  moreover have "slice b 16 (4 * Suc n) = slice b 16 (4 * n) @ slice b (16 + 4 * n) 4"
    by (metis slice_add mult_Suc_right add.commute)
  ultimately show ?case using Suc eq by simp
qed

text \<open>
  \<open>memcmp\<close> on two link rows is equality of the rows: the struct has no padding. This is what
  lets the topology keep decoded links and compare them as values.
\<close>

lemma memcmp_links:
  assumes "length ls = length ls'"
  shows "enc_links ls = enc_links ls' \<longleftrightarrow> ls = ls'"
  using assms by (induction ls ls' rule: list_induct2) (auto simp: enc_links_def flink.enc_inj)

subsection \<open>The world outside a handler call\<close>

text \<open>
  Every allocation site of \<open>node.c\<close>, with the loop variable of the loop it stands in. One call
  of a handler executes a site at most once per value of its loop variable, so a function from
  sites to outcomes ranges over every combination of malloc results the call can meet.
\<close>

datatype site =
    Stp_Packet nat        \<comment> \<open>make_stp_packet for port p in broadcast_stp\<close>
  | Lsa_Packet            \<comment> \<open>make_lsa_packet\<close>
  | Clone_Packet nat      \<comment> \<open>clone_packet for port p in broadcast_on_tree\<close>
  | Ping_Reply            \<comment> \<open>clone_packet in make_ping_reply\<close>
  | Grow_Graph nat        \<comment> \<open>realloc in id_lookup, for the i'th address interned\<close>
  | Copy_Links            \<comment> \<open>the copy of the links in graph_update\<close>
  | Sp_Array              \<comment> \<open>run_dijkstra\<close>
  | Fib_Table             \<comment> \<open>calloc in fib_reset\<close>
  | Fib_Route nat         \<comment> \<open>install_route for vertex id\<close>
  | Detour                \<comment> \<open>random_route\<close>
  | Init_Neighbors | Init_Blocked | Init_Mix  \<comment> \<open>state_init\<close>

record env =
  now :: u64                  \<comment> \<open>what now_ms() returns during this call\<close>
  rnd :: nat                  \<comment> \<open>what rand() returns; it is never negative\<close>
  alloc :: "site \<Rightarrow> bool"      \<comment> \<open>which allocations succeed\<close>
  junk :: "nat \<Rightarrow> byte"       \<comment> \<open>the contents malloc leaves in a fresh block\<close>

definition malloc_block :: "env \<Rightarrow> nat \<Rightarrow> buf" where
  "malloc_block e n = map (junk e) [0..<n]"

lemma length_malloc_block [simp]: "length (malloc_block e n) = n"
  by (simp add: malloc_block_def)

text \<open>
  What a handler does with packet blocks, in program order: allocate one, hand one to the
  framework through \<open>send_packet\<close> on a port (which ends our ownership whether or not the
  framework accepts it), or free one.
\<close>

datatype ev = Alloc buf | Send byte buf | Free buf

primrec sent_of :: "ev \<Rightarrow> (byte \<times> buf) list" where
  "sent_of (Alloc b) = []"
| "sent_of (Send p b) = [(p, b)]"
| "sent_of (Free b) = []"

definition sent :: "ev list \<Rightarrow> (byte \<times> buf) list" where
  "sent evs = concat (map sent_of evs)"

lemma sent_simps [simp]:
  "sent [] = []" "sent (Alloc b # evs) = sent evs" "sent (Send p b # evs) = (p, b) # sent evs"
  "sent (Free b # evs) = sent evs" "sent (xs @ ys) = sent xs @ sent ys"
  by (simp_all add: sent_def)

text \<open>Blocks gained minus blocks given away.\<close>

primrec balance1 :: "ev \<Rightarrow> int" where
  "balance1 (Alloc b) = 1"
| "balance1 (Send p b) = - 1"
| "balance1 (Free b) = - 1"

definition balance :: "ev list \<Rightarrow> int" where
  "balance evs = sum_list (map balance1 evs)"

lemma balance_simps [simp]:
  "balance [] = 0" "balance (x # evs) = balance1 x + balance evs"
  "balance (xs @ ys) = balance xs + balance ys"
  by (simp_all add: balance_def)

text \<open>
  \<open>clone_packet\<close>: \<open>None\<close> is a copy past the end of the source block, \<open>Some None\<close> a NULL result.
\<close>

definition clone_packet :: "bool \<Rightarrow> buf \<Rightarrow> buf option option" where
  "clone_packet ok b = do {
     n \<leftarrow> get16 b off_total_size;
     if ok then do { x \<leftarrow> read_at b 0 (unat n); Some (Some x) } else Some None }"

lemma clone_packet_block [access_simps]:
  "pkt_block b \<Longrightarrow>
   clone_packet ok b = Some (if ok then Some (take (unat (pkt_total_size b)) b) else None)"
  by (simp add: clone_packet_def pkt_block_def pkt_total_size_def access_simps slice_def)

end
