(* ===== verification/Topology.thy ===== *)
theory Topology
  imports Packets
begin

text \<open>
  The global view of the network, \<open>struct graph\<close> of \<open>mixnet/node.c\<close>: an adjacency list indexed
  by vertex id, find (\<open>id_find\<close>), find-or-insert (\<open>id_lookup\<close>) and the installation of an
  advertised row (\<open>graph_update\<close>). The locale \<open>interning\<close> states what its clients rely on: ids
  of known addresses are stable and addresses stay distinct.
\<close>

named_theorems topology_simps \<open>facts about id_find and id_lookup\<close>

subsection \<open>Data\<close>

text \<open>\<open>num_links\<close> is the length of the row, \<open>count\<close> the length of the vertex array.\<close>

record vertex =
  addr :: mixnet_address
  advertised :: bool
  links :: "mixnet_lsa_link_params list"

record graph =
  verts :: "vertex list"
  capacity :: nat

definition count :: "graph \<Rightarrow> nat" where
  "count g = length (verts g)"

definition addrs :: "graph \<Rightarrow> mixnet_address list" where
  "addrs g = map addr (verts g)"

definition empty_graph :: graph where
  "empty_graph = \<lparr>verts = [], capacity = 0\<rparr>"

subsection \<open>Operations\<close>

text \<open>The scan of \<open>id_find\<close> from index \<open>i\<close> on; \<open>None\<close> is -1.\<close>

fun find_from :: "vertex list \<Rightarrow> nat \<Rightarrow> mixnet_address \<Rightarrow> nat option" where
  "find_from [] i a = None"
| "find_from (x # xs) i a = (if addr x = a then Some i else find_from xs (Suc i) a)"

definition id_find :: "graph \<Rightarrow> mixnet_address \<Rightarrow> nat option" where
  "id_find g a = find_from (verts g) 0 a"

text \<open>The vertex appended on first sight of an address.\<close>

definition fresh_vertex :: "mixnet_address \<Rightarrow> vertex" where
  "fresh_vertex a = \<lparr>addr = a, advertised = False, links = []\<rparr>"

definition append_vertex :: "graph \<Rightarrow> mixnet_address \<Rightarrow> graph" where
  "append_vertex g a = g\<lparr>verts := verts g @ [fresh_vertex a]\<rparr>"

text \<open>
  Find-or-insert. \<open>ok\<close> is the outcome of the realloc, which is called when the array is full;
  the new capacity is computed in 32 bits and must fit in 16.
\<close>

definition id_lookup :: "bool \<Rightarrow> graph \<Rightarrow> mixnet_address \<Rightarrow> graph \<times> nat option" where
  "id_lookup ok g a =
     (case id_find g a of
        Some i \<Rightarrow> (g, Some i)
      | None \<Rightarrow>
          if count g = capacity g then
            (let cap = (if capacity g = 0 then 8 else capacity g * 2) in
             if cap > 65535 then (g, None)
             else if \<not> ok then (g, None)
             else (append_vertex (g\<lparr>capacity := cap\<rparr>) a, Some (count g)))
          else (append_vertex g a, Some (count g)))"

text \<open>
  The interning loop of \<open>graph_update\<close>, over the links from index \<open>i\<close> on. The flag is False
  when a lookup failed, where the loop returns.
\<close>

fun intern_links ::
  "(nat \<Rightarrow> bool) \<Rightarrow> graph \<Rightarrow> mixnet_lsa_link_params list \<Rightarrow> nat \<Rightarrow> graph \<times> bool" where
  "intern_links ok g [] i = (g, True)"
| "intern_links ok g (l # ls) i =
     (case id_lookup (ok i) g (neighbor_mixaddr l) of
        (g', None) \<Rightarrow> (g', False)
      | (g', Some _) \<Rightarrow> intern_links ok g' ls (Suc i))"

definition set_row :: "graph \<Rightarrow> nat \<Rightarrow> mixnet_lsa_link_params list \<Rightarrow> graph" where
  "set_row g i ls = g\<lparr>verts := (verts g)[i := (verts g ! i)\<lparr>links := ls, advertised := True\<rparr>]\<rparr>"

definition row_unchanged :: "vertex \<Rightarrow> mixnet_lsa_link_params list \<Rightarrow> bool" where
  "row_unchanged row ls \<longleftrightarrow>
     advertised row \<and> length (links row) = length ls
       \<and> (length ls = 0 \<or> enc_links (links row) = enc_links ls)"

definition graph_update ::
  "(site \<Rightarrow> bool) \<Rightarrow> graph \<Rightarrow> mixnet_address \<Rightarrow> mixnet_lsa_link_params list \<Rightarrow> graph \<times> bool" where
  "graph_update ok g origin ls =
     (case intern_links (\<lambda>i. ok (Grow_Graph i)) g ls 0 of
        (g1, False) \<Rightarrow> (g1, False)
      | (g1, True) \<Rightarrow>
          (case id_lookup (ok (Grow_Graph (length ls))) g1 origin of
             (g2, None) \<Rightarrow> (g2, False)
           | (g2, Some i) \<Rightarrow>
               if row_unchanged (verts g2 ! i) ls then (g2, False)
               else if length ls > 0 \<and> \<not> ok Copy_Links then (g2, False)
               else (set_row g2 i ls, True)))"

subsection \<open>Finding\<close>

lemma find_from_Some:
  "find_from xs k a = Some i \<Longrightarrow> k \<le> i \<and> i < k + length xs \<and> addr (xs ! (i - k)) = a"
proof (induction xs arbitrary: k)
  case Nil
  then show ?case by simp
next
  case (Cons x xs)
  show ?case
  proof (cases "addr x = a")
    case True
    with Cons.prems show ?thesis by simp
  next
    case False
    with Cons.prems have "find_from xs (Suc k) a = Some i" by simp
    from Cons.IH [OF this] show ?thesis by (auto simp: nth_Cons' Suc_diff_le)
  qed
qed

lemma find_from_None: "find_from xs k a = None \<longleftrightarrow> a \<notin> addr ` set xs"
  by (induction xs arbitrary: k) auto

lemma find_from_append:
  "find_from (xs @ ys) k a =
     (case find_from xs k a of Some i \<Rightarrow> Some i | None \<Rightarrow> find_from ys (k + length xs) a)"
  by (induction xs arbitrary: k) (auto split: option.splits)

lemma id_find_SomeD: "id_find g a = Some i \<Longrightarrow> i < count g \<and> addr (verts g ! i) = a"
  using find_from_Some [of "verts g" 0 a i] by (simp add: id_find_def count_def)

lemma id_find_None_iff: "id_find g a = None \<longleftrightarrow> a \<notin> set (addrs g)"
  by (simp add: id_find_def find_from_None addrs_def)

lemma id_find_complete:
  assumes "distinct (addrs g)" and "i < count g"
  shows "id_find g (addr (verts g ! i)) = Some i"
proof -
  have "addr (verts g ! i) \<in> set (addrs g)" using assms by (auto simp: addrs_def count_def)
  then obtain j where j: "id_find g (addr (verts g ! i)) = Some j"
    using id_find_None_iff by blast
  then have "j < count g" "addr (verts g ! j) = addr (verts g ! i)" using id_find_SomeD by auto
  then have "j = i" using assms by (metis addrs_def count_def nth_eq_iff_index_eq nth_map length_map)
  with j show ?thesis by simp
qed

text \<open>Ids are stable: appending vertices never moves an address.\<close>

lemma id_find_append_vertex [topology_simps]:
  "id_find (append_vertex g a) b =
     (case id_find g b of Some i \<Rightarrow> Some i | None \<Rightarrow> if a = b then Some (count g) else None)"
  by (simp add: id_find_def append_vertex_def find_from_append fresh_vertex_def count_def
      split: option.split)

lemma id_find_capacity [topology_simps]: "id_find (g\<lparr>capacity := n\<rparr>) a = id_find g a"
  by (simp add: id_find_def)

lemma find_from_update:
  "i < length xs \<Longrightarrow> addr v = addr (xs ! i) \<Longrightarrow> find_from (xs[i := v]) k a = find_from xs k a"
  by (induction xs arbitrary: i k) (auto split: nat.splits)

lemma id_find_set_row [topology_simps]: "i < count g \<Longrightarrow> id_find (set_row g i ls) a = id_find g a"
  by (simp add: id_find_def set_row_def find_from_update count_def)

subsection \<open>The interning interface\<close>

text \<open>
  What the clients of a vertex table rely on: interning an address yields its id or fails,
  keeps the table well formed and every id already given, and makes no other address known.
  \<open>ok\<close> is the outcome of the allocation the call may make.
\<close>

locale interning =
  fixes find :: "'g \<Rightarrow> 'k \<Rightarrow> nat option"
    and intern :: "bool \<Rightarrow> 'g \<Rightarrow> 'k \<Rightarrow> 'g \<times> nat option"
    and wf :: "'g \<Rightarrow> bool"
  assumes intern_wf: "wf g \<Longrightarrow> intern ok g k = (g', r) \<Longrightarrow> wf g'"
    and intern_found: "wf g \<Longrightarrow> intern ok g k = (g', Some i) \<Longrightarrow> find g' k = Some i"
    and intern_stable: "wf g \<Longrightarrow> intern ok g k = (g', r) \<Longrightarrow> find g j = Some i \<Longrightarrow> find g' j = Some i"
    and intern_only: "wf g \<Longrightarrow> intern ok g k = (g', r) \<Longrightarrow> find g' j \<noteq> None \<Longrightarrow> j = k \<or> find g j \<noteq> None"
    and intern_fail: "wf g \<Longrightarrow> intern ok g k = (g', None) \<Longrightarrow> g' = g \<and> find g k = None"
begin

fun intern_all :: "(nat \<Rightarrow> bool) \<Rightarrow> 'g \<Rightarrow> 'k list \<Rightarrow> nat \<Rightarrow> 'g \<times> bool" where
  "intern_all ok g [] i = (g, True)"
| "intern_all ok g (k # ks) i =
     (case intern (ok i) g k of
        (g', None) \<Rightarrow> (g', False)
      | (g', Some _) \<Rightarrow> intern_all ok g' ks (Suc i))"

lemma intern_all_wf: "wf g \<Longrightarrow> intern_all ok g ks i = (g', r) \<Longrightarrow> wf g'"
  by (induction ok g ks i rule: intern_all.induct)
     (auto split: prod.splits option.splits dest: intern_wf)

lemma intern_all_stable:
  "wf g \<Longrightarrow> intern_all ok g ks i = (g', r) \<Longrightarrow> find g j = Some n \<Longrightarrow> find g' j = Some n"
  by (induction ok g ks i rule: intern_all.induct)
     (auto split: prod.splits option.splits dest: intern_wf intern_stable)

lemma intern_all_only:
  "wf g \<Longrightarrow> intern_all ok g ks i = (g', r) \<Longrightarrow> find g' j \<noteq> None \<Longrightarrow> j \<in> set ks \<or> find g j \<noteq> None"
proof (induction ok g ks i rule: intern_all.induct)
  case (1 ok g i)
  then show ?case by simp
next
  case (2 ok g k ks i)
  obtain g1 q where g1: "intern (ok i) g k = (g1, q)" by fastforce
  show ?case
  proof (cases q)
    case None
    with 2 g1 show ?thesis using intern_fail by fastforce
  next
    case (Some n)
    with 2 g1 have "j \<in> set ks \<or> find g1 j \<noteq> None" using intern_wf by fastforce
    then show ?thesis using intern_only [OF 2(2) g1] by auto
  qed
qed

lemma intern_all_found:
  "wf g \<Longrightarrow> intern_all ok g ks i = (g', True) \<Longrightarrow> k \<in> set ks \<Longrightarrow> find g' k \<noteq> None"
proof (induction ok g ks i rule: intern_all.induct)
  case (1 ok g i)
  then show ?case by simp
next
  case (2 ok g k' ks i)
  obtain g1 q where g1: "intern (ok i) g k' = (g1, q)" by fastforce
  with "2.prems" obtain n where q: "q = Some n" by (cases q) auto
  have wf1: "wf g1" using intern_wf "2.prems"(1) g1 by blast
  have rest: "intern_all ok g1 ks (Suc i) = (g', True)" using 2 g1 q by simp
  show ?case
  proof (cases "k \<in> set ks")
    case True
    with "2.IH" g1 q wf1 rest show ?thesis by fastforce
  next
    case False
    with 2 have "find g1 k = Some n" using intern_found g1 q by auto
    then show ?thesis using intern_all_stable [OF wf1 rest] by auto
  qed
qed

lemma intern_all_failed:
  "wf g \<Longrightarrow> intern_all ok g ks i = (g', False) \<Longrightarrow> \<exists>k \<in> set ks. find g' k = None"
proof (induction ok g ks i rule: intern_all.induct)
  case (1 ok g i)
  then show ?case by simp
next
  case (2 ok g k ks i)
  obtain g1 q where g1: "intern (ok i) g k = (g1, q)" by fastforce
  show ?case
  proof (cases q)
    case None
    with 2 g1 show ?thesis using intern_fail by fastforce
  next
    case (Some n)
    with 2 g1 show ?thesis using intern_wf by fastforce
  qed
qed

text \<open>Interning what is already known changes nothing.\<close>

lemma intern_all_known:
  assumes "\<And>g ok k. find g k \<noteq> None \<Longrightarrow> intern ok g k = (g, find g k)"
    and "\<forall>k \<in> set ks. find g k \<noteq> None"
  shows "intern_all ok g ks i = (g, True)"
  using assms(2)
proof (induction ks arbitrary: i)
  case Nil
  then show ?case by simp
next
  case (Cons k ks)
  then obtain n where "find g k = Some n" by auto
  with assms(1) [of g k "ok i"] Cons show ?case by simp
qed

end

subsection \<open>Well-formed graphs\<close>

text \<open>
  The capacity doubles from 8 while it fits in 16 bits, so it is never above 32768, and with it
  the number of vertices.
\<close>

definition capacities :: "nat list" where
  "capacities =
     [0, 8, 16, 32, 64, 128, 256, 512, 1024, 2048, 4096, 8192, 16384, 32768]"

definition wf_table :: "graph \<Rightarrow> bool" where
  "wf_table g \<longleftrightarrow> distinct (addrs g) \<and> count g \<le> capacity g \<and> capacity g \<in> set capacities"

text \<open>Every address an advertised row names has an id, and rows not yet advertised are empty.\<close>

definition closed_rows :: "graph \<Rightarrow> bool" where
  "closed_rows g \<longleftrightarrow>
     (\<forall>v \<in> set (verts g). (\<forall>l \<in> set (links v). neighbor_mixaddr l \<in> set (addrs g))
        \<and> (\<not> advertised v \<longrightarrow> links v = []))"

definition wf_graph :: "graph \<Rightarrow> bool" where
  "wf_graph g \<longleftrightarrow> wf_table g \<and> closed_rows g"

lemma capacity_step:
  assumes "n \<in> set capacities" and "0 < n" and "n * 2 \<le> 65535"
  shows "n * 2 \<in> set capacities"
  using assms unfolding capacities_def list.set insert_iff empty_iff
  by (elim disjE) simp_all

lemma wf_table_count: "wf_table g \<Longrightarrow> count g \<le> 32768"
  unfolding wf_table_def capacities_def list.set insert_iff empty_iff
  by (elim conjE disjE) simp_all

lemma wf_empty_graph [simp]: "wf_graph empty_graph"
  by (simp add: wf_graph_def wf_table_def closed_rows_def empty_graph_def capacities_def addrs_def
      count_def)

lemma addrs_append_vertex [simp]: "addrs (append_vertex g a) = addrs g @ [a]"
  by (simp add: addrs_def append_vertex_def fresh_vertex_def)

lemma count_append_vertex [simp]: "count (append_vertex g a) = Suc (count g)"
  by (simp add: count_def append_vertex_def)

lemma capacity_append_vertex [simp]: "capacity (append_vertex g a) = capacity g"
  by (simp add: append_vertex_def)

lemma addrs_capacity [simp]: "addrs (g\<lparr>capacity := n\<rparr>) = addrs g"
  by (simp add: addrs_def)

lemma count_capacity [simp]: "count (g\<lparr>capacity := n\<rparr>) = count g"
  by (simp add: count_def)

text \<open>The three ways an id_lookup ends.\<close>

lemma id_lookup_cases:
  assumes "id_lookup ok g a = (g', r)"
  obtains (found) i where "id_find g a = Some i" "g' = g" "r = Some i"
  | (failed) "id_find g a = None" "g' = g" "r = None"
  | (added) n where "id_find g a = None" "g' = append_vertex (g\<lparr>capacity := n\<rparr>) a"
      "r = Some (count g)" "wf_table g \<longrightarrow> wf_table g'"
proof (cases "id_find g a")
  case (Some i)
  with assms have "g' = g" "r = Some i" by (simp_all add: id_lookup_def)
  with Some show thesis by (rule found)
next
  case None
  then have a: "a \<notin> set (addrs g)" by (simp add: id_find_None_iff)
  show thesis
  proof (cases "count g = capacity g")
    case full: True
    let ?cap = "if capacity g = 0 then 8 else capacity g * 2"
    show thesis
    proof (cases "?cap > 65535 \<or> \<not> ok")
      case True
      with None full have "id_lookup ok g a = (g, None)" by (auto simp: id_lookup_def Let_def)
      with assms have "g' = g" "r = None" by simp_all
      with None show thesis by (rule failed)
    next
      case False
      have "?cap \<in> set capacities" if "wf_table g"
      proof (cases "capacity g = 0")
        case True
        then show ?thesis by (simp add: capacities_def)
      next
        case False
        with \<open>\<not> (?cap > 65535 \<or> \<not> ok)\<close> that show ?thesis
          using capacity_step [of "capacity g"] by (simp add: wf_table_def)
      qed
      moreover have "id_lookup ok g a =
          (append_vertex (g\<lparr>capacity := ?cap\<rparr>) a, Some (count g))"
        using False None full by (simp add: id_lookup_def Let_def)
      moreover have "wf_table g \<Longrightarrow> Suc (count g) \<le> ?cap" using full by simp
      ultimately have "g' = append_vertex (g\<lparr>capacity := ?cap\<rparr>) a" "r = Some (count g)"
        "wf_table g \<longrightarrow> wf_table g'"
        using assms a by (auto simp: wf_table_def)
      with None show thesis by (rule added)
    qed
  next
    case False
    have "g\<lparr>capacity := capacity g\<rparr> = g" by simp
    moreover have "id_lookup ok g a = (append_vertex g a, Some (count g))"
      using False None by (simp add: id_lookup_def)
    ultimately have "g' = append_vertex (g\<lparr>capacity := capacity g\<rparr>) a" "r = Some (count g)"
      "wf_table g \<longrightarrow> wf_table g'"
      using assms a False by (auto simp: wf_table_def)
    with None show thesis by (rule added)
  qed
qed

interpretation ix: interning id_find id_lookup wf_table
proof unfold_locales
  fix ok g k g' r i j
  show "wf_table g'" if "wf_table g" "id_lookup ok g k = (g', r)"
    using that by (elim id_lookup_cases) auto
  show "id_find g' k = Some i" if "wf_table g" "id_lookup ok g k = (g', Some i)"
    using that by (elim id_lookup_cases) (auto simp: topology_simps)
  show "id_find g' j = Some i" if "wf_table g" "id_lookup ok g k = (g', r)" "id_find g j = Some i"
    using that by (elim id_lookup_cases) (auto simp: topology_simps)
  show "j = k \<or> id_find g j \<noteq> None"
    if "wf_table g" "id_lookup ok g k = (g', r)" "id_find g' j \<noteq> None"
    using that by (elim id_lookup_cases) (auto simp: topology_simps split: if_splits option.splits)
  show "g' = g \<and> id_find g k = None" if "wf_table g" "id_lookup ok g k = (g', None)"
    using that by (elim id_lookup_cases) auto
qed

lemma intern_links_eq:
  "intern_links ok g ls i = ix.intern_all ok g (map neighbor_mixaddr ls) i"
  by (induction ok g ls i rule: intern_links.induct)
     (auto simp: ix.intern_all.simps split: prod.splits option.splits)

lemma closed_rows_id_lookup:
  "closed_rows g \<Longrightarrow> id_lookup ok g a = (g', r) \<Longrightarrow> closed_rows g'"
  by (erule id_lookup_cases)
     (auto simp: closed_rows_def append_vertex_def fresh_vertex_def addrs_def)

lemma wf_graph_id_lookup: "wf_graph g \<Longrightarrow> id_lookup ok g a = (g', r) \<Longrightarrow> wf_graph g'"
  using closed_rows_id_lookup ix.intern_wf by (auto simp: wf_graph_def)

lemma wf_graph_intern_links:
  "wf_graph g \<Longrightarrow> intern_links ok g ls i = (g', r) \<Longrightarrow> wf_graph g'"
  by (induction ok g ls i rule: intern_links.induct)
     (auto split: prod.splits option.splits dest: wf_graph_id_lookup)

subsection \<open>What the topology denotes\<close>

text \<open>
  The abstract view: for each address, the links it last advertised. Vertices that were only
  named in somebody else's list do not show.
\<close>

definition rows :: "graph \<Rightarrow> mixnet_address \<Rightarrow> mixnet_lsa_link_params list option" where
  "rows g a =
     (case id_find g a of
        None \<Rightarrow> None
      | Some i \<Rightarrow> if advertised (verts g ! i) then Some (links (verts g ! i)) else None)"

lemma rows_id_lookup:
  assumes "id_lookup ok g a = (g', r)"
  shows "rows g' = rows g"
  using assms
proof (cases rule: id_lookup_cases)
  case (added n)
  show ?thesis
  proof
    fix b
    show "rows g' b = rows g b"
    proof (cases "id_find g b")
      case None
      then show ?thesis
        by (simp add: added rows_def topology_simps)
           (simp add: append_vertex_def fresh_vertex_def count_def)
    next
      case (Some i)
      then have "i < length (verts g)" using id_find_SomeD count_def by metis
      with Some show ?thesis
        by (simp add: added rows_def topology_simps) (simp add: append_vertex_def nth_append)
    qed
  qed
qed simp_all

lemma rows_intern_links: "intern_links ok g ls i = (g', r) \<Longrightarrow> rows g' = rows g"
  by (induction ok g ls i rule: intern_links.induct)
     (auto split: prod.splits option.splits dest: rows_id_lookup)

lemma rows_set_row:
  assumes wf: "wf_table g" and i: "id_find g a = Some i"
  shows "rows (set_row g i ls) = (rows g)(a \<mapsto> ls)"
proof
  fix b
  have lt: "i < count g" using id_find_SomeD [OF i] by simp
  show "rows (set_row g i ls) b = ((rows g)(a \<mapsto> ls)) b"
  proof (cases "b = a")
    case True
    with lt i show ?thesis
      by (simp add: rows_def topology_simps) (simp add: set_row_def count_def)
  next
    case False
    have "j \<noteq> i" if "id_find g b = Some j" for j
      using that i False id_find_SomeD by metis
    with lt False show ?thesis
      by (auto simp: rows_def topology_simps split: option.splits) (auto simp: set_row_def)
  qed
qed

lemma row_unchanged_iff:
  "row_unchanged row ls \<longleftrightarrow> advertised row \<and> links row = ls"
  by (auto simp: row_unchanged_def memcmp_links)

lemma wf_graph_set_row:
  assumes "wf_graph g" and "i < count g"
    and "\<forall>l \<in> set ls. neighbor_mixaddr l \<in> set (addrs g)"
  shows "wf_graph (set_row g i ls)"
proof -
  have a: "addrs (set_row g i ls) = addrs g"
    using assms(2) by (auto simp: addrs_def set_row_def count_def map_update
        intro!: nth_equalityI simp: nth_list_update)
  moreover have "count (set_row g i ls) = count g" "capacity (set_row g i ls) = capacity g"
    by (simp_all add: count_def set_row_def)
  moreover have "closed_rows (set_row g i ls)"
    using assms unfolding closed_rows_def a wf_graph_def
    by (auto simp: set_row_def dest!: set_update_subset_insert [THEN subsetD])
  ultimately show ?thesis using assms(1) by (simp add: wf_graph_def wf_table_def)
qed

text \<open>The ways a graph_update ends, with what each leaves.\<close>

lemma graph_update_cases:
  assumes wf: "wf_graph g" and upd: "graph_update ok g origin ls = (g', ch)"
  obtains (failed) "\<not> ch" "rows g' = rows g" "wf_graph g'"
  | (same) "\<not> ch" "rows g' = rows g" "wf_graph g'" "rows g origin = Some ls"
  | (changed) "ch" "rows g' = (rows g)(origin \<mapsto> ls)" "wf_graph g'" "rows g origin \<noteq> Some ls"
proof -
  obtain g1 b1 where g1: "intern_links (\<lambda>i. ok (Grow_Graph i)) g ls 0 = (g1, b1)" by fastforce
  have wf1: "wf_graph g1" and r1: "rows g1 = rows g"
    using wf_graph_intern_links [OF wf g1] rows_intern_links [OF g1] by auto
  obtain g2 r where g2: "id_lookup (ok (Grow_Graph (length ls))) g1 origin = (g2, r)" by fastforce
  have wf2: "wf_graph g2" and r2: "rows g2 = rows g"
    using wf_graph_id_lookup [OF wf1 g2] rows_id_lookup [OF g2] r1 by auto
  show thesis
  proof (cases "b1 \<and> r \<noteq> None")
    case False
    then have "\<not> ch \<and> (g' = g1 \<or> g' = g2)"
      using upd g1 g2 by (auto simp: graph_update_def split: bool.splits option.splits)
    then show thesis using failed wf1 wf2 r1 r2 by metis
  next
    case True
    then obtain i where i: "r = Some i" and b1: "b1" by auto
    have found: "id_find g2 origin = Some i"
      using ix.intern_found wf1 g2 i by (auto simp: wf_graph_def)
    then have same_iff: "row_unchanged (verts g2 ! i) ls \<longleftrightarrow> rows g origin = Some ls"
      by (simp add: row_unchanged_iff r2 [symmetric] rows_def)
    have known: "\<forall>l \<in> set ls. neighbor_mixaddr l \<in> set (addrs g2)"
    proof
      fix l assume "l \<in> set ls"
      then have "id_find g1 (neighbor_mixaddr l) \<noteq> None"
        using ix.intern_all_found wf g1 b1 by (auto simp: intern_links_eq wf_graph_def)
      then have "id_find g2 (neighbor_mixaddr l) \<noteq> None"
        using ix.intern_stable wf1 g2 by (fastforce simp: wf_graph_def)
      then show "neighbor_mixaddr l \<in> set (addrs g2)" using id_find_None_iff by metis
    qed
    have upd': "(g', ch) =
        (if row_unchanged (verts g2 ! i) ls then (g2, False)
         else if length ls > 0 \<and> \<not> ok Copy_Links then (g2, False)
         else (set_row g2 i ls, True))"
      using upd g1 g2 i b1 by (simp add: graph_update_def)
    show thesis
    proof (cases "row_unchanged (verts g2 ! i) ls")
      case True
      with upd' r2 wf2 same_iff show thesis by (intro same) auto
    next
      case unequal: False
      show thesis
      proof (cases "length ls > 0 \<and> \<not> ok Copy_Links")
        case True
        with upd' unequal r2 wf2 show thesis by (intro failed) auto
      next
        case False
        with upd' unequal have "g' = set_row g2 i ls" "ch" by auto
        moreover have "i < count g2" using id_find_SomeD found by blast
        ultimately show thesis
          using unequal same_iff rows_set_row [OF _ found] wf_graph_set_row [OF wf2 _ known] wf2 r2
          by (intro changed) (auto simp: wf_graph_def)
      qed
    qed
  qed
qed

lemma graph_update_stable:
  assumes wf: "wf_graph g" and upd: "graph_update ok g origin ls = (g', ch)"
    and a: "id_find g a = Some i"
  shows "id_find g' a = Some i"
proof -
  obtain g1 b1 where g1: "intern_links (\<lambda>i. ok (Grow_Graph i)) g ls 0 = (g1, b1)" by fastforce
  have wf1: "wf_graph g1" and a1: "id_find g1 a = Some i"
    using wf_graph_intern_links [OF wf g1] wf g1 a ix.intern_all_stable
    by (auto simp: wf_graph_def intern_links_eq)
  obtain g2 r where g2: "id_lookup (ok (Grow_Graph (length ls))) g1 origin = (g2, r)" by fastforce
  have a2: "id_find g2 a = Some i" using ix.intern_stable wf1 g2 a1 by (auto simp: wf_graph_def)
  have "j < count g2" if "r = Some j" for j
    using ix.intern_found wf1 g2 that id_find_SomeD by (fastforce simp: wf_graph_def)
  then show ?thesis
    using upd g1 g2 a1 a2
    by (auto simp: graph_update_def topology_simps split: bool.splits option.splits if_splits)
qed

text \<open>A table with room below the 16-bit capacity limit grows when realloc succeeds.\<close>

lemma id_lookup_room:
  assumes wf: "wf_table g" and lt: "count g < 32768"
  shows "\<exists>g' i. id_lookup True g a = (g', Some i)"
proof (cases "id_find g a = None \<and> count g = capacity g")
  case True
  have "(if capacity g = 0 then 8 else capacity g * 2) \<le> 65535" using True lt by simp
  then show ?thesis using True by (simp add: id_lookup_def Let_def not_less [symmetric])
next
  case False
  then show ?thesis by (auto simp: id_lookup_def split: option.splits)
qed

lemma count_less_card:
  assumes "distinct (addrs g)" and "finite A" and "set (addrs g) \<subseteq> A" and "a \<in> A"
    and "a \<notin> set (addrs g)"
  shows "count g < card A"
proof -
  have "count g = card (set (addrs g))"
    using distinct_card [OF assms(1)] by (simp add: addrs_def count_def)
  also have "\<dots> < card A" using assms by (intro psubset_card_mono) auto
  finally show ?thesis .
qed

lemma intern_links_room:
  assumes "wf_table g" and "finite A" and "card A \<le> 32768" and "set (addrs g) \<subseteq> A"
    and "\<forall>l \<in> set ls. neighbor_mixaddr l \<in> A" and "\<forall>i. ok i"
  shows "\<exists>g'. intern_links ok g ls i = (g', True) \<and> wf_table g' \<and> set (addrs g') \<subseteq> A"
  using assms(1,4,5)
proof (induction ls arbitrary: g i)
  case Nil
  then show ?case by simp
next
  case (Cons l ls)
  let ?a = "neighbor_mixaddr l"
  obtain g1 r where g1: "id_lookup True g ?a = (g1, r)" by fastforce
  have "r \<noteq> None \<and> wf_table g1 \<and> set (addrs g1) \<subseteq> A"
    using g1
  proof (cases rule: id_lookup_cases)
    case failed
    then have "count g < card A"
      using Cons.prems assms(2) by (intro count_less_card) (auto simp: wf_table_def id_find_None_iff)
    then show ?thesis using id_lookup_room [of g ?a] Cons.prems(1) assms(3) g1 failed by auto
  qed (use Cons.prems in auto)
  with g1 Cons.prems Cons.IH [of g1 "Suc i"] assms(6) show ?case by auto
qed

subsection \<open>Properties\<close>

text \<open>A two-node table in which the second node was only named by the first.\<close>

definition example_graph :: graph where
  "example_graph =
     \<lparr>verts = [\<lparr>addr = 1, advertised = True,
                links = [\<lparr>neighbor_mixaddr = 2, cost = 5\<rparr>]\<rparr>,
               \<lparr>addr = 2, advertised = False, links = []\<rparr>],
      capacity = 8\<rparr>"

lemma wf_example_graph: "wf_graph example_graph"
  by (simp add: wf_graph_def wf_table_def closed_rows_def example_graph_def capacities_def
      addrs_def count_def)

lemma graph_update_room:
  assumes "wf_graph g" and "\<forall>s. ok s"
    and "card (set (addrs g) \<union> neighbor_mixaddr ` set ls \<union> {origin}) \<le> 32768"
  shows "rows (fst (graph_update ok g origin ls)) = (rows g)(origin \<mapsto> ls)"
proof -
  let ?A = "set (addrs g) \<union> neighbor_mixaddr ` set ls \<union> {origin}"
  obtain g1 where g1: "intern_links (\<lambda>i. ok (Grow_Graph i)) g ls 0 = (g1, True)"
    and wf1: "wf_table g1" and sub: "set (addrs g1) \<subseteq> ?A"
    using intern_links_room [of g ?A ls "\<lambda>i. ok (Grow_Graph i)" 0] assms
    by (auto simp: wf_graph_def)
  have "intern_links (\<lambda>i. ok (Grow_Graph i)) g1
      [\<lparr>neighbor_mixaddr = origin, cost = 0\<rparr>] 0 \<noteq> (g', False)" for g'
    using intern_links_room [OF wf1, of ?A "[\<lparr>neighbor_mixaddr = origin, cost = 0\<rparr>]"
        "\<lambda>i. ok (Grow_Graph i)" 0] sub assms by auto
  then obtain g2 i where g2: "id_lookup (ok (Grow_Graph (length ls))) g1 origin = (g2, Some i)"
    using assms(2) by (fastforce split: prod.splits option.splits)
  obtain g' ch where upd: "graph_update ok g origin ls = (g', ch)" by fastforce
  have "rows g' = (rows g)(origin \<mapsto> ls)"
  proof (cases "row_unchanged (verts g2 ! i) ls")
    case True
    have "rows g2 origin = Some ls"
      using True ix.intern_found [OF wf1 g2] by (simp add: rows_def row_unchanged_iff)
    moreover have "g' = g2" using upd g1 g2 True by (simp add: graph_update_def)
    moreover have "rows g2 = rows g"
      using rows_id_lookup [OF g2] rows_intern_links [OF g1] by simp
    ultimately show ?thesis by (metis fun_upd_triv)
  next
    case False
    then have "ch" using upd g1 g2 assms(2) by (simp add: graph_update_def)
    with assms(1) upd show ?thesis by (auto elim: graph_update_cases)
  qed
  then show ?thesis by (simp add: upd)
qed

text \<open>When exactly \<open>graph_update\<close> installs the row, and which addresses get an id.\<close>

lemma graph_update_outcome:
  assumes wf: "wf_graph g" and upd: "graph_update ok g origin ls = (g', ch)"
  shows "ch \<longleftrightarrow> rows g origin \<noteq> Some ls \<and> (ls = [] \<or> ok Copy_Links) \<and>
      (\<forall>a \<in> insert origin (neighbor_mixaddr ` set ls). id_find g' a \<noteq> None)"
    and "id_find g' a \<noteq> None \<Longrightarrow> a \<in> insert origin (neighbor_mixaddr ` set ls) \<or> id_find g a \<noteq> None"
proof -
  obtain g1 b1 where g1: "intern_links (\<lambda>i. ok (Grow_Graph i)) g ls 0 = (g1, b1)" by fastforce
  then have all: "ix.intern_all (\<lambda>i. ok (Grow_Graph i)) g (map neighbor_mixaddr ls) 0 = (g1, b1)"
    by (simp add: intern_links_eq)
  have wf0: "wf_table g" and wf1: "wf_table g1" and r1: "rows g1 = rows g"
    using wf wf_graph_intern_links [OF wf g1] rows_intern_links [OF g1] by (auto simp: wf_graph_def)
  obtain g2 r where g2: "id_lookup (ok (Grow_Graph (length ls))) g1 origin = (g2, r)" by fastforce
  have r2: "rows g2 = rows g" using rows_id_lookup [OF g2] r1 by simp
  have only: "a \<in> insert origin (neighbor_mixaddr ` set ls) \<or> id_find g a \<noteq> None"
    if "id_find g1 a \<noteq> None \<or> id_find g2 a \<noteq> None" for a
    using that ix.intern_only [OF wf1 g2, of a] ix.intern_all_only [OF wf0 all, of a] by auto
  show "(ch \<longleftrightarrow> rows g origin \<noteq> Some ls \<and> (ls = [] \<or> ok Copy_Links) \<and>
      (\<forall>a \<in> insert origin (neighbor_mixaddr ` set ls). id_find g' a \<noteq> None))"
    and "id_find g' a \<noteq> None \<Longrightarrow> a \<in> insert origin (neighbor_mixaddr ` set ls) \<or> id_find g a \<noteq> None"
  proof (atomize (full), cases b1)
    case False
    then have "g' = g1" "\<not> ch" using upd g1 by (simp_all add: graph_update_def)
    moreover obtain l where "l \<in> set ls" "id_find g1 (neighbor_mixaddr l) = None"
      using ix.intern_all_failed [OF wf0, of "\<lambda>i. ok (Grow_Graph i)" "map neighbor_mixaddr ls" 0 g1] all False
      by auto
    ultimately show "(ch = (rows g origin \<noteq> Some ls \<and> (ls = [] \<or> ok Copy_Links) \<and>
          (\<forall>a \<in> insert origin (neighbor_mixaddr ` set ls). id_find g' a \<noteq> None))) \<and>
        (id_find g' a \<noteq> None \<longrightarrow> a \<in> insert origin (neighbor_mixaddr ` set ls) \<or> id_find g a \<noteq> None)"
      using only by auto
  next
    case b1: True
    show "(ch = (rows g origin \<noteq> Some ls \<and> (ls = [] \<or> ok Copy_Links) \<and>
          (\<forall>a \<in> insert origin (neighbor_mixaddr ` set ls). id_find g' a \<noteq> None))) \<and>
        (id_find g' a \<noteq> None \<longrightarrow> a \<in> insert origin (neighbor_mixaddr ` set ls) \<or> id_find g a \<noteq> None)"
    proof (cases r)
      case None
      then have "g' = g2" "\<not> ch" using upd g1 g2 b1 by (simp_all add: graph_update_def)
      moreover have "id_find g2 origin = None" using ix.intern_fail [OF wf1] g2 None by blast
      ultimately show ?thesis using only by auto
    next
      case (Some i)
      have at: "id_find g2 origin = Some i" using ix.intern_found [OF wf1] g2 Some by blast
      then have i: "i < count g2" using id_find_SomeD by blast
      have same: "row_unchanged (verts g2 ! i) ls \<longleftrightarrow> rows g origin = Some ls"
        by (simp add: row_unchanged_iff r2 [symmetric] rows_def at)
      have "id_find g1 (neighbor_mixaddr l) \<noteq> None" if "l \<in> set ls" for l
        using ix.intern_all_found [OF wf0] all b1 that by auto
      then have known: "\<forall>a \<in> insert origin (neighbor_mixaddr ` set ls). id_find g2 a \<noteq> None"
        using ix.intern_stable [OF wf1 g2] at by fastforce
      have "(g', ch) = (if row_unchanged (verts g2 ! i) ls then (g2, False)
           else if length ls > 0 \<and> \<not> ok Copy_Links then (g2, False) else (set_row g2 i ls, True))"
        using upd g1 g2 b1 Some by (simp add: graph_update_def)
      moreover from this have "id_find g' b = id_find g2 b" for b
        using i by (auto simp: topology_simps split: if_splits)
      ultimately show ?thesis using same known only by (auto split: if_splits)
    qed
  qed
qed

text \<open>
  C9. \<open>graph_update\<close> implements replacement of one row of the map from addresses to advertised
  links, on every path, failed allocations included. The row is installed, whole, and a change
  reported, exactly when it differs from the row the origin had (none, if it never advertised),
  every address it names could be given an id and memory for the links was there; otherwise all
  rows stay. It does succeed when every allocation does and the network has at most 32768
  addresses. On every path the graph stays well formed, ids already given never move, and no
  address gets one that the advertisement does not name.
\<close>

theorem graph_update_refines:
  assumes "wf_graph g" and "graph_update ok g origin ls = (g', ch)"
  shows "rows g' = (if ch then (rows g)(origin \<mapsto> ls) else rows g)
    \<and> (ch \<longleftrightarrow> rows g origin \<noteq> Some ls \<and> (ls = [] \<or> ok Copy_Links) \<and>
         (\<forall>a \<in> insert origin (neighbor_mixaddr ` set ls). id_find g' a \<noteq> None))
    \<and> ((\<forall>x. ok x) \<and> card (set (addrs g) \<union> neighbor_mixaddr ` set ls \<union> {origin}) \<le> 32768 \<longrightarrow>
         rows g' = (rows g)(origin \<mapsto> ls))
    \<and> wf_graph g' \<and> (\<forall>a i. id_find g a = Some i \<longrightarrow> id_find g' a = Some i)
    \<and> (\<forall>a. id_find g' a \<noteq> None \<longrightarrow>
         a \<in> insert origin (neighbor_mixaddr ` set ls) \<or> id_find g a \<noteq> None)"
proof -
  have "rows g' = (if ch then (rows g)(origin \<mapsto> ls) else rows g) \<and> wf_graph g'"
    using assms by (cases rule: graph_update_cases) simp_all
  moreover have "rows g' = (rows g)(origin \<mapsto> ls)"
    if "\<forall>x. ok x" "card (set (addrs g) \<union> neighbor_mixaddr ` set ls \<union> {origin}) \<le> 32768"
    using graph_update_room [OF assms(1) that] by (simp add: assms(2))
  ultimately show ?thesis
    using graph_update_stable [OF assms] graph_update_outcome [OF assms] by blast
qed

theorem graph_update_refines_witness:
  "rows (fst (graph_update (\<lambda>_. True) example_graph 2 [\<lparr>neighbor_mixaddr = 3, cost = 7\<rparr>]))
     = (rows example_graph)(2 \<mapsto> [\<lparr>neighbor_mixaddr = 3, cost = 7\<rparr>])
   \<and> snd (graph_update (\<lambda>_. True) example_graph 2 [\<lparr>neighbor_mixaddr = 3, cost = 7\<rparr>])"
proof -
  let ?u = "graph_update (\<lambda>_. True) example_graph 2 [\<lparr>neighbor_mixaddr = 3, cost = 7\<rparr>]"
  have "card (set (addrs example_graph) \<union> neighbor_mixaddr ` set [\<lparr>neighbor_mixaddr = 3, cost = 7\<rparr>] \<union> {2}) \<le> 32768"
    by (simp add: example_graph_def addrs_def card_insert_if)
  moreover have "rows example_graph 2 = None" by code_simp
  ultimately show ?thesis
    using graph_update_refines [OF wf_example_graph surjective_pairing,
        of "\<lambda>_. True" 2 "[\<lparr>neighbor_mixaddr = 3, cost = 7\<rparr>]"]
    by (metis fun_upd_same option.distinct(1))
qed

text \<open>
  The vertex table has a hard limit: with 32768 vertices the next capacity does not fit in
  16 bits, so a new address is refused even when memory is available. (The comment on
  \<open>id_lookup\<close> names running out of memory as the only failure.)
\<close>

theorem id_lookup_limit:
  assumes "count g = capacity g" and "32768 \<le> capacity g" and "id_find g a = None"
  shows "id_lookup True g a = (g, None)"
  using assms by (simp add: id_lookup_def Let_def)

theorem id_lookup_limit_witness:
  "id_lookup True \<lparr>verts = replicate 32768 (fresh_vertex 1), capacity = 32768\<rparr> 2
   = (\<lparr>verts = replicate 32768 (fresh_vertex 1), capacity = 32768\<rparr>, None)"
  by (rule id_lookup_limit) (simp_all add: count_def id_find_None_iff addrs_def fresh_vertex_def)

end
