(* ===== verification/Node_State.thy ===== *)
theory Node_State
  imports Topology
begin

text \<open>
  The configuration (\<open>mixnet/config.h\<close>) and the protocol state (\<open>struct node_state\<close> of
  \<open>mixnet/node.c\<close>) of one node, its creation and destruction, the packets it builds about itself
  and the two broadcasts every protocol part uses. Arrays the node allocates itself are lists
  with one entry per port; their lengths are part of the invariant \<open>wf_state\<close>. A uint8_t port is
  a byte, and the user port is \<open>num_neighbors\<close> cut to a byte, as the code casts it.
\<close>

named_theorems state_simps \<open>how the state operations change the fields\<close>

subsection \<open>Data\<close>

record mixnet_node_config =
  node_addr :: mixnet_address
  num_neighbors :: u16
  root_hello_interval_ms :: u32
  reelection_interval_ms :: u32
  do_random_routing :: bool
  mixing_factor :: u16
  link_costs :: "u16 list"

text \<open>\<open>route_len\<close> is the length of the route.\<close>

record fib_entry =
  reachable :: bool
  route :: "mixnet_address list"

record mix_slot =
  slot_port :: byte
  slot_packet :: buf

text \<open>
  \<open>mix\<close> holds the \<open>mix_count\<close> occupied slots, oldest first; \<open>None\<close> is the NULL of a node that
  does not mix. \<open>fib\<close> holds \<open>fib_count\<close> entries.
\<close>

record node_state =
  root :: mixnet_address
  path_len :: u16
  next_hop :: mixnet_address
  neighbor_addr :: "mixnet_address list"
  blocked :: "bool list"
  hello_start_ms :: u64
  reelection_start_ms :: u64
  topology :: graph
  lsa_start_ms :: u64
  fib :: "fib_entry list"
  mix :: "mix_slot list option"

abbreviation ports :: "mixnet_node_config \<Rightarrow> nat" where
  "ports c \<equiv> unat (num_neighbors c)"

definition user_port :: "mixnet_node_config \<Rightarrow> byte" where
  "user_port c = ucast (num_neighbors c)"

subsection \<open>Lookup and small updates\<close>

text \<open>Reverse lookup: neighbor address to port; \<open>None\<close> is -1.\<close>

definition port_of :: "mixnet_node_config \<Rightarrow> node_state \<Rightarrow> mixnet_address \<Rightarrow> nat option" where
  "port_of c s a =
     (if a = INVALID_MIXADDR then None
      else find (\<lambda>p. neighbor_addr s ! p = a) [0..<ports c])"

definition unblock_all :: "mixnet_node_config \<Rightarrow> node_state \<Rightarrow> node_state" where
  "unblock_all c s = s\<lparr>blocked := replicate (ports c) False\<rparr>"

definition become_root :: "mixnet_node_config \<Rightarrow> node_state \<Rightarrow> node_state" where
  "become_root c s = s\<lparr>root := node_addr c, path_len := 0, next_hop := INVALID_MIXADDR\<rparr>"

text \<open>
  \<open>state_init\<close>, with the three clock readings it takes. malloc(0) may return NULL, which is no
  failure; \<open>None\<close> is the result false. The srand call only seeds libc: \<open>rnd\<close> of an \<open>env\<close> is
  arbitrary.
\<close>

definition state_init ::
  "(site \<Rightarrow> bool) \<Rightarrow> u64 \<Rightarrow> u64 \<Rightarrow> u64 \<Rightarrow> mixnet_node_config \<Rightarrow> node_state option" where
  "state_init ok t_hello t_reelection t_lsa c =
     (if ports c > 0 \<and> (\<not> ok Init_Neighbors \<or> \<not> ok Init_Blocked) then None
      else if 1 < unat (mixing_factor c) \<and> \<not> ok Init_Mix then None
      else Some
        \<lparr>root = node_addr c, path_len = 0, next_hop = INVALID_MIXADDR,
         neighbor_addr = replicate (ports c) INVALID_MIXADDR,
         blocked = replicate (ports c) False,
         hello_start_ms = t_hello, reelection_start_ms = t_reelection,
         topology = empty_graph, lsa_start_ms = t_lsa, fib = [],
         mix = (if 1 < unat (mixing_factor c) then Some [] else None)\<rparr>)"

text \<open>\<open>state_free\<close>: the packets still held are freed, and every array is released.\<close>

definition state_free :: "node_state \<Rightarrow> node_state \<times> ev list" where
  "state_free s =
     (s\<lparr>neighbor_addr := [], blocked := [], mix := None, fib := [], topology := empty_graph\<rparr>,
      map (\<lambda>m. Free (slot_packet m)) (case mix s of None \<Rightarrow> [] | Some q \<Rightarrow> q))"

subsection \<open>Packets about the node itself\<close>

definition make_stp_packet ::
  "env \<Rightarrow> bool \<Rightarrow> mixnet_node_config \<Rightarrow> node_state \<Rightarrow> buf option" where
  "make_stp_packet e ok c s =
     (if \<not> ok then None
      else
        (let b0 = malloc_block e STP_PACKET_SIZE;
             b1 = wr16 b0 off_total_size (of_nat STP_PACKET_SIZE);
             b2 = wr16 b1 off_type (type_code PACKET_TYPE_STP);
             b3 = wr16 b2 off_stp_root (root s);
             b4 = wr16 b3 off_stp_path_length (path_len s)
         in Some (wr16 b4 off_stp_node (node_addr c))))"

definition write_link ::
  "mixnet_node_config \<Rightarrow> node_state \<Rightarrow> buf \<Rightarrow> nat \<Rightarrow> buf" where
  "write_link c s b p =
     wr16 (wr16 b (off_lsa_link p) (neighbor_addr s ! p)) (off_lsa_link p + 2) (link_costs c ! p)"

definition make_lsa_packet ::
  "env \<Rightarrow> bool \<Rightarrow> mixnet_node_config \<Rightarrow> node_state \<Rightarrow> buf option" where
  "make_lsa_packet e ok c s =
     (if \<not> ok then None
      else
        (let size = LSA_PACKET_SIZE (ports c);
             b0 = malloc_block e size;
             b1 = wr16 b0 off_total_size (of_nat size);
             b2 = wr16 b1 off_type (type_code PACKET_TYPE_LSA);
             b3 = wr16 b2 off_lsa_node (node_addr c);
             b4 = wr16 b3 off_lsa_count (num_neighbors c)
         in Some (foldl (write_link c s) b4 [0..<ports c])))"

subsection \<open>Broadcasts\<close>

text \<open>\<open>send_packet\<close> gives the block to the framework; the event says on which port.\<close>

definition send_packet :: "nat \<Rightarrow> buf \<Rightarrow> ev list" where
  "send_packet p b = [Send (of_nat p) b]"

text \<open>\<open>except_port\<close> is an int, -1 for none.\<close>

definition broadcast_stp ::
  "env \<Rightarrow> mixnet_node_config \<Rightarrow> node_state \<Rightarrow> int \<Rightarrow> ev list" where
  "broadcast_stp e c s except_port =
     concat (map (\<lambda>p.
       if int p = except_port then []
       else (case make_stp_packet e (alloc e (Stp_Packet p)) c s of
               None \<Rightarrow> []
             | Some b \<Rightarrow> Alloc b # send_packet p b)) [0..<ports c])"

text \<open>The loop of \<open>broadcast_on_tree\<close> over the ports that remain.\<close>

fun tree_loop ::
  "env \<Rightarrow> node_state \<Rightarrow> int \<Rightarrow> buf \<Rightarrow> nat list \<Rightarrow> ev list option" where
  "tree_loop e s except_port b [] = Some []"
| "tree_loop e s except_port b (p # ps) =
     (if int p = except_port \<or> blocked s ! p then tree_loop e s except_port b ps
      else do {
        copy \<leftarrow> clone_packet (alloc e (Clone_Packet p)) b;
        evs \<leftarrow> tree_loop e s except_port b ps;
        Some ((case copy of None \<Rightarrow> [] | Some x \<Rightarrow> Alloc x # send_packet p x) @ evs) })"

definition broadcast_on_tree ::
  "env \<Rightarrow> mixnet_node_config \<Rightarrow> node_state \<Rightarrow> int \<Rightarrow> buf \<Rightarrow> ev list option" where
  "broadcast_on_tree e c s except_port b = tree_loop e s except_port b [0..<ports c]"

subsection \<open>The shape of a node\<close>

definition wf_config :: "mixnet_node_config \<Rightarrow> bool" where
  "wf_config c \<longleftrightarrow> length (link_costs c) = ports c \<and> node_addr c \<noteq> INVALID_MIXADDR"

definition wf_mix :: "mixnet_node_config \<Rightarrow> node_state \<Rightarrow> bool" where
  "wf_mix c s \<longleftrightarrow>
     (case mix s of
        None \<Rightarrow> unat (mixing_factor c) \<le> 1
      | Some q \<Rightarrow> 1 < unat (mixing_factor c) \<and> length q < unat (mixing_factor c))"

definition wf_state :: "mixnet_node_config \<Rightarrow> node_state \<Rightarrow> bool" where
  "wf_state c s \<longleftrightarrow>
     length (neighbor_addr s) = ports c \<and> length (blocked s) = ports c
     \<and> wf_graph (topology s) \<and> length (fib s) \<le> count (topology s) \<and> wf_mix c s"

lemma wf_stateD:
  assumes "wf_state c s"
  shows "length (neighbor_addr s) = ports c" "length (blocked s) = ports c"
    "wf_graph (topology s)" "length (fib s) \<le> count (topology s)" "wf_mix c s"
  using assms by (simp_all add: wf_state_def)

lemma wf_state_init: "state_init ok t1 t2 t3 c = Some s \<Longrightarrow> wf_state c s"
  by (auto simp: state_init_def wf_state_def wf_mix_def split: if_splits)

subsection \<open>Facts\<close>

lemma ports_less: "ports c < 65536"
  by (rule unat_u16_less)

lemma port_of_SomeD:
  assumes "port_of c s a = Some p"
  shows "p < ports c \<and> neighbor_addr s ! p = a \<and> a \<noteq> INVALID_MIXADDR"
  using assms by (auto simp: port_of_def find_Some_iff split: if_splits)

lemma port_of_None_iff:
  "port_of c s a = None \<longleftrightarrow> a = INVALID_MIXADDR \<or> (\<forall>p < ports c. neighbor_addr s ! p \<noteq> a)"
  by (auto simp: port_of_def find_None_iff)

lemma port_of_cong: "neighbor_addr s = neighbor_addr s' \<Longrightarrow> port_of c s a = port_of c s' a"
  by (simp add: port_of_def)

text \<open>The bid an STP packet carries.\<close>

lemma make_stp_packet_fields:
  assumes "make_stp_packet e ok c s = Some b"
  shows "length b = 18" "pkt_total_size b = 18" "pkt_type b = type_code PACKET_TYPE_STP"
    "rd16 b off_stp_root = root s" "rd16 b off_stp_path_length = path_len s"
    "rd16 b off_stp_node = node_addr c"
  using assms
  by (auto simp: make_stp_packet_def Let_def pkt_total_size_def pkt_type_def split: if_splits)

lemma write_link_effect:
  assumes "20 + 4 * p \<le> length b"
  shows "length (write_link c s b p) = length b"
    "rd16 (write_link c s b p) (16 + 4 * p) = neighbor_addr s ! p"
    "rd16 (write_link c s b p) (18 + 4 * p) = link_costs c ! p"
    "off + 2 \<le> 16 + 4 * p \<Longrightarrow> rd16 (write_link c s b p) off = rd16 b off"
  using assms by (simp_all add: write_link_def add.commute)

lemma write_links_effect:
  assumes "16 + 4 * n \<le> length b"
  shows "length (foldl (write_link c s) b [0..<n]) = length b \<and>
    (\<forall>off. off + 2 \<le> 16 \<longrightarrow> rd16 (foldl (write_link c s) b [0..<n]) off = rd16 b off) \<and>
    (\<forall>k < n. rd16 (foldl (write_link c s) b [0..<n]) (16 + 4 * k) = neighbor_addr s ! k \<and>
             rd16 (foldl (write_link c s) b [0..<n]) (18 + 4 * k) = link_costs c ! k)"
  using assms
proof (induction n)
  case 0
  then show ?case by simp
next
  case (Suc n)
  let ?b = "foldl (write_link c s) b [0..<n]"
  have IH: "length ?b = length b" "\<forall>off. off + 2 \<le> 16 \<longrightarrow> rd16 ?b off = rd16 b off"
    "\<forall>k < n. rd16 ?b (16 + 4 * k) = neighbor_addr s ! k \<and> rd16 ?b (18 + 4 * k) = link_costs c ! k"
    using Suc by auto
  have "20 + 4 * n \<le> length ?b" using Suc.prems IH(1) by simp
  note w = write_link_effect [OF this, where c = c and s = s]
  show ?case using IH w by (auto simp: less_Suc_eq)
qed

definition own_links :: "mixnet_node_config \<Rightarrow> node_state \<Rightarrow> mixnet_lsa_link_params list" where
  "own_links c s =
     map (\<lambda>p. \<lparr>neighbor_mixaddr = neighbor_addr s ! p, cost = link_costs c ! p\<rparr>) [0..<ports c]"

text \<open>What an own LSA says: our address, and one link per port.\<close>

lemma make_lsa_packet_fields:
  assumes "make_lsa_packet e ok c s = Some b"
  shows "length b = LSA_PACKET_SIZE (ports c)"
    "pkt_total_size b = of_nat (LSA_PACKET_SIZE (ports c))"
    "pkt_type b = type_code PACKET_TYPE_LSA"
    "rd16 b off_lsa_node = node_addr c" "rd16 b off_lsa_count = num_neighbors c"
    "lsa_links b (ports c) = own_links c s"
proof -
  let ?size = "LSA_PACKET_SIZE (ports c)"
  let ?b4 = "wr16 (wr16 (wr16 (wr16 (malloc_block e ?size) off_total_size (of_nat ?size)) off_type
      (type_code PACKET_TYPE_LSA)) off_lsa_node (node_addr c)) off_lsa_count (num_neighbors c)"
  have b: "b = foldl (write_link c s) ?b4 [0..<ports c]"
    using assms by (simp add: make_lsa_packet_def Let_def split: if_splits)
  have len: "16 + 4 * ports c \<le> length ?b4" by simp
  note w = write_links_effect [OF len, where c = c and s = s, folded b]
  show "length b = ?size" using w by simp
  show "pkt_total_size b = of_nat ?size" "pkt_type b = type_code PACKET_TYPE_LSA"
    "rd16 b off_lsa_node = node_addr c" "rd16 b off_lsa_count = num_neighbors c"
    using w by (simp_all add: pkt_total_size_def pkt_type_def)
  show "lsa_links b (ports c) = own_links c s"
    using w by (simp add: lsa_links_def own_links_def add.commute)
qed

text \<open>The copies a tree broadcast sends: one per open port other than the excepted one.\<close>

definition tree_ports :: "mixnet_node_config \<Rightarrow> node_state \<Rightarrow> int \<Rightarrow> nat list" where
  "tree_ports c s except_port =
     filter (\<lambda>p. int p \<noteq> except_port \<and> \<not> blocked s ! p) [0..<ports c]"

definition wire_copy :: "buf \<Rightarrow> buf" where
  "wire_copy b = take (unat (pkt_total_size b)) b"

definition copy_evs :: "env \<Rightarrow> buf \<Rightarrow> nat \<Rightarrow> ev list" where
  "copy_evs e x p =
     (if alloc e (Clone_Packet p) then [Alloc x, Send (of_nat p) x] else [])"

lemma broadcast_on_tree_eq:
  assumes "pkt_block b"
  shows "broadcast_on_tree e c s ex b =
    Some (concat (map (copy_evs e (wire_copy b)) (tree_ports c s ex)))"
proof -
  have "tree_loop e s ex b ps = Some (concat (map (copy_evs e (wire_copy b))
      (filter (\<lambda>p. int p \<noteq> ex \<and> \<not> blocked s ! p) ps)))" for ps
    by (induction ps)
       (simp_all add: clone_packet_block [OF assms] wire_copy_def copy_evs_def send_packet_def)
  then show ?thesis by (simp add: broadcast_on_tree_def tree_ports_def)
qed

lemma balance_concat: "balance (concat xss) = sum_list (map balance xss)"
  by (induction xss) simp_all

lemma balance_copy_evs [simp]: "balance (concat (map (copy_evs e x) ps)) = 0"
  by (induction ps) (simp_all add: copy_evs_def)

lemma balance_send_packet [simp]: "balance (send_packet p b) = - 1"
  by (simp add: send_packet_def)

lemma balance_broadcast_stp [simp]: "balance (broadcast_stp e c s ex) = 0"
proof -
  have "balance (if int p = ex then []
       else (case make_stp_packet e (alloc e (Stp_Packet p)) c s of
               None \<Rightarrow> []
             | Some b \<Rightarrow> Alloc b # send_packet p b)) = 0" for p
    by (simp split: option.split)
  then show ?thesis by (simp add: broadcast_stp_def balance_concat comp_def)
qed

lemma sent_copy_evs:
  "(\<forall>p. alloc e (Clone_Packet p)) \<Longrightarrow>
   sent (concat (map (copy_evs e x) ps)) = map (\<lambda>p. (of_nat p, x)) ps"
  by (induction ps) (simp_all add: copy_evs_def)

text \<open>Whatever memory does, a broadcast only sends copies, and only to tree ports.\<close>

lemma sent_copy_evs_subset:
  "set (sent (concat (map (copy_evs e x) ps))) \<subseteq> (\<lambda>p. (of_nat p, x)) ` set ps"
  by (induction ps) (auto simp: copy_evs_def)

text \<open>An STP broadcast sends the node's bid, to all its ports but one.\<close>

lemma sent_broadcast_stp:
  assumes "(q, b) \<in> set (sent (broadcast_stp e c s ex))"
  shows "\<exists>p < ports c. q = of_nat p \<and> int p \<noteq> ex \<and> make_stp_packet e True c s = Some b"
  using assms
  by (auto simp: broadcast_stp_def sent_def send_packet_def make_stp_packet_def Let_def
      split: if_splits)

lemma in_tree_ports: "p \<in> set (tree_ports c s ex) \<longleftrightarrow>
    p < ports c \<and> int p \<noteq> ex \<and> \<not> blocked s ! p"
  by (auto simp: tree_ports_def)

text \<open>A node with two ports for the examples.\<close>

definition example_config :: mixnet_node_config where
  "example_config =
     \<lparr>node_addr = 1, num_neighbors = 2, root_hello_interval_ms = 2000,
      reelection_interval_ms = 20000, do_random_routing = False, mixing_factor = 1,
      link_costs = [1, 1]\<rparr>"

definition calm_env :: env where
  "calm_env = \<lparr>now = 0, rnd = 0, alloc = (\<lambda>_. True), junk = (\<lambda>_. 0)\<rparr>"

definition idle_state :: node_state where
  "idle_state =
     \<lparr>root = 1, path_len = 0, next_hop = INVALID_MIXADDR,
      neighbor_addr = [INVALID_MIXADDR, INVALID_MIXADDR], blocked = [False, False],
      hello_start_ms = 0, reelection_start_ms = 0, topology = empty_graph, lsa_start_ms = 0,
      fib = [], mix = None\<rparr>"

lemma idle_state_init:
  "state_init (\<lambda>_. True) 0 0 0 example_config = Some idle_state"
  by code_simp

lemma wf_idle_state: "wf_state example_config idle_state"
  by (rule wf_state_init [OF idle_state_init])

lemma example_config_sel [simp]:
  "node_addr example_config = 1" "num_neighbors example_config = 2"
  "mixing_factor example_config = 1"
  by (simp_all add: example_config_def)

end
