(* ===== verification/Message.thy ===== *)
theory Message
  imports Packets
begin

text \<open>
  The framework messages of \<open>framework/message.h\<close> and \<open>framework/message.cpp\<close>, and the error
  codes of \<open>framework/error.h\<close>. A message is the buffer of \<open>MAX_MESSAGE_LENGTH\<close> bytes every
  \<open>message\<close> object owns: an 8-byte header, a payload, and a 4-byte canary behind it. Methods
  are option valued: \<open>None\<close> is a failed assert (the build keeps asserts) or an access outside
  the buffer. Lengths are 16 bits wide, as \<open>length_t\<close> is, so the sums wrap.
\<close>

subsection \<open>Error codes\<close>

datatype error_code =
    NONE | POLL_ERROR | FORK_FAILED | EXEC_FAILED | BAD_TESTCASE | BAD_FRAGMENT_ID
  | BAD_MESSAGE_CODE | MALFORMED_MESSAGE | RECV_ZERO_PENDING | RECV_WAIT_TIMEOUT
  | SEND_REQS_TIMEOUT | FRAGMENT_EXCEPTION | SOCKET_BIND_FAILED | SOCKET_ACCEPT_FAILED
  | SOCKET_CREATE_FAILED | SOCKET_LISTEN_FAILED | SOCKET_BAD_OPERATION
  | SOCKET_CONNECT_FAILED | SOCKET_OPTIONS_FAILED | SOCKET_ACCEPT_TIMEOUT
  | FRAGMENT_PCAP_MQ_FULL | CTRL_CONNECTION_BROKEN | PCAP_CONNECTION_BROKEN
  | FRAGMENT_INVALID_SADDR | FRAGMENT_INVALID_CADDR | MIXNET_BAD_PACKET_SIZE
  | MIXNET_CONNECTION_BROKEN | FRAGMENT_BAD_NEIGHBOR_COUNT | FRAGMENT_THREADS_NONRESPONSIVE
  | FRAGMENT_DUPLICATE_LOCAL_ADDRS

text \<open>The enumerators in order; the sentinel \<open>ENUMERATION_LIMIT\<close> is their number.\<close>

definition error_codes :: "error_code list" where
  "error_codes =
     [NONE, POLL_ERROR, FORK_FAILED, EXEC_FAILED, BAD_TESTCASE, BAD_FRAGMENT_ID,
      BAD_MESSAGE_CODE, MALFORMED_MESSAGE, RECV_ZERO_PENDING, RECV_WAIT_TIMEOUT,
      SEND_REQS_TIMEOUT, FRAGMENT_EXCEPTION, SOCKET_BIND_FAILED, SOCKET_ACCEPT_FAILED,
      SOCKET_CREATE_FAILED, SOCKET_LISTEN_FAILED, SOCKET_BAD_OPERATION,
      SOCKET_CONNECT_FAILED, SOCKET_OPTIONS_FAILED, SOCKET_ACCEPT_TIMEOUT,
      FRAGMENT_PCAP_MQ_FULL, CTRL_CONNECTION_BROKEN, PCAP_CONNECTION_BROKEN,
      FRAGMENT_INVALID_SADDR, FRAGMENT_INVALID_CADDR, MIXNET_BAD_PACKET_SIZE,
      MIXNET_CONNECTION_BROKEN, FRAGMENT_BAD_NEIGHBOR_COUNT, FRAGMENT_THREADS_NONRESPONSIVE,
      FRAGMENT_DUPLICATE_LOCAL_ADDRS]"

text \<open>Position of an enumerator, the value a \<open>static_cast\<close> to an integer gives.\<close>

definition enum_index :: "'a list \<Rightarrow> 'a \<Rightarrow> nat" where
  "enum_index xs x = length (takeWhile (\<lambda>y. y \<noteq> x) xs)"

definition error_num :: "error_code \<Rightarrow> u16" where
  "error_num e = of_nat (enum_index error_codes e)"

subsection \<open>Message types and codes\<close>

datatype message_type =
    NOOP | SETUP_CTRL | SETUP_PCAP | TOPOLOGY | START_MIXNET_SERVER | START_MIXNET_CLIENTS
  | RESOLVE_MIXNET_CONNS | CHANGE_LINK_STATE | PCAP_DATA | PCAP_SUBSCRIPTION | SEND_PACKET
  | START_TESTCASE | END_TESTCASE | SHUTDOWN

definition message_types :: "message_type list" where
  "message_types =
     [NOOP, SETUP_CTRL, SETUP_PCAP, TOPOLOGY, START_MIXNET_SERVER, START_MIXNET_CLIENTS,
      RESOLVE_MIXNET_CONNS, CHANGE_LINK_STATE, PCAP_DATA, PCAP_SUBSCRIPTION, SEND_PACKET,
      START_TESTCASE, END_TESTCASE, SHUTDOWN]"

definition type_num :: "message_type \<Rightarrow> u16" where
  "type_num t = of_nat (enum_index message_types t)"

definition code_create :: "bool \<Rightarrow> message_type \<Rightarrow> u16" where
  "code_create is_request t =
     push_bit 15 (if is_request then 0 else 1) OR (type_num t AND 0x7FFF)"

definition code_is_request :: "u16 \<Rightarrow> bool" where
  "code_is_request code \<longleftrightarrow> code AND 0x8000 = 0"

definition code_to_type :: "u16 \<Rightarrow> message_type option" where
  "code_to_type code = get_at message_types (unat (code AND 0x7FFF))"

lemma request_bit: "code_is_request code \<longleftrightarrow> \<not> bit code 15"
proof -
  have "(0x8000 :: u16) = 2 ^ 15" by simp
  then show ?thesis by (simp only: code_is_request_def and_exp_eq_0_iff_not_bit)
qed

lemma type_bits: "code AND 0x7FFF = take_bit 15 (code :: u16)"
proof -
  have "(0x7FFF :: u16) = mask 15" by (simp add: mask_eq_exp_minus_1)
  then show ?thesis by (simp only: take_bit_eq_mask)
qed

lemma split_code: "(code :: u16) = push_bit 15 (of_bool (bit code 15)) OR take_bit 15 code"
proof (rule bit_word_eqI)
  fix i assume "i < LENGTH(16)"
  then have "i < 15 \<or> i = 15" by auto
  then show "bit code i = bit (push_bit 15 (of_bool (bit code 15)) OR take_bit 15 code) i"
    by (auto simp: bit_simps)
qed

lemma enum_index_nth:
  "distinct xs \<Longrightarrow> i < length xs \<Longrightarrow> enum_index xs (xs ! i) = i"
proof (induction xs arbitrary: i)
  case (Cons x xs)
  then show ?case by (cases i) (auto simp: enum_index_def)
qed simp

lemma enum_index_less: "x \<in> set xs \<Longrightarrow> enum_index xs x < length xs"
  by (induction xs) (auto simp: enum_index_def)

lemma nth_enum_index: "x \<in> set xs \<Longrightarrow> xs ! enum_index xs x = x"
  by (induction xs) (auto simp: enum_index_def)

lemma all_message_types [simp]: "t \<in> set message_types" "length message_types = 14"
  "distinct message_types"
  by (cases t; simp add: message_types_def) (simp_all add: message_types_def)

lemma all_error_codes [simp]: "e \<in> set error_codes" "length error_codes = 30"
  "distinct error_codes"
  by (cases e; simp add: error_codes_def) (simp_all add: error_codes_def)

lemma type_num_bound: "unat (type_num t) < 14"
  using enum_index_less [of t message_types] by (simp add: type_num_def unat_of_nat)

lemma error_num_bound: "unat (error_num e) = enum_index error_codes e"
  using enum_index_less [of e error_codes] by (simp add: error_num_def unat_of_nat)

lemma code_to_type_create: "code_to_type (code_create r t) = Some t"
  by (cases r; cases t; simp add: code_to_type_def code_create_def type_num_def enum_index_def
      message_types_def get_at_def)

lemma code_is_request_create: "code_is_request (code_create r t) = r"
  by (cases r; cases t; simp add: code_is_request_def code_create_def type_num_def enum_index_def
      message_types_def)

lemma code_create_read:
  assumes "code_to_type code = Some t"
  shows "code_create (code_is_request code) t = code"
proof -
  let ?n = "unat (take_bit 15 code)"
  have n: "?n < 14" and t: "t = message_types ! ?n"
    using assms by (auto simp: code_to_type_def get_at_def type_bits split: if_splits)
  then have "type_num t = take_bit 15 code" by (simp add: type_num_def enum_index_nth)
  then have "code_create (code_is_request code) t
      = push_bit 15 (of_bool (bit code 15)) OR take_bit 15 code"
    by (simp add: code_create_def request_bit type_bits)
  then show ?thesis using split_code [of code] by simp
qed

text \<open>
  The 16-bit message code is a faithful encoding of direction and type: both are read back
  from the code that \<open>code_create\<close> makes, and every code whose type the receiver accepts is
  the one \<open>code_create\<close> makes from what was read.
\<close>

theorem code_roundtrip:
  "code_to_type (code_create r t) = Some t \<and> code_is_request (code_create r t) = r \<and>
   (code_to_type code = Some u \<longrightarrow> code_create (code_is_request code) u = code)"
  using code_to_type_create code_is_request_create code_create_read by blast

lemma code_roundtrip_witness:
  "code_to_type 0x8003 = Some TOPOLOGY \<and> code_create False TOPOLOGY = 0x8003"
proof -
  have "code_to_type 0x8003 = Some TOPOLOGY" and "\<not> code_is_request 0x8003"
    by (simp_all add: code_to_type_def code_is_request_def message_types_def get_at_def)
  then show ?thesis
    using code_roundtrip [of False TOPOLOGY "0x8003" TOPOLOGY] by simp
qed

subsection \<open>The message buffer\<close>

text \<open>Sizes and the offsets of the header fields.\<close>

definition canary :: u32 where "canary = 0xdeadbeef"
definition sizeof_header :: nat where [simp]: "sizeof_header = 8"
definition sizeof_canary :: nat where [simp]: "sizeof_canary = 4"
definition MIN_MESSAGE_LENGTH :: nat where
  [simp]: "MIN_MESSAGE_LENGTH = sizeof_header + sizeof_canary"
definition MAX_MESSAGE_LENGTH :: nat where [simp]: "MAX_MESSAGE_LENGTH = 2 ^ 16 - 1"

definition off_total_length :: nat where [simp]: "off_total_length = 0"
definition off_message_code :: nat where [simp]: "off_message_code = 2"
definition off_fragment_id :: nat where [simp]: "off_fragment_id = 4"
definition off_error_code :: nat where [simp]: "off_error_code = 6"

type_synonym message = buf

text \<open>The constructor leaves the allocated bytes as they are.\<close>

definition message_new :: "(nat \<Rightarrow> byte) \<Rightarrow> message" where
  "message_new uninit = map uninit [0..<MAX_MESSAGE_LENGTH]"

definition is_message :: "message \<Rightarrow> bool" where
  "is_message m \<longleftrightarrow> length m = MAX_MESSAGE_LENGTH"

definition is_request :: "message \<Rightarrow> bool option" where
  "is_request m = map_option code_is_request (get16 m off_message_code)"

definition get_type :: "message \<Rightarrow> message_type option" where
  "get_type m = Option.bind (get16 m off_message_code) code_to_type"

definition get_fragment_id :: "message \<Rightarrow> u16 option" where
  "get_fragment_id m = get16 m off_fragment_id"

definition get_total_length :: "message \<Rightarrow> u16 option" where
  "get_total_length m = get16 m off_total_length"

definition get_error_code :: "message \<Rightarrow> error_code option" where
  "get_error_code m = Option.bind (get16 m off_error_code) (\<lambda>v. get_at error_codes (unat v))"

definition clear :: "message \<Rightarrow> message option" where
  "clear m = write_at m 0 (replicate sizeof_header 0)"

definition set_fragment_id :: "u16 \<Rightarrow> message \<Rightarrow> message option" where
  "set_fragment_id fragment_id m = put16 m off_fragment_id fragment_id"

definition set_error_code :: "error_code \<Rightarrow> message \<Rightarrow> message option" where
  "set_error_code e m = put16 m off_error_code (error_num e)"

definition set_code :: "bool \<Rightarrow> message_type \<Rightarrow> message \<Rightarrow> message option" where
  "set_code request t m = put16 m off_message_code (code_create request t)"

subsection \<open>Lengths of the payloads\<close>

text \<open>
  The fixed parts of the payload structs with the offsets of their counters, and the length of
  a struct that ends in an array: computed in a wider type, returned as \<open>length_t\<close>.
\<close>

definition sizeof_sockaddr_in :: nat where [simp]: "sizeof_sockaddr_in = 16"
definition sizeof_req_setup_ctrl :: nat where [simp]: "sizeof_req_setup_ctrl = 1"
definition sizeof_req_setup_pcap :: nat where [simp]: "sizeof_req_setup_pcap = 16"
definition sizeof_req_topology :: nat where [simp]: "sizeof_req_topology = 16"
definition sizeof_req_start_mixnet_clients :: nat where
  [simp]: "sizeof_req_start_mixnet_clients = 8"
definition sizeof_req_resolve_mixnet_connections :: nat where
  [simp]: "sizeof_req_resolve_mixnet_connections = 8"
definition sizeof_req_change_link_state :: nat where [simp]: "sizeof_req_change_link_state = 4"
definition sizeof_req_pcap_subscription :: nat where [simp]: "sizeof_req_pcap_subscription = 1"
definition sizeof_req_send_packet :: nat where [simp]: "sizeof_req_send_packet = 8"
definition sizeof_resp_setup_ctrl :: nat where [simp]: "sizeof_resp_setup_ctrl = 4"
definition sizeof_resp_start_mixnet_server :: nat where
  [simp]: "sizeof_resp_start_mixnet_server = 16"
definition sizeof_resp_start_mixnet_clients :: nat where
  [simp]: "sizeof_resp_start_mixnet_clients = 8"

definition vla_length :: "nat \<Rightarrow> nat \<Rightarrow> u16 \<Rightarrow> u16" where
  "vla_length base width count = of_nat (base + unat count * width)"

definition topology_length :: "message \<Rightarrow> u16 option" where
  "topology_length m = map_option (vla_length sizeof_req_topology 2) (get16 m (sizeof_header + 2))"

definition req_start_mixnet_clients_length :: "message \<Rightarrow> u16 option" where
  "req_start_mixnet_clients_length m = map_option
     (vla_length sizeof_req_start_mixnet_clients sizeof_sockaddr_in) (get16 m sizeof_header)"

definition resolve_mixnet_connections_length :: "message \<Rightarrow> u16 option" where
  "resolve_mixnet_connections_length m = map_option
     (vla_length sizeof_req_resolve_mixnet_connections sizeof_sockaddr_in) (get16 m sizeof_header)"

definition send_packet_length :: "message \<Rightarrow> u16 option" where
  "send_packet_length m = map_option
     (vla_length sizeof_req_send_packet 1) (get16 m (sizeof_header + 6))"

definition resp_start_mixnet_clients_length :: "message \<Rightarrow> u16 option" where
  "resp_start_mixnet_clients_length m = map_option
     (vla_length sizeof_resp_start_mixnet_clients sizeof_sockaddr_in) (get16 m sizeof_header)"

definition pcap_data_length :: "message \<Rightarrow> u16 option" where
  "pcap_data_length m = get16 m (sizeof_header + off_total_size)"

text \<open>The topology request as the fragment reads it.\<close>

record topology_request =
  mixaddr :: mixnet_address
  t_num_neighbors :: u16
  t_do_random_routing :: bool
  t_mixing_factor :: u16
  t_root_hello_interval_ms :: u32
  t_reelection_interval_ms :: u32
  t_link_costs :: "u16 list"

text \<open>The switch of \<open>compute_total_length\<close>; its default branch asserts.\<close>

definition payload_length :: "bool \<Rightarrow> message_type \<Rightarrow> message \<Rightarrow> u16 option" where
  "payload_length request t m = (case t of
     SETUP_CTRL \<Rightarrow> Some (of_nat (if request then sizeof_req_setup_ctrl else sizeof_resp_setup_ctrl))
   | SETUP_PCAP \<Rightarrow> Some (of_nat (if request then sizeof_req_setup_pcap else 0))
   | TOPOLOGY \<Rightarrow> if request then topology_length m else Some 0
   | START_MIXNET_SERVER \<Rightarrow> Some (of_nat (if request then 0 else sizeof_resp_start_mixnet_server))
   | START_MIXNET_CLIENTS \<Rightarrow>
       if request then req_start_mixnet_clients_length m else resp_start_mixnet_clients_length m
   | RESOLVE_MIXNET_CONNS \<Rightarrow>
       if request then resolve_mixnet_connections_length m else Some 0
   | CHANGE_LINK_STATE \<Rightarrow> Some (of_nat (if request then sizeof_req_change_link_state else 0))
   | PCAP_DATA \<Rightarrow> if request then Some 0 else pcap_data_length m
   | PCAP_SUBSCRIPTION \<Rightarrow> Some (of_nat (if request then sizeof_req_pcap_subscription else 0))
   | SEND_PACKET \<Rightarrow> if request then send_packet_length m else Some 0
   | START_TESTCASE \<Rightarrow> Some 0
   | END_TESTCASE \<Rightarrow> Some 0
   | SHUTDOWN \<Rightarrow> Some 0
   | NOOP \<Rightarrow> None)"

definition compute_total_length :: "message \<Rightarrow> u16 option" where
  "compute_total_length m = do {
     request \<leftarrow> is_request m;
     t \<leftarrow> get_type m;
     len \<leftarrow> payload_length request t m;
     Some (of_nat (sizeof_header + unat len + sizeof_canary))
   }"

definition validate :: "message \<Rightarrow> bool option" where
  "validate m = do {
     len \<leftarrow> compute_total_length m;
     if unat len < MIN_MESSAGE_LENGTH \<or> MAX_MESSAGE_LENGTH < unat len then Some False
     else do {
       c \<leftarrow> get32 m (unat len - sizeof_canary);
       Some (c = canary)
     }
   }"

definition finalize :: "message \<Rightarrow> message option" where
  "finalize m = do {
     len \<leftarrow> compute_total_length m;
     if MIN_MESSAGE_LENGTH \<le> unat len \<and> unat len \<le> MAX_MESSAGE_LENGTH then do {
       m \<leftarrow> put16 m off_total_length len;
       put32 m (unat len - sizeof_canary) canary
     } else None
   }"

subsection \<open>Finalize and validate\<close>

text \<open>
  Specification: the number of bytes a payload really takes, unbounded. The code works with
  this number modulo \<open>2 ^ 16\<close>.
\<close>

definition payload_size :: "bool \<Rightarrow> message_type \<Rightarrow> message \<Rightarrow> nat" where
  "payload_size request t m = (case t of
     SETUP_CTRL \<Rightarrow> if request then 1 else 4
   | SETUP_PCAP \<Rightarrow> if request then 16 else 0
   | TOPOLOGY \<Rightarrow> if request then 16 + 2 * unat (rd16 m 10) else 0
   | START_MIXNET_SERVER \<Rightarrow> if request then 0 else 16
   | START_MIXNET_CLIENTS \<Rightarrow> 8 + 16 * unat (rd16 m 8)
   | RESOLVE_MIXNET_CONNS \<Rightarrow> if request then 8 + 16 * unat (rd16 m 8) else 0
   | CHANGE_LINK_STATE \<Rightarrow> if request then 4 else 0
   | PCAP_DATA \<Rightarrow> if request then 0 else unat (rd16 m 8)
   | PCAP_SUBSCRIPTION \<Rightarrow> if request then 1 else 0
   | SEND_PACKET \<Rightarrow> if request then 8 + unat (rd16 m 14) else 0
   | _ \<Rightarrow> 0)"

definition has_code :: "bool \<Rightarrow> message_type \<Rightarrow> message \<Rightarrow> bool" where
  "has_code request t m \<longleftrightarrow> is_message m \<and> rd16 m 2 = code_create request t"

lemma has_code_reads:
  assumes "has_code r t m"
  shows "is_request m = Some r" "get_type m = Some t" "length m = 65535"
  using assms
  by (simp_all add: has_code_def is_message_def is_request_def get_type_def get16_iff
      code_is_request_create code_to_type_create)

lemma compute_total_length_code:
  assumes m: "has_code r t m" and t: "t \<noteq> NOOP"
  shows "compute_total_length m = Some (of_nat (12 + payload_size r t m))"
proof -
  have "payload_length r t m = Some (of_nat (payload_size r t m))"
    using t has_code_reads (3) [OF m]
    by (cases t)
       (simp_all add: payload_length_def payload_size_def topology_length_def vla_length_def
         req_start_mixnet_clients_length_def resolve_mixnet_connections_length_def
         send_packet_length_def resp_start_mixnet_clients_length_def pcap_data_length_def
         get16_iff mult.commute)
  then show ?thesis
    by (simp add: compute_total_length_def has_code_reads [OF m])
qed

text \<open>
  A message ready to be finalized: it has a code, its payload fits behind the header, and a
  captured packet is long enough to hold its own size field.
\<close>

definition ready :: "bool \<Rightarrow> message_type \<Rightarrow> message \<Rightarrow> bool" where
  "ready r t m \<longleftrightarrow> has_code r t m \<and> t \<noteq> NOOP \<and> 12 + payload_size r t m \<le> 65535 \<and>
     (t = PCAP_DATA \<longrightarrow> \<not> r \<longrightarrow> 2 \<le> payload_size r t m)"

lemma ready_length:
  assumes "ready r t m"
  shows "compute_total_length m = Some (of_nat (12 + payload_size r t m))"
    and "unat (of_nat (12 + payload_size r t m) :: u16) = 12 + payload_size r t m"
  using assms compute_total_length_code [of r t m] unat_of_nat_u16 [of "12 + payload_size r t m"]
  by (simp_all add: ready_def)

definition sealed :: "nat \<Rightarrow> message \<Rightarrow> message" where
  "sealed n m = wr32 (wr16 m 0 (of_nat (12 + n))) (8 + n) canary"

lemma finalize_ready: "ready r t m \<Longrightarrow> finalize m = Some (sealed (payload_size r t m) m)"
  using ready_length [of r t m] has_code_reads [of r t m]
  by (simp add: finalize_def sealed_def ready_def access_simps del: of_nat_add)

lemma sealed_slice:
  assumes "length m = 65535" and "12 + n \<le> 65535"
  shows "length (sealed n m) = 65535"
    and "2 \<le> off \<Longrightarrow> off + k \<le> 8 + n \<Longrightarrow> slice (sealed n m) off k = slice m off k"
    and "rd16 (sealed n m) 0 = of_nat (12 + n)"
    and "rd32 (sealed n m) (8 + n) = canary"
  using assms
  by (simp_all add: sealed_def slice_wr_other rd32_wr32_same rd16_def slice_wr_same
      le_word_le_bytes del: of_nat_add)

lemma sealed_rd16:
  "length m = 65535 \<Longrightarrow> 12 + n \<le> 65535 \<Longrightarrow> 2 \<le> off \<Longrightarrow> off + 2 \<le> 8 + n \<Longrightarrow>
   rd16 (sealed n m) off = rd16 m off"
  by (simp add: rd16_def sealed_slice)

lemma ready_sealed:
  assumes "ready r t m"
  shows "payload_size r t (sealed (payload_size r t m) m) = payload_size r t m"
    and "ready r t (sealed (payload_size r t m) m)"
proof -
  let ?n = "payload_size r t m"
  have m: "length m = 65535" "12 + ?n \<le> 65535"
    using assms by (auto simp: ready_def has_code_def is_message_def)
  then show *: "payload_size r t (sealed ?n m) = ?n"
    using assms sealed_rd16 [OF m]
    by (cases t; cases r) (simp_all add: payload_size_def ready_def)
  show "ready r t (sealed ?n m)"
    using assms m sealed_rd16 [OF m, of 2] *
    by (auto simp: ready_def has_code_def is_message_def sealed_slice (1))
qed

lemma ready_validate: "ready r t m \<Longrightarrow> validate m = Some (rd32 m (8 + payload_size r t m) = canary)"
  using ready_length [of r t m] has_code_reads [of r t m]
  by (simp add: validate_def ready_def access_simps del: of_nat_add)

text \<open>
  C37. Sealing a message for sending: \<open>finalize\<close> succeeds on every message whose payload fits,
  the receiver's \<open>validate\<close> then accepts it, the length field tells the real length, and
  direction, type, fragment id, error code and all payload bytes are what the sender wrote.
\<close>

theorem finalize_validates:
  assumes "ready r t m"
  shows "\<exists>m'. finalize m = Some m' \<and> validate m' = Some True \<and>
    get_total_length m' = Some (of_nat (12 + payload_size r t m)) \<and>
    is_request m' = Some r \<and> get_type m' = Some t \<and>
    get_fragment_id m' = get_fragment_id m \<and> get_error_code m' = get_error_code m \<and>
    slice m' 8 (payload_size r t m) = slice m 8 (payload_size r t m)"
proof -
  let ?n = "payload_size r t m"
  let ?s = "sealed ?n m"
  have m: "length m = 65535" "12 + ?n \<le> 65535"
    using assms by (auto simp: ready_def has_code_def is_message_def)
  note s = sealed_slice [OF m]
  have "validate ?s = Some True"
    using ready_validate [OF ready_sealed (2) [OF assms]] by (simp add: ready_sealed (1) [OF assms] s)
  moreover have "is_request ?s = Some r" "get_type ?s = Some t"
    using ready_sealed (2) [OF assms] by (auto simp: ready_def has_code_reads)
  moreover have "get_fragment_id ?s = get_fragment_id m" "get_error_code ?s = get_error_code m"
    using sealed_rd16 [OF m, of 4] sealed_rd16 [OF m, of 6]
    by (simp_all add: get_fragment_id_def get_error_code_def get16_iff s m)
  ultimately show ?thesis
    using finalize_ready [OF assms] by (simp add: get_total_length_def get16_iff s)
qed

text \<open>A concrete message: the request that disables the link to neighbour 3 of fragment 7.\<close>

definition example_message :: message where
  "example_message = [0, 0, 7, 0, 7, 0, 0, 0, 3, 0, 0, 0] @ replicate 65523 0"

lemma example_message_code: "has_code True CHANGE_LINK_STATE example_message"
  by (simp add: has_code_def is_message_def example_message_def rd16_def slice_def
      code_create_def type_num_def enum_index_def message_types_def)

lemma finalize_validates_witness:
  "\<exists>m'. finalize example_message = Some m' \<and> validate m' = Some True \<and>
     get_total_length m' = Some 16"
proof -
  have r: "ready True CHANGE_LINK_STATE example_message"
    by (simp add: ready_def example_message_code payload_size_def)
  then show ?thesis using finalize_validates [OF r] by (auto simp: payload_size_def)
qed

text \<open>
  C38. The limit of the 16-bit length: up to 65523 payload bytes \<open>finalize\<close> seals the message
  under its true length. Beyond, the length has wrapped: either the assert on the minimal
  length stops the process, or the message leaves under a length smaller than its payload.
\<close>

theorem finalize_limit:
  assumes "has_code r t m" and "t \<noteq> NOOP"
  shows "finalize m =
    (let n = payload_size r t m; len = (12 + n) mod 65536 in
     if n \<le> 65523 then Some (sealed n m)
     else if len < 12 then None
     else Some (wr32 (wr16 m 0 (of_nat len)) (len - 4) canary))"
proof -
  define n where "n = payload_size r t m"
  define k where "k = (12 + n) mod 65536"
  have k: "k \<le> 65535" and fits: "n \<le> 65523 \<Longrightarrow> k = 12 + n" by (simp_all add: k_def)
  have m: "length m = 65535" using assms(1) by (simp add: has_code_def is_message_def)
  have "(of_nat (12 + n) :: u16) = of_nat k"
    by (simp add: word_unat_eq_iff unat_of_nat k_def del: of_nat_add)
  then have "compute_total_length m = Some (of_nat k)"
    by (simp add: compute_total_length_code [OF assms] n_def del: of_nat_add)
  then have "finalize m =
      (if k < 12 then None else Some (wr32 (wr16 m 0 (of_nat k)) (k - 4) canary))"
    using k m by (simp add: finalize_def unat_of_nat_u16 access_simps not_le)
  then show ?thesis
    by (cases "n \<le> 65523") (simp_all add: fits sealed_def Let_def n_def [symmetric] k_def [symmetric])
qed

text \<open>A START_MIXNET_CLIENTS request for 4096 neighbours leaves as a 20-byte message.\<close>

definition example_oversized :: message where
  "example_oversized = [0, 0, 5, 0, 0, 0, 0, 0, 0, 16] @ replicate 65525 0"

lemma finalize_limit_witness:
  "\<exists>m'. finalize example_oversized = Some m' \<and> get_total_length m' = Some 20"
proof -
  have c: "has_code True START_MIXNET_CLIENTS example_oversized"
    by (simp add: has_code_def is_message_def example_oversized_def rd16_def slice_def
        code_create_def type_num_def enum_index_def message_types_def)
  have n: "payload_size True START_MIXNET_CLIENTS example_oversized = 65544"
    by (simp add: payload_size_def example_oversized_def rd16_def slice_def)
  have l: "length example_oversized = 65535" by (simp add: example_oversized_def)
  show ?thesis
    using finalize_limit [OF c]
    by (simp add: n Let_def get_total_length_def get16_iff l)
       (simp add: rd16_def slice_wr_other slice_wr_same le_word_le_bytes l)
qed

end
