(* ===== verification/Networking.thy ===== *)
theory Networking
  imports Message
begin

text \<open>
  The socket layer of \<open>framework/networking.h\<close> and \<open>framework/networking.cpp\<close>: framed messages
  over TCP in three modes, accepting and connecting. What the operating system answers is an
  argument: the list of the outcomes of the successive calls of a loop, each with the time
  the clock shows afterwards. A loop recurses over that list; when the list ends the call is
  still waiting. For a send that is the result \<open>None\<close>, as is a failed assert; a receive, which
  writes into a buffer, tells them apart: it \<open>Returns\<close>, \<open>Waits\<close>, or \<open>Faults\<close> -- a failed assert or
  an access outside its buffer, which the theorems exclude.
\<close>

subsection \<open>Modes, configurations and errno\<close>

datatype mode = RX_TX_BLOCKING | RX_TX_TIMEOUT | RX_TRY_ONCE

record config =
  mode :: mode
  timeout_ms :: u64

definition timeout :: "config \<Rightarrow> u64" where "timeout c = timeout_ms c"
definition block :: "config \<Rightarrow> bool" where "block c \<longleftrightarrow> mode c = RX_TX_BLOCKING"
definition try_once :: "config \<Rightarrow> bool" where "try_once c \<longleftrightarrow> mode c = RX_TRY_ONCE"
definition use_timeout :: "config \<Rightarrow> bool" where "use_timeout c \<longleftrightarrow> mode c = RX_TX_TIMEOUT"

lemma modes:
  "\<not> (block c \<and> try_once c)" "\<not> (block c \<and> use_timeout c)" "\<not> (try_once c \<and> use_timeout c)"
  "block c \<or> try_once c \<or> use_timeout c"
  by (cases "mode c"; simp add: block_def try_once_def use_timeout_def)+

datatype errno =
  EAGAIN | EWOULDBLOCK | ENOBUFS | EINTR | EINPROGRESS | ETIMEDOUT | Other_errno nat

definition transient :: "errno \<Rightarrow> bool" where
  "transient e \<longleftrightarrow> e = EAGAIN \<or> e = EWOULDBLOCK \<or> e = ENOBUFS"

text \<open>\<open>fcntl (fd, F_GETFL)\<close>: failure, or whether O_NONBLOCK is set.\<close>

definition validate_config :: "bool option \<Rightarrow> config \<Rightarrow> bool \<Rightarrow> error_code" where
  "validate_config flags c is_tx = (case flags of
     None \<Rightarrow> SOCKET_OPTIONS_FAILED
   | Some nonblock \<Rightarrow>
       if \<not> nonblock \<and> \<not> block c then SOCKET_BAD_OPERATION
       else if is_tx \<and> try_once c then SOCKET_BAD_OPERATION
       else NONE)"

subsection \<open>Sending\<close>

datatype send_outcome = Sent nat | Send_failed errno

text \<open>
  The loop of \<open>send_generic\<close>: the bytes still to send, the bytes the socket has taken.
  \<open>send\<close> never takes more than it is given.
\<close>

fun send_loop ::
  "config \<Rightarrow> error_code \<Rightarrow> (send_outcome \<times> u64) list \<Rightarrow> u64 \<Rightarrow> buf \<Rightarrow> buf \<Rightarrow> (error_code \<times> buf) option"
where
  "send_loop c connection_error evs delta left taken =
     (if left \<noteq> [] \<and> (\<not> use_timeout c \<or> delta < timeout c)
      then (case evs of
          [] \<Rightarrow> None
        | (outcome, t) # evs \<Rightarrow>
            let delta = (if use_timeout c then t else delta) in
            (case outcome of
               Send_failed e \<Rightarrow>
                 if transient e then send_loop c connection_error evs delta left taken
                 else Some (connection_error, taken)
             | Sent n \<Rightarrow>
                 if length left < n then None
                 else send_loop c connection_error evs delta (drop n left) (taken @ take n left)))
      else Some (if left = [] then NONE else SEND_REQS_TIMEOUT, taken))"

declare send_loop.simps [simp del]

definition send_generic ::
  "config \<Rightarrow> bool option \<Rightarrow> (send_outcome \<times> u64) list \<Rightarrow> buf \<Rightarrow> error_code \<Rightarrow> nat \<Rightarrow> nat \<Rightarrow>
   (error_code \<times> buf) option"
where
  "send_generic c flags evs buffer connection_error min_len max_len =
     (if max_len < min_len \<or> min_len < 2 then None
      else if validate_config flags c True \<noteq> NONE
      then Some (validate_config flags c True, [])
      else do {
        len \<leftarrow> get16 buffer 0;
        if unat len < min_len \<or> max_len < unat len then Some (MALFORMED_MESSAGE, [])
        else do {
          bytes \<leftarrow> read_at buffer 0 (unat len);
          send_loop c connection_error evs 0 bytes []
        }
      })"

text \<open>What the socket took is a prefix of the message, and all of it on success.\<close>

lemma send_loop_prefix:
  "send_loop c e evs delta left taken = Some (ec, out) \<Longrightarrow>
   \<exists>rest. taken @ left = out @ rest \<and> (ec = NONE \<longrightarrow> e \<noteq> NONE \<longrightarrow> rest = []) \<and>
     ec \<in> {NONE, SEND_REQS_TIMEOUT, e}"
proof (induction evs arbitrary: delta left taken)
  case Nil
  then show ?case by (subst (asm) send_loop.simps) (auto split: if_splits)
next
  case (Cons ev evs)
  obtain outcome t where ev: "ev = (outcome, t)" by force
  show ?case
  proof (cases "left \<noteq> [] \<and> (\<not> use_timeout c \<or> delta < timeout c)")
    case False
    then show ?thesis
      using Cons.prems by (subst (asm) send_loop.simps) (auto split: if_splits)
  next
    case True
    let ?d = "if use_timeout c then t else delta"
    show ?thesis
    proof (cases outcome)
      case (Send_failed x)
      then show ?thesis
        using Cons.prems True ev Cons.IH [of ?d left taken]
        by (subst (asm) send_loop.simps) (auto simp: Let_def split: if_splits)
    next
      case (Sent n)
      then have "send_loop c e evs ?d (drop n left) (taken @ take n left) = Some (ec, out)"
        using Cons.prems True ev
        by (subst (asm) send_loop.simps) (auto simp: Let_def split: if_splits)
      then show ?thesis using Cons.IH [of ?d "drop n left" "taken @ take n left"] by simp
    qed
  qed
qed

text \<open>
  A blocking send returns as soon as the socket has taken every byte, whatever transient
  failures and partial sends come before: \<open>progress\<close> counts the bytes the outcomes take.
\<close>

fun progress :: "(send_outcome \<times> u64) list \<Rightarrow> nat" where
  "progress [] = 0"
| "progress ((Sent n, _) # evs) = n + progress evs"
| "progress ((Send_failed _, _) # evs) = progress evs"

definition no_send_error :: "(send_outcome \<times> u64) list \<Rightarrow> bool" where
  "no_send_error evs \<longleftrightarrow> (\<forall>e t. (Send_failed e, t) \<in> set evs \<longrightarrow> transient e)"

lemma send_loop_blocking:
  assumes "block c"
  shows "no_send_error evs \<Longrightarrow> progress evs = length left \<Longrightarrow>
    send_loop c e evs delta left taken = Some (NONE, taken @ left)"
proof (induction evs arbitrary: left taken)
  case Nil
  then show ?case by (subst send_loop.simps) simp
next
  case (Cons ev evs)
  obtain outcome t where ev: "ev = (outcome, t)" by force
  have c: "\<not> use_timeout c" using assms by (simp add: block_def use_timeout_def)
  show ?case
  proof (cases "left = []")
    case True
    then show ?thesis by (subst send_loop.simps) simp
  next
    case False
    then show ?thesis
      using Cons.prems c ev Cons.IH [of left taken]
        Cons.IH [of "drop n left" "taken @ take n left" for n]
      by (subst send_loop.simps) (cases outcome; auto simp: Let_def no_send_error_def)
  qed
qed

subsection \<open>Receiving\<close>

text \<open>
  The kernel's receive buffer: a call of \<open>recv\<close> finds the bytes left over and those that
  arrived in the meantime, and returns up to the requested number of them, without removing
  them under MSG_PEEK; with nothing to return it fails with EAGAIN, or returns 0 when the peer
  has closed.
\<close>

datatype arrival = Arrive buf | Peer_closed | Recv_failed errno

datatype recv_outcome = Rc_bytes buf | Rc_error errno

definition sock_recv :: "bool \<Rightarrow> nat \<Rightarrow> buf \<Rightarrow> arrival \<Rightarrow> recv_outcome \<times> buf" where
  "sock_recv peek n pending a = (case a of
     Recv_failed e \<Rightarrow> (Rc_error e, pending)
   | Peer_closed \<Rightarrow> (Rc_bytes (take n pending), if peek then pending else drop n pending)
   | Arrive bs \<Rightarrow>
       let pending = pending @ bs in
       if pending = [] then (Rc_error EAGAIN, pending)
       else (Rc_bytes (take n pending), if peek then pending else drop n pending))"

text \<open>The locals of \<open>recv_generic\<close>; \<open>pos\<close> is how far the buffer pointer has advanced.\<close>

record recv_state =
  peek :: bool
  recv_started :: bool
  expected_size :: nat
  msg_length :: nat
  buffer :: buf
  pos :: nat
  delta_ms :: u64

text \<open>One iteration, given what \<open>recv\<close> returned: a final code, or the next state.\<close>

definition recv_step ::
  "config \<Rightarrow> error_code \<Rightarrow> nat \<Rightarrow> nat \<Rightarrow> recv_outcome \<Rightarrow> recv_state \<Rightarrow>
   ((error_code \<times> recv_state) + recv_state) option"
where
  "recv_step c connection_error min_len max_len outcome s = (case outcome of
     Rc_error e \<Rightarrow>
       if \<not> transient e then Some (Inl (connection_error, s))
       else if try_once c then Some (Inl (RECV_ZERO_PENDING, s))
       else Some (Inr s)
   | Rc_bytes bs \<Rightarrow> do {
       b \<leftarrow> write_at (buffer s) (pos s) bs;
       let s = s\<lparr>buffer := b\<rparr>;
       if bs = [] then Some (Inl (connection_error, s))
       else if msg_length s = 0 then
         (if length bs = expected_size s then do {
            len \<leftarrow> get16 b (pos s);
            if unat len < min_len \<or> max_len < unat len
            then Some (Inl (MALFORMED_MESSAGE, s\<lparr>msg_length := unat len\<rparr>))
            else Some (Inr (s\<lparr>msg_length := unat len, expected_size := unat len,
                              peek := (if block c then False else peek s)\<rparr>))
          }
          else if try_once c then Some (Inl (RECV_ZERO_PENDING, s))
          else Some (Inr s))
       else if try_once c \<or> (use_timeout c \<and> \<not> recv_started s) then
         (if length bs = expected_size s then
            (if \<not> recv_started s then Some (Inr (s\<lparr>peek := False, recv_started := True\<rparr>))
             else Some (Inl (NONE, s)))
          else if try_once c
          then Some (Inl (if recv_started s then connection_error else RECV_ZERO_PENDING, s))
          else Some (Inr s))
       else
         (let s = s\<lparr>recv_started := True, expected_size := expected_size s - length bs,
                    pos := pos s + length bs\<rparr> in
          if expected_size s = 0 then Some (Inl (NONE, s)) else Some (Inr s))
     })"

text \<open>
  What becomes of a call: it returns, it still waits when the outcomes end, or it has failed an
  assert or left its buffer.
\<close>

datatype 'a call = Returns 'a | Waits | Faults

fun returned :: "'a call \<Rightarrow> 'a option" where
  "returned (Returns x) = Some x"
| "returned _ = None"

lemma map_call_eq_Returns: "map_call f m = Returns y \<longleftrightarrow> (\<exists>x. m = Returns x \<and> y = f x)"
  by (cases m) auto

lemma returned_iff [simp]: "returned m = Some x \<longleftrightarrow> m = Returns x"
  by (cases m) simp_all

text \<open>The loop: the code, the final state (with the buffer) and what is left in the kernel.\<close>

fun recv_loop ::
  "config \<Rightarrow> error_code \<Rightarrow> nat \<Rightarrow> nat \<Rightarrow> (arrival \<times> u64) list \<Rightarrow> buf \<Rightarrow> recv_state \<Rightarrow>
   (error_code \<times> recv_state \<times> buf) call"
where
  "recv_loop c connection_error min_len max_len evs pending s =
     (if \<not> use_timeout c \<or> delta_ms s < timeout c
      then (case evs of
          [] \<Rightarrow> Waits
        | (a, t) # evs \<Rightarrow>
            (let (outcome, pending) = sock_recv (peek s) (expected_size s) pending a in
             (case recv_step c connection_error min_len max_len outcome s of
                None \<Rightarrow> Faults
              | Some (Inl (ec, s)) \<Rightarrow> Returns (ec, s, pending)
              | Some (Inr s) \<Rightarrow>
                  recv_loop c connection_error min_len max_len evs pending
                    (if use_timeout c then s\<lparr>delta_ms := t\<rparr> else s))))
      else Returns (if recv_started s then RECV_WAIT_TIMEOUT else RECV_ZERO_PENDING, s, pending))"

declare recv_loop.simps [simp del]

definition recv_init :: "buf \<Rightarrow> recv_state" where
  "recv_init b = \<lparr>peek = True, recv_started = False, expected_size = 2, msg_length = 0,
     buffer = b, pos = 0, delta_ms = 0\<rparr>"

definition recv_generic ::
  "config \<Rightarrow> bool option \<Rightarrow> (arrival \<times> u64) list \<Rightarrow> buf \<Rightarrow> buf \<Rightarrow> error_code \<Rightarrow> nat \<Rightarrow> nat \<Rightarrow>
   (error_code \<times> buf \<times> buf) call"
where
  "recv_generic c flags evs pending b connection_error min_len max_len =
     (if max_len < min_len \<or> min_len < 2 then Faults
      else if validate_config flags c False \<noteq> NONE
      then Returns (validate_config flags c False, b, pending)
      else map_call (\<lambda>(ec, s, pending). (ec, buffer s, pending))
        (recv_loop c connection_error min_len max_len evs pending (recv_init b)))"

subsection \<open>What the receive loop maintains\<close>

text \<open>
  The stream a connection delivers: what was pending and what arrives. \<open>recv_ok S s p\<close> relates
  the stream \<open>S\<close> up to now, the locals and the pending bytes: before the consuming phase
  nothing has been removed; in it the bytes removed are the first bytes of the stream and lie
  in the buffer.
\<close>

definition arrived :: "arrival \<Rightarrow> buf" where
  "arrived a = (case a of Arrive bs \<Rightarrow> bs | _ \<Rightarrow> [])"

lemma arrived_Arrive: "arrived (Arrive bs) = bs"
  by (simp add: arrived_def)

definition stream :: "(arrival \<times> 't) list \<Rightarrow> buf" where
  "stream evs = concat (map (arrived \<circ> fst) evs)"

definition frame_len :: "buf \<Rightarrow> nat" where
  "frame_len S = unat (rd16 S 0)"

definition recv_ok :: "config \<Rightarrow> nat \<Rightarrow> nat \<Rightarrow> nat \<Rightarrow> buf \<Rightarrow> recv_state \<Rightarrow> buf \<Rightarrow> bool" where
  "recv_ok c min_len max_len room S s pending \<longleftrightarrow>
     2 \<le> min_len \<and> min_len \<le> max_len \<and> max_len \<le> room \<and> length (buffer s) = room \<and>
     (if msg_length s = 0
      then peek s \<and> \<not> recv_started s \<and> expected_size s = 2 \<and> pos s = 0 \<and> pending = S
      else 2 \<le> length S \<and> msg_length s = frame_len S \<and>
           min_len \<le> msg_length s \<and> msg_length s \<le> max_len \<and>
           (if peek s
            then \<not> block c \<and> \<not> recv_started s \<and> pos s = 0 \<and>
                 expected_size s = msg_length s \<and> pending = S
            else (\<not> block c \<longrightarrow> recv_started s) \<and>
                 (block c \<longrightarrow> recv_started s = (pos s \<noteq> 0)) \<and>
                 pos s + expected_size s = msg_length s \<and> 0 < expected_size s \<and>
                 (try_once c \<longrightarrow> pos s = 0 \<and> msg_length s \<le> length S) \<and>
                 take (pos s) (buffer s) = take (pos s) S \<and> pos s \<le> length S \<and>
                 pending = drop (pos s) S))"

text \<open>What a final code says about the buffer and about the bytes left in the kernel.\<close>

definition recv_post :: "nat \<Rightarrow> nat \<Rightarrow> error_code \<Rightarrow> error_code \<Rightarrow> buf \<Rightarrow> buf \<Rightarrow> buf \<Rightarrow> bool" where
  "recv_post min_len max_len e ec S b pending \<longleftrightarrow>
     (ec = NONE \<and> min_len \<le> frame_len S \<and> frame_len S \<le> max_len \<and> frame_len S \<le> length S \<and>
        take (frame_len S) b = take (frame_len S) S \<and> pending = drop (frame_len S) S) \<or>
     (ec = RECV_ZERO_PENDING \<and> pending = S) \<or>
     (ec = MALFORMED_MESSAGE \<and> pending = S \<and> 2 \<le> length S \<and>
        (frame_len S < min_len \<or> max_len < frame_len S)) \<or>
     (ec = RECV_WAIT_TIMEOUT \<and> (\<exists>k < frame_len S. pending = drop k S)) \<or>
     (ec = e \<and> (\<exists>k. pending = drop k S))"

lemma recv_ok_more: "recv_ok c mn mx room S s p \<Longrightarrow> recv_ok c mn mx room (S @ x) s (p @ x)"
  by (auto simp: recv_ok_def frame_len_def split: if_splits)

lemma sock_recv_cases:
  assumes "sock_recv pk n p a = (r, p')"
  shows "(\<exists>e. r = Rc_error e \<and> p' = p @ arrived a) \<or>
    (r = Rc_bytes (take n (p @ arrived a)) \<and>
     p' = (if pk then p @ arrived a else drop n (p @ arrived a)))"
proof (cases a)
  case (Arrive bs)
  then show ?thesis
    using assms by (cases "p @ bs = []") (auto simp: sock_recv_def arrived_def Let_def)
qed (use assms in \<open>auto simp: sock_recv_def arrived_def\<close>)

lemma recv_ok_dropped: "recv_ok c mn mx room S s p \<Longrightarrow> \<exists>k. p = drop k S"
  by (auto simp: recv_ok_def split: if_splits intro: exI [of _ 0])

lemma recv_ok_try_once: "recv_ok c mn mx room S s p \<Longrightarrow> try_once c \<Longrightarrow> p = S"
  by (auto simp: recv_ok_def split: if_splits)

lemma recv_step_error:
  assumes "recv_ok c mn mx room S s p"
  shows "\<exists>r. recv_step c e mn mx (Rc_error x) s = Some r \<and>
    (case r of Inr s' \<Rightarrow> s' = s | Inl (ec, s') \<Rightarrow> recv_post mn mx e ec S (buffer s') p)"
  using recv_ok_dropped [OF assms] recv_ok_try_once [OF assms]
  by (auto simp: recv_step_def recv_post_def)

text \<open>The three phases of an iteration that received bytes.\<close>

lemma recv_step_length:
  assumes ok: "recv_ok c mn mx room S s S" and m: "msg_length s = 0"
  shows "\<exists>r. recv_step c e mn mx (Rc_bytes (take (expected_size s) S)) s = Some r \<and>
    (case r of Inr s' \<Rightarrow> recv_ok c mn mx room S s' S
     | Inl (ec, s') \<Rightarrow> recv_post mn mx e ec S (buffer s') S)"
proof -
  have s: "expected_size s = 2" "pos s = 0" "peek s" "\<not> recv_started s" "length (buffer s) = room"
    and mn: "2 \<le> mn" "mn \<le> mx" "mx \<le> room"
    using ok m by (auto simp: recv_ok_def)
  let ?b = "splice (buffer s) 0 (take 2 S)"
  have w: "write_at (buffer s) 0 (take 2 S) = Some ?b" and l: "length ?b = room"
    using s mn by (simp_all add: write_at_Some)
  show ?thesis
  proof (cases "2 \<le> length S")
    case False
    then show ?thesis
      using s mn m w l
      by (auto simp: recv_step_def recv_post_def recv_ok_def Let_def min_def intro: exI [of _ 0])
  next
    case True
    then have "get16 ?b 0 = Some (rd16 S 0)"
      using l mn s by (simp add: get16_iff) (simp add: rd16_def slice_def splice_def)
    moreover have "S \<noteq> []" and "length (take 2 S) = 2" using True by auto
    ultimately show ?thesis
      using True s mn m w l modes (1) [of c]
      by (auto simp: recv_step_def recv_post_def recv_ok_def Let_def frame_len_def)
  qed
qed

lemma recv_step_peeked:
  assumes ok: "recv_ok c mn mx room S s S" and m: "msg_length s \<noteq> 0" and pk: "peek s"
    and e: "S \<noteq> []"
  shows "\<exists>r. recv_step c e mn mx (Rc_bytes (take (expected_size s) S)) s = Some r \<and>
    (case r of Inr s' \<Rightarrow> recv_ok c mn mx room S s' S
     | Inl (ec, s') \<Rightarrow> recv_post mn mx e ec S (buffer s') S)"
proof -
  have s: "expected_size s = frame_len S" "msg_length s = frame_len S" "pos s = 0"
      "\<not> recv_started s" "length (buffer s) = room" "\<not> block c"
    and mn: "2 \<le> mn" "mn \<le> mx" "mx \<le> room" "mn \<le> frame_len S" "frame_len S \<le> mx" "2 \<le> length S"
    using ok m pk by (auto simp: recv_ok_def)
  let ?b = "splice (buffer s) 0 (take (frame_len S) S)"
  have w: "write_at (buffer s) 0 (take (frame_len S) S) = Some ?b" and l: "length ?b = room"
    using s mn by (simp_all add: write_at_Some)
  have "try_once c \<or> use_timeout c" using modes (4) [of c] s by blast
  moreover have "length (take (frame_len S) S) = frame_len S \<longleftrightarrow> frame_len S \<le> length S" by auto
  ultimately show ?thesis
    using s mn m pk w l e
    by (auto simp: recv_step_def recv_post_def recv_ok_def Let_def)
qed

lemma recv_step_consume:
  assumes ok: "recv_ok c mn mx room S s P" and m: "msg_length s \<noteq> 0" and pk: "\<not> peek s"
  shows "\<exists>r. recv_step c e mn mx (Rc_bytes (take (expected_size s) P)) s = Some r \<and>
    (case r of Inr s' \<Rightarrow> recv_ok c mn mx room S s' (drop (expected_size s) P)
     | Inl (ec, s') \<Rightarrow> recv_post mn mx e ec S (buffer s') (drop (expected_size s) P))"
proof -
  let ?L = "frame_len S" and ?n = "expected_size s" and ?p = "pos s"
  have s: "msg_length s = ?L" "?p + ?n = ?L" "0 < ?n" "?p \<le> length S" "length (buffer s) = room"
      "P = drop ?p S" "take ?p (buffer s) = take ?p S" "\<not> block c \<longrightarrow> recv_started s"
      "try_once c \<longrightarrow> ?p = 0 \<and> ?L \<le> length S"
    and mn: "2 \<le> mn" "mn \<le> mx" "mx \<le> room" "mn \<le> ?L" "?L \<le> mx" "2 \<le> length S"
    using ok m pk by (auto simp: recv_ok_def)
  let ?bs = "take ?n P" and ?b = "splice (buffer s) ?p (take ?n P)"
  have fits: "?p + length ?bs \<le> length (buffer s)" using s mn by simp
  then have w: "write_at (buffer s) ?p ?bs = Some ?b" and l: "length ?b = room"
    using s by (simp_all add: write_at_Some)
  have front: "take (?p + length ?bs) ?b = take (?p + length ?bs) S"
    using s fits by (simp add: splice_def take_add)
  have rest: "drop ?n P = drop (?p + length ?bs) S"
    using s by (cases "?n \<le> length P") (auto simp: min_def add.commute)
  show ?thesis
  proof (cases "?bs = []")
    case True
    then show ?thesis using w s by (auto simp: recv_step_def recv_post_def)
  next
    case False
    show ?thesis
    proof (cases "try_once c")
      case True
      then have "length ?bs = ?n" and "?p = 0" and "?n = ?L" using s by auto
      moreover have "recv_started s" using True s modes (1) [of c] by blast
      ultimately show ?thesis
        using True False w l s mn m front rest
        by (simp add: recv_step_def recv_post_def)
    next
      case False2: False
      have "length ?bs \<le> ?n" by simp
      moreover have "\<not> (use_timeout c \<and> \<not> recv_started s)" using s modes (2) [of c] by blast
      ultimately show ?thesis
        using False False2 w l s mn m pk front rest
        by (auto simp: recv_step_def recv_post_def recv_ok_def Let_def)
    qed
  qed
qed

lemma recv_iteration:
  assumes ok: "recv_ok c mn mx room S s p"
    and r: "sock_recv (peek s) (expected_size s) p a = (outcome, p')"
  shows "\<exists>r. recv_step c e mn mx outcome s = Some r \<and>
    (case r of Inr s' \<Rightarrow> recv_ok c mn mx room (S @ arrived a) s' p'
     | Inl (ec, s') \<Rightarrow> recv_post mn mx e ec (S @ arrived a) (buffer s') p')"
proof -
  let ?S = "S @ arrived a" and ?P = "p @ arrived a"
  have ok': "recv_ok c mn mx room ?S s ?P" using recv_ok_more [OF ok] .
  from sock_recv_cases [OF r] show ?thesis
  proof (elim disjE conjE exE)
    fix x assume "outcome = Rc_error x" and "p' = ?P"
    then show ?thesis using recv_step_error [OF ok', of e x] ok' by (auto split: sum.splits)
  next
    assume o: "outcome = Rc_bytes (take (expected_size s) ?P)"
      and p': "p' = (if peek s then ?P else drop (expected_size s) ?P)"
    consider "msg_length s = 0" | "msg_length s \<noteq> 0" "peek s" | "msg_length s \<noteq> 0" "\<not> peek s"
      by blast
    then show ?thesis
    proof cases
      case 1
      then have "?P = ?S" and "peek s" using ok' by (auto simp: recv_ok_def)
      then show ?thesis unfolding o p' using recv_step_length [of c mn mx room ?S s e] ok' 1 by auto
    next
      case 2
      then have "?P = ?S" and "?S \<noteq> []" using ok' by (auto simp: recv_ok_def)
      then show ?thesis unfolding o p' using recv_step_peeked [of c mn mx room ?S s e] ok' 2 by auto
    next
      case 3
      then show ?thesis unfolding o p' using recv_step_consume [OF ok' 3, of e] by simp
    qed
  qed
qed

lemma recv_ok_delta [simp]: "recv_ok c mn mx room S (s\<lparr>delta_ms := t\<rparr>) p = recv_ok c mn mx room S s p"
  by (simp add: recv_ok_def)

lemma recv_timed_out:
  assumes "recv_ok c mn mx room S s p" and "use_timeout c"
  shows "recv_post mn mx e (if recv_started s then RECV_WAIT_TIMEOUT else RECV_ZERO_PENDING) S (buffer s) p"
  using assms modes (2) [of c]
  by (auto simp: recv_ok_def recv_post_def split: if_splits intro: exI [of _ "pos s"])

text \<open>Calls of a try-once receive that may still follow.\<close>

definition calls_left :: "recv_state \<Rightarrow> nat" where
  "calls_left s = (if msg_length s = 0 then 3 else if recv_started s then 1 else 2)"

lemma calls_left_delta: "calls_left (if u then s\<lparr>delta_ms := t\<rparr> else s) = calls_left s"
  by (simp add: calls_left_def)

lemma try_once_progress:
  assumes "recv_step c e mn mx outcome s = Some (Inr s')" and "try_once c" and "0 < mn"
  shows "calls_left s' < calls_left s"
  using assms
  by (cases outcome)
     (auto simp: recv_step_def calls_left_def Let_def bind_eq_Some_conv split: if_splits)

lemma recv_step_room:
  "recv_step c e mn mx outcome s = Some r \<Longrightarrow>
   length (buffer (case r of Inl x \<Rightarrow> snd x | Inr s' \<Rightarrow> s')) = length (buffer s)"
  by (auto simp: recv_step_def Let_def bind_eq_Some_conv write_at_def split: recv_outcome.splits if_splits)

text \<open>
  How the loop ends: it never faults; it waits only when all outcomes are used up, and a
  try-once receive makes at most three calls; a code it returns is right about the stream.
\<close>

lemma recv_loop_ends:
  "recv_ok c mn mx room S s p \<Longrightarrow> (case recv_loop c e mn mx evs p s of
     Faults \<Rightarrow> False
   | Waits \<Rightarrow> try_once c \<longrightarrow> length evs < calls_left s
   | Returns (ec, s', p') \<Rightarrow> length (buffer s') = length (buffer s) \<and>
       (\<exists>k. recv_post mn mx e ec (S @ stream (take k evs)) (buffer s') p'))"
proof (induction evs arbitrary: S s p)
  case Nil
  then show ?case
    using recv_timed_out [OF Nil.prems, of e]
    by (subst recv_loop.simps) (auto simp: stream_def calls_left_def)
next
  case (Cons ev evs)
  obtain a t where ev: "ev = (a, t)" by force
  obtain oc p1 where o: "sock_recv (peek s) (expected_size s) p a = (oc, p1)" by force
  from recv_iteration [OF Cons.prems o, of e] obtain r
    where r: "recv_step c e mn mx oc s = Some r"
      and post: "case r of Inr s' \<Rightarrow> recv_ok c mn mx room (S @ arrived a) s' p1
        | Inl (ec, s') \<Rightarrow> recv_post mn mx e ec (S @ arrived a) (buffer s') p1" by blast
  show ?case
  proof (cases "\<not> use_timeout c \<or> delta_ms s < timeout c")
    case False
    then show ?thesis
      using recv_timed_out [OF Cons.prems, of e]
      by (subst recv_loop.simps) (auto simp: stream_def intro: exI [of _ 0])
  next
    case True
    show ?thesis
    proof (cases r)
      case (Inl x)
      obtain ec s' where x: "x = (ec, s')" by force
      then have "recv_post mn mx e ec (S @ stream (take 1 (ev # evs))) (buffer s') p1"
        using post Inl by (simp add: ev stream_def)
      then have "\<exists>k. recv_post mn mx e ec (S @ stream (take k (ev # evs))) (buffer s') p1" by blast
      then show ?thesis
        using True r o Inl x recv_step_room [OF r] by (subst recv_loop.simps) (simp add: ev)
    next
      case (Inr s1)
      let ?s1 = "if use_timeout c then s1\<lparr>delta_ms := t\<rparr> else s1"
      have ok1: "recv_ok c mn mx room (S @ arrived a) ?s1 p1" using post Inr by simp
      have run: "recv_loop c e mn mx (ev # evs) p s = recv_loop c e mn mx evs p1 ?s1"
        using True r o Inr by (subst recv_loop.simps) (auto simp: ev)
      have len: "length (buffer ?s1) = length (buffer s)" using recv_step_room [OF r] Inr by simp
      have "0 < mn" using Cons.prems by (simp add: recv_ok_def)
      then have less: "calls_left ?s1 < calls_left s" if "try_once c"
        using try_once_progress [of c e mn mx oc s s1] r Inr that by (simp add: calls_left_delta)
      show ?thesis
      proof (cases "recv_loop c e mn mx evs p1 ?s1")
        case (Returns y)
        obtain ec s' p' where y: "y = (ec, s', p')" by (cases y) auto
        from Cons.IH [OF ok1] obtain k
          where "recv_post mn mx e ec ((S @ arrived a) @ stream (take k evs)) (buffer s') p'"
            and "length (buffer s') = length (buffer ?s1)" unfolding Returns y by auto
        then have "recv_post mn mx e ec (S @ stream (take (Suc k) (ev # evs))) (buffer s') p' \<and>
            length (buffer s') = length (buffer s)" using len by (simp add: ev stream_def)
        then show ?thesis unfolding run Returns y call.case prod.case by blast
      next
        case Waits
        then show ?thesis using Cons.IH [OF ok1] less unfolding run Waits by fastforce
      next
        case Faults
        then show ?thesis using Cons.IH [OF ok1] by simp
      qed
    qed
  qed
qed

lemma recv_loop_post:
  "recv_ok c mn mx room S s p \<Longrightarrow> recv_loop c e mn mx evs p s = Returns (ec, s', p') \<Longrightarrow>
   \<exists>k. recv_post mn mx e ec (S @ stream (take k evs)) (buffer s') p'"
  using recv_loop_ends [of c mn mx room S s p e evs] by simp

subsection \<open>Framing\<close>

lemma recv_init_ok:
  "2 \<le> mn \<Longrightarrow> mn \<le> mx \<Longrightarrow> mx \<le> length b \<Longrightarrow> recv_ok c mn mx (length b) p (recv_init b) p"
  by (simp add: recv_ok_def recv_init_def)


text \<open>A blocking receive, iteration by iteration.\<close>

lemma blocking_start:
  assumes c: "block c" and ok: "recv_ok c mn mx room S s p" and m: "msg_length s = 0"
    and T: "2 \<le> length T" "mn \<le> frame_len T" "frame_len T \<le> mx" and S: "S @ arrived a @ rest = T"
    and r: "recv_step c e mn mx (fst (sock_recv (peek s) (expected_size s) p a)) s = Some r"
    and a: "a = Arrive bs"
  shows "\<exists>s'. r = Inr s' \<and> (2 \<le> length (S @ bs) \<longrightarrow> msg_length s' \<noteq> 0)"
proof -
  have s: "peek s" "expected_size s = 2" "pos s = 0" "p = S" "length (buffer s) = room"
    and mn: "2 \<le> mn" "mx \<le> room" "mn \<le> mx" using ok m by (auto simp: recv_ok_def)
  have t: "\<not> try_once c" using c modes by blast
  show ?thesis
  proof (cases "S @ bs = []")
    case True
    then show ?thesis
      using r t a s by (auto simp: sock_recv_def Let_def recv_step_def transient_def)
  next
    case False
    let ?bs = "take 2 (S @ bs)"
    let ?b = "splice (buffer s) 0 ?bs"
    have w: "write_at (buffer s) 0 ?bs = Some ?b" using s mn by (simp add: write_at_Some)
    have o: "fst (sock_recv (peek s) (expected_size s) p a) = Rc_bytes ?bs"
      using False s a by (simp add: sock_recv_def Let_def)
    show ?thesis
    proof (cases "2 \<le> length (S @ bs)")
      case False2: False
      then show ?thesis
        using r False s m t w unfolding o by (auto simp: recv_step_def min_def)
    next
      case True
      have "slice ?b 0 2 = ?bs" using True s mn by (intro slice_splice_same) auto
      then have "rd16 ?b 0 = rd16 (S @ bs) 0" by (simp add: rd16_def) (simp add: slice_def)
      also have "\<dots> = rd16 T 0" using True S a by (auto simp: arrived_def simp flip: append_assoc)
      finally have "get16 ?b 0 = Some (rd16 T 0)" using s mn by (simp add: get16_iff)
      moreover have "length ?bs = 2" "?bs \<noteq> []" using True False by auto
      ultimately show ?thesis
        using r s m t w T(2,3) mn unfolding o
        by (auto simp: recv_step_def frame_len_def Let_def simp del: take_append)
    qed
  qed
qed

lemma blocking_consume:
  assumes c: "block c" and ok: "recv_ok c mn mx room S s p" and m: "msg_length s \<noteq> 0"
    and r: "recv_step c e mn mx (fst (sock_recv (peek s) (expected_size s) p (Arrive bs))) s = Some r"
  shows "if frame_len S \<le> length (S @ bs) then \<exists>s'. r = Inl (NONE, s')
    else \<exists>s'. r = Inr s' \<and> msg_length s' \<noteq> 0"
proof -
  let ?n = "expected_size s" and ?P = "p @ bs"
  have pk: "\<not> peek s" and p: "p = drop (pos s) S" and n: "0 < ?n" "pos s + ?n = frame_len S"
    and l: "pos s \<le> length S"
    using ok m c by (auto simp: recv_ok_def split: if_splits)
  have t: "\<not> try_once c" "\<not> use_timeout c" using c modes by blast+
  have enough: "frame_len S \<le> length (S @ bs) \<longleftrightarrow> ?n \<le> length ?P" using p n l by auto
  show ?thesis
  proof (cases "?P = []")
    case True
    then have "r = Inr s"
      using r t pk by (simp add: sock_recv_def recv_step_def transient_def)
    then show ?thesis using True enough n m by auto
  next
    case False
    then have "fst (sock_recv (peek s) ?n p (Arrive bs)) = Rc_bytes (take ?n ?P)"
      by (simp add: sock_recv_def Let_def del: take_append append_is_Nil_conv)
    then show ?thesis
      using r False t m n enough by (auto simp: recv_step_def Let_def bind_eq_Some_conv min_def
          split: if_splits)
  qed
qed

lemma recv_blocking_step:
  assumes "block c" and "recv_ok c mn mx room S s p"
    and "recv_step c e mn mx (fst (sock_recv (peek s) (expected_size s) p (Arrive bs))) s = Some r"
  shows "recv_loop c e mn mx ((Arrive bs, t) # evs) p s = (case r of
      Inl (ec, s') \<Rightarrow> Returns (ec, s', snd (sock_recv (peek s) (expected_size s) p (Arrive bs)))
    | Inr s' \<Rightarrow> recv_loop c e mn mx evs (snd (sock_recv (peek s) (expected_size s) p (Arrive bs))) s')"
  using assms modes (2) [of c]
  by (subst recv_loop.simps) (auto simp: case_prod_beta split: sum.split)

definition all_arrive :: "(arrival \<times> u64) list \<Rightarrow> bool" where
  "all_arrive evs \<longleftrightarrow> (\<forall>a \<in> set evs. \<exists>bs. fst a = Arrive bs)"

lemma frame_len_prefix: "2 \<le> length S \<Longrightarrow> frame_len (S @ x) = frame_len S"
  by (simp add: frame_len_def)

lemma recv_blocking_cases:
  assumes c: "block c" and ok: "recv_ok c mn mx room S s p"
    and T: "2 \<le> length T" "mn \<le> frame_len T" "frame_len T \<le> mx" and S: "S @ bs @ rest = T"
  obtains (finished) s' p' where
      "recv_loop c e mn mx ((Arrive bs, t) # evs) p s = Returns (NONE, s', p')"
  | (more) s' p' where
      "recv_loop c e mn mx ((Arrive bs, t) # evs) p s = recv_loop c e mn mx evs p' s'"
      and "recv_ok c mn mx room (S @ bs) s' p'"
      and "2 \<le> length (S @ bs) \<longrightarrow> msg_length s' \<noteq> 0"
      and "msg_length s = 0 \<or> length (S @ bs) < frame_len T"
proof -
  obtain oc p1 where o: "sock_recv (peek s) (expected_size s) p (Arrive bs) = (oc, p1)" by force
  from recv_iteration [OF ok o, of e] obtain r where r: "recv_step c e mn mx oc s = Some r"
    and post: "case r of Inr s' \<Rightarrow> recv_ok c mn mx room (S @ bs) s' p1
      | Inl (ec, s') \<Rightarrow> recv_post mn mx e ec (S @ bs) (buffer s') p1"
    unfolding arrived_Arrive by blast
  have loop: "recv_loop c e mn mx ((Arrive bs, t) # evs) p s = (case r of
      Inl (ec, s') \<Rightarrow> Returns (ec, s', p1) | Inr s' \<Rightarrow> recv_loop c e mn mx evs p1 s')"
    using recv_blocking_step [OF c ok, of e bs r] r o by (simp split: sum.split)
  show ?thesis
  proof (cases "msg_length s = 0")
    case True
    then obtain s' where "r = Inr s'" and "2 \<le> length (S @ bs) \<longrightarrow> msg_length s' \<noteq> 0"
      using blocking_start [OF c ok True T, of "Arrive bs" rest e r bs] r o S
      by (auto simp: arrived_def)
    then show ?thesis using more [of p1 s'] loop post True by simp
  next
    case False
    then have l: "2 \<le> length S" using ok by (auto simp: recv_ok_def split: if_splits)
    then have "frame_len S = frame_len T" using S frame_len_prefix [OF l, of "bs @ rest"] by simp
    then show ?thesis
      using blocking_consume [OF c ok False, of e bs r] r o loop post finished more [of p1] l
      by (auto split: if_splits)
  qed
qed

lemma recv_blocking:
  assumes c: "block c" and T: "2 \<le> length T" "mn \<le> frame_len T" "frame_len T \<le> mx" "frame_len T \<le> length T"
  shows "all_arrive evs \<Longrightarrow> recv_ok c mn mx room S s p \<Longrightarrow> S @ stream evs = T \<Longrightarrow>
    \<exists>s' p'. recv_loop c e mn mx (evs @ [(Arrive [], t1), (Arrive [], t2)]) p s = Returns (NONE, s', p')"
proof (induction evs arbitrary: S s p)
  case Nil
  then have S: "S @ [] @ [] = T" by (simp add: stream_def)
  from recv_blocking_cases [OF c Nil.prems(2) T(1-3) S, of e t1 "[(Arrive [], t2)]"]
  show ?case
  proof cases
    case 1
    then show ?thesis by simp
  next
    case (2 s' p')
    then have ok: "recv_ok c mn mx room T s' p'" and m: "msg_length s' \<noteq> 0" using S T(1) by auto
    have T2: "T @ [] @ [] = T" by simp
    from recv_blocking_cases [OF c ok T(1-3) T2, of e t2 "[]"]
    have "\<exists>s'' p''. recv_loop c e mn mx [(Arrive [], t2)] p' s' = Returns (NONE, s'', p'')"
      using m T(4) by cases auto
    then show ?thesis using 2(1) by simp
  qed
next
  case (Cons ev evs)
  obtain bs t where ev: "ev = (Arrive bs, t)" using Cons.prems(1) by (cases ev) (auto simp: all_arrive_def)
  have S: "S @ bs @ stream evs = T" and a: "all_arrive evs"
    using Cons.prems by (auto simp: ev stream_def arrived_def all_arrive_def)
  from recv_blocking_cases [OF c Cons.prems(2) T(1-3) S, of e t "evs @ [(Arrive [], t1), (Arrive [], t2)]"]
  show ?case
  proof cases
    case 1
    then show ?thesis by (simp add: ev)
  next
    case (2 s' p')
    then show ?thesis using Cons.IH [OF a, of "S @ bs" s' p'] S by (simp add: ev)
  qed
qed

lemma first_frame:
  assumes "A @ B = take n m @ l" and "n \<le> length m" and "n \<le> length A"
  shows "take n A = take n m" and "drop n A @ B = l"
proof -
  have "take n A @ (drop n A @ B) = take n m @ l"
    using assms(1) by (simp flip: append_assoc)
  then show "take n A = take n m" and "drop n A @ B = l" using assms(2,3) by simp_all
qed

text \<open>A blocking receive of the first message on the wire, however its bytes arrive.\<close>

lemma recv_blocking_frame:
  assumes limits: "2 \<le> mn" "mn \<le> mx" "mx \<le> length b" and e: "e \<noteq> NONE" and c: "block c"
    and m: "frame_len m \<le> length m" "mn \<le> frame_len m" "frame_len m \<le> mx"
    and wire: "all_arrive evs" "pending @ stream evs = take (frame_len m) m @ later"
  shows "\<exists>b' k left. recv_generic c (Some nb') (evs @ [(Arrive [], t1), (Arrive [], t2)]) pending b e mn mx =
      Returns (NONE, b', left) \<and>
    take (frame_len m) b' = take (frame_len m) m \<and> left @ stream (drop k evs) = later"
proof -
  let ?n = "frame_len m" and ?evs = "evs @ [(Arrive [], t1), (Arrive [], t2)]" and ?T = "pending @ stream evs"
  have two: "2 \<le> length m" using limits m by linarith
  have t: "\<not> try_once c" "\<not> use_timeout c" using c modes by blast+
  have n: "frame_len ?T = ?n" and long: "2 \<le> length ?T" "?n \<le> length ?T"
    using limits m two by (auto simp: wire(2) frame_len_def)
  obtain s' p' where r: "recv_loop c e mn mx ?evs pending (recv_init b) = Returns (NONE, s', p')"
    using recv_blocking [OF c long(1) _ _ _ wire(1) recv_init_ok [OF limits], of pending e t1 t2]
      m n long by auto
  obtain k where post: "recv_post mn mx e NONE (pending @ stream (take k ?evs)) (buffer s') p'"
    using recv_loop_post [OF recv_init_ok [OF limits] r] by auto
  let ?S = "pending @ stream (take k evs)"
  have "stream (take k ?evs) = stream (take k evs)"
    by (cases "k - length evs") (auto simp: stream_def arrived_def take_Cons' )
  then have S: "mn \<le> frame_len ?S" "frame_len ?S \<le> length ?S"
      "take (frame_len ?S) (buffer s') = take (frame_len ?S) ?S" "p' = drop (frame_len ?S) ?S"
    using post e by (auto simp: recv_post_def)
  have split: "?S @ stream (drop k evs) = ?T"
    by (simp add: stream_def flip: concat_append map_append)
  moreover have "2 \<le> length ?S" using S limits by linarith
  ultimately have "frame_len ?S = ?n" using frame_len_prefix [of ?S "stream (drop k evs)"] n by simp
  moreover from this have "take ?n ?S = take ?n m" and "drop ?n ?S @ stream (drop k evs) = later"
    using first_frame [OF split [unfolded wire(2)]] S(2) m(1) by simp_all
  ultimately have "take ?n (buffer s') = take ?n m" and "p' @ stream (drop k evs) = later"
    using S by simp_all
  moreover have "recv_generic c (Some nb') ?evs pending b e mn mx = Returns (NONE, buffer s', p')"
    using r t limits c by (simp add: recv_generic_def validate_config_def)
  ultimately show ?thesis by blast
qed

text \<open>
  C36. Framed transport end to end. A message whose length field is within the limits is sent in
  any number of pieces, with any transient failures; the bytes reach the receiver in any
  fragments, followed by those of later messages. Then a blocking send and a blocking receive
  both return success, the receiver's buffer starts with the message, byte for byte, and the
  socket still holds exactly the bytes behind it.
\<close>

theorem send_recv_roundtrip:
  assumes limits: "2 \<le> mn" "mn \<le> mx" "mx \<le> length b" and e: "e \<noteq> NONE"
    and m: "frame_len m \<le> length m" "mn \<le> frame_len m" "frame_len m \<le> mx"
    and send: "block c" "no_send_error outs" "progress outs = frame_len m"
    and wire: "all_arrive evs" "stream evs = take (frame_len m) m @ later"
  shows "\<exists>b' k left. send_generic c (Some nb) outs m e mn mx = Some (NONE, take (frame_len m) m) \<and>
    recv_generic c (Some nb') (evs @ [(Arrive [], t1), (Arrive [], t2)]) [] b e mn mx =
      Returns (NONE, b', left) \<and>
    take (frame_len m) b' = take (frame_len m) m \<and> left @ stream (drop k evs) = later"
proof -
  let ?n = "frame_len m"
  have t: "2 \<le> length m" "\<not> try_once c" "\<not> use_timeout c" using limits m modes send(1) by (linarith | blast)+
  then have "send_generic c (Some nb) outs m e mn mx = Some (NONE, take ?n m)"
    using limits m send send_loop_blocking [OF send(1,2), of "take ?n m" e 0 "[]"]
    by (simp add: send_generic_def validate_config_def get16_iff read_at_Some slice_def frame_len_def)
  moreover have "[] @ stream evs = take ?n m @ later" using wire(2) by simp
  ultimately show ?thesis
    using recv_blocking_frame [OF limits e send(1) m wire(1)] by blast
qed

subsection \<open>Receiving while nothing arrives\<close>

text \<open>
  A try-once receive during which no further byte arrives makes at most three calls and its
  result is a function of the pending bytes: the first message if it is complete, an error for
  a bad length, and otherwise nothing, with every byte left in place.
\<close>

definition quiet :: "(arrival \<times> u64) list" where
  "quiet = replicate 3 (Arrive [], 0)"

definition frame_complete :: "nat \<Rightarrow> nat \<Rightarrow> buf \<Rightarrow> bool" where
  "frame_complete mn mx P \<longleftrightarrow>
     2 \<le> length P \<and> mn \<le> frame_len P \<and> frame_len P \<le> mx \<and> frame_len P \<le> length P"

definition frame_malformed :: "nat \<Rightarrow> nat \<Rightarrow> buf \<Rightarrow> bool" where
  "frame_malformed mn mx P \<longleftrightarrow> 2 \<le> length P \<and> (frame_len P < mn \<or> mx < frame_len P)"

lemma get16_splice_front:
  "2 \<le> length xs \<Longrightarrow> length xs \<le> length b \<Longrightarrow> get16 (splice b 0 xs) 0 = Some (rd16 xs 0)"
  by (simp add: get16_iff) (simp add: rd16_def slice_def splice_def)

lemma sock_recv_quiet:
  "sock_recv pk n P (Arrive []) =
     (if P = [] then (Rc_error EAGAIN, P) else (Rc_bytes (take n P), if pk then P else drop n P))"
  by (simp add: sock_recv_def)

lemma once_first_call:
  assumes c: "try_once c" and b: "2 \<le> length b"
  shows "recv_loop c e mn mx ((Arrive [], t) # evs) P (recv_init b) =
    (let s = (recv_init b)\<lparr>buffer := splice b 0 (take 2 P)\<rparr> in
     if length P < 2 then Returns (RECV_ZERO_PENDING, if P = [] then recv_init b else s, P)
     else if frame_len P < mn \<or> mx < frame_len P
     then Returns (MALFORMED_MESSAGE, s\<lparr>msg_length := frame_len P\<rparr>, P)
     else recv_loop c e mn mx evs P (s\<lparr>msg_length := frame_len P, expected_size := frame_len P\<rparr>))"
proof -
  have t: "\<not> use_timeout c" "\<not> block c" using c modes by blast+
  consider "P = []" | "P \<noteq> []" "length P < 2" | "2 \<le> length P" by linarith
  then show ?thesis
  proof cases
    case 1
    then show ?thesis
      using c t by (subst recv_loop.simps)
        (simp add: sock_recv_quiet recv_init_def recv_step_def transient_def Let_def)
  next
    case 2
    then show ?thesis
      using c t b by (subst recv_loop.simps)
        (simp add: sock_recv_quiet recv_init_def recv_step_def Let_def write_at_Some)
  next
    case 3
    moreover have "P \<noteq> []" and "length (take 2 P) = 2" using 3 by auto
    moreover have "get16 (splice b 0 (take 2 P)) 0 = Some (rd16 P 0)"
      using 3 b by (subst get16_splice_front) auto
    ultimately show ?thesis
      using c t b by (subst recv_loop.simps)
        (simp add: sock_recv_quiet recv_init_def recv_step_def Let_def write_at_Some frame_len_def)
  qed
qed

lemma once_second_call:
  assumes c: "try_once c" and n: "0 < n" "n \<le> length (buffer s)" and P: "P \<noteq> []"
    and s: "peek s" "\<not> recv_started s" "expected_size s = n" "msg_length s = n" "pos s = 0"
  shows "recv_loop c e mn mx ((Arrive [], t) # evs) P s =
    (let s = s\<lparr>buffer := splice (buffer s) 0 (take n P)\<rparr> in
     if n \<le> length P then recv_loop c e mn mx evs P (s\<lparr>peek := False, recv_started := True\<rparr>)
     else Returns (RECV_ZERO_PENDING, s, P))"
proof -
  have t: "\<not> use_timeout c" using c modes by blast
  have "length (take n P) = n \<longleftrightarrow> n \<le> length P" by auto
  then show ?thesis
    using c t n s P by (subst recv_loop.simps)
      (simp add: sock_recv_quiet recv_step_def Let_def write_at_Some)
qed

lemma once_third_call:
  assumes c: "try_once c" and n: "0 < n" "n \<le> length (buffer s)" "n \<le> length P"
    and s: "\<not> peek s" "recv_started s" "expected_size s = n" "msg_length s = n" "pos s = 0"
  shows "recv_loop c e mn mx ((Arrive [], t) # evs) P s =
    Returns (NONE, s\<lparr>buffer := splice (buffer s) 0 (take n P)\<rparr>, drop n P)"
proof -
  have t: "\<not> use_timeout c" using c modes by blast
  have "P \<noteq> []" and "length (take n P) = n" using n by auto
  then show ?thesis
    using c t n s by (subst recv_loop.simps)
      (simp add: sock_recv_quiet recv_step_def Let_def write_at_Some)
qed

lemma recv_init_sel [simp]:
  "buffer (recv_init b) = b" "peek (recv_init b)" "\<not> recv_started (recv_init b)"
  "pos (recv_init b) = 0"
  by (simp_all add: recv_init_def)

lemma recv_loop_quiet:
  assumes c: "try_once c" and m: "2 \<le> mn" "mn \<le> mx" "mx \<le> length b"
  shows "\<exists>s'. recv_loop c e mn mx [(Arrive [], t1), (Arrive [], t2), (Arrive [], t3)] P (recv_init b) = Returns
      (if frame_complete mn mx P then (NONE, s', drop (frame_len P) P)
       else (if frame_malformed mn mx P then MALFORMED_MESSAGE else RECV_ZERO_PENDING, s', P)) \<and>
    length (buffer s') = length b \<and>
    (frame_complete mn mx P \<longrightarrow> take (frame_len P) (buffer s') = take (frame_len P) P)"
proof -
  let ?L = "frame_len P"
  have b: "2 \<le> length b" using m by linarith
  note first = once_first_call [OF c b, of e mn mx t1 "[(Arrive [], t2), (Arrive [], t3)]" P, unfolded Let_def]
  consider "length P < 2" | "2 \<le> length P" "?L < mn \<or> mx < ?L"
    | "2 \<le> length P" "\<not> (?L < mn \<or> mx < ?L)" by linarith
  then show ?thesis
  proof cases
    case 3
    let ?s1 = "(recv_init b)\<lparr>buffer := splice b 0 (take 2 P), msg_length := ?L, expected_size := ?L\<rparr>"
    have L: "0 < ?L" "?L \<le> length (buffer ?s1)" and P: "P \<noteq> []" using 3 m by auto
    note second = once_second_call [OF c L P, of e mn mx t2 "[(Arrive [], t3)]", simplified, unfolded Let_def]
    show ?thesis
    proof (cases "?L \<le> length P")
      case False
      then show ?thesis
        using 3 m L by (simp add: first second frame_complete_def frame_malformed_def)
    next
      case True
      let ?s2 = "?s1\<lparr>buffer := splice (splice b 0 (take 2 P)) 0 (take ?L P), peek := False,
        recv_started := True\<rparr>"
      have L2: "?L \<le> length (buffer ?s2)" using L by simp
      note third = once_third_call [OF c L(1) L2 True, of e mn mx t3 "[]", simplified]
      show ?thesis
        using 3 m L True by (simp add: first second third frame_complete_def frame_malformed_def)
          (simp add: splice_def)
    qed
  qed (use m b in \<open>auto simp: first frame_complete_def frame_malformed_def\<close>)
qed

lemma recv_once_quiet:
  assumes c: "try_once c" and m: "2 \<le> mn" "mn \<le> mx" "mx \<le> length b"
  shows "\<exists>b'. recv_generic c (Some True) quiet P b e mn mx = Returns
      (if frame_complete mn mx P then (NONE, b', drop (frame_len P) P)
       else (if frame_malformed mn mx P then MALFORMED_MESSAGE else RECV_ZERO_PENDING, b', P)) \<and>
    length b' = length b \<and>
    (frame_complete mn mx P \<longrightarrow> take (frame_len P) b' = take (frame_len P) P)"
proof -
  have v: "validate_config (Some True) c False = NONE" by (simp add: validate_config_def)
  have q: "quiet = [(Arrive [], 0), (Arrive [], 0), (Arrive [], 0)]"
    by (simp add: quiet_def numeral_3_eq_3)
  show ?thesis
    using recv_loop_quiet [OF c m, of e 0 0 0 P] m by (auto simp: recv_generic_def v q)
qed

definition blocking :: config where "blocking = \<lparr>mode = RX_TX_BLOCKING, timeout_ms = 0\<rparr>"



lemma send_recv_roundtrip_witness:
  "\<exists>b' k left. recv_generic blocking (Some False)
      ([(Arrive [4], 0), (Arrive [0, 9], 0), (Arrive [8, 7], 0)] @ [(Arrive [], 0), (Arrive [], 0)])
      [] (replicate 8 0) CTRL_CONNECTION_BROKEN 4 8 = Returns (NONE, b', left) \<and>
    take 4 b' = [4, 0, 9, 8]"
proof -
  have "frame_len [4, 0, 9, 8] = 4" by (simp add: frame_len_def rd16_def slice_def)
  then show ?thesis
    using send_recv_roundtrip [of 4 8 "replicate 8 0" CTRL_CONNECTION_BROKEN "[4, 0, 9, 8]" blocking
        "[(Sent 1, 0), (Send_failed EAGAIN, 0), (Sent 3, 0)]"
        "[(Arrive [4], 0), (Arrive [0, 9], 0), (Arrive [8, 7], 0)]" "[7]" False False 0 0]
    by (auto simp: blocking_def block_def no_send_error_def transient_def all_arrive_def stream_def
        arrived_def)
qed

subsection \<open>Socket addresses and set-up\<close>

record sockaddr_in =
  sin_family :: u16
  sin_port :: u16
  sin_addr :: u32
  sin_zero :: u64

definition AF_INET :: u16 where "AF_INET = 2"

definition equal_netaddrs :: "sockaddr_in \<Rightarrow> sockaddr_in \<Rightarrow> bool" where
  "equal_netaddrs a b \<longleftrightarrow>
     sin_port a = sin_port b \<and> sin_family a = sin_family b \<and> sin_addr a = sin_addr b"

text \<open>\<open>networking::socket\<close>: the descriptor returned, and the descriptors closed again.\<close>

record socket_env =
  new_fd :: int
  get_flags_ok :: bool
  set_flags_ok :: bool
  set_reuse_ok :: bool

definition open_socket :: "socket_env \<Rightarrow> bool \<Rightarrow> bool \<Rightarrow> int \<times> int list" where
  "open_socket e reuse_addr is_blocking =
     (if new_fd e = -1 then (-1, [])
      else
        let success = True;
            success = (if \<not> is_blocking then success \<and> get_flags_ok e \<and> set_flags_ok e else success);
            success = (if reuse_addr then success \<and> set_reuse_ok e else success)
        in if success then (new_fd e, []) else (-1, [new_fd e]))"

record setup_env = socket_env +
  bind_ok :: bool
  bound_name :: "sockaddr_in option"
  listen_ok :: bool

text \<open>The error code, the descriptor (left alone without clients) and the address.\<close>

definition server_setup ::
  "setup_env \<Rightarrow> int \<Rightarrow> sockaddr_in \<Rightarrow> nat \<Rightarrow> bool \<Rightarrow> error_code \<times> int \<times> sockaddr_in" where
  "server_setup e fd addr queue reuse_addr =
     (if queue = 0 then (NONE, fd, addr)
      else
        let fd = fst (open_socket (socket_env.truncate e) reuse_addr False) in
        if \<not> 0 < fd then (SOCKET_CREATE_FAILED, fd, addr)
        else if \<not> bind_ok e then (SOCKET_BIND_FAILED, fd, addr)
        else
          let success = True;
              (success, addr) =
                (if sin_port addr = 0
                 then (case bound_name e of None \<Rightarrow> (False, addr) | Some a \<Rightarrow> (success, a))
                 else (success, addr));
              success = (success \<and> listen_ok e)
          in if \<not> success then (SOCKET_LISTEN_FAILED, fd, addr) else (NONE, fd, addr))"

subsection \<open>Accepting connections\<close>

record accepted_state =
  connection_fd :: int
  address :: sockaddr_in

record accept_args =
  listen_fd :: int
  accept_use_timeout :: bool
  accept_timeout_ms :: u64
  max_clients :: u16
  rc :: int
  num_accepted :: u16
  accept_done :: bool
  started :: bool
  keep_running :: bool
  states :: "accepted_state list"

definition no_address :: sockaddr_in where
  "no_address = \<lparr>sin_family = 0, sin_port = 0, sin_addr = 0, sin_zero = 0\<rparr>"

definition accept_args_new :: "int \<Rightarrow> bool \<Rightarrow> u64 \<Rightarrow> u16 \<Rightarrow> accept_args" where
  "accept_args_new fd to limit max_c =
     \<lparr>listen_fd = fd, accept_use_timeout = to, accept_timeout_ms = limit, max_clients = max_c,
      rc = 0, num_accepted = 0, accept_done = False, started = False, keep_running = True,
      states = replicate (unat max_c) \<lparr>connection_fd = -1, address = no_address\<rparr>\<rparr>"

datatype accept_outcome = Accepted int sockaddr_in | Accept_failed errno

text \<open>
  One turn of the accept loop as the outside world makes it: whether the owner of the
  arguments still wants the loop to run, the time, the outcome of \<open>accept\<close>, and whether the
  new socket could be made non-blocking.
\<close>

record accept_turn =
  wanted :: bool
  time_now :: u64
  outcome :: accept_outcome
  nonblock_set :: bool

definition accept_one :: "accept_turn \<Rightarrow> accept_args \<Rightarrow> accept_args option" where
  "accept_one turn args = do {
     let n = unat (num_accepted args);
     old \<leftarrow> get_at (states args) n;
     let args = args\<lparr>states := (states args)[n := old\<lparr>connection_fd := -1\<rparr>]\<rparr>;
     case outcome turn of
       Accept_failed e \<Rightarrow>
         Some (if e \<noteq> EAGAIN \<and> e \<noteq> EWOULDBLOCK then args\<lparr>rc := -1\<rparr> else args)
     | Accepted fd a \<Rightarrow>
         (let args = args\<lparr>states := (states args)[n := \<lparr>connection_fd = fd, address = a\<rparr>],
                          num_accepted := num_accepted args + 1\<rparr>
          in Some (if \<not> nonblock_set turn then args\<lparr>rc := -1\<rparr> else args))
   }"

fun accept_loop :: "accept_turn list \<Rightarrow> accept_args \<Rightarrow> accept_args option" where
  "accept_loop turns args =
     (if num_accepted args < max_clients args \<and> rc args = 0
      then (case turns of
          [] \<Rightarrow> None
        | turn # turns \<Rightarrow>
            let args = args\<lparr>keep_running := keep_running args \<and> wanted turn\<rparr> in
            if \<not> keep_running args then Some args
            else if accept_use_timeout args \<and> accept_timeout_ms args \<le> time_now turn then Some args
            else Option.bind (accept_one turn args) (accept_loop turns))
      else Some args)"

declare accept_loop.simps [simp del]

definition server_accept :: "accept_turn list \<Rightarrow> accept_args \<Rightarrow> accept_args option" where
  "server_accept turns args =
     (if rc args \<noteq> 0 \<or> num_accepted args \<noteq> 0 \<or> started args \<or> \<not> keep_running args \<or> accept_done args
      then None
      else map_option (\<lambda>args. args\<lparr>accept_done := True\<rparr>) (accept_loop turns (args\<lparr>started := True\<rparr>)))"

text \<open>The connections that a sequence of turns brings.\<close>

definition brought :: "accept_turn \<Rightarrow> (int \<times> sockaddr_in) list" where
  "brought turn = (case outcome turn of Accepted fd a \<Rightarrow> [(fd, a)] | Accept_failed _ \<Rightarrow> [])"

definition connections :: "accept_args \<Rightarrow> (int \<times> sockaddr_in) list" where
  "connections args =
     map (\<lambda>s. (connection_fd s, address s)) (take (unat (num_accepted args)) (states args))"

definition accept_inv :: "accept_args \<Rightarrow> bool" where
  "accept_inv args \<longleftrightarrow>
     length (states args) = unat (max_clients args) \<and> num_accepted args \<le> max_clients args"

lemma accept_one_spec:
  assumes inv: "accept_inv args" and more: "num_accepted args < max_clients args"
  shows "\<exists>args'. accept_one turn args = Some args' \<and> accept_inv args' \<and>
    connections args' = connections args @ brought turn \<and>
    max_clients args' = max_clients args \<and> started args' = started args \<and>
    (rc args' = rc args \<or> rc args' = -1)"
proof -
  let ?n = "unat (num_accepted args)"
  have n: "?n < length (states args)" using inv more by (simp add: accept_inv_def word_less_nat_alt)
  have s: "unat (num_accepted args + 1) = Suc ?n"
    using more unat_u16_le [of "max_clients args"] unat_plus_simple
    by (simp add: word_less_nat_alt unat_word_ariths)
  show ?thesis
  proof (cases "outcome turn")
    case (Accepted fd a)
    then show ?thesis
      using inv more n s
      by (auto simp: accept_one_def accept_inv_def connections_def brought_def access_simps Let_def
          word_le_nat_alt word_less_nat_alt take_Suc_conv_app_nth)
  next
    case (Accept_failed e)
    then show ?thesis
      using inv n
      by (auto simp: accept_one_def accept_inv_def connections_def brought_def access_simps Let_def)
  qed
qed

definition turn_ends :: "accept_args \<Rightarrow> accept_turn \<Rightarrow> bool" where
  "turn_ends args turn \<longleftrightarrow>
     \<not> wanted turn \<or> (accept_use_timeout args \<and> accept_timeout_ms args \<le> time_now turn)"

definition accept_post :: "accept_args \<Rightarrow> accept_turn list \<Rightarrow> accept_args \<Rightarrow> bool" where
  "accept_post args turns args' \<longleftrightarrow>
     (\<exists>k. connections args' = connections args @ concat (map brought (take k turns)) \<and>
       accept_inv args' \<and> max_clients args' = max_clients args \<and> started args' = started args \<and>
       (rc args' = 0 \<or> rc args' = -1) \<and>
       (rc args' = 0 \<longrightarrow> num_accepted args' < max_clients args' \<longrightarrow>
          (\<exists>turn \<in> set turns. turn_ends args turn)))"

lemma accept_one_frame:
  "accept_one turn args = Some args' \<Longrightarrow>
   accept_use_timeout args' = accept_use_timeout args \<and>
   accept_timeout_ms args' = accept_timeout_ms args \<and> keep_running args' = keep_running args"
  by (cases "outcome turn") (auto simp: accept_one_def bind_eq_Some_conv Let_def split: if_splits)

lemma turn_ends_frame:
  "accept_one turn args = Some args' \<Longrightarrow> turn_ends args' = turn_ends args"
  using accept_one_frame [of turn args args'] by (simp add: turn_ends_def fun_eq_iff)

lemma keep_running_frame [simp]:
  "accept_inv (args\<lparr>keep_running := b\<rparr>) = accept_inv args"
  "connections (args\<lparr>keep_running := b\<rparr>) = connections args"
  "turn_ends (args\<lparr>keep_running := b\<rparr>) = turn_ends args"
  by (auto simp: accept_inv_def connections_def turn_ends_def fun_eq_iff)

lemma accept_loop_post:
  "accept_inv args \<Longrightarrow> rc args = 0 \<or> rc args = -1 \<Longrightarrow> keep_running args \<Longrightarrow>
   accept_loop turns args = Some args' \<Longrightarrow> accept_post args turns args'"
proof (induction turns arbitrary: args)
  case Nil
  then show ?case
    by (subst (asm) accept_loop.simps) (auto simp: accept_post_def split: if_splits)
next
  case (Cons turn turns)
  show ?case
  proof (cases "num_accepted args < max_clients args \<and> rc args = 0")
    case False
    then show ?thesis
      using Cons.prems by (subst (asm) accept_loop.simps) (auto simp: accept_post_def intro: exI [of _ 0])
  next
    case True
    let ?a = "args\<lparr>keep_running := wanted turn\<rparr>"
    show ?thesis
    proof (cases "turn_ends args turn")
      case end': True
      then have "args' = ?a"
        using Cons.prems(3,4) True
        by (subst (asm) accept_loop.simps) (auto simp: turn_ends_def Let_def split: if_splits)
      then show ?thesis
        using Cons.prems True end' by (auto simp: accept_post_def intro: exI [of _ 0])
    next
      case False
      then have w: "wanted turn" by (simp add: turn_ends_def)
      have a: "accept_inv ?a" "num_accepted ?a < max_clients ?a" using Cons.prems True by simp_all
      obtain a1 where one: "accept_one turn ?a = Some a1" "accept_inv a1"
          "connections a1 = connections args @ brought turn" "max_clients a1 = max_clients args"
          "started a1 = started args" "rc a1 = 0 \<or> rc a1 = -1"
        using accept_one_spec [OF a, of turn] True by auto
      have k: "keep_running a1"
        using accept_one_frame [OF one(1)] w by simp
      have "accept_loop turns a1 = Some args'"
        using Cons.prems(3,4) True False one(1)
        by (subst (asm) accept_loop.simps) (auto simp: turn_ends_def Let_def split: if_splits)
      from Cons.IH [OF one(2,6) k this] obtain n where
        p: "connections args' = connections a1 @ concat (map brought (take n turns))"
          "accept_inv args'" "max_clients args' = max_clients a1" "started args' = started a1"
          "rc args' = 0 \<or> rc args' = -1"
          "rc args' = 0 \<longrightarrow> num_accepted args' < max_clients args' \<longrightarrow> (\<exists>x \<in> set turns. turn_ends a1 x)"
        unfolding accept_post_def by blast
      have "turn_ends a1 = turn_ends args" using turn_ends_frame [OF one(1)] by simp
      then show ?thesis
        using p one unfolding accept_post_def by (intro exI [of _ "Suc n"]) auto
    qed
  qed
qed

text \<open>The loop returns once a turn ends it.\<close>

lemma accept_loop_returns:
  "accept_inv args \<Longrightarrow> \<exists>turn \<in> set turns. turn_ends args turn \<Longrightarrow> accept_loop turns args \<noteq> None"
proof (induction turns arbitrary: args)
  case Nil
  then show ?case by simp
next
  case (Cons turn turns)
  show ?case
  proof (cases "num_accepted args < max_clients args \<and> rc args = 0 \<and> \<not> turn_ends args turn \<and> keep_running args")
    case False
    then show ?thesis
      by (subst accept_loop.simps) (auto simp: turn_ends_def Let_def)
  next
    case True
    let ?a = "args\<lparr>keep_running := keep_running args \<and> wanted turn\<rparr>"
    have a: "accept_inv ?a" "num_accepted ?a < max_clients ?a" using Cons.prems True by simp_all
    obtain a1 where one: "accept_one turn ?a = Some a1" "accept_inv a1"
      using accept_one_spec [OF a, of turn] by auto
    have "turn_ends a1 = turn_ends args" using turn_ends_frame [OF one(1)] by simp
    then have "accept_loop turns a1 \<noteq> None" using Cons.IH [OF one(2)] Cons.prems(2) True by auto
    then show ?thesis
      using True one(1) by (subst accept_loop.simps) (auto simp: turn_ends_def Let_def)
  qed
qed

text \<open>
  The accept thread: \<open>server_accept\<close> returns as soon as its owner stops it or its time is
  up; it then has recorded, in order and within the array, exactly the connections that came
  while it ran, never more than \<open>max_clients\<close>, and \<open>done\<close> is set. Fewer connections without an
  error mean that it was stopped or timed out.
\<close>

theorem server_accept_result:
  assumes args_def: "args = accept_args_new fd to limit max_c"
    and ends: "\<exists>turn \<in> set turns. turn_ends args turn"
  shows "\<exists>args' k. server_accept turns args = Some args' \<and> accept_done args' \<and>
    connections args' = concat (map brought (take k turns)) \<and>
    length (connections args') = unat (num_accepted args') \<and> num_accepted args' \<le> max_c \<and>
    (rc args' = 0 \<or> rc args' = -1)"
proof -
  let ?s = "args\<lparr>started := True\<rparr>"
  have inv: "accept_inv ?s" by (simp add: args_def accept_args_new_def accept_inv_def)
  have e: "turn_ends ?s = turn_ends args" by (simp add: turn_ends_def fun_eq_iff)
  obtain a where a: "accept_loop turns ?s = Some a"
    using accept_loop_returns [OF inv, of turns] ends e by auto
  have "accept_post ?s turns a"
    by (rule accept_loop_post [OF inv _ _ a]) (simp_all add: args_def accept_args_new_def)
  then obtain k where k: "connections a = concat (map brought (take k turns))" "accept_inv a"
      "max_clients a = max_c" "rc a = 0 \<or> rc a = -1"
    by (auto simp: accept_post_def args_def accept_args_new_def connections_def)
  have "server_accept turns args = Some (a\<lparr>accept_done := True\<rparr>)"
    using a by (simp add: server_accept_def args_def accept_args_new_def)
  moreover have "connections (a\<lparr>accept_done := True\<rparr>) = connections a" by (simp add: connections_def)
  moreover have "length (connections a) = unat (num_accepted a)"
    using k(2) by (simp add: connections_def accept_inv_def word_le_nat_alt)
  ultimately show ?thesis using k by (auto simp: accept_inv_def)
qed

definition example_turns :: "accept_turn list" where
  "example_turns =
     [\<lparr>wanted = True, time_now = 1, outcome = Accept_failed EAGAIN, nonblock_set = True\<rparr>,
      \<lparr>wanted = True, time_now = 2, outcome = Accepted 7 no_address, nonblock_set = True\<rparr>,
      \<lparr>wanted = False, time_now = 3, outcome = Accepted 8 no_address, nonblock_set = True\<rparr>]"

lemma server_accept_result_witness:
  "\<exists>args' k. server_accept example_turns (accept_args_new 3 False 0 2) = Some args' \<and>
     accept_done args' \<and> connections args' = concat (map brought (take k example_turns))"
proof -
  have "\<exists>turn \<in> set example_turns. turn_ends (accept_args_new 3 False 0 2) turn"
    by (simp add: example_turns_def turn_ends_def)
  then show ?thesis using server_accept_result [OF refl] by blast
qed

subsection \<open>Connecting\<close>

text \<open>
  Outcomes during \<open>connect_with_timeout\<close>: of the first connect, and of each round of its
  polling loop, with the time at the start of the round. A poll that finds the socket ready
  comes with the pending socket error.
\<close>

datatype poll_outcome = Poll_ready "errno option" | Poll_timeout | Poll_failed errno

record connect_env =
  nonblock_flag :: "bool option"
  set_nonblock_ok :: bool
  connect_error :: "errno option"
  polls :: "(u64 \<times> poll_outcome) list"
  restore_ok :: bool

fun poll_loop :: "u64 \<Rightarrow> (u64 \<times> poll_outcome) list \<Rightarrow> int option" where
  "poll_loop limit [] = None"
| "poll_loop limit ((t, p) # ps) =
     (if limit \<le> t then Some (- 1)
      else (case p of
          Poll_ready None \<Rightarrow> Some 1
        | Poll_ready (Some e) \<Rightarrow> if e = EINTR then poll_loop limit ps else Some (- 1)
        | Poll_timeout \<Rightarrow> Some (- 1)
        | Poll_failed e \<Rightarrow> if e = EINTR then poll_loop limit ps else Some (- 1)))"

text \<open>The return value, and whether O_NONBLOCK is set afterwards (\<open>None\<close>: unknown).\<close>

definition connect_with_timeout :: "u64 \<Rightarrow> connect_env \<Rightarrow> (int \<times> bool option) option" where
  "connect_with_timeout limit e = (case nonblock_flag e of
     None \<Rightarrow> Some (- 1, None)
   | Some nb \<Rightarrow>
       if \<not> set_nonblock_ok e then Some (- 1, Some nb)
       else do {
         rc \<leftarrow> (case connect_error e of
             None \<Rightarrow> Some 0
           | Some x \<Rightarrow>
               if x \<noteq> EAGAIN \<and> x \<noteq> EWOULDBLOCK \<and> x \<noteq> EINPROGRESS then Some (- 1)
               else poll_loop limit (polls e));
         if \<not> restore_ok e then Some (- 1, Some True) else Some (rc, Some nb)
       })"

text \<open>The connection is established in time: at once, or by the first decisive poll.\<close>

fun polled_in_time :: "u64 \<Rightarrow> (u64 \<times> poll_outcome) list \<Rightarrow> bool" where
  "polled_in_time limit [] = False"
| "polled_in_time limit ((t, p) # ps) =
     (t < limit \<and> (p = Poll_ready None \<or>
        (p = Poll_ready (Some EINTR) \<or> p = Poll_failed EINTR) \<and> polled_in_time limit ps))"

definition connected :: "u64 \<Rightarrow> connect_env \<Rightarrow> bool" where
  "connected limit e \<longleftrightarrow> connect_error e = None \<or>
     (the (connect_error e) \<in> {EAGAIN, EWOULDBLOCK, EINPROGRESS} \<and> polled_in_time limit (polls e))"

lemma poll_loop_result:
  "poll_loop limit ps = Some r \<Longrightarrow> r = (if polled_in_time limit ps then 1 else - 1)"
  by (induction limit ps rule: poll_loop.induct)
     (auto simp: not_le split: poll_outcome.split_asm option.split_asm if_split_asm)

text \<open>
  Connecting: the result is non-negative exactly when the connection came about within the
  time limit and the flags could be restored, and then the socket has the blocking mode it had
  before. Success after a wait is reported as 1, the value of \<open>poll\<close>, not as 0.
\<close>

theorem connect_with_timeout_result:
  assumes "connect_with_timeout limit e = Some (r, nb)"
  shows "(0 \<le> r \<longleftrightarrow> nonblock_flag e \<noteq> None \<and> set_nonblock_ok e \<and> restore_ok e \<and> connected limit e) \<and>
    (0 \<le> r \<longrightarrow> nb = nonblock_flag e \<and> r = (if connect_error e = None then 0 else 1))"
  using assms poll_loop_result [of limit "polls e"]
  by (auto simp: connect_with_timeout_def connected_def bind_eq_Some_conv
      split: option.split_asm if_split_asm)

lemma connect_with_timeout_result_witness:
  "connect_with_timeout 5000
     \<lparr>nonblock_flag = Some False, set_nonblock_ok = True, connect_error = Some EINPROGRESS,
      polls = [(0, Poll_failed EINTR), (20, Poll_ready None)], restore_ok = True\<rparr> = Some (1, Some False)"
  (is "connect_with_timeout 5000 ?e = _")
proof -
  have "connected 5000 ?e" by (simp add: connected_def)
  moreover obtain r nb where "connect_with_timeout 5000 ?e = Some (r, nb)"
    by (simp add: connect_with_timeout_def)
  ultimately show ?thesis using connect_with_timeout_result [of 5000 ?e r nb] by simp
qed

end
