(* ===== verification/Message_Queue.thy ===== *)
theory Message_Queue
  imports Prelude "HOL-Library.Multiset"
begin

text \<open>
  The message queue of \<open>external/itc/message_queue.c\<close>, which hands packets between the threads
  of a fragment: a pool of fixed-size blocks with a free list, and a queue of block pointers,
  both rings of \<open>max_depth\<close> slots indexed by free-running 32-bit positions. Pointers are
  offsets into the pool; NULL is \<open>None\<close>. One call runs at a time here: where the code spins
  until another thread fills or empties a slot, the call has no result (\<open>None\<close>), and the
  theorems show that a client that keeps to the protocol never meets that case. (The code is
  lock-free; that a call is one step is an assumption of this model, not something a lock gives.) The blocking
  calls take, for every wait on the semaphore, what the other threads do meanwhile.
\<close>

subsection \<open>Sizes\<close>

text \<open>\<open>sizeof (union padding)\<close> is 8; the conversion to \<open>int\<close> keeps 32 bits.\<close>

definition sizeof_padding :: u32 where "sizeof_padding = 8"

definition pad_size :: "u32 \<Rightarrow> u32" where
  "pad_size n =
     (if n mod sizeof_padding \<noteq> 0 then n + (sizeof_padding - n mod sizeof_padding) else n)"

definition smear :: "nat \<Rightarrow> u32 \<Rightarrow> u32" where
  "smear n x = x OR drop_bit n x"

definition round_to_pow2 :: "u32 \<Rightarrow> u32" where
  "round_to_pow2 x =
     (let x = x - 1;
          x = smear 1 x;
          x = smear 2 x;
          x = smear 4 x;
          x = smear 8 x;
          x = smear 16 x
      in x + 1)"

lemma smear_bits:
  assumes "\<And>i. bit y i \<longleftrightarrow> (\<exists>j<n. bit x (i + j))"
  shows "bit (smear n y) i \<longleftrightarrow> (\<exists>j<n + n. bit x (i + j))"
proof -
  have "bit (smear n y) i \<longleftrightarrow> (\<exists>j<n. bit x (i + j)) \<or> (\<exists>j<n. bit x (i + (n + j)))"
    by (simp add: smear_def bit_or_iff bit_drop_bit_eq assms ac_simps)
  also have "\<dots> \<longleftrightarrow> (\<exists>j<n + n. bit x (i + j))"
  proof
    assume "\<exists>j<n + n. bit x (i + j)"
    then obtain j where "j < n + n" and "bit x (i + j)" by blast
    then show "(\<exists>j<n. bit x (i + j)) \<or> (\<exists>j<n. bit x (i + (n + j)))"
      by (cases "j < n") (auto intro: exI [of _ "j - n"])
  qed (metis nat_add_left_cancel_less trans_less_add1)
  finally show ?thesis .
qed

lemma smeared_bits:
  "bit (smear 16 (smear 8 (smear 4 (smear 2 (smear 1 x))))) i \<longleftrightarrow> (\<exists>j\<ge>i. bit (x :: u32) j)"
proof -
  have "bit x i \<longleftrightarrow> (\<exists>j<1. bit x (i + j))" for i by simp
  from smear_bits [OF this] have "bit (smear 1 x) i \<longleftrightarrow> (\<exists>j<1 + 1. bit x (i + j))" for i .
  from smear_bits [OF this [unfolded one_add_one]]
  have "bit (smear 2 (smear 1 x)) i \<longleftrightarrow> (\<exists>j<4. bit x (i + j))" for i by simp
  from smear_bits [OF this]
  have "bit (smear 4 (smear 2 (smear 1 x))) i \<longleftrightarrow> (\<exists>j<8. bit x (i + j))" for i by simp
  from smear_bits [OF this]
  have "bit (smear 8 (smear 4 (smear 2 (smear 1 x)))) i \<longleftrightarrow> (\<exists>j<16. bit x (i + j))" for i by simp
  from smear_bits [OF this]
  have "bit (smear 16 (smear 8 (smear 4 (smear 2 (smear 1 x))))) i \<longleftrightarrow> (\<exists>j<32. bit x (i + j))" by simp
  also have "\<dots> \<longleftrightarrow> (\<exists>j\<ge>i. bit x j)"
  proof
    assume "\<exists>j\<ge>i. bit x j"
    then obtain j where "i \<le> j" and "bit x j" by blast
    moreover from this have "j < 32" using bit_imp_le_length by fastforce
    ultimately show "\<exists>j<32. bit x (i + j)" by (intro exI [of _ "j - i"]) auto
  qed (metis le_add1)
  finally show ?thesis .
qed

lemma round_to_pow2_power:
  assumes "1 \<le> unat x" and "unat x \<le> 2 ^ 31"
  shows "\<exists>k\<le>31. unat (round_to_pow2 x) = 2 ^ k \<and> unat x \<le> 2 ^ k \<and> (\<forall>l. unat x \<le> 2 ^ l \<longrightarrow> k \<le> l)"
proof (cases "x = 1")
  case True
  then show ?thesis by (auto simp: round_to_pow2_def smear_def)
next
  case False
  define y where "y = x - 1"
  have y: "unat y = unat x - 1" and y0: "unat y \<noteq> 0"
    using assms False by (auto simp: y_def unat_minus_one word_unat_eq_iff)
  obtain k where k: "2 ^ k \<le> unat y" "unat y < 2 ^ (k + 1)"
    using ex_power_ivl1 [of 2 "unat y"] y0 by auto
  have k31: "k < 31"
  proof (rule ccontr)
    assume "\<not> k < 31"
    then have "(2 :: nat) ^ 31 \<le> 2 ^ k" by (intro power_increasing) auto
    then show False using k y y0 assms by linarith
  qed
  have bits: "bit y j \<longleftrightarrow> odd (unat y div 2 ^ j)" for j
    using bit_iff_odd [of "unat y" j] by (simp add: bit_simps)
  have le: "j \<le> k" if "bit y j" for j
  proof (rule ccontr)
    assume "\<not> j \<le> k"
    then have "(2 :: nat) ^ (k + 1) \<le> 2 ^ j" by (intro power_increasing) auto
    then have "unat y div 2 ^ j = 0" using k by simp
    then show False using that bits by simp
  qed
  have "unat y div 2 ^ k = 1"
    using k by (intro div_nat_eqI) auto
  then have top: "bit y k" by (simp add: bits)
  have reach: "(\<exists>j\<ge>i. bit y j) \<longleftrightarrow> i \<le> k" for i using top le by (meson order_trans)
  have "smear 16 (smear 8 (smear 4 (smear 2 (smear 1 y)))) = mask (k + 1)"
    by (rule bit_word_eqI) (use k31 in \<open>simp only: smeared_bits reach bit_mask_iff; auto\<close>)
  then have "round_to_pow2 x = 2 ^ (k + 1)"
    by (simp add: round_to_pow2_def Let_def y_def [symmetric] mask_eq_exp_minus_1)
  then have r: "unat (round_to_pow2 x) = 2 ^ (k + 1)"
    using k31 power_strict_increasing [of "k + 1" 32 "2 :: nat"]
      unat_of_nat [of "2 ^ (k + 1)", where 'a = 32] by simp
  have "k + 1 \<le> l" if "unat x \<le> 2 ^ l" for l
  proof (rule ccontr)
    assume "\<not> k + 1 \<le> l"
    then have "(2 :: nat) ^ l \<le> 2 ^ k" by (intro power_increasing) auto
    then show False using that k y y0 by linarith
  qed
  moreover have "unat x \<le> 2 ^ (k + 1)" using k y by linarith
  ultimately show ?thesis using r k31 by (intro exI [of _ "k + 1"]) auto
qed

text \<open>
  The depth of a queue: \<open>round_to_pow2\<close> returns the least power of two that is at least
  its argument, for every argument from 1 to \<open>2 ^ 31\<close>.
\<close>

theorem round_to_pow2_least:
  assumes "1 \<le> unat x" and "unat x \<le> 2 ^ 31"
  shows "\<exists>k\<le>31. unat (round_to_pow2 x) = 2 ^ k \<and> unat x \<le> 2 ^ k \<and> (\<forall>l. unat x \<le> 2 ^ l \<longrightarrow> k \<le> l)"
  by (rule round_to_pow2_power [OF assms])

lemma round_to_pow2_least_witness: "unat (round_to_pow2 100) = 128"
proof -
  obtain k where "unat (round_to_pow2 100) = 2 ^ k" and "100 \<le> (2 :: nat) ^ k"
    and "\<forall>l. 100 \<le> (2 :: nat) ^ l \<longrightarrow> k \<le> l"
    using round_to_pow2_least [of 100] by auto
  moreover from this have "k \<le> 7" by simp
  moreover have "\<not> k \<le> 6"
    using power_increasing [of k 6 "2 :: nat"] calculation by auto
  ultimately have "k = 7" by linarith
  then show ?thesis using \<open>unat (round_to_pow2 100) = 2 ^ k\<close> by simp
qed

subsection \<open>The structure and its set-up\<close>

type_synonym ptr = nat

datatype sem_ref = Allocator_unnamed | Queue_unnamed | Named nat

text \<open>\<open>memory_size\<close> is what \<open>malloc\<close> was asked for: the bytes of the pool.\<close>

record message_queue =
  message_size :: u32
  max_depth :: u32
  memory_size :: u32
  freelist :: "ptr option list"
  queue_data :: "ptr option list"
  a_sem :: sem_ref
  a_sem_value :: nat
  a_blocked_readers :: u32
  free_blocks :: u32
  allocpos :: u32
  freepos :: u32
  q_sem :: sem_ref
  q_sem_value :: nat
  q_blocked_readers :: u32
  entries :: u32
  readpos :: u32
  writepos :: u32

text \<open>
  Outcomes of system calls: success, interruption by a signal, failure. The set-up of a
  semaphore retries on interruption and falls back to a named semaphore; the outer \<open>None\<close>
  means that it is still retrying when the outcomes end.
\<close>

datatype sys_outcome = Sys_ok | Sys_eintr | Sys_fail

fun sem_open_loop :: "sys_outcome list \<Rightarrow> bool option" where
  "sem_open_loop [] = None"
| "sem_open_loop (Sys_eintr # r) = sem_open_loop r"
| "sem_open_loop (Sys_ok # _) = Some True"
| "sem_open_loop (Sys_fail # _) = Some False"

fun sem_setup :: "sem_ref \<Rightarrow> nat \<Rightarrow> sys_outcome list \<Rightarrow> sys_outcome list \<Rightarrow> sem_ref option option"
where
  "sem_setup own name [] opens = None"
| "sem_setup own name (Sys_eintr # r) opens = sem_setup own name r opens"
| "sem_setup own name (Sys_ok # _) opens = Some (Some own)"
| "sem_setup own name (Sys_fail # _) opens =
     map_option (\<lambda>ok. if ok then Some (Named name) else None) (sem_open_loop opens)"

text \<open>
  What the outside world answers during \<open>message_queue_init\<close>; \<open>unset\<close> is what \<open>malloc\<close> leaves in
  the slots of a ring.
\<close>

record init_env =
  malloc_memory :: bool
  malloc_freelist :: bool
  malloc_data :: bool
  unset :: "nat \<Rightarrow> ptr option"
  a_sem_inits :: "sys_outcome list"
  a_sem_opens :: "sys_outcome list"
  q_sem_inits :: "sys_outcome list"
  q_sem_opens :: "sys_outcome list"

text \<open>Releases of resources, in the order they happen.\<close>

datatype release =
    Free_memory | Free_freelist | Free_queue_data | Sem_destroy sem_ref | Sem_close sem_ref

definition release_sem :: "sem_ref \<Rightarrow> sem_ref \<Rightarrow> release" where
  "release_sem unnamed s = (if s = unnamed then Sem_destroy s else Sem_close s)"

text \<open>
  The products are taken in 32 bits, and the loops run while the index is below \<open>max_depth\<close>
  read as an int.
\<close>

definition filled :: "u32 \<Rightarrow> (nat \<Rightarrow> ptr option) \<Rightarrow> (nat \<Rightarrow> ptr option) \<Rightarrow> ptr option list" where
  "filled depth set_to left =
     map (\<lambda>i. if int i < sint depth then set_to i else left i) [0..<unat depth]"

definition initial_queue :: "(nat \<Rightarrow> ptr option) \<Rightarrow> u32 \<Rightarrow> u32 \<Rightarrow> sem_ref \<Rightarrow> sem_ref \<Rightarrow> message_queue" where
  "initial_queue left sz depth as qs =
     \<lparr>message_size = sz, max_depth = depth, memory_size = sz * depth,
      freelist = filled depth (\<lambda>i. Some (unat (sz * of_nat i))) left,
      queue_data = filled depth (\<lambda>i. None) left,
      a_sem = as, a_sem_value = 0, a_blocked_readers = 0, free_blocks = depth,
      allocpos = 0, freepos = 0,
      q_sem = qs, q_sem_value = 0, q_blocked_readers = 0, entries = 0,
      readpos = 0, writepos = 0\<rparr>"

text \<open>Result: the releases of the error path (return value -1), or the queue (return value 0).\<close>

definition message_queue_init ::
  "init_env \<Rightarrow> u32 \<Rightarrow> u32 \<Rightarrow> (release list + message_queue) option" where
  "message_queue_init e sz depth =
     (let sz = pad_size sz; depth = round_to_pow2 depth in
      if \<not> malloc_memory e then Some (Inl [])
      else if \<not> malloc_freelist e then Some (Inl [Free_memory])
      else do {
        as \<leftarrow> sem_setup Allocator_unnamed 0 (a_sem_inits e) (a_sem_opens e);
        case as of None \<Rightarrow> Some (Inl [Free_freelist, Free_memory])
        | Some as \<Rightarrow>
            if \<not> malloc_data e
            then Some (Inl [release_sem Allocator_unnamed as, Free_freelist, Free_memory])
            else do {
              qs \<leftarrow> sem_setup Queue_unnamed 1 (q_sem_inits e) (q_sem_opens e);
              case qs of
                None \<Rightarrow> Some (Inl [Free_queue_data, release_sem Allocator_unnamed as,
                                   Free_freelist, Free_memory])
              | Some qs \<Rightarrow> Some (Inr (initial_queue (unset e) sz depth as qs))
            }
      })"

definition message_queue_destroy :: "message_queue \<Rightarrow> release list" where
  "message_queue_destroy q =
     [release_sem Queue_unnamed (q_sem q), Free_queue_data,
      release_sem Queue_unnamed (a_sem q), Free_freelist, Free_memory]"

subsection \<open>The operations\<close>

definition message_queue_message_alloc ::
  "message_queue \<Rightarrow> (ptr option \<times> message_queue) option" where
  "message_queue_message_alloc q =
     (let fb = free_blocks q; q = q\<lparr>free_blocks := fb - 1\<rparr> in
      if 0 < sint fb then do {
        let pos = unat (allocpos q mod max_depth q);
        let q = q\<lparr>allocpos := allocpos q + 1\<rparr>;
        slot \<leftarrow> get_at (freelist q) pos;
        rv \<leftarrow> slot;
        Some (Some rv, q\<lparr>freelist := (freelist q)[pos := None]\<rparr>)
      }
      else Some (None, q\<lparr>free_blocks := free_blocks q + 1\<rparr>))"

definition message_queue_message_free :: "ptr \<Rightarrow> message_queue \<Rightarrow> message_queue option" where
  "message_queue_message_free message q = do {
     let pos = unat (freepos q mod max_depth q);
     let q = q\<lparr>freepos := freepos q + 1\<rparr>;
     cur \<leftarrow> get_at (freelist q) pos;
     if cur \<noteq> None then None
     else do {
       let q = q\<lparr>freelist := (freelist q)[pos := Some message],
                 free_blocks := free_blocks q + 1\<rparr>;
       Some (if a_blocked_readers q \<noteq> 0
             then q\<lparr>a_blocked_readers := a_blocked_readers q - 1,
                    a_sem_value := a_sem_value q + 1\<rparr>
             else q)
     }
   }"

definition message_queue_write :: "ptr \<Rightarrow> message_queue \<Rightarrow> message_queue option" where
  "message_queue_write message q = do {
     let pos = unat (writepos q mod max_depth q);
     let q = q\<lparr>writepos := writepos q + 1\<rparr>;
     cur \<leftarrow> get_at (queue_data q) pos;
     if cur \<noteq> None then None
     else do {
       let q = q\<lparr>queue_data := (queue_data q)[pos := Some message], entries := entries q + 1\<rparr>;
       Some (if q_blocked_readers q \<noteq> 0
             then q\<lparr>q_blocked_readers := q_blocked_readers q - 1,
                    q_sem_value := q_sem_value q + 1\<rparr>
             else q)
     }
   }"

definition message_queue_tryread :: "message_queue \<Rightarrow> (ptr option \<times> message_queue) option" where
  "message_queue_tryread q =
     (let n = entries q; q = q\<lparr>entries := n - 1\<rparr> in
      if 0 < sint n then do {
        let pos = unat (readpos q mod max_depth q);
        let q = q\<lparr>readpos := readpos q + 1\<rparr>;
        slot \<leftarrow> get_at (queue_data q) pos;
        rv \<leftarrow> slot;
        Some (Some rv, q\<lparr>queue_data := (queue_data q)[pos := None]\<rparr>)
      }
      else Some (None, q\<lparr>entries := entries q + 1\<rparr>))"

text \<open>
  The blocking calls. Each element of the list is what the other threads do to the queue while
  this one waits on the semaphore; a wait that nobody posts has no result. (A wait that a
  signal interrupts is retried at once and leaves no trace.)
\<close>

definition sem_wait_queue :: "message_queue \<Rightarrow> message_queue option" where
  "sem_wait_queue q =
     (if 0 < q_sem_value q then Some (q\<lparr>q_sem_value := q_sem_value q - 1\<rparr>) else None)"

definition sem_wait_allocator :: "message_queue \<Rightarrow> message_queue option" where
  "sem_wait_allocator q =
     (if 0 < a_sem_value q then Some (q\<lparr>a_sem_value := a_sem_value q - 1\<rparr>) else None)"

fun read_loop ::
  "(message_queue \<Rightarrow> message_queue) list \<Rightarrow> ptr option \<Rightarrow> message_queue \<Rightarrow> (ptr \<times> message_queue) option"
where
  "read_loop others (Some rv) q = Some (rv, q)"
| "read_loop others None q = do {
     let q = q\<lparr>q_blocked_readers := q_blocked_readers q + 1\<rparr>;
     (rv, q) \<leftarrow> message_queue_tryread q;
     case rv of
       Some rv \<Rightarrow> Some (rv, q\<lparr>q_blocked_readers := q_blocked_readers q - 1\<rparr>)
     | None \<Rightarrow>
         (case others of
            [] \<Rightarrow> None
          | w # others \<Rightarrow> do {
              q \<leftarrow> sem_wait_queue (w q);
              (rv, q) \<leftarrow> message_queue_tryread q;
              read_loop others rv q
            })
   }"

definition message_queue_read ::
  "(message_queue \<Rightarrow> message_queue) list \<Rightarrow> message_queue \<Rightarrow> (ptr \<times> message_queue) option" where
  "message_queue_read others q = do {
     (rv, q) \<leftarrow> message_queue_tryread q;
     read_loop others rv q
   }"

fun alloc_loop ::
  "(message_queue \<Rightarrow> message_queue) list \<Rightarrow> ptr option \<Rightarrow> message_queue \<Rightarrow> (ptr \<times> message_queue) option"
where
  "alloc_loop others (Some rv) q = Some (rv, q)"
| "alloc_loop others None q = do {
     let q = q\<lparr>a_blocked_readers := a_blocked_readers q + 1\<rparr>;
     (rv, q) \<leftarrow> message_queue_message_alloc q;
     case rv of
       Some rv \<Rightarrow> Some (rv, q\<lparr>a_blocked_readers := a_blocked_readers q - 1\<rparr>)
     | None \<Rightarrow>
         (case others of
            [] \<Rightarrow> None
          | w # others \<Rightarrow> do {
              q \<leftarrow> sem_wait_allocator (w q);
              (rv, q) \<leftarrow> message_queue_message_alloc q;
              alloc_loop others rv q
            })
   }"

definition message_queue_message_alloc_blocking ::
  "(message_queue \<Rightarrow> message_queue) list \<Rightarrow> message_queue \<Rightarrow> (ptr \<times> message_queue) option" where
  "message_queue_message_alloc_blocking others q = do {
     (rv, q) \<leftarrow> message_queue_message_alloc q;
     alloc_loop others rv q
   }"

subsection \<open>Rings\<close>

text \<open>
  A ring of \<open>d\<close> slots holds \<open>xs\<close>: the elements lie from the head position on, in order, the
  tail position is behind the last, every other slot is NULL. Positions run freely and wrap at
  \<open>2 ^ 32\<close>; since \<open>d\<close> divides that number, the slot sequence is not disturbed by the wrap.
\<close>

definition ring :: "nat \<Rightarrow> ptr option list \<Rightarrow> u32 \<Rightarrow> u32 \<Rightarrow> ptr list \<Rightarrow> bool" where
  "ring d slots head tail xs \<longleftrightarrow>
     0 < d \<and> d dvd 2 ^ 32 \<and> length slots = d \<and> length xs \<le> d \<and>
     unat tail mod d = (unat head + length xs) mod d \<and>
     (\<forall>i<d. slots ! ((unat head + i) mod d) = (if i < length xs then Some (xs ! i) else None))"

lemma position_step: "d dvd 2 ^ 32 \<Longrightarrow> (unat (p + 1 :: u32) + k) mod d = (unat p + Suc k) mod d"
proof -
  assume d: "d dvd 2 ^ 32"
  have "unat (p + 1) = (unat p + 1) mod 2 ^ 32" by (simp add: unat_word_ariths)
  then have "unat (p + 1) mod d = (unat p + 1) mod d" using d by (simp add: mod_mod_cancel)
  then have "(unat (p + 1) + k) mod d = (unat p + 1 + k) mod d" by (metis mod_add_left_eq)
  then show ?thesis by simp
qed

lemma ring_slot_eq:
  fixes n :: nat
  assumes "i < d" and "j < d" and "(n + i) mod d = (n + j) mod d"
  shows "i = j"
proof -
  have "b = a" if "a \<le> b" "b < d" "(n + a) mod d = (n + b) mod d" for a b :: nat
    using that mod_eq_dvd_iff_nat [of "n + a" "n + b" d] by (auto dest: dvd_imp_le)
  then show ?thesis using assms by (cases "i \<le> j") (metis, metis nat_le_linear)
qed

lemma ring_put:
  assumes r: "ring d slots head tail xs" and room: "length xs < d"
  shows "unat tail mod d < length slots" and "slots ! (unat tail mod d) = None"
    and "ring d (slots[unat tail mod d := Some x]) head (tail + 1) (xs @ [x])"
proof -
  let ?p = "(unat head + length xs) mod d"
  have d: "0 < d" "d dvd 2 ^ 32" "length slots = d" and p: "unat tail mod d = ?p"
    and at: "\<And>i. i < d \<Longrightarrow>
      slots ! ((unat head + i) mod d) = (if i < length xs then Some (xs ! i) else None)"
    using r by (auto simp: ring_def)
  show "unat tail mod d < length slots" using d by simp
  show "slots ! (unat tail mod d) = None" using at [OF room] by (simp add: p)
  have "slots[?p := Some x] ! ((unat head + i) mod d) =
      (if i < length (xs @ [x]) then Some ((xs @ [x]) ! i) else None)" if "i < d" for i
    using at [OF that] ring_slot_eq [OF that room, of "unat head"] d
    by (auto simp: nth_update_if nth_append less_Suc_eq)
  moreover have "unat (tail + 1) mod d = (unat head + length (xs @ [x])) mod d"
    using position_step [OF d(2), of tail 0] p by (simp add: mod_Suc_eq) (metis mod_Suc_eq)
  ultimately show "ring d (slots[unat tail mod d := Some x]) head (tail + 1) (xs @ [x])"
    using d room by (simp add: ring_def p)
qed

lemma ring_take:
  assumes r: "ring d slots head tail (x # xs)"
  shows "unat head mod d < length slots" and "slots ! (unat head mod d) = Some x"
    and "ring d (slots[unat head mod d := None]) (head + 1) tail xs"
proof -
  have d: "0 < d" "d dvd 2 ^ 32" "length slots = d" "length xs < d"
    and p: "unat tail mod d = (unat head + Suc (length xs)) mod d"
    and at: "\<And>i. i < d \<Longrightarrow> slots ! ((unat head + i) mod d)
      = (if i < length (x # xs) then Some ((x # xs) ! i) else None)"
    using r by (auto simp: ring_def)
  show "unat head mod d < length slots" using d by simp
  show "slots ! (unat head mod d) = Some x" using at [OF d(1)] by simp
  have "slots[unat head mod d := None] ! ((unat head + Suc i) mod d) =
      (if i < length xs then Some (xs ! i) else None)" if "i < d" for i
  proof (cases "Suc i < d")
    case True
    then show ?thesis
      using at [OF True] ring_slot_eq [OF d(1) True, of "unat head"] by (auto simp: nth_update_if)
  next
    case False
    then have "Suc i = d" using that by simp
    then show ?thesis using d by (auto simp: nth_update_if)
  qed
  then show "ring d (slots[unat head mod d := None]) (head + 1) tail xs"
    using d p by (simp add: ring_def position_step)
qed

subsection \<open>The contract of both rings\<close>

text \<open>
  A bounded first-in first-out store with partial operations. The free list of the pool and
  the queue of messages both meet it.
\<close>

locale bounded_fifo =
  fixes holds :: "'s \<Rightarrow> 'a list \<Rightarrow> bool" and cap :: "'s \<Rightarrow> nat"
    and put :: "'a \<Rightarrow> 's \<Rightarrow> 's option" and get :: "'s \<Rightarrow> ('a option \<times> 's) option"
  assumes put_room: "holds s xs \<Longrightarrow> length xs < cap s \<Longrightarrow>
      \<exists>s'. put x s = Some s' \<and> holds s' (xs @ [x]) \<and> cap s' = cap s"
    and get_first: "holds s (x # xs) \<Longrightarrow>
      \<exists>s'. get s = Some (Some x, s') \<and> holds s' xs \<and> cap s' = cap s"
    and get_empty: "holds s [] \<Longrightarrow> get s = Some (None, s)"
begin

lemma get_result:
  "holds s xs \<Longrightarrow>
   \<exists>s'. get s = Some (if xs = [] then None else Some (hd xs), s') \<and> holds s' (tl xs) \<and> cap s' = cap s"
  using get_first [of s "hd xs" "tl xs"] get_empty [of s] by (cases xs) auto

end

text \<open>A store inside a larger state: its operations leave the rest, seen by \<open>other\<close>, alone.\<close>

locale framed_fifo = bounded_fifo +
  fixes other :: "'a \<Rightarrow> 'c \<Rightarrow> bool"
  assumes put_frame: "holds s xs \<Longrightarrow> length xs < cap s \<Longrightarrow> put x s = Some s' \<Longrightarrow>
      other s' ys = other s ys"
    and get_frame: "holds s xs \<Longrightarrow> get s = Some (r, s') \<Longrightarrow> other s' ys = other s ys"
begin

lemma put_both:
  "holds s xs \<Longrightarrow> other s ys \<Longrightarrow> length xs < cap s \<Longrightarrow>
   \<exists>s'. put x s = Some s' \<and> holds s' (xs @ [x]) \<and> other s' ys \<and> cap s' = cap s"
  using put_room [of s xs x] put_frame [of s xs x _ ys] by blast

lemma get_both:
  "holds s xs \<Longrightarrow> other s ys \<Longrightarrow>
   \<exists>s'. get s = Some (if xs = [] then None else Some (hd xs), s') \<and>
        holds s' (tl xs) \<and> other s' ys \<and> cap s' = cap s"
  using get_result [of s xs] get_frame [of s xs _ _ ys] by blast

end

definition depth :: "message_queue \<Rightarrow> nat" where
  "depth q = unat (max_depth q)"

definition pool_holds :: "message_queue \<Rightarrow> ptr list \<Rightarrow> bool" where
  "pool_holds q fs \<longleftrightarrow> depth q \<le> 2 ^ 30 \<and> free_blocks q = of_nat (length fs) \<and>
     ring (depth q) (freelist q) (allocpos q) (freepos q) fs"

definition queue_holds :: "message_queue \<Rightarrow> ptr list \<Rightarrow> bool" where
  "queue_holds q xs \<longleftrightarrow> depth q \<le> 2 ^ 30 \<and> entries q = of_nat (length xs) \<and>
     ring (depth q) (queue_data q) (readpos q) (writepos q) xs"

lemma sint_count: "n \<le> 2 ^ 30 \<Longrightarrow> sint (of_nat n :: u32) = int n"
  by (simp add: sint_uint unat_of_nat signed_take_bit_int_eq_self uint_nat)

lemma unat_mod_depth: "unat (p mod max_depth q) = unat p mod depth q"
  by (simp add: depth_def unat_mod)

lemma pool_put:
  assumes h: "pool_holds q fs" and room: "length fs < depth q"
  shows "\<exists>q'. message_queue_message_free x q = Some q' \<and> pool_holds q' (fs @ [x]) \<and>
    depth q' = depth q \<and> (queue_holds q' xs \<longleftrightarrow> queue_holds q xs)"
proof -
  have r: "ring (depth q) (freelist q) (allocpos q) (freepos q) fs"
    using h by (simp add: pool_holds_def)
  show ?thesis
    using ring_put [OF r room] h
    by (auto simp: message_queue_message_free_def Let_def unat_mod_depth access_simps
        pool_holds_def queue_holds_def depth_def add.commute)
qed

lemma pool_get:
  assumes h: "pool_holds q (f # fs)"
  shows "\<exists>q'. message_queue_message_alloc q = Some (Some f, q') \<and> pool_holds q' fs \<and>
    depth q' = depth q \<and> (queue_holds q' xs \<longleftrightarrow> queue_holds q xs)"
proof -
  have r: "ring (depth q) (freelist q) (allocpos q) (freepos q) (f # fs)"
    using h by (simp add: pool_holds_def)
  then have "length (f # fs) \<le> 2 ^ 30" using h by (simp add: pool_holds_def ring_def)
  then have "0 < sint (free_blocks q)" using h sint_count [of "length (f # fs)"]
    by (simp add: pool_holds_def del: length_Cons)
  then show ?thesis
    using ring_take [OF r] h
    by (auto simp: message_queue_message_alloc_def Let_def unat_mod_depth access_simps
        pool_holds_def queue_holds_def depth_def)
qed

lemma pool_empty: "pool_holds q [] \<Longrightarrow> message_queue_message_alloc q = Some (None, q)"
  by (simp add: message_queue_message_alloc_def Let_def pool_holds_def)

lemma queue_put:
  assumes h: "queue_holds q xs" and room: "length xs < depth q"
  shows "\<exists>q'. message_queue_write x q = Some q' \<and> queue_holds q' (xs @ [x]) \<and>
    depth q' = depth q \<and> (pool_holds q' fs \<longleftrightarrow> pool_holds q fs)"
proof -
  have r: "ring (depth q) (queue_data q) (readpos q) (writepos q) xs"
    using h by (simp add: queue_holds_def)
  show ?thesis
    using ring_put [OF r room] h
    by (auto simp: message_queue_write_def Let_def unat_mod_depth access_simps
        pool_holds_def queue_holds_def depth_def add.commute)
qed

lemma queue_get:
  assumes h: "queue_holds q (x # xs)"
  shows "\<exists>q'. message_queue_tryread q = Some (Some x, q') \<and> queue_holds q' xs \<and>
    depth q' = depth q \<and> (pool_holds q' fs \<longleftrightarrow> pool_holds q fs)"
proof -
  have r: "ring (depth q) (queue_data q) (readpos q) (writepos q) (x # xs)"
    using h by (simp add: queue_holds_def)
  then have "length (x # xs) \<le> 2 ^ 30" using h by (simp add: queue_holds_def ring_def)
  then have "0 < sint (entries q)" using h sint_count [of "length (x # xs)"]
    by (simp add: queue_holds_def del: length_Cons)
  then show ?thesis
    using ring_take [OF r] h
    by (auto simp: message_queue_tryread_def Let_def unat_mod_depth access_simps
        pool_holds_def queue_holds_def depth_def)
qed

lemma queue_empty: "queue_holds q [] \<Longrightarrow> message_queue_tryread q = Some (None, q)"
  by (simp add: message_queue_tryread_def Let_def queue_holds_def)

interpretation pool: framed_fifo
  pool_holds depth message_queue_message_free message_queue_message_alloc queue_holds
proof unfold_locales
  show "queue_holds s' ys = queue_holds s ys"
    if "pool_holds s xs" "message_queue_message_alloc s = Some (r, s')" for s xs r s' ys
    using that pool_get [of s "hd xs" "tl xs" ys] pool_empty [of s] by (cases xs) auto
qed (use pool_put pool_get pool_empty in \<open>blast, blast, blast, metis option.inject\<close>)

interpretation fifo: framed_fifo
  queue_holds depth message_queue_write message_queue_tryread pool_holds
proof unfold_locales
  show "pool_holds s' ys = pool_holds s ys"
    if "queue_holds s xs" "message_queue_tryread s = Some (r, s')" for s xs r s' ys
    using that queue_get [of s "hd xs" "tl xs" ys] queue_empty [of s] by (cases xs) auto
qed (use queue_put queue_get queue_empty in \<open>blast, blast, blast, metis option.inject\<close>)

subsection \<open>The queue against its specification\<close>

text \<open>
  Calls of the clients. The specification state has the free blocks, the queued messages and
  the blocks some client holds; a client may only release or enqueue a block it holds.
\<close>

datatype mq_op = Alloc_block | Release_block ptr | Enqueue ptr | Dequeue

fun mq_call :: "mq_op \<Rightarrow> message_queue \<Rightarrow> (ptr option \<times> message_queue) option" where
  "mq_call Alloc_block q = message_queue_message_alloc q"
| "mq_call (Release_block p) q = map_option (Pair None) (message_queue_message_free p q)"
| "mq_call (Enqueue p) q = map_option (Pair None) (message_queue_write p q)"
| "mq_call Dequeue q = message_queue_tryread q"

fun mq_calls :: "mq_op list \<Rightarrow> message_queue \<Rightarrow> (ptr option list \<times> message_queue) option" where
  "mq_calls [] q = Some ([], q)"
| "mq_calls (c # cs) q = do {
     (r, q) \<leftarrow> mq_call c q;
     (rs, q) \<leftarrow> mq_calls cs q;
     Some (r # rs, q)
   }"

record mq_spec =
  free_list :: "ptr list"
  queued :: "ptr list"
  held :: "ptr list"

definition first :: "ptr list \<Rightarrow> ptr option" where
  "first xs = (if xs = [] then None else Some (hd xs))"

fun spec_call :: "mq_op \<Rightarrow> mq_spec \<Rightarrow> (ptr option \<times> mq_spec) option" where
  "spec_call Alloc_block s =
     Some (first (free_list s),
       s\<lparr>free_list := tl (free_list s), held := take 1 (free_list s) @ held s\<rparr>)"
| "spec_call (Release_block p) s =
     (if p \<in> set (held s)
      then Some (None, s\<lparr>free_list := free_list s @ [p], held := remove1 p (held s)\<rparr>) else None)"
| "spec_call (Enqueue p) s =
     (if p \<in> set (held s)
      then Some (None, s\<lparr>queued := queued s @ [p], held := remove1 p (held s)\<rparr>) else None)"
| "spec_call Dequeue s =
     Some (first (queued s), s\<lparr>queued := tl (queued s), held := take 1 (queued s) @ held s\<rparr>)"

fun spec_calls :: "mq_op list \<Rightarrow> mq_spec \<Rightarrow> (ptr option list \<times> mq_spec) option" where
  "spec_calls [] s = Some ([], s)"
| "spec_calls (c # cs) s = do {
     (r, s) \<leftarrow> spec_call c s;
     (rs, s) \<leftarrow> spec_calls cs s;
     Some (r # rs, s)
   }"

text \<open>The blocks of a queue, and what ties the code's state to the specification's.\<close>

definition owned :: "mq_spec \<Rightarrow> ptr multiset" where
  "owned s = mset (free_list s) + mset (queued s) + mset (held s)"

definition implements :: "message_queue \<Rightarrow> mq_spec \<Rightarrow> bool" where
  "implements q s \<longleftrightarrow>
     pool_holds q (free_list s) \<and> queue_holds q (queued s) \<and> size (owned s) = depth q"

lemma spec_call_owned: "spec_call c s = Some (r, s') \<Longrightarrow> owned s' = owned s"
proof (cases c)
  case Alloc_block
  assume "spec_call c s = Some (r, s')"
  then show ?thesis using Alloc_block by (cases "free_list s") (auto simp: owned_def)
next
  case Dequeue
  assume "spec_call c s = Some (r, s')"
  then show ?thesis using Dequeue by (cases "queued s") (auto simp: owned_def)
qed (auto simp: owned_def split: if_splits)

lemma held_room:
  assumes "p \<in> set (held s)" and "implements q s"
  shows "length (free_list s) < depth q" and "length (queued s) < depth q"
proof -
  have "0 < length (held s)" using assms(1) by (cases "held s") auto
  moreover have "length (free_list s) + length (queued s) + length (held s) = depth q"
    using assms(2) by (simp add: implements_def owned_def)
  ultimately show "length (free_list s) < depth q" and "length (queued s) < depth q" by linarith+
qed

lemma mq_call_refines:
  assumes i: "implements q s" and c: "spec_call c s = Some (r, s')"
  shows "\<exists>q'. mq_call c q = Some (r, q') \<and> implements q' s' \<and> depth q' = depth q"
proof -
  note h = i [unfolded implements_def]
  have o: "size (owned s') = depth q" using h spec_call_owned [OF c] by simp
  show ?thesis
  proof (cases c)
    case Alloc_block
    then show ?thesis
      using c o h pool.get_both [of q "free_list s" "queued s"] by (auto simp: implements_def first_def)
  next
    case (Release_block p)
    then show ?thesis
      using c o h held_room (1) [OF _ i, of p] pool.put_both [of q "free_list s" "queued s" p]
      by (auto simp: implements_def split: if_splits)
  next
    case (Enqueue p)
    then show ?thesis
      using c o h held_room (2) [OF _ i, of p] fifo.put_both [of q "queued s" "free_list s" p]
      by (auto simp: implements_def split: if_splits)
  next
    case Dequeue
    then show ?thesis
      using c o h fifo.get_both [of q "queued s" "free_list s"] by (auto simp: implements_def first_def)
  qed
qed

text \<open>What a producer does: take a block from the pool and queue it.\<close>

lemma alloc_then_write:
  assumes "implements q s"
  shows "free_list s = [] \<Longrightarrow> message_queue_message_alloc q = Some (None, q)"
    and "free_list s = p # ps \<Longrightarrow> \<exists>q1 q2. message_queue_message_alloc q = Some (Some p, q1) \<and>
      message_queue_write p q1 = Some q2 \<and>
      implements q2 (s\<lparr>free_list := ps, queued := queued s @ [p]\<rparr>)"
proof -
  show "free_list s = [] \<Longrightarrow> message_queue_message_alloc q = Some (None, q)"
    using assms by (intro pool_empty) (simp add: implements_def)
  assume f: "free_list s = p # ps"
  let ?s1 = "s\<lparr>free_list := ps, held := p # held s\<rparr>"
  let ?s2 = "s\<lparr>free_list := ps, queued := queued s @ [p], held := held s\<rparr>"
  have "spec_call Alloc_block s = Some (Some p, ?s1)" using f by (simp add: first_def)
  from mq_call_refines [OF assms this] obtain q1
    where q1: "message_queue_message_alloc q = Some (Some p, q1)" "implements q1 ?s1" by auto
  have "spec_call (Enqueue p) ?s1 = Some (None, ?s2)" by simp
  from mq_call_refines [OF q1(2) this] obtain q2
    where q2: "message_queue_write p q1 = Some q2" "implements q2 ?s2" by auto
  then show "\<exists>q1 q2. message_queue_message_alloc q = Some (Some p, q1) \<and>
      message_queue_write p q1 = Some q2 \<and>
      implements q2 (s\<lparr>free_list := ps, queued := queued s @ [p]\<rparr>)"
    using q1(1) by simp
qed

lemma mq_calls_refine:
  assumes "implements q s" and "spec_calls cs s = Some (rs, s')"
  shows "\<exists>q'. mq_calls cs q = Some (rs, q') \<and> implements q' s' \<and> owned s' = owned s"
  using assms
proof (induction cs arbitrary: q s rs)
  case Nil
  then show ?case by auto
next
  case (Cons c cs)
  then obtain r s1 rs1 where c: "spec_call c s = Some (r, s1)"
    and cs: "spec_calls cs s1 = Some (rs1, s')" and rs: "rs = r # rs1"
    by (auto simp: bind_eq_Some_conv)
  from mq_call_refines [OF Cons.prems(1) c] obtain q1
    where q1: "mq_call c q = Some (r, q1)" "implements q1 s1" by blast
  from Cons.IH [OF q1(2) cs] show ?case using q1(1) rs spec_call_owned [OF c] by auto
qed

text \<open>The blocks of the pool, as offsets.\<close>

definition blocks :: "u32 \<Rightarrow> u32 \<Rightarrow> ptr list" where
  "blocks sz n = map (\<lambda>i. unat (pad_size sz * of_nat i)) [0..<unat (round_to_pow2 n)]"

lemma init_ok:
  assumes "message_queue_init e sz n = Some (Inr q)"
  shows "\<exists>as qs. q = initial_queue (unset e) (pad_size sz) (round_to_pow2 n) as qs"
  using assms
  by (auto simp: message_queue_init_def Let_def split: if_split_asm bind_split_asm option.split_asm)

lemma rounded_depth:
  assumes "1 \<le> unat n" and "unat n \<le> 2 ^ 30"
  shows "\<exists>k\<le>30. unat (round_to_pow2 n) = 2 ^ k"
proof -
  obtain k where k: "unat (round_to_pow2 n) = 2 ^ k" "\<forall>l. unat n \<le> 2 ^ l \<longrightarrow> k \<le> l"
    using round_to_pow2_power [of n] assms by auto
  then show ?thesis using assms(2) by blast
qed

lemma filled_all:
  assumes "unat d \<le> 2 ^ 30"
  shows "filled d f left = map f [0..<unat d]"
proof -
  have "int i < sint d" if "i < unat d" for i
    using sint_count [OF assms] that of_nat_less_iff [where 'a = int, of i "unat d"] by (simp del: of_nat_less_iff)
  then show ?thesis unfolding filled_def by (intro map_cong) simp_all
qed

lemma initial_implements:
  assumes "1 \<le> unat n" and "unat n \<le> 2 ^ 30"
  shows "implements (initial_queue left (pad_size sz) (round_to_pow2 n) as qs)
    \<lparr>free_list = blocks sz n, queued = [], held = []\<rparr>"
proof -
  obtain k where k: "k \<le> 30" "unat (round_to_pow2 n) = 2 ^ k" using rounded_depth assms by blast
  have le: "(2 :: nat) ^ k \<le> 2 ^ 30" using k(1) by (intro power_increasing) auto
  moreover have "(2 :: nat) ^ k dvd 2 ^ 32" using k(1) by (intro le_imp_power_dvd) auto
  moreover have "round_to_pow2 n = of_nat (2 ^ k)" by (subst k(2) [symmetric]) simp
  moreover have "filled (round_to_pow2 n) f left = map f [0..<2 ^ k]" for f
    using filled_all [of "round_to_pow2 n" f left] le by (simp add: k(2))
  ultimately show ?thesis
    using k
    by (simp add: implements_def pool_holds_def queue_holds_def ring_def depth_def blocks_def
        initial_queue_def owned_def)
qed

lemma pad_size_covers:
  assumes "unat sz \<le> 2 ^ 31"
  shows "unat sz \<le> unat (pad_size sz)"
proof (cases "sz mod 8 = 0")
  case True
  then show ?thesis by (simp add: pad_size_def sizeof_padding_def)
next
  case False
  let ?m = "unat sz mod 8"
  have m: "unat (sz mod 8) = ?m" "?m < 8" by (simp_all add: unat_mod)
  have "unat (8 - sz mod 8) = 8 - ?m" using m by (simp add: unat_sub_if')
  then have "unat (sz + (8 - sz mod 8)) = unat sz + (8 - ?m)"
    using assms by (subst unat_add_lem [THEN iffD1]) simp_all
  then show ?thesis using False by (simp add: pad_size_def sizeof_padding_def)
qed

text \<open>If the pool's size fits in 32 bits, its blocks lie side by side inside it.\<close>

lemma blocks_apart:
  assumes sz: "1 \<le> unat sz" "unat sz \<le> 2 ^ 31"
    and fits: "unat (pad_size sz) * unat (round_to_pow2 n) < 2 ^ 32"
  shows "distinct (blocks sz n)"
    and "p \<in> set (blocks sz n) \<Longrightarrow> p + unat sz \<le> unat (pad_size sz * round_to_pow2 n)"
    and "p \<in> set (blocks sz n) \<Longrightarrow> p' \<in> set (blocks sz n) \<Longrightarrow> p < p' \<Longrightarrow> p + unat sz \<le> p'"
proof -
  let ?s = "unat (pad_size sz)" and ?d = "unat (round_to_pow2 n)"
  note pad = pad_size_covers [OF sz(2)]
  have off: "unat (pad_size sz * of_nat i) = ?s * i" if "i < ?d" for i
  proof -
    have i: "unat (of_nat i :: u32) = i" using that using unsigned_less [where 'a = nat, of "round_to_pow2 n"] by (simp add: unat_of_nat)
    have "?s * i < 2 ^ 32" using fits that by (meson le_less_trans less_imp_le mult_le_mono2)
    then show ?thesis using i by (simp add: unat_mult_lem [THEN iffD1])
  qed
  have bl: "blocks sz n = map (\<lambda>i. ?s * i) [0..<?d]" by (simp add: blocks_def off)
  have size: "unat (pad_size sz * round_to_pow2 n) = ?s * ?d"
    using fits by (simp add: unat_mult_lem [THEN iffD1])
  have step: "?s * i + unat sz \<le> ?s * j" if "i < j" for i j
  proof -
    have "?s * i + ?s \<le> ?s * j" using that by (metis Suc_leI mult_Suc_right mult_le_mono2 add.commute)
    then show ?thesis using pad by simp
  qed
  show "distinct (blocks sz n)" using pad sz(1) by (simp add: bl distinct_map inj_on_def)
  show "p \<in> set (blocks sz n) \<Longrightarrow> p + unat sz \<le> unat (pad_size sz * round_to_pow2 n)"
    unfolding size bl by (auto intro: step)
  show "p \<in> set (blocks sz n) \<Longrightarrow> p' \<in> set (blocks sz n) \<Longrightarrow> p < p' \<Longrightarrow> p + unat sz \<le> p'"
    unfolding bl by (auto intro: step)
qed

text \<open>
  C33. The queue keeps its contract. Let a queue be made for messages of \<open>sz\<close> bytes, with at most
  \<open>2 ^ 30\<close> blocks and a pool whose size fits in 32 bits (the code computes it there). Then its blocks
  are distinct, do not overlap and lie inside the pool; and for every sequence of calls by
  clients that release and enqueue only blocks they hold, no call spins or fails, \<open>alloc\<close> and
  \<open>tryread\<close> answer exactly what the specification's free list and first-in first-out queue
  answer (so messages arrive in order, none lost and none twice, and NULL is answered only by
  an empty list), however often the 32-bit positions wrap; and every block of the pool is free,
  queued or held, once.
\<close>

theorem message_queue_refines:
  assumes "message_queue_init e sz n = Some (Inr q)" and "1 \<le> unat n" and "unat n \<le> 2 ^ 30"
    and "1 \<le> unat sz" and "unat sz \<le> 2 ^ 31" and "unat (pad_size sz) * unat (round_to_pow2 n) < 2 ^ 32"
    and "spec_calls cs \<lparr>free_list = blocks sz n, queued = [], held = []\<rparr> = Some (rs, s')"
  shows "distinct (blocks sz n) \<and>
    (\<forall>p \<in> set (blocks sz n). p + unat sz \<le> unat (memory_size q) \<and>
       (\<forall>p' \<in> set (blocks sz n). p < p' \<longrightarrow> p + unat sz \<le> p')) \<and>
    (\<exists>q'. mq_calls cs q = Some (rs, q') \<and>
       mset (free_list s') + mset (queued s') + mset (held s') = mset (blocks sz n))"
proof -
  obtain as qs where q: "q = initial_queue (unset e) (pad_size sz) (round_to_pow2 n) as qs"
    using init_ok [OF assms(1)] by blast
  have "memory_size q = pad_size sz * round_to_pow2 n" by (simp add: q initial_queue_def)
  moreover obtain q' where "mq_calls cs q = Some (rs, q')"
    "owned s' = owned \<lparr>free_list = blocks sz n, queued = [], held = []\<rparr>"
    using mq_calls_refine [OF initial_implements [OF assms(2,3)] assms(7)] unfolding q by blast
  ultimately show ?thesis using blocks_apart [OF assms(4-6)] by (simp add: owned_def)
qed

text \<open>
  Beyond 32 bits the pool is too small: for \<open>2 ^ 30\<close> messages of 8 bytes, \<open>malloc\<close> is asked for
  none, and blocks \<open>2 ^ 29\<close> apart are the same.
\<close>

lemma pool_overflow:
  assumes "message_queue_init e 8 (2 ^ 30) = Some (Inr q)"
  shows "memory_size q = 0 \<and> freelist q ! 0 = freelist q ! (2 ^ 29)"
proof -
  have p: "pad_size 8 = 8" "round_to_pow2 (2 ^ 30) = 2 ^ 30"
    by (simp_all add: pad_size_def sizeof_padding_def round_to_pow2_def smear_def)
  obtain as qs where q: "q = initial_queue (unset e) 8 (2 ^ 30) as qs"
    using init_ok [OF assms] unfolding p by blast
  have "freelist q = map (\<lambda>i. Some (unat (8 * of_nat i :: u32))) [0..<unat (2 ^ 30 :: u32)]"
    unfolding q initial_queue_def by (simp add: filled_all)
  then show ?thesis by (simp add: q initial_queue_def)
qed

text \<open>Acquisition, as far as the outcomes of the environment go.\<close>

fun acquired_sem :: "sem_ref option option \<Rightarrow> sem_ref list" where
  "acquired_sem (Some (Some s)) = [s]"
| "acquired_sem _ = []"

definition proper_release :: "sem_ref \<Rightarrow> release" where
  "proper_release s = (case s of Named _ \<Rightarrow> Sem_close s | _ \<Rightarrow> Sem_destroy s)"

lemma sem_setup_ref: "sem_setup own name inits opens = Some (Some s) \<Longrightarrow> s = own \<or> s = Named name"
  by (induction own name inits opens rule: sem_setup.induct) (auto split: if_splits)

definition failed_release :: "init_env \<Rightarrow> release list" where
  "failed_release e =
     (let a = sem_setup Allocator_unnamed 0 (a_sem_inits e) (a_sem_opens e);
          got_sem = malloc_memory e \<and> malloc_freelist e \<and> (\<exists>s. a = Some (Some s));
          got_data = got_sem \<and> malloc_data e
      in (if got_data then [Free_queue_data] else []) @
         (if got_sem then map proper_release (acquired_sem a) else []) @
         (if malloc_memory e \<and> malloc_freelist e then [Free_freelist] else []) @
         (if malloc_memory e then [Free_memory] else []))"

lemma release_sem_proper:
  "s = own \<or> s = Named k \<Longrightarrow> own \<in> {Allocator_unnamed, Queue_unnamed} \<Longrightarrow>
   release_sem own s = proper_release s"
  by (auto simp: release_sem_def proper_release_def)

lemma init_failure:
  assumes "message_queue_init e sz n = Some (Inl rel)"
  shows "rel = failed_release e"
proof (cases "\<exists>s. sem_setup Allocator_unnamed 0 (a_sem_inits e) (a_sem_opens e) = Some (Some s)")
  case True
  then obtain s where s: "sem_setup Allocator_unnamed 0 (a_sem_inits e) (a_sem_opens e) = Some (Some s)"
    by blast
  have "release_sem Allocator_unnamed s = proper_release s"
    using sem_setup_ref [OF s] by (rule release_sem_proper) simp
  then show ?thesis
    using assms s
    by (auto simp: message_queue_init_def failed_release_def Let_def
        split: if_split_asm bind_split_asm option.split_asm)
next
  case False
  then show ?thesis
    using assms
    by (auto simp: message_queue_init_def failed_release_def Let_def
        split: if_split_asm bind_split_asm option.split_asm)
qed

lemma init_sems:
  assumes "message_queue_init e sz n = Some (Inr q)"
  shows "a_sem q \<noteq> Queue_unnamed" and "q_sem q = Queue_unnamed \<or> q_sem q = Named 1"
  using assms sem_setup_ref
  by (fastforce simp: message_queue_init_def Let_def initial_queue_def
      split: if_split_asm bind_split_asm option.split_asm)+

text \<open>
  C34. What was acquired is released: when initialisation fails, its error path gives back
  exactly the memory and the semaphore acquired before, each once, an unnamed semaphore by
  \<open>sem_destroy\<close> and a named one by \<open>sem_close\<close>. \<open>message_queue_destroy\<close> is not as careful:
  of a queue with unnamed semaphores, the usual case, it passes the allocator's to \<open>sem_close\<close>,
  since it compares it with the address of the queue's semaphore.
\<close>

theorem message_queue_releases:
  assumes "message_queue_init e sz n = Some r"
  shows "case r of
      Inl released \<Rightarrow> released = failed_release e
    | Inr q \<Rightarrow> message_queue_destroy q =
        [proper_release (q_sem q), Free_queue_data, Sem_close (a_sem q), Free_freelist, Free_memory]"
proof (cases r)
  case (Inl rel)
  then show ?thesis using init_failure assms by simp
next
  case (Inr q)
  then have i: "message_queue_init e sz n = Some (Inr q)" using assms by simp
  have "release_sem Queue_unnamed (q_sem q) = proper_release (q_sem q)"
    using init_sems (2) [OF i] by (rule release_sem_proper) simp
  then show ?thesis
    using Inr init_sems (1) [OF i] by (simp add: message_queue_destroy_def release_sem_def)
qed

subsection \<open>Waiting readers\<close>

lemma queue_holds_sems [simp]:
  "queue_holds (q\<lparr>q_blocked_readers := n\<rparr>) xs = queue_holds q xs"
  "queue_holds (q\<lparr>q_sem_value := v\<rparr>) xs = queue_holds q xs"
  by (simp_all add: queue_holds_def depth_def)

lemma write_wakes:
  "message_queue_write p q = Some q' \<Longrightarrow> q_blocked_readers q \<noteq> 0 \<Longrightarrow>
   q_blocked_readers q' = q_blocked_readers q - 1 \<and> q_sem_value q' = Suc (q_sem_value q)"
  by (auto simp: message_queue_write_def Let_def bind_eq_Some_conv split: if_splits)

lemma tryread_sems:
  "message_queue_tryread q = Some (r, q') \<Longrightarrow>
   q_blocked_readers q' = q_blocked_readers q \<and> q_sem_value q' = q_sem_value q"
  by (auto simp: message_queue_tryread_def Let_def bind_eq_Some_conv split: if_splits)

text \<open>
  No lost wake-up: a reader that finds the queue empty registers, waits, is woken by the
  next write of another thread and returns that message; it leaves the semaphore and the count
  of blocked readers as it found them. A reader that finds messages takes the first at once.
\<close>

theorem message_queue_read_returns:
  assumes h: "queue_holds q xs" and room: "xs = [] \<Longrightarrow> 0 < depth q"
    and idle: "q_blocked_readers q = 0"
  shows "\<exists>q'. message_queue_read [\<lambda>q. the (message_queue_write p q)] q =
      Some (if xs = [] then p else hd xs, q') \<and> queue_holds q' (tl xs) \<and>
    q_blocked_readers q' = 0 \<and> q_sem_value q' = q_sem_value q"
proof (cases xs)
  case (Cons x ys)
  obtain q1 where q1: "message_queue_tryread q = Some (Some x, q1)" "queue_holds q1 ys"
    using fifo.get_result [OF h] Cons by auto
  then show ?thesis
    using tryread_sems [OF q1(1)] idle by (simp add: message_queue_read_def Cons)
next
  case Nil
  let ?q1 = "q\<lparr>q_blocked_readers := 1\<rparr>"
  have q: "queue_holds q []" "queue_holds ?q1 []" "depth ?q1 = depth q"
    using h Nil by (simp_all add: depth_def)
  obtain q2 where q2: "message_queue_write p ?q1 = Some q2" "queue_holds q2 [p]"
    using queue_put [OF q(2), of p] room q(3) Nil by auto
  have w: "q_blocked_readers q2 = 0" "q_sem_value q2 = Suc (q_sem_value q)"
    using write_wakes [OF q2(1)] by simp_all
  let ?q3 = "q2\<lparr>q_sem_value := q_sem_value q\<rparr>"
  have "queue_holds ?q3 [p]" using q2 by simp
  from fifo.get_first [OF this] obtain q4
    where q4: "message_queue_tryread ?q3 = Some (Some p, q4)" "queue_holds q4 []" by blast
  show ?thesis
    using q4 tryread_sems [OF q4(1)] w idle
    by (simp add: Nil message_queue_read_def queue_empty [OF q(1)] queue_empty [OF q(2)] q2
        sem_wait_queue_def)
qed

text \<open>The queues of a fragment: pointers of 8 bytes, 128 of them; every call succeeds.\<close>

definition all_ok :: init_env where
  "all_ok = \<lparr>malloc_memory = True, malloc_freelist = True, malloc_data = True, unset = (\<lambda>_. None),
     a_sem_inits = [Sys_eintr, Sys_ok], a_sem_opens = [], q_sem_inits = [Sys_ok], q_sem_opens = []\<rparr>"

lemma small_depth: "round_to_pow2 3 = 4" "pad_size 5 = 8"
  by (simp_all add: round_to_pow2_def smear_def pad_size_def sizeof_padding_def)

definition example_queue :: message_queue where
  "example_queue = initial_queue (\<lambda>_. None) 8 4 Allocator_unnamed Queue_unnamed"

lemma example_init: "message_queue_init all_ok 5 3 = Some (Inr example_queue)"
  by (simp add: message_queue_init_def all_ok_def small_depth example_queue_def)

lemma message_queue_refines_witness:
  "\<exists>q'. mq_calls [Alloc_block, Alloc_block, Enqueue 8, Enqueue 0, Dequeue, Release_block 8, Dequeue, Dequeue]
     example_queue = Some ([Some 0, Some 8, None, None, Some 8, None, Some 0, None], q')"
  using message_queue_refines [OF example_init, of
      "[Alloc_block, Alloc_block, Enqueue 8, Enqueue 0, Dequeue, Release_block 8, Dequeue, Dequeue]"]
  by (auto simp: blocks_def small_depth first_def upt_rec)

lemma message_queue_releases_witness:
  "Sem_close Allocator_unnamed \<in> set (message_queue_destroy example_queue) \<and>
   message_queue_init (all_ok\<lparr>malloc_data := False\<rparr>) 8 128 =
     Some (Inl [Sem_destroy Allocator_unnamed, Free_freelist, Free_memory])"
proof -
  have i: "message_queue_init (all_ok\<lparr>malloc_data := False\<rparr>) 8 128 =
      Some (Inl [Sem_destroy Allocator_unnamed, Free_freelist, Free_memory])"
    by (simp add: message_queue_init_def all_ok_def release_sem_def)
  show ?thesis
    using message_queue_releases [OF example_init] i
    by (simp add: example_queue_def initial_queue_def)
qed

lemma message_queue_read_returns_witness:
  "\<exists>q'. message_queue_read [\<lambda>q. the (message_queue_write 24 q)] example_queue = Some (24, q')"
proof -
  have "queue_holds example_queue []"
    using initial_implements [of 3 "\<lambda>_. None" 5 Allocator_unnamed Queue_unnamed]
    by (simp add: small_depth example_queue_def implements_def)
  then show ?thesis
    using message_queue_read_returns [of example_queue "[]" 24]
    by (auto simp: depth_def example_queue_def initial_queue_def)
qed

end
