(* ===== verification/Node_Context.thy ===== *)
theory Node_Context
  imports Node_State Networking Message_Queue
begin

text \<open>
  What the framework does below \<open>mixnet_send\<close> and \<open>mixnet_recv\<close>: the class \<open>node_context\<close> of
  \<open>framework/fragment.h\<close> with \<open>node_send\<close>, \<open>node_recv\<close> and its set-up in \<open>framework/fragment.cpp\<close>.
  The kernel's side of the sockets is part of the state: the bytes each receiving socket still
  holds (\<open>rx_pending\<close>) and the bytes each sending socket has taken (\<open>tx_wire\<close>). The queues the
  context shares with the other threads of the fragment are a record of their own; the memory
  of a queue's blocks is a map from blocks to the packet pointer stored there.
\<close>

subsection \<open>State\<close>

record thread_state =
  exited :: bool
  thread_started :: bool
  thread_keep_running :: bool
  exit_code :: error_code

definition thread_state_new :: thread_state where
  "thread_state_new =
     \<lparr>exited = False, thread_started = False, thread_keep_running = True, exit_code = NONE\<rparr>"

record node_context =
  node_config :: mixnet_node_config
  tx_listen_fd :: int
  tx_socket_fds :: "int list"
  tx_server_netaddr :: sockaddr_in
  rx_port_idx :: u16
  rx_socket_fds :: "int list"
  neighbor_netaddrs :: "sockaddr_in list"
  ts :: thread_state
  link_states :: "bool list"
  recv_buffer :: buf
  is_pcap_subscribed :: bool
  tx_wire :: "buf list"
  rx_pending :: "buf list"

text \<open>A cell holds a packet, or NULL (the sentinel of the pcap queue).\<close>

record itc =
  mq_pcap :: message_queue
  pcap_cells :: "ptr \<Rightarrow> buf option"
  mq_user :: message_queue
  user_cells :: "ptr \<Rightarrow> buf option"

subsection \<open>Sending\<close>

definition packet_config :: config where
  "packet_config = \<lparr>mode = RX_TX_BLOCKING, timeout_ms = 0\<rparr>"

definition packet_once :: config where
  "packet_once = \<lparr>mode = RX_TRY_ONCE, timeout_ms = 0\<rparr>"

type_synonym tx_io = "bool option \<times> (send_outcome \<times> u64) list"
type_synonym rx_io = "bool option \<times> (arrival \<times> u64) list"

definition packet_send_blocking :: "tx_io \<Rightarrow> buf \<Rightarrow> (error_code \<times> buf) option" where
  "packet_send_blocking io b = send_generic packet_config (fst io) (snd io) b
     MIXNET_CONNECTION_BROKEN MIN_MIXNET_PACKET_SIZE MAX_MIXNET_PACKET_SIZE"

definition packet_recv_once :: "rx_io \<Rightarrow> buf \<Rightarrow> buf \<Rightarrow> (error_code \<times> buf \<times> buf) option" where
  "packet_recv_once io pending b = returned (recv_generic packet_once (fst io) (snd io) pending b
     MIXNET_CONNECTION_BROKEN MIN_MIXNET_PACKET_SIZE MAX_MIXNET_PACKET_SIZE)"

text \<open>The switch over the packet type: does the declared size fit the payload?\<close>

definition validate_size :: "buf \<Rightarrow> bool option" where
  "validate_size packet = do {
     total \<leftarrow> get16 packet off_total_size;
     code \<leftarrow> get16 packet off_type;
     let payload_size = unat (total - of_nat sizeof_mixnet_packet);
     case type_of_code code of
       None \<Rightarrow> Some False
     | Some t \<Rightarrow> (case t of
         PACKET_TYPE_STP \<Rightarrow> Some (payload_size = sizeof_mixnet_packet_stp)
       | PACKET_TYPE_FLOOD \<Rightarrow> Some (payload_size = 0)
       | PACKET_TYPE_LSA \<Rightarrow> do {
           n \<leftarrow> get16 packet off_lsa_count;
           Some (payload_size =
             sizeof_mixnet_packet_lsa + sizeof_mixnet_lsa_link_params * unat n)
         }
       | PACKET_TYPE_DATA \<Rightarrow> Some True
       | PACKET_TYPE_PING \<Rightarrow> do {
           n \<leftarrow> get16 packet off_rh_route_length;
           Some (payload_size =
             sizeof_mixnet_packet_ping + sizeof_routing_header + sizeof_mixnet_address * unat n)
         })
   }"

text \<open>
  The result of \<open>node_send\<close>: refused (-1, the packet stays with the caller), sent (1, the
  packet is gone), or the exception that ends the node's thread (the packet is gone, too).
\<close>

datatype send_result = Refused buf | Accepted_packet | Send_thrown

definition fail_thread :: "error_code \<Rightarrow> node_context \<Rightarrow> node_context" where
  "fail_thread e c = c\<lparr>ts := (ts c)\<lparr>exit_code := e, exited := True\<rparr>\<rparr>"

definition send_to_user ::
  "buf \<Rightarrow> node_context \<Rightarrow> itc \<Rightarrow> (send_result \<times> node_context \<times> itc) option" where
  "send_to_user packet c q = do {
     code \<leftarrow> get16 packet off_type;
     if code \<noteq> type_code PACKET_TYPE_FLOOD \<and> code \<noteq> type_code PACKET_TYPE_DATA \<and>
        code \<noteq> type_code PACKET_TYPE_PING
     then Some (Refused packet, c, q)
     else if is_pcap_subscribed c then do {
       (p, mq) \<leftarrow> message_queue_message_alloc (mq_pcap q);
       let q = q\<lparr>mq_pcap := mq\<rparr>;
       case p of
         None \<Rightarrow> Some (Send_thrown, fail_thread FRAGMENT_PCAP_MQ_FULL c, q)
       | Some p \<Rightarrow> do {
           let q = q\<lparr>pcap_cells := (pcap_cells q)(p := Some packet)\<rparr>;
           mq \<leftarrow> message_queue_write p (mq_pcap q);
           Some (Accepted_packet, c, q\<lparr>mq_pcap := mq\<rparr>)
         }
     }
     else Some (Accepted_packet, c, q)
   }"

definition send_to_neighbor ::
  "tx_io \<Rightarrow> nat \<Rightarrow> buf \<Rightarrow> node_context \<Rightarrow> (send_result \<times> node_context) option" where
  "send_to_neighbor io port packet c = do {
     fd \<leftarrow> get_at (tx_socket_fds c) port;
     (ec, out) \<leftarrow> packet_send_blocking io packet;
     let c = c\<lparr>tx_wire := (tx_wire c)[port := tx_wire c ! port @ out]\<rparr>;
     if ec \<noteq> NONE then Some (Send_thrown, fail_thread ec c) else Some (Accepted_packet, c)
   }"

definition node_send ::
  "tx_io \<Rightarrow> byte \<Rightarrow> buf \<Rightarrow> node_context \<Rightarrow> itc \<Rightarrow> (send_result \<times> node_context \<times> itc) option" where
  "node_send io port packet c q =
     (let max_port_id = num_neighbors (node_config c) in
      if max_port_id < ucast port then Some (Refused packet, c, q)
      else do {
        total \<leftarrow> get16 packet off_total_size;
        if unat total < MIN_MIXNET_PACKET_SIZE \<or> MAX_MIXNET_PACKET_SIZE < unat total
        then Some (Refused packet, c, q)
        else do {
          packet \<leftarrow> write_at packet off_reserved (replicate 8 0);
          ok \<leftarrow> validate_size packet;
          if \<not> ok then Some (Refused packet, c, q)
          else if ucast port = max_port_id then send_to_user packet c q
          else do {
            (r, c) \<leftarrow> send_to_neighbor io (unat port) packet c;
            Some (r, c, q)
          }
        }
      })"

subsection \<open>Receiving\<close>

datatype serve_result = Nothing_pending | Got buf | Rx_failed

definition serve_user :: "node_context \<Rightarrow> itc \<Rightarrow> (serve_result \<times> node_context \<times> itc) option" where
  "serve_user c q = do {
     (p, mq) \<leftarrow> message_queue_tryread (mq_user q);
     let q = q\<lparr>mq_user := mq\<rparr>;
     case p of
       None \<Rightarrow> Some (Nothing_pending, c, q)
     | Some p \<Rightarrow> do {
         packet \<leftarrow> user_cells q p;
         mq \<leftarrow> message_queue_message_free p (mq_user q);
         Some (Got packet, c, q\<lparr>mq_user := mq\<rparr>)
       }
   }"

definition serve_neighbor :: "rx_io \<Rightarrow> nat \<Rightarrow> node_context \<Rightarrow> (serve_result \<times> node_context) option" where
  "serve_neighbor io i c = do {
     up \<leftarrow> get_at (link_states c) i;
     if \<not> up then Some (Nothing_pending, c)
     else do {
       pending \<leftarrow> get_at (rx_pending c) i;
       (ec, b, pending) \<leftarrow> packet_recv_once io pending (recv_buffer c);
       let c = c\<lparr>recv_buffer := b, rx_pending := (rx_pending c)[i := pending]\<rparr>;
       if ec = NONE then do {
         total \<leftarrow> get16 b off_total_size;
         data \<leftarrow> read_at b 0 (unat total);
         Some (Got data, c)
       }
       else if ec \<noteq> RECV_ZERO_PENDING then Some (Rx_failed, fail_thread ec c)
       else Some (Nothing_pending, c)
     }
   }"

definition serve_port ::
  "(nat \<Rightarrow> rx_io) \<Rightarrow> node_context \<Rightarrow> itc \<Rightarrow> (serve_result \<times> node_context \<times> itc) option" where
  "serve_port io c q =
     (if rx_port_idx c = num_neighbors (node_config c) then serve_user c q
      else do {
        let i = unat (rx_port_idx c);
        (r, c) \<leftarrow> serve_neighbor (io i) i c;
        Some (r, c, q)
      })"

definition next_port :: "node_context \<Rightarrow> u16" where
  "next_port c = of_nat ((unat (rx_port_idx c) + 1) mod (unat (num_neighbors (node_config c)) + 1))"

text \<open>No packet, a packet with the port it came in on, or the exception.\<close>

datatype recv_result = No_packet | Packet byte buf | Recv_thrown

text \<open>The do-while loop; \<open>fuel\<close> bounds its rounds.\<close>

fun port_loop ::
  "nat \<Rightarrow> u16 \<Rightarrow> (nat \<Rightarrow> rx_io) \<Rightarrow> node_context \<Rightarrow> itc \<Rightarrow> (recv_result \<times> node_context \<times> itc) option"
where
  "port_loop 0 stop_idx io c q = None"
| "port_loop (Suc fuel) stop_idx io c q = do {
     (r, c, q) \<leftarrow> serve_port io c q;
     let port = ucast (rx_port_idx c);
     case r of
       Rx_failed \<Rightarrow> Some (Recv_thrown, c, q)
     | Got packet \<Rightarrow> Some (Packet port packet, c\<lparr>rx_port_idx := next_port c\<rparr>, q)
     | Nothing_pending \<Rightarrow>
         let c = c\<lparr>rx_port_idx := next_port c\<rparr> in
         if rx_port_idx c \<noteq> stop_idx then port_loop fuel stop_idx io c q
         else Some (No_packet, c, q)
   }"

definition node_recv ::
  "(nat \<Rightarrow> rx_io) \<Rightarrow> node_context \<Rightarrow> itc \<Rightarrow> (recv_result \<times> node_context \<times> itc) option" where
  "node_recv io c q =
     port_loop (unat (num_neighbors (node_config c)) + 1) (rx_port_idx c) io c q"

subsection \<open>Round robin\<close>

abbreviation nports :: "node_context \<Rightarrow> nat" where
  "nports c \<equiv> unat (num_neighbors (node_config c))"

definition ctx_ok :: "node_context \<Rightarrow> bool" where
  "ctx_ok c \<longleftrightarrow>
     length (tx_socket_fds c) = nports c \<and> length (rx_socket_fds c) = nports c \<and>
     length (link_states c) = nports c \<and> length (tx_wire c) = nports c \<and>
     length (rx_pending c) = nports c \<and> length (recv_buffer c) = MAX_MIXNET_PACKET_SIZE \<and>
     unat (rx_port_idx c) \<le> nports c"

text \<open>The user queue implements a specification state, and every queued block has its packet.\<close>

definition itc_ok :: "itc \<Rightarrow> mq_spec \<Rightarrow> bool" where
  "itc_ok q s \<longleftrightarrow> implements (mq_user q) s \<and> (\<forall>p \<in> set (queued s). \<exists>b. user_cells q p = Some b)"

definition complete_packet :: "buf \<Rightarrow> bool" where
  "complete_packet P \<longleftrightarrow> frame_complete MIN_MIXNET_PACKET_SIZE MAX_MIXNET_PACKET_SIZE P"

definition bad_stream :: "buf \<Rightarrow> bool" where
  "bad_stream P \<longleftrightarrow> frame_malformed MIN_MIXNET_PACKET_SIZE MAX_MIXNET_PACKET_SIZE P"

definition port_ready :: "node_context \<Rightarrow> mq_spec \<Rightarrow> nat \<Rightarrow> bool" where
  "port_ready c s i \<longleftrightarrow>
     (if i = nports c then queued s \<noteq> [] else link_states c ! i \<and> complete_packet (rx_pending c ! i))"

definition port_packet :: "node_context \<Rightarrow> itc \<Rightarrow> mq_spec \<Rightarrow> nat \<Rightarrow> buf" where
  "port_packet c q s i =
     (if i = nports c then the (user_cells q (hd (queued s)))
      else take (frame_len (rx_pending c ! i)) (rx_pending c ! i))"

text \<open>During the call nothing arrives, and no enabled link has a malformed length at its head.\<close>

definition quiet_io :: "nat \<Rightarrow> rx_io" where
  "quiet_io i = (Some True, quiet)"

definition clean_links :: "node_context \<Rightarrow> bool" where
  "clean_links c \<longleftrightarrow> (\<forall>i < nports c. link_states c ! i \<longrightarrow> \<not> bad_stream (rx_pending c ! i))"

definition same_links :: "node_context \<Rightarrow> node_context \<Rightarrow> bool" where
  "same_links c c' \<longleftrightarrow> node_config c' = node_config c \<and> link_states c' = link_states c \<and>
     tx_wire c' = tx_wire c \<and> ts c' = ts c"

text \<open>What consuming the packet of port \<open>i\<close> leaves behind.\<close>

definition consumed :: "node_context \<Rightarrow> itc \<Rightarrow> mq_spec \<Rightarrow> nat \<Rightarrow> node_context \<Rightarrow> itc \<Rightarrow> bool" where
  "consumed c q s i c' q' \<longleftrightarrow> same_links c c' \<and> ctx_ok c' \<and>
     (if i = nports c
      then rx_pending c' = rx_pending c \<and> (\<exists>s'. itc_ok q' s' \<and> queued s' = tl (queued s) \<and>
             (\<forall>p \<in> set (queued s'). user_cells q' p = user_cells q p))
      else rx_pending c' = (rx_pending c)[i := drop (frame_len (rx_pending c ! i)) (rx_pending c ! i)] \<and>
           q' = q)"

lemma serve_user_quiet:
  assumes q: "itc_ok q s"
  shows "if queued s = [] then serve_user c q = Some (Nothing_pending, c, q)
    else \<exists>q' s'. serve_user c q = Some (Got (the (user_cells q (hd (queued s)))), c, q') \<and>
      itc_ok q' s' \<and> queued s' = tl (queued s) \<and> user_cells q' = user_cells q"
proof (cases "queued s")
  case Nil
  then have "queue_holds (mq_user q) []" using q by (simp add: itc_ok_def implements_def)
  from queue_empty [OF this] show ?thesis using Nil by (simp add: serve_user_def)
next
  case (Cons p ps)
  have i: "implements (mq_user q) s" using q by (simp add: itc_ok_def)
  obtain b where b: "user_cells q p = Some b" using q Cons by (auto simp: itc_ok_def)
  let ?s1 = "s\<lparr>queued := ps, held := p # held s\<rparr>"
  have "spec_call Dequeue s = Some (Some p, ?s1)" using Cons by (simp add: first_def)
  from mq_call_refines [OF i this] obtain m1
    where m1: "message_queue_tryread (mq_user q) = Some (Some p, m1)" "implements m1 ?s1" by auto
  let ?s2 = "?s1\<lparr>free_list := free_list s @ [p], held := held s\<rparr>"
  have "spec_call (Release_block p) ?s1 = Some (None, ?s2)" by simp
  from mq_call_refines [OF m1(2) this] obtain m2
    where m2: "message_queue_message_free p m1 = Some m2" "implements m2 ?s2" by auto
  have "itc_ok (q\<lparr>mq_user := m2\<rparr>) ?s2" using q m2(2) Cons by (auto simp: itc_ok_def)
  then show ?thesis
    using b m1(1) m2(1) Cons by (auto simp: serve_user_def intro!: exI [of _ ?s2])
qed

lemma packet_recv_once_quiet:
  assumes "length b = MAX_MIXNET_PACKET_SIZE"
  shows "\<exists>b'. packet_recv_once (quiet_io i) P b = Some
      (if complete_packet P then (NONE, b', drop (frame_len P) P)
       else (if bad_stream P then MALFORMED_MESSAGE else RECV_ZERO_PENDING, b', P)) \<and>
    length b' = length b \<and> (complete_packet P \<longrightarrow> take (frame_len P) b' = take (frame_len P) P)"
proof -
  have "try_once packet_once" by (simp add: packet_once_def try_once_def)
  then show ?thesis
    unfolding packet_recv_once_def quiet_io_def complete_packet_def bad_stream_def fst_conv snd_conv returned_iff
    by (rule recv_once_quiet) (use assms in simp_all)
qed

lemma serve_neighbor_quiet:
  assumes c: "ctx_ok c" and i: "i < nports c"
    and clean: "link_states c ! i \<longrightarrow> \<not> bad_stream (rx_pending c ! i)"
  shows "\<exists>b'. length b' = MAX_MIXNET_PACKET_SIZE \<and>
    serve_neighbor (quiet_io i) i c = Some
      (if link_states c ! i \<and> complete_packet (rx_pending c ! i)
       then (Got (take (frame_len (rx_pending c ! i)) (rx_pending c ! i)),
             c\<lparr>recv_buffer := b',
               rx_pending := (rx_pending c)[i := drop (frame_len (rx_pending c ! i)) (rx_pending c ! i)]\<rparr>)
       else (Nothing_pending, c\<lparr>recv_buffer := b'\<rparr>))"
proof -
  let ?P = "rx_pending c ! i"
  have l: "i < length (link_states c)" "i < length (rx_pending c)"
      "length (recv_buffer c) = MAX_MIXNET_PACKET_SIZE"
    using c i by (simp_all add: ctx_ok_def)
  obtain b' where r: "packet_recv_once (quiet_io i) ?P (recv_buffer c) = Some
      (if complete_packet ?P then (NONE, b', drop (frame_len ?P) ?P)
       else (if bad_stream ?P then MALFORMED_MESSAGE else RECV_ZERO_PENDING, b', ?P))"
    and b': "length b' = MAX_MIXNET_PACKET_SIZE"
    and front: "complete_packet ?P \<longrightarrow> take (frame_len ?P) b' = take (frame_len ?P) ?P"
    using packet_recv_once_quiet [OF l(3), of i ?P] l(3) by auto
  show ?thesis
  proof (cases "link_states c ! i")
    case False
    then show ?thesis
      using l by (intro exI [of _ "recv_buffer c"]) (simp add: serve_neighbor_def access_simps)
  next
    case up: True
    show ?thesis
    proof (cases "complete_packet ?P")
      case False
      then show ?thesis
        using l up r b' clean
        by (intro exI [of _ b']) (simp add: serve_neighbor_def access_simps)
    next
      case True
      then have n: "2 \<le> frame_len ?P" "frame_len ?P \<le> 4096" "2 \<le> length ?P"
        by (auto simp: complete_packet_def frame_complete_def)
      have "rd16 b' 0 = rd16 (take (frame_len ?P) b') 0" using n by simp
      also have "\<dots> = rd16 ?P 0" using True front n by simp
      finally have "get16 b' 0 = Some (rd16 ?P 0)" using b' by (simp add: get16_iff)
      moreover have "read_at b' 0 (frame_len ?P) = Some (take (frame_len ?P) ?P)"
        using True front n b' by (simp add: read_at_def slice_def)
      ultimately show ?thesis
        using l up r b' True
        by (intro exI [of _ b']) (simp add: serve_neighbor_def access_simps frame_len_def)
    qed
  qed
qed

lemma same_links_refl: "same_links c c" by (simp add: same_links_def)

lemma serve_port_quiet:
  assumes c: "ctx_ok c" and q: "itc_ok q s" and clean: "clean_links c"
  defines "i \<equiv> unat (rx_port_idx c)"
  shows "if port_ready c s i
    then \<exists>c' q'. serve_port quiet_io c q = Some (Got (port_packet c q s i), c', q') \<and>
      rx_port_idx c' = rx_port_idx c \<and> consumed c q s i c' q'
    else \<exists>b'. length b' = MAX_MIXNET_PACKET_SIZE \<and>
      serve_port quiet_io c q = Some (Nothing_pending, c\<lparr>recv_buffer := b'\<rparr>, q)"
proof (cases "rx_port_idx c = num_neighbors (node_config c)")
  case True
  then show ?thesis
    using serve_user_quiet [OF q, of c] c
    by (auto simp: serve_port_def i_def port_ready_def port_packet_def consumed_def same_links_refl
        ctx_ok_def split: if_splits intro!: exI [of _ "recv_buffer c"])
next
  case False
  then have i: "i < nports c" using c by (auto simp: ctx_ok_def i_def word_unat_eq_iff)
  then have "link_states c ! i \<longrightarrow> \<not> bad_stream (rx_pending c ! i)"
    using clean by (simp add: clean_links_def)
  from serve_neighbor_quiet [OF c i this] obtain b' where b': "length b' = MAX_MIXNET_PACKET_SIZE"
    and r: "serve_neighbor (quiet_io i) i c = Some
      (if port_ready c s i
       then (Got (port_packet c q s i), c\<lparr>recv_buffer := b',
               rx_pending := (rx_pending c)[i := drop (frame_len (rx_pending c ! i)) (rx_pending c ! i)]\<rparr>)
       else (Nothing_pending, c\<lparr>recv_buffer := b'\<rparr>))"
    using i by (auto simp: port_ready_def port_packet_def)
  have "serve_port quiet_io c q = Some
      (if port_ready c s i
       then (Got (port_packet c q s i), c\<lparr>recv_buffer := b',
               rx_pending := (rx_pending c)[i := drop (frame_len (rx_pending c ! i)) (rx_pending c ! i)]\<rparr>, q)
       else (Nothing_pending, c\<lparr>recv_buffer := b'\<rparr>, q))"
    using False r by (simp add: serve_port_def i_def)
  moreover have "ctx_ok (c\<lparr>recv_buffer := b', rx_pending := (rx_pending c)[i := x]\<rparr>)" for x
    using c b' by (simp add: ctx_ok_def)
  ultimately show ?thesis using b' i by (auto simp: consumed_def same_links_def)
qed

text \<open>The order in which a call visits the ports: from \<open>rx_port_idx\<close> on, wrapping after the user port.\<close>

definition visit :: "nat \<Rightarrow> nat \<Rightarrow> nat \<Rightarrow> nat list" where
  "visit n i k = map (\<lambda>j. (i + j) mod (n + 1)) [0..<k]"

lemma visit_Suc: "i \<le> n \<Longrightarrow> visit n i (Suc k) = i # visit n ((i + 1) mod (n + 1)) k"
  by (simp add: visit_def upt_conv_Cons map_Suc_upt [symmetric] mod_add_left_eq del: upt_Suc)

lemma unat_next_port:
  "unat (next_port c) = (unat (rx_port_idx c) + 1) mod (nports c + 1)"
proof -
  have "(unat (rx_port_idx c) + 1) mod (nports c + 1) < 65536"
    using mod_less_divisor [of "nports c + 1" "unat (rx_port_idx c) + 1"]
      unat_u16_le [of "num_neighbors (node_config c)"] by linarith
  then show ?thesis by (simp only: next_port_def unat_of_nat_u16)
qed

lemma recv_buffer_frame [simp]:
  "port_ready (c\<lparr>recv_buffer := b\<rparr>) s i = port_ready c s i"
  "port_packet (c\<lparr>recv_buffer := b\<rparr>) q s i = port_packet c q s i"
  "clean_links (c\<lparr>recv_buffer := b\<rparr>) = clean_links c"
  "port_ready (c\<lparr>rx_port_idx := p\<rparr>) s i = port_ready c s i"
  "port_packet (c\<lparr>rx_port_idx := p\<rparr>) q s i = port_packet c q s i"
  "clean_links (c\<lparr>rx_port_idx := p\<rparr>) = clean_links c"
  by (simp_all add: port_ready_def port_packet_def clean_links_def)

lemma consumed_frame:
  "consumed (c\<lparr>recv_buffer := b, rx_port_idx := p\<rparr>) q s i c' q' = consumed c q s i c' q'"
  by (simp add: consumed_def same_links_def)

lemma consumed_next: "consumed c q s i c' q' \<Longrightarrow> consumed c q s i (c'\<lparr>rx_port_idx := next_port c'\<rparr>) q'"
  using unat_next_port [of c'] by (auto simp: consumed_def same_links_def ctx_ok_def)

definition recv_spec ::
  "node_context \<Rightarrow> itc \<Rightarrow> mq_spec \<Rightarrow> nat list \<Rightarrow> (recv_result \<times> node_context \<times> itc) option \<Rightarrow> bool" where
  "recv_spec c q s order result \<longleftrightarrow> (case find (port_ready c s) order of
     None \<Rightarrow> (\<exists>c'. result = Some (No_packet, c', q) \<and> same_links c c' \<and> ctx_ok c' \<and>
        rx_pending c' = rx_pending c \<and> unat (rx_port_idx c') = (last order + 1) mod (nports c + 1))
   | Some i \<Rightarrow> (\<exists>c' q'. result = Some (Packet (of_nat i) (port_packet c q s i), c', q') \<and>
        consumed c q s i c' q' \<and> unat (rx_port_idx c') = (i + 1) mod (nports c + 1)))"

lemma recv_spec_frame:
  "recv_spec (c\<lparr>recv_buffer := b, rx_port_idx := p\<rparr>) q s order = recv_spec c q s order"
proof -
  have ready: "port_ready (c\<lparr>recv_buffer := b, rx_port_idx := p\<rparr>) s = port_ready c s"
    by (simp add: fun_eq_iff port_ready_def)
  show ?thesis
    by (cases "find (port_ready c s) order")
       (simp_all add: ready fun_eq_iff recv_spec_def consumed_frame same_links_def port_packet_def)
qed

lemma recv_spec_Cons:
  "\<not> port_ready c s i \<Longrightarrow> rest \<noteq> [] \<Longrightarrow> recv_spec c q s (i # rest) r = recv_spec c q s rest r"
  by (cases "find (port_ready c s) rest") (simp_all add: recv_spec_def)

lemma ucast_port: "ucast (p :: u16) = (of_nat (unat p) :: byte)"
  by simp

lemma port_loop_quiet:
  "ctx_ok c \<Longrightarrow> itc_ok q s \<Longrightarrow> clean_links c \<Longrightarrow> 0 < k \<Longrightarrow> k \<le> nports c + 1 \<Longrightarrow>
   unat stop = (unat (rx_port_idx c) + k) mod (nports c + 1) \<Longrightarrow>
   recv_spec c q s (visit (nports c) (unat (rx_port_idx c)) k) (port_loop k stop quiet_io c q)"
proof (induction k arbitrary: c)
  case 0
  then show ?case by simp
next
  case (Suc k)
  let ?n = "nports c" and ?i = "unat (rx_port_idx c)"
  have i: "?i \<le> ?n" using Suc.prems(1) by (simp add: ctx_ok_def)
  note order = visit_Suc [OF i, of k]
  show ?case
  proof (cases "port_ready c s ?i")
    case True
    then obtain c' q' where r: "serve_port quiet_io c q = Some (Got (port_packet c q s ?i), c', q')"
      and p: "rx_port_idx c' = rx_port_idx c" and used: "consumed c q s ?i c' q'"
      using serve_port_quiet [OF Suc.prems(1-3)] by auto
    have "nports c' = nports c" using used by (simp add: consumed_def same_links_def)
    then show ?thesis
      using r p True consumed_next [OF used] unat_next_port [of c']
      by (simp add: recv_spec_def order Let_def)
  next
    case False
    then obtain b' where b': "length b' = MAX_MIXNET_PACKET_SIZE"
      and r: "serve_port quiet_io c q = Some (Nothing_pending, c\<lparr>recv_buffer := b'\<rparr>, q)"
      using serve_port_quiet [OF Suc.prems(1-3)] by auto
    let ?c = "c\<lparr>recv_buffer := b', rx_port_idx := next_port c\<rparr>"
    have nx: "next_port (c\<lparr>recv_buffer := b'\<rparr>) = next_port c" by (simp add: next_port_def)
    have u: "unat (next_port c) = (?i + 1) mod (?n + 1)" by (rule unat_next_port)
    have ok: "ctx_ok ?c" "clean_links ?c"
      using Suc.prems b' u mod_less_divisor [of "?n + 1" "?i + 1"]
      by (auto simp: ctx_ok_def clean_links_def less_Suc_eq_le)
    have stop: "unat stop = (unat (rx_port_idx ?c) + k) mod (nports ?c + 1)"
      using Suc.prems(6) u by (simp add: mod_add_left_eq)
    show ?thesis
    proof (cases "k = 0")
      case True
      then have "next_port c = stop" using stop u by (simp add: word_unat_eq_iff)
      then show ?thesis
        using r False True ok u nx i
        by (simp add: recv_spec_def visit_def Let_def same_links_def)
    next
      case more: False
      have "next_port c \<noteq> stop"
      proof
        assume "next_port c = stop"
        then have "(?i + 1) mod (?n + 1) = (?i + Suc k) mod (?n + 1)" using u Suc.prems(6) by simp
        then have "(?i + 1) mod (?n + 1) = (?i + 1 + k) mod (?n + 1)" by simp
        then have "0 = k" using ring_slot_eq [of 0 "?n + 1" k "?i + 1"] Suc.prems(5) by simp
        then show False using more by simp
      qed
      moreover have "recv_spec ?c q s (visit ?n (unat (next_port c)) k) (port_loop k stop quiet_io ?c q)"
        using Suc.IH [OF ok(1) Suc.prems(2) ok(2) _ _ stop] more Suc.prems(5) by simp
      then have "recv_spec c q s (visit ?n ((?i + 1) mod (?n + 1)) k) (port_loop k stop quiet_io ?c q)"
        by (simp add: recv_spec_frame u)
      moreover have "visit ?n ((?i + 1) mod (?n + 1)) k \<noteq> []" using more by (simp add: visit_def)
      ultimately show ?thesis
        using r False nx by (simp add: order recv_spec_Cons Let_def)
    qed
  qed
qed

lemma node_recv_spec:
  assumes "ctx_ok c" and "itc_ok q s" and "clean_links c"
  shows "recv_spec c q s (visit (nports c) (unat (rx_port_idx c)) (nports c + 1))
    (node_recv quiet_io c q)"
proof -
  have i: "unat (rx_port_idx c) \<le> nports c" using assms(1) by (simp add: ctx_ok_def)
  then have "unat (rx_port_idx c) = (unat (rx_port_idx c) + (nports c + 1)) mod (nports c + 1)"
    by (simp only: mod_add_self2) simp
  from port_loop_quiet [OF assms _ _ this] show ?thesis by (simp add: node_recv_def)
qed

text \<open>
  C27. Round robin: a call of \<open>node_recv\<close> visits every port once at most, starting behind the
  port served last, with the user port as the last of the cycle. It returns the packet at the
  head of the first port that has one (byte for byte, its link being up), consumes only that
  packet, and starts behind that port next time; with no packet anywhere it returns none and
  leaves all queues as they are.
\<close>

theorem node_recv_round_robin:
  assumes "ctx_ok c" and "itc_ok q s" and "clean_links c"
  shows "recv_spec c q s (visit (nports c) (unat (rx_port_idx c)) (nports c + 1))
    (node_recv quiet_io c q)"
  by (rule node_recv_spec [OF assms])

text \<open>How many ports lie before port \<open>p\<close> in the cycle that starts at \<open>i\<close>.\<close>

definition distance :: "nat \<Rightarrow> nat \<Rightarrow> nat \<Rightarrow> nat" where
  "distance n i p = (p + (n + 1 - i)) mod (n + 1)"

lemma distance_reaches:
  assumes "i \<le> n" and "p \<le> n"
  shows "(i + distance n i p) mod (n + 1) = p" and "distance n i p \<le> n"
proof -
  have "(i + distance n i p) mod (n + 1) = (i + (p + (n + 1 - i))) mod (n + 1)"
    unfolding distance_def by (rule mod_add_right_eq)
  also have "i + (p + (n + 1 - i)) = p + (n + 1)" using assms by simp
  finally show "(i + distance n i p) mod (n + 1) = p" using assms by (simp only: mod_add_self2) simp
  show "distance n i p \<le> n"
    using mod_less_divisor [of "n + 1" "p + (n + 1 - i)"] by (simp add: distance_def)
qed

lemma distance_unique:
  assumes "i \<le> n" and "d \<le> n" and "(i + d) mod (n + 1) = p"
  shows "distance n i p = d"
proof -
  have "p \<le> n" using assms(3) mod_less_divisor [of "n + 1" "i + d"] by linarith
  then have "(i + distance n i p) mod (n + 1) = (i + d) mod (n + 1)" "distance n i p \<le> n"
    using distance_reaches [OF assms(1)] assms(3) by auto
  then show ?thesis using ring_slot_eq [of "distance n i p" "n + 1" d i] assms(2) by simp
qed

lemma visit_nth: "j < k \<Longrightarrow> visit n i k ! j = (i + j) mod (n + 1)"
  by (simp add: visit_def)

lemma length_visit [simp]: "length (visit n i k) = k"
  by (simp add: visit_def)

lemma consumed_other:
  assumes c: "ctx_ok c" and q: "itc_ok q s" and used: "consumed c q s i c' q'" and i: "i \<le> nports c"
    and p: "p \<noteq> i" "p \<le> nports c"
  shows "\<exists>s'. itc_ok q' s' \<and> port_ready c' s' p = port_ready c s p \<and>
    port_packet c' q' s' p = port_packet c q s p"
proof (cases "i = nports c")
  case True
  then show ?thesis using used p by (auto simp: consumed_def same_links_def port_ready_def port_packet_def)
next
  case False
  then show ?thesis
    using used p q
    by (intro exI [of _ s])
       (auto simp: consumed_def same_links_def port_ready_def port_packet_def)
qed

text \<open>While port \<open>p\<close> has a packet, a call serves it or a port before it in the cycle.\<close>

lemma node_recv_nearer:
  assumes c: "ctx_ok c" and q: "itc_ok q s" and clean: "clean_links c"
    and p: "p \<le> nports c" "port_ready c s p"
  shows "\<exists>i c' q' s'.
    node_recv quiet_io c q = Some (Packet (of_nat i) (port_packet c q s i), c', q') \<and>
    ctx_ok c' \<and> itc_ok q' s' \<and>
    consumed c q s i c' q' \<and> i \<le> nports c \<and>
    (i = p \<or> port_ready c' s' p \<and> port_packet c' q' s' p = port_packet c q s p \<and>
      distance (nports c) (unat (rx_port_idx c')) p < distance (nports c) (unat (rx_port_idx c)) p)"
proof -
  let ?n = "nports c" and ?x = "unat (rx_port_idx c)"
  let ?order = "visit ?n ?x (?n + 1)"
  let ?d = "distance ?n ?x p"
  have x: "?x \<le> ?n" using c by (simp add: ctx_ok_def)
  have d: "(?x + ?d) mod (?n + 1) = p" "?d \<le> ?n" using distance_reaches [OF x p(1)] .
  then have at: "port_ready c s (?order ! ?d)" using p by (simp add: visit_nth del: add_Suc_right)
  have "?order ! ?d \<in> set ?order" using d(2) by (intro nth_mem) simp
  then have "find (port_ready c s) ?order \<noteq> None" using at by (auto simp: find_None_iff)
  then obtain i where f: "find (port_ready c s) ?order = Some i" by blast
  then obtain j where j: "j < ?n + 1" "i = (?x + j) mod (?n + 1)" "\<forall>k<j. \<not> port_ready c s (?order ! k)"
    by (auto simp: find_Some_iff visit_nth)
  have i: "i \<le> ?n" using j(2) mod_less_divisor [of "?n + 1" "?x + j"] by linarith
  have jd: "j \<le> ?d" using j(3) at by (meson not_le)
  from node_recv_spec [OF c q clean]
  obtain c' q' where r: "node_recv quiet_io c q = Some (Packet (of_nat i) (port_packet c q s i), c', q')"
    and used: "consumed c q s i c' q'" and idx: "unat (rx_port_idx c') = (i + 1) mod (?n + 1)"
    using f by (auto simp: recv_spec_def)
  have ok: "ctx_ok c'" using used by (simp add: consumed_def)
  show ?thesis
  proof (cases "i = p")
    case True
    moreover have "\<exists>s'. itc_ok q' s'" using used q by (auto simp: consumed_def split: if_splits)
    ultimately show ?thesis using r ok used i by blast
  next
    case False
    then have "j < ?d" using jd j d by (cases "j = ?d") auto
    have "((i + 1) mod (?n + 1) + (?d - (j + 1))) mod (?n + 1) = p"
    proof -
      have "((i + 1) mod (?n + 1) + (?d - (j + 1))) mod (?n + 1) = (?x + j + 1 + (?d - (j + 1))) mod (?n + 1)"
        unfolding j(2) by (simp only: mod_add_left_eq)
      also have "?x + j + 1 + (?d - (j + 1)) = ?x + ?d" using \<open>j < ?d\<close> by simp
      finally show ?thesis using d by simp
    qed
    then have "distance ?n ((i + 1) mod (?n + 1)) p = ?d - (j + 1)"
      using d(2) mod_less_divisor [of "?n + 1" "i + 1"] by (intro distance_unique) linarith+
    then have less: "distance ?n (unat (rx_port_idx c')) p < ?d" using idx \<open>j < ?d\<close> by simp
    obtain s' where "itc_ok q' s'" "port_ready c' s' p = port_ready c s p"
        "port_packet c' q' s' p = port_packet c q s p"
      using consumed_other [OF c q used i, of p] False p(1) by auto
    then show ?thesis using r ok less p(2) used i by auto
  qed
qed

text \<open>A stream of whole packets, the last of which may still be incomplete.\<close>

definition packet_stream :: "buf \<Rightarrow> bool" where
  "packet_stream P \<longleftrightarrow> (\<exists>ps rest. P = concat ps @ rest \<and>
     (\<forall>x \<in> set ps. complete_packet x \<and> frame_len x = length x) \<and>
     \<not> complete_packet rest \<and> \<not> bad_stream rest)"

lemma packet_stream_head:
  assumes "packet_stream P"
  shows "\<not> bad_stream P" and "complete_packet P \<Longrightarrow> packet_stream (drop (frame_len P) P)"
proof -
  obtain ps rest where P: "P = concat ps @ rest" "\<forall>x \<in> set ps. complete_packet x \<and> frame_len x = length x"
    "\<not> complete_packet rest" "\<not> bad_stream rest" using assms by (auto simp: packet_stream_def)
  have "\<not> bad_stream P \<and> (complete_packet P \<longrightarrow> packet_stream (drop (frame_len P) P))"
  proof (cases ps)
    case Nil
    then show ?thesis using P by simp
  next
    case (Cons x xs)
    then have x: "complete_packet x" "frame_len x = length x" "2 \<le> length x"
      using P(2) by (auto simp: complete_packet_def frame_complete_def)
    have Px: "P = x @ concat xs @ rest" using P(1) Cons by simp
    then have "frame_len P = length x" using frame_len_prefix [OF x(3)] x(2) by simp
    then have "drop (frame_len P) P = concat xs @ rest" "\<not> bad_stream P"
      using x Px by (auto simp: complete_packet_def bad_stream_def frame_complete_def frame_malformed_def)
    moreover have "packet_stream (concat xs @ rest)"
      unfolding packet_stream_def using P Cons by (intro exI [of _ xs] exI [of _ rest]) simp
    ultimately show ?thesis by simp
  qed
  then show "\<not> bad_stream P" and "complete_packet P \<Longrightarrow> packet_stream (drop (frame_len P) P)" by simp_all
qed

text \<open>
  A node context whose open links carry such streams; and port \<open>p\<close> having packet \<open>b\<close> at its head.
\<close>

definition rx_sound :: "node_context \<Rightarrow> itc \<Rightarrow> bool" where
  "rx_sound c q \<longleftrightarrow> ctx_ok c \<and> (\<exists>s. itc_ok q s) \<and>
     (\<forall>i < nports c. link_states c ! i \<longrightarrow> packet_stream (rx_pending c ! i))"

definition offers :: "nat \<Rightarrow> buf \<Rightarrow> node_context \<Rightarrow> itc \<Rightarrow> bool" where
  "offers p b c q \<longleftrightarrow> (\<exists>s. itc_ok q s \<and> port_ready c s p \<and> port_packet c q s p = b)"

lemma rx_sound_clean: "rx_sound c q \<Longrightarrow> clean_links c"
  using packet_stream_head(1) by (auto simp: rx_sound_def clean_links_def)

lemma rx_sound_consumed:
  assumes "rx_sound c q" and "itc_ok q s" and "port_ready c s i" and "consumed c q s i c' q'"
    and "\<exists>s'. itc_ok q' s'"
  shows "rx_sound c' q'"
proof -
  have "packet_stream (rx_pending c' ! j)" if "j < nports c'" "link_states c' ! j" for j
  proof -
    have j: "j < nports c" "link_states c ! j" "j < length (rx_pending c)"
      using that assms(1,4) by (simp_all add: consumed_def same_links_def rx_sound_def ctx_ok_def)
    then have S: "packet_stream (rx_pending c ! j)" using assms(1) by (simp add: rx_sound_def)
    have "rx_pending c' ! j = rx_pending c ! j \<or>
        j = i \<and> rx_pending c' ! j = drop (frame_len (rx_pending c ! i)) (rx_pending c ! i)"
      using assms(4) j by (auto simp: consumed_def nth_update_if split: if_splits)
    moreover have "j = i \<Longrightarrow> complete_packet (rx_pending c ! i)" using assms(3) j by (simp add: port_ready_def)
    ultimately show ?thesis using S packet_stream_head(2) by metis
  qed
  then show ?thesis using assms(4,5) by (simp add: rx_sound_def consumed_def)
qed

lemma node_recv_call:
  assumes "rx_sound c q"
  shows "\<exists>r c' q'. node_recv quiet_io c q = Some (r, c', q') \<and> rx_sound c' q' \<and> node_config c' = node_config c \<and>
    (p \<le> nports c \<and> offers p b c q \<longrightarrow> r = Packet (of_nat p) b \<or>
       (\<exists>i x. r = Packet (of_nat i) x \<and> i \<le> nports c \<and> i \<noteq> p) \<and> offers p b c' q' \<and>
       distance (nports c) (unat (rx_port_idx c')) p < distance (nports c) (unat (rx_port_idx c)) p)"
proof -
  obtain s where s: "itc_ok q s" "ctx_ok c" using assms by (auto simp: rx_sound_def)
  note clean = rx_sound_clean [OF assms]
  let ?order = "visit (nports c) (unat (rx_port_idx c)) (nports c + 1)"
  show ?thesis
  proof (cases "p \<le> nports c \<and> offers p b c q")
    case True
    then obtain s0 where s0: "itc_ok q s0" "port_ready c s0 p" "port_packet c q s0 p = b"
      by (auto simp: offers_def)
    from node_recv_nearer [OF s(2) s0(1) clean conjunct1 [OF True] s0(2)] obtain i c' q' s'
      where r: "node_recv quiet_io c q = Some (Packet (of_nat i) (port_packet c q s0 i), c', q')"
        and k: "itc_ok q' s'" "consumed c q s0 i c' q'" "i \<le> nports c"
        and n: "i = p \<or> port_ready c' s' p \<and> port_packet c' q' s' p = port_packet c q s0 p \<and>
          distance (nports c) (unat (rx_port_idx c')) p < distance (nports c) (unat (rx_port_idx c)) p" by blast
    from node_recv_spec [OF s(2) s0(1) clean] r obtain j where
      "port_ready c s0 j" "consumed c q s0 j c' q'"
      by (auto simp: recv_spec_def find_Some_iff split: option.splits)
    from rx_sound_consumed [OF assms s0(1) this] k(1) have "rx_sound c' q'" by blast
    moreover have "node_config c' = node_config c" using k(2) by (simp add: consumed_def same_links_def)
    moreover have "i \<noteq> p \<Longrightarrow> offers p b c' q'" using n k(1) s0(3) by (auto simp: offers_def)
    ultimately show ?thesis using r n k(3) s0(3) by (cases "i = p") auto
  next
    case False
    show ?thesis
    proof (cases "find (port_ready c s) ?order")
      case None
      with node_recv_spec [OF s(2,1) clean] obtain c' where
        "node_recv quiet_io c q = Some (No_packet, c', q)" "same_links c c'" "ctx_ok c'" "rx_pending c' = rx_pending c"
        by (auto simp: recv_spec_def)
      then show ?thesis using assms False by (auto simp: rx_sound_def same_links_def)
    next
      case (Some i)
      with node_recv_spec [OF s(2,1) clean] obtain c' q' where
        r: "node_recv quiet_io c q = Some (Packet (of_nat i) (port_packet c q s i), c', q')" "consumed c q s i c' q'"
        by (auto simp: recv_spec_def)
      have "port_ready c s i" using Some by (auto simp: find_Some_iff)
      moreover have "\<exists>s'. itc_ok q' s'" using r(2) s by (auto simp: consumed_def split: if_splits)
      ultimately have "rx_sound c' q'" using rx_sound_consumed [OF assms s(1)] r(2) by blast
      then show ?thesis using r False by (auto simp: consumed_def same_links_def)
    qed
  qed
qed

text \<open>
  Calls of \<open>node_recv\<close>; before each, the other threads and the network make a move. A move keeps
  the streams and the queue sound, leaves the turn and the configuration alone, and does not
  take back what port \<open>p\<close> has; it may add packets anywhere and take links up and down.
\<close>

fun recv_calls ::
  "(node_context \<times> itc \<Rightarrow> node_context \<times> itc) list \<Rightarrow> node_context \<Rightarrow> itc \<Rightarrow>
   (recv_result list \<times> node_context \<times> itc) option"
where
  "recv_calls [] c q = Some ([], c, q)"
| "recv_calls (w # ws) c q = do {
     (r, c, q) \<leftarrow> node_recv quiet_io (fst (w (c, q))) (snd (w (c, q)));
     (rs, c, q) \<leftarrow> recv_calls ws c q;
     Some (r # rs, c, q)
   }"

definition other_moves :: "nat \<Rightarrow> buf \<Rightarrow> (node_context \<times> itc \<Rightarrow> node_context \<times> itc) \<Rightarrow> bool" where
  "other_moves p b w \<longleftrightarrow> (\<forall>c q c' q'. w (c, q) = (c', q') \<longrightarrow>
     node_config c' = node_config c \<and> rx_port_idx c' = rx_port_idx c \<and>
     (rx_sound c q \<longrightarrow> rx_sound c' q') \<and> (offers p b c q \<longrightarrow> offers p b c' q'))"

lemma other_movesE:
  assumes "other_moves p b w"
  obtains c' q' where "w (c, q) = (c', q')" "node_config c' = node_config c" "rx_port_idx c' = rx_port_idx c"
    "rx_sound c q \<Longrightarrow> rx_sound c' q'" "offers p b c q \<Longrightarrow> offers p b c' q'"
  using assms by (cases "w (c, q)") (auto simp: other_moves_def)

lemma recv_calls_return:
  "rx_sound c q \<Longrightarrow> \<forall>w \<in> set ws. other_moves p b w \<Longrightarrow>
   \<exists>rs c' q'. recv_calls ws c q = Some (rs, c', q') \<and> rx_sound c' q' \<and> length rs = length ws"
proof (induction ws arbitrary: c q)
  case (Cons w ws)
  have w: "other_moves p b w" using Cons.prems by simp
  obtain c1 q1 where m: "w (c, q) = (c1, q1)" "rx_sound c1 q1"
    by (rule other_movesE [OF w, of c q]) (use Cons.prems in blast)
  from node_recv_call [OF m(2), of p b] obtain r c2 q2
    where r: "node_recv quiet_io c1 q1 = Some (r, c2, q2)" "rx_sound c2 q2" by blast
  show ?case using Cons.IH [OF r(2)] Cons.prems m(1) r(1) by auto
qed simp

text \<open>
  C28. No port starves. Let port \<open>p\<close> have packet \<open>b\<close>, and let \<open>node_recv\<close> be called
  \<open>num_neighbors + 1\<close> times, with the other threads and the network free, before each call, to
  add packets to any queue and to take links up or down, as long as every open link carries
  whole packets and \<open>p\<close> keeps what it has. Then every call returns, one of them returns \<open>b\<close>
  from \<open>p\<close>, and each call before that returned a packet of another port. (A malformed head on
  an open link is excluded: it ends the thread. Nothing arrives during a call.)
\<close>

theorem node_recv_fair:
  assumes "rx_sound c q" and "p \<le> nports c" and "offers p b c q"
    and "\<forall>w \<in> set ws. other_moves p b w" and "length ws = nports c + 1"
  shows "\<exists>rs c' q'. recv_calls ws c q = Some (rs, c', q') \<and> rx_sound c' q' \<and> length rs = nports c + 1 \<and>
    (\<exists>k < length rs. rs ! k = Packet (of_nat p) b \<and>
       (\<forall>j < k. \<exists>i x. rs ! j = Packet (of_nat i) x \<and> i \<le> nports c \<and> i \<noteq> p))"
proof -
  have "distance (nports c) (unat (rx_port_idx c)) p < length ws"
    using distance_reaches(2) [OF _ assms(2), of "unat (rx_port_idx c)"] assms(1,5)
    by (simp add: rx_sound_def ctx_ok_def)
  then have "\<exists>rs c' q'. recv_calls ws c q = Some (rs, c', q') \<and> rx_sound c' q' \<and> length rs = length ws \<and>
    (\<exists>k < length rs. rs ! k = Packet (of_nat p) b \<and>
       (\<forall>j < k. \<exists>i x. rs ! j = Packet (of_nat i) x \<and> i \<le> nports c \<and> i \<noteq> p))"
    using assms(1-4)
  proof (induction ws arbitrary: c q)
    case (Cons w ws)
    have w: "other_moves p b w" and ws: "\<forall>w \<in> set ws. other_moves p b w" using Cons.prems by simp_all
    obtain c1 q1 where m: "w (c, q) = (c1, q1)" "node_config c1 = node_config c" "rx_port_idx c1 = rx_port_idx c"
      "rx_sound c1 q1" "offers p b c1 q1"
      by (rule other_movesE [OF w, of c q]) (use Cons.prems in blast)
    from node_recv_call [OF m(4), of p b, unfolded m(2,3)] obtain r c2 q2
      where r: "node_recv quiet_io c1 q1 = Some (r, c2, q2)" "rx_sound c2 q2" "node_config c2 = node_config c"
        and k: "p \<le> nports c \<and> offers p b c1 q1 \<longrightarrow> r = Packet (of_nat p) b \<or>
          (\<exists>i x. r = Packet (of_nat i) x \<and> i \<le> nports c \<and> i \<noteq> p) \<and> offers p b c2 q2 \<and>
          distance (nports c) (unat (rx_port_idx c2)) p < distance (nports c) (unat (rx_port_idx c)) p" by blast
    note k = mp [OF k conjI [OF Cons.prems(3) m(5)]]
    show ?case
    proof (cases "r = Packet (of_nat p) b")
      case True
      then show ?thesis using recv_calls_return [OF r(2) ws] m(1) r(1) by fastforce
    next
      case False
      then have "offers p b c2 q2" "distance (nports c2) (unat (rx_port_idx c2)) p < length ws"
        using k Cons.prems(1) r(3) by auto
      from Cons.IH [OF this(2) r(2) _ this(1) ws] Cons.prems(3) r(3) obtain rs c3 q3 k'
        where IH: "recv_calls ws c2 q2 = Some (rs, c3, q3)" "rx_sound c3 q3" "length rs = length ws"
          "k' < length rs" "rs ! k' = Packet (of_nat p) b"
          "\<forall>j < k'. \<exists>i x. rs ! j = Packet (of_nat i) x \<and> i \<le> nports c \<and> i \<noteq> p" by auto
      have "\<forall>j < Suc k'. \<exists>i x. (r # rs) ! j = Packet (of_nat i) x \<and> i \<le> nports c \<and> i \<noteq> p"
        using IH(6) k False by (auto simp: less_Suc_eq_0_disj)
      then show ?thesis using IH m(1) r(1)
        by (intro exI [of _ "r # rs"] exI [of _ c3] exI [of _ q3]) (auto intro!: exI [of _ "Suc k'"])
    qed
  qed simp
  then show ?thesis using assms(5) by simp
qed

subsection \<open>What may be sent\<close>

text \<open>
  A packet whose declared size fits its type; \<open>readable\<close> blocks cover the fields the check
  reads. (The check reads the counter of an LSA or PING packet before it knows that the packet
  is long enough to have one.)
\<close>

definition packet_fits :: "buf \<Rightarrow> bool" where
  "packet_fits b \<longleftrightarrow>
     12 \<le> frame_len b \<and> frame_len b \<le> MAX_MIXNET_PACKET_SIZE \<and>
     (case type_of_code (pkt_type b) of
        None \<Rightarrow> False
      | Some PACKET_TYPE_STP \<Rightarrow> frame_len b = 18
      | Some PACKET_TYPE_FLOOD \<Rightarrow> frame_len b = 12
      | Some PACKET_TYPE_LSA \<Rightarrow> frame_len b = 16 + 4 * unat (rd16 b off_lsa_count)
      | Some PACKET_TYPE_DATA \<Rightarrow> True
      | Some PACKET_TYPE_PING \<Rightarrow> frame_len b = 30 + 2 * unat (rd16 b off_rh_route_length))"

definition readable :: "buf \<Rightarrow> bool" where
  "readable b \<longleftrightarrow> pkt_block b \<and>
     (pkt_type b = type_code PACKET_TYPE_LSA \<longrightarrow> 16 \<le> length b) \<and>
     (pkt_type b = type_code PACKET_TYPE_PING \<longrightarrow> 18 \<le> length b)"

definition bleach :: "buf \<Rightarrow> buf" where
  "bleach b = splice b off_reserved (replicate 8 0)"

lemma bleach_reads:
  assumes "12 \<le> length b"
  shows "length (bleach b) = length b" "frame_len (bleach b) = frame_len b"
    and "pkt_type (bleach b) = pkt_type b"
    and "12 \<le> off \<Longrightarrow> off + 2 \<le> length b \<Longrightarrow> rd16 (bleach b) off = rd16 b off"
    and "off + 2 \<le> 4 \<Longrightarrow> rd16 (bleach b) off = rd16 b off"
  using assms by (simp_all add: bleach_def frame_len_def pkt_type_def rd16_splice_other)

lemma readable_facts:
  "readable b \<Longrightarrow> 12 \<le> length b \<and> frame_len b \<le> length b \<and>
     write_at b off_reserved (replicate 8 0) = Some (bleach b)"
  by (simp add: readable_def pkt_block_def frame_len_def pkt_total_size_def write_at_Some bleach_def)

lemma payload_nat:
  "12 \<le> unat (t :: u16) \<Longrightarrow> unat (t - 12) = unat t - 12"
  by (simp add: unat_sub_if')

lemma validate_size_bleach:
  assumes r: "readable b" and n: "12 \<le> frame_len b" "frame_len b \<le> MAX_MIXNET_PACKET_SIZE"
  shows "validate_size (bleach b) = Some (packet_fits b)"
proof -
  have l: "12 \<le> length b" using readable_facts [OF r] by simp
  note b = bleach_reads [OF l]
  have g: "get16 (bleach b) off_total_size = Some (rd16 b 0)" "get16 (bleach b) off_type = Some (pkt_type b)"
    using l b(1) by (simp_all add: get16_iff b(5) pkt_type_def)
  have p: "unat (rd16 b 0 - 12) = frame_len b - 12" using n by (simp add: frame_len_def payload_nat)
  show ?thesis
  proof (cases "type_of_code (pkt_type b)")
    case None
    then show ?thesis using g by (simp add: validate_size_def packet_fits_def Let_def)
  next
    case (Some t)
    then have code: "pkt_type b = type_code t" by (simp add: type_of_code_Some_iff)
    show ?thesis
      using g p n Some code r b(1)
      by (cases t) (auto simp: validate_size_def packet_fits_def Let_def get16_iff readable_def b(4))
  qed
qed

lemma send_neighbor_ok:
  assumes c: "ctx_ok c" and p: "i < nports c" and b: "12 \<le> frame_len b" "frame_len b \<le> 4096"
    "frame_len b \<le> length b" and outs: "no_send_error outs" "progress outs = frame_len b"
  shows "send_to_neighbor (Some nb, outs) i b c = Some (Accepted_packet,
    c\<lparr>tx_wire := (tx_wire c)[i := tx_wire c ! i @ take (frame_len b) b]\<rparr>)"
proof -
  have bl: "block packet_config" by (simp add: block_def packet_config_def)
  then have "validate_config (Some nb) packet_config True = NONE"
    using modes (1) [of packet_config] by (simp add: validate_config_def)
  then have "packet_send_blocking (Some nb, outs) b = Some (NONE, take (frame_len b) b)"
    using b send_loop_blocking [OF bl outs(1), of "take (frame_len b) b" MIXNET_CONNECTION_BROKEN 0 "[]"]
      outs(2)
    by (simp add: packet_send_blocking_def send_generic_def get16_iff read_at_Some slice_def
        frame_len_def)
  then show ?thesis using c p by (simp add: send_to_neighbor_def ctx_ok_def access_simps)
qed

definition to_user :: "buf \<Rightarrow> bool" where
  "to_user b \<longleftrightarrow> type_of_code (pkt_type b) \<in> Some ` {PACKET_TYPE_FLOOD, PACKET_TYPE_DATA, PACKET_TYPE_PING}"

lemma node_send_cases:
  assumes "readable b"
  shows "node_send io port b c q =
    (if nports c < unat port \<or> \<not> (12 \<le> frame_len b \<and> frame_len b \<le> MAX_MIXNET_PACKET_SIZE)
     then Some (Refused b, c, q)
     else if \<not> packet_fits b then Some (Refused (bleach b), c, q)
     else if unat port = nports c then send_to_user (bleach b) c q
     else map_option (\<lambda>(r, c). (r, c, q)) (send_to_neighbor io (unat port) (bleach b) c))"
proof -
  have u: "unat (ucast port :: u16) = unat port"
    using unat_u8_less [of port] by (simp add: unsigned_ucast_eq take_bit_nat_eq_self)
  have "(num_neighbors (node_config c) < ucast port) = (nports c < unat port)"
    and "(ucast port = num_neighbors (node_config c)) = (unat port = nports c)"
    by (simp_all add: word_less_nat_alt word_unat_eq_iff u)
  moreover have "get16 b off_total_size = Some (rd16 b 0)"
    using readable_facts [OF assms] by (simp add: get16_iff)
  ultimately show ?thesis
    using readable_facts [OF assms] validate_size_bleach [OF assms]
    by (auto simp: node_send_def Let_def frame_len_def not_le not_less
        map_conv_bind_option split: option.splits bind_splits)
qed

lemma to_user_code:
  "to_user b \<longleftrightarrow> pkt_type b = 1 \<or> pkt_type b = 3 \<or> pkt_type b = 4"
  by (auto simp: to_user_def image_iff type_of_code_Some_iff)

lemma send_to_user_plain:
  assumes "12 \<le> length b"
  shows "\<not> to_user b \<Longrightarrow> send_to_user b c q = Some (Refused b, c, q)"
    and "to_user b \<Longrightarrow> \<not> is_pcap_subscribed c \<Longrightarrow> send_to_user b c q = Some (Accepted_packet, c, q)"
  using assms by (auto simp: send_to_user_def to_user_code get16_iff pkt_type_def)

lemma send_to_user_pcap:
  assumes b: "12 \<le> length b" "to_user b" and sub: "is_pcap_subscribed c"
    and i: "implements (mq_pcap q) s"
  shows "if free_list s = []
    then send_to_user b c q = Some (Send_thrown, fail_thread FRAGMENT_PCAP_MQ_FULL c, q)
    else \<exists>q'. send_to_user b c q = Some (Accepted_packet, c, q') \<and>
      implements (mq_pcap q') (s\<lparr>free_list := tl (free_list s), queued := queued s @ [hd (free_list s)]\<rparr>) \<and>
      pcap_cells q' = (pcap_cells q)(hd (free_list s) := Some b)"
proof (cases "free_list s")
  case Nil
  then show ?thesis
    using b sub alloc_then_write(1) [OF i] by (auto simp: send_to_user_def to_user_code get16_iff pkt_type_def)
next
  case (Cons p ps)
  then show ?thesis
    using b sub alloc_then_write(2) [OF i Cons]
    by (auto simp: send_to_user_def to_user_code get16_iff pkt_type_def)
qed

lemma node_send_accepts:
  assumes "readable b" and "ctx_ok c" and "no_send_error outs" and "progress outs = frame_len b"
    and "packet_fits b" and "unat port < nports c"
  shows "node_send (Some nb, outs) port b c q = Some (Accepted_packet,
      c\<lparr>tx_wire := (tx_wire c)[unat port := tx_wire c ! unat port @ take (frame_len b) (bleach b)]\<rparr>, q)"
proof -
  have l: "12 \<le> length b" "frame_len b \<le> length b" using readable_facts [OF assms(1)] by auto
  have n: "12 \<le> frame_len b" "frame_len b \<le> 4096" using assms(5) by (simp_all add: packet_fits_def)
  show ?thesis
    using node_send_cases [OF assms(1), of "(Some nb, outs)" port c q] assms n l bleach_reads [OF l(1)]
      send_neighbor_ok [OF assms(2,6), of "bleach b" outs nb]
    by simp
qed

text \<open>The result of \<open>node_send\<close> on every branch.\<close>

lemma node_send_spec:
  assumes "readable b" and "ctx_ok c" and "no_send_error outs" and "progress outs = frame_len b"
    and "implements (mq_pcap q) s"
  shows "if nports c < unat port \<or> \<not> packet_fits b \<or> (unat port = nports c \<and> \<not> to_user b)
    then \<exists>b'. node_send (Some nb, outs) port b c q = Some (Refused b', c, q) \<and> b' \<in> {b, bleach b}
    else if unat port < nports c
    then node_send (Some nb, outs) port b c q = Some (Accepted_packet,
      c\<lparr>tx_wire := (tx_wire c)[unat port := tx_wire c ! unat port @ take (frame_len b) (bleach b)]\<rparr>, q)
    else if \<not> is_pcap_subscribed c
    then node_send (Some nb, outs) port b c q = Some (Accepted_packet, c, q)
    else if free_list s = []
    then node_send (Some nb, outs) port b c q = Some (Send_thrown, fail_thread FRAGMENT_PCAP_MQ_FULL c, q)
    else \<exists>q'. node_send (Some nb, outs) port b c q = Some (Accepted_packet, c, q') \<and>
      implements (mq_pcap q') (s\<lparr>free_list := tl (free_list s), queued := queued s @ [hd (free_list s)]\<rparr>) \<and>
      pcap_cells q' = (pcap_cells q)(hd (free_list s) := Some (bleach b))"
proof -
  have l: "12 \<le> length b" using readable_facts [OF assms(1)] by simp
  have u: "to_user (bleach b) = to_user b" using bleach_reads [OF l] by (simp add: to_user_def)
  note node_send_cases [OF assms(1), of "(Some nb, outs)" port c q]
  moreover have "packet_fits b \<Longrightarrow> 12 \<le> frame_len b \<and> frame_len b \<le> MAX_MIXNET_PACKET_SIZE"
    by (simp add: packet_fits_def)
  moreover have "12 \<le> length (bleach b)" using l bleach_reads [OF l] by simp
  ultimately show ?thesis
    using u send_to_user_plain [of "bleach b" c q] send_to_user_pcap [of "bleach b" c q s] assms
      node_send_accepts [OF assms(1-4), of port nb q]
    by (auto simp: not_less)
qed

text \<open>
  C29. What \<open>node_send\<close> lets through. A packet leaves on a link exactly when its port is a
  neighbour's and its size is between 12 and 4096 bytes and fits its type; the bytes the link
  takes are then its \<open>total_size\<close> bytes with the reserved field cleared. On the user port only
  FLOOD, DATA and PING packets pass; they go to the pcap queue if the orchestrator subscribed
  and its pool has a block, the thread ends if it has none, and they are just dropped without a
  subscription. Every other packet is refused and stays with the caller.
\<close>

theorem node_send_result:
  assumes "readable b" and "ctx_ok c" and "no_send_error outs" and "progress outs = frame_len b"
    and "implements (mq_pcap q) s"
  shows "if nports c < unat port \<or> \<not> packet_fits b \<or> (unat port = nports c \<and> \<not> to_user b)
    then \<exists>b'. node_send (Some nb, outs) port b c q = Some (Refused b', c, q) \<and> b' \<in> {b, bleach b}
    else if unat port < nports c
    then node_send (Some nb, outs) port b c q = Some (Accepted_packet,
      c\<lparr>tx_wire := (tx_wire c)[unat port := tx_wire c ! unat port @ take (frame_len b) (bleach b)]\<rparr>, q)
    else if \<not> is_pcap_subscribed c
    then node_send (Some nb, outs) port b c q = Some (Accepted_packet, c, q)
    else if free_list s = []
    then node_send (Some nb, outs) port b c q = Some (Send_thrown, fail_thread FRAGMENT_PCAP_MQ_FULL c, q)
    else \<exists>q'. node_send (Some nb, outs) port b c q = Some (Accepted_packet, c, q') \<and>
      implements (mq_pcap q') (s\<lparr>free_list := tl (free_list s), queued := queued s @ [hd (free_list s)]\<rparr>) \<and>
      pcap_cells q' = (pcap_cells q)(hd (free_list s) := Some (bleach b))"
  by (rule node_send_spec [OF assms])

text \<open>
  Two ends of a link. A packet that one node hands to \<open>node_send\<close> on a neighbour's port and
  that fits its type arrives: when the bytes the link took are what the neighbour's socket
  holds next, the neighbour's \<open>node_recv\<close>, its turn being at that link, returns exactly the
  packet's \<open>total_size\<close> bytes, with the reserved field cleared, on the port of the link, and
  leaves the bytes behind it for the next call.
\<close>

theorem link_delivers:
  assumes sender: "readable b" "ctx_ok ca" "packet_fits b" "unat port < nports ca"
    "no_send_error outs" "progress outs = frame_len b"
    and receiver: "ctx_ok cb" "itc_ok qb s" "clean_links cb" "unat (rx_port_idx cb) < nports cb"
    "link_states cb ! unat (rx_port_idx cb)"
    and link: "node_send (Some nb, outs) port b ca qa = Some (r, ca', qa')"
      "tx_wire ca' ! unat port = tx_wire ca ! unat port @ out"
      "rx_pending cb ! unat (rx_port_idx cb) = out @ later"
  shows "r = Accepted_packet \<and> (\<exists>cb'.
    node_recv quiet_io cb qb = Some (Packet (ucast (rx_port_idx cb)) (take (frame_len b) (bleach b)), cb', qb) \<and>
    rx_pending cb' ! unat (rx_port_idx cb) = later)"
proof -
  let ?i = "unat (rx_port_idx cb)" and ?w = "take (frame_len b) (bleach b)"
  have l: "12 \<le> length b" "frame_len b \<le> length b" using readable_facts [OF sender(1)] by auto
  have n: "12 \<le> frame_len b" "frame_len b \<le> 4096" using sender(3) by (simp_all add: packet_fits_def)
  have send: "node_send (Some nb, outs) port b ca qa = Some (Accepted_packet,
      ca\<lparr>tx_wire := (tx_wire ca)[unat port := tx_wire ca ! unat port @ ?w]\<rparr>, qa)"
    using node_send_accepts [OF sender(1,2,5,6,3,4)] .
  then have out: "out = ?w" and r: "r = Accepted_packet"
    using link sender(2,4) by (auto simp: ctx_ok_def)
  have w: "length ?w = frame_len b" "frame_len ?w = frame_len b"
    using l n bleach_reads [OF l(1)] by (simp_all add: frame_len_def)
  then have head: "frame_len (rx_pending cb ! ?i) = frame_len b"
    using link(3) out frame_len_prefix [of ?w later] n by simp
  have p: "rx_pending cb ! ?i = ?w @ later" using link(3) out by simp
  have ready: "port_ready cb s ?i"
    using receiver(4,5) n head p w
    by (simp add: port_ready_def complete_packet_def frame_complete_def)
  have pkt: "port_packet cb qb s ?i = ?w"
    using receiver(4) head p w by (simp add: port_packet_def)
  have i: "?i \<le> nports cb" using receiver(4) by simp
  have "recv_spec cb qb s (?i # visit (nports cb) ((?i + 1) mod (nports cb + 1)) (nports cb))
      (node_recv quiet_io cb qb)"
    using node_recv_spec [OF receiver(1-3)] visit_Suc [OF i, of "nports cb"] by simp
  then obtain c' q' where recv: "node_recv quiet_io cb qb = Some (Packet (of_nat ?i) ?w, c', q')"
    and used: "consumed cb qb s ?i c' q'"
    using ready pkt by (auto simp: recv_spec_def)
  have "rx_pending c' ! ?i = drop (frame_len b) (rx_pending cb ! ?i)" and "q' = qb"
    using used receiver(1,4) head by (auto simp: consumed_def ctx_ok_def)
  moreover have "drop (frame_len b) (rx_pending cb ! ?i) = later" using p w by simp
  ultimately show ?thesis using recv r by auto
qed

subsection \<open>Creation\<close>

definition init_node_context :: "topology_request \<Rightarrow> node_context" where
  "init_node_context p =
     (let n = unat (t_num_neighbors p) in
      \<lparr>node_config =
            \<lparr>node_addr = mixaddr p, num_neighbors = t_num_neighbors p,
             root_hello_interval_ms = t_root_hello_interval_ms p,
             reelection_interval_ms = t_reelection_interval_ms p,
             do_random_routing = t_do_random_routing p, mixing_factor = t_mixing_factor p,
             link_costs = (if t_num_neighbors p = 0 then [] else take n (t_link_costs p))\<rparr>,
          tx_listen_fd = -1, tx_socket_fds = replicate n (- 1), tx_server_netaddr = no_address,
          rx_port_idx = 0, rx_socket_fds = replicate n (- 1),
          neighbor_netaddrs = replicate n no_address, ts = thread_state_new,
          link_states = replicate n True, recv_buffer = replicate MAX_MIXNET_PACKET_SIZE 0,
          is_pcap_subscribed = False, tx_wire = replicate n [], rx_pending = replicate n []\<rparr>)"

lemma init_node_context_ok: "ctx_ok (init_node_context p)"
  by (simp add: ctx_ok_def init_node_context_def Let_def)

text \<open>Two neighbours joined by a link, the first about to send an STP packet.\<close>

definition two_ports :: topology_request where
  "two_ports = \<lparr>mixaddr = 1, t_num_neighbors = 2, t_do_random_routing = False,
     t_mixing_factor = 1, t_root_hello_interval_ms = 2000, t_reelection_interval_ms = 20000,
     t_link_costs = [1, 1]\<rparr>"

definition example_ctx :: node_context where
  "example_ctx = init_node_context two_ports"

definition stp_packet :: buf where
  "stp_packet = [18, 0, 0, 0, 9, 9, 9, 9, 9, 9, 9, 9, 1, 0, 0, 0, 1, 0]"

definition example_itc :: itc where
  "example_itc = \<lparr>mq_pcap = example_queue, pcap_cells = (\<lambda>_. None),
     mq_user = example_queue, user_cells = (\<lambda>_. None)\<rparr>"

definition idle_spec :: mq_spec where
  "idle_spec = \<lparr>free_list = [0, 8, 16, 24], queued = [], held = []\<rparr>"

lemma example_queue_idle: "implements example_queue idle_spec"
  using initial_implements [of 3 "\<lambda>_. None" 5 Allocator_unnamed Queue_unnamed]
  by (simp add: small_depth example_queue_def idle_spec_def blocks_def upt_rec)

lemma example_itc_ok: "itc_ok example_itc idle_spec"
  using example_queue_idle by (simp add: itc_ok_def example_itc_def idle_spec_def)

lemma example_ctx_ok: "ctx_ok example_ctx"
  by (simp add: example_ctx_def init_node_context_ok)

lemma stp_packet_ok: "readable stp_packet" "packet_fits stp_packet" "frame_len stp_packet = 18"
    "\<not> to_user stp_packet"
  "take 18 (bleach stp_packet) = [18, 0, 0, 0, 0, 0, 0, 0, 0, 0, 0, 0, 1, 0, 0, 0, 1, 0]"
  by code_simp+

lemma replicate_two: "replicate 2 x = [x, x]"
  by (simp add: numeral_2_eq_2)

lemma example_ctx_sel [simp]: "nports example_ctx = 2" "rx_port_idx example_ctx = 0"
  "tx_wire example_ctx = [[], []]" "link_states example_ctx = [True, True]"
  "rx_pending example_ctx = [[], []]"
  by (simp_all add: example_ctx_def init_node_context_def two_ports_def replicate_two Let_def)

definition waiting_ctx :: node_context where
  "waiting_ctx = example_ctx\<lparr>rx_pending := [take 18 (bleach stp_packet) @ [20, 0], []]\<rparr>"

lemma waiting_head:
  "frame_complete 12 4096 (take 18 (bleach stp_packet) @ [20, 0])"
  "\<not> frame_malformed 12 4096 (take 18 (bleach stp_packet) @ [20, 0])" "\<not> frame_malformed 12 4096 []"
  by code_simp+

lemma waiting_ctx_sel [simp]: "nports waiting_ctx = 2" "rx_port_idx waiting_ctx = 0"
  "link_states waiting_ctx = [True, True]"
  "rx_pending waiting_ctx = [take 18 (bleach stp_packet) @ [20, 0], []]"
  by (simp_all add: waiting_ctx_def)

lemma waiting_ctx_ok: "ctx_ok waiting_ctx" "clean_links waiting_ctx" "port_ready waiting_ctx idle_spec 0"
proof -
  show "ctx_ok waiting_ctx" using example_ctx_ok by (simp add: waiting_ctx_def ctx_ok_def)
  show "clean_links waiting_ctx"
    using waiting_head by (auto simp: clean_links_def bad_stream_def less_Suc_eq numeral_2_eq_2)
  show "port_ready waiting_ctx idle_spec 0"
    using waiting_head by (simp add: port_ready_def complete_packet_def)
qed

lemma link_delivers_witness:
  "\<exists>c. node_recv quiet_io waiting_ctx example_itc =
     Some (Packet 0 [18, 0, 0, 0, 0, 0, 0, 0, 0, 0, 0, 0, 1, 0, 0, 0, 1, 0], c, example_itc)"
proof -
  have o: "no_send_error [(Sent 18, 0)]" "progress [(Sent 18, 0)] = frame_len stp_packet"
    by (simp_all add: no_send_error_def stp_packet_ok)
  have s: "node_send (Some False, [(Sent 18, 0)]) 0 stp_packet example_ctx example_itc =
      Some (Accepted_packet, example_ctx\<lparr>tx_wire := [take 18 (bleach stp_packet), []]\<rparr>, example_itc)"
    using node_send_accepts [OF stp_packet_ok(1) example_ctx_ok o stp_packet_ok(2), of 0 False example_itc]
    by (simp add: stp_packet_ok)
  show ?thesis
    using link_delivers [OF stp_packet_ok(1) example_ctx_ok stp_packet_ok(2) _ o waiting_ctx_ok(1)
        example_itc_ok waiting_ctx_ok(2) _ _ s, of "take 18 (bleach stp_packet)" "[20, 0]"]
    by (auto simp: waiting_ctx_def stp_packet_ok)
qed

lemma node_send_result_witness:
  "\<exists>b'. node_send (Some True, [(Sent 18, 0)]) 2 stp_packet example_ctx example_itc =
     Some (Refused b', example_ctx, example_itc)"
proof -
  have o: "no_send_error [(Sent 18, 0)]" "progress [(Sent 18, 0)] = frame_len stp_packet"
    by (simp_all add: no_send_error_def stp_packet_ok)
  have q: "implements (mq_pcap example_itc) idle_spec"
    using example_queue_idle by (simp add: example_itc_def)
  show ?thesis
    using node_send_result [OF stp_packet_ok(1) example_ctx_ok o q, of 2 True] stp_packet_ok by auto
qed

lemma node_recv_round_robin_witness:
  "\<exists>b c. node_recv quiet_io waiting_ctx example_itc = Some (Packet 0 b, c, example_itc)"
  using node_recv_round_robin [OF waiting_ctx_ok(1) example_itc_ok waiting_ctx_ok(2)] waiting_ctx_ok(3)
  by (auto simp: recv_spec_def visit_def waiting_ctx_def upt_conv_Cons consumed_def)

definition flood_bytes :: buf where
  "flood_bytes = [12, 0, 1, 0, 0, 0, 0, 0, 0, 0, 0, 0]"

text \<open>Two links, a packet waiting on the first; before every call a flood arrives on the second.\<close>

definition flood_arrives :: "node_context \<times> itc \<Rightarrow> node_context \<times> itc" where
  "flood_arrives = (\<lambda>(c, q). (c\<lparr>rx_pending := (if nports c = 2 \<and> packet_stream (rx_pending c ! 1 @ flood_bytes)
     then (rx_pending c)[1 := rx_pending c ! 1 @ flood_bytes] else rx_pending c)\<rparr>, q))"

lemma flood_moves: "other_moves 0 b flood_arrives"
proof -
  have "rx_sound c q \<Longrightarrow> nports c = 2 \<Longrightarrow> packet_stream x \<Longrightarrow>
      rx_sound (c\<lparr>rx_pending := (rx_pending c)[1 := x]\<rparr>) q" for c q x
    by (auto simp: rx_sound_def ctx_ok_def nth_list_update)
  moreover have "offers 0 b c q \<Longrightarrow> nports c = 2 \<Longrightarrow> offers 0 b (c\<lparr>rx_pending := (rx_pending c)[1 := x]\<rparr>) q" for c q x
    by (auto simp: offers_def port_ready_def port_packet_def)
  ultimately show ?thesis by (auto simp: other_moves_def flood_arrives_def)
qed

lemma waiting_sound: "rx_sound waiting_ctx example_itc" "offers 0 (take 18 (bleach stp_packet)) waiting_ctx example_itc"
proof -
  let ?x = "take 18 (bleach stp_packet)"
  have "complete_packet ?x \<and> frame_len ?x = length ?x" "\<not> complete_packet [20, 0]" "\<not> bad_stream [20, 0]"
    "\<not> complete_packet []" "\<not> bad_stream []" "take (frame_len (?x @ [20, 0])) (?x @ [20, 0]) = ?x"
    by (code_simp, code_simp, code_simp, code_simp, code_simp, code_simp)
  note f = this
  have "packet_stream (?x @ [20, 0])" "packet_stream []"
    unfolding packet_stream_def
    by (rule exI [of _ "[?x]"], rule exI [of _ "[20, 0]"]) (use f in simp, rule exI [of _ "[]"], use f in simp)
  then show "rx_sound waiting_ctx example_itc"
    using waiting_ctx_ok example_itc_ok by (auto simp: rx_sound_def less_Suc_eq numeral_2_eq_2)
  show "offers 0 ?x waiting_ctx example_itc"
    using waiting_ctx_ok(3) example_itc_ok f(6) by (auto simp: offers_def port_packet_def)
qed

lemma node_recv_fair_witness:
  "\<exists>rs c q. recv_calls (replicate 3 flood_arrives) waiting_ctx example_itc = Some (rs, c, q) \<and>
     Packet 0 (take 18 (bleach stp_packet)) \<in> set rs"
  using node_recv_fair [OF waiting_sound(1) _ waiting_sound(2), of "replicate 3 flood_arrives"] flood_moves
  by (fastforce simp: in_set_conv_nth)

end
