(* ===== verification/Fragment.thy ===== *)
theory Fragment
  imports Node_Context
begin

text \<open>
  The fragment process of \<open>framework/fragment.h\<close> and \<open>framework/fragment.cpp\<close>: its helpers to
  exchange messages with the orchestrator, the handlers of its ten states, the tasks of a
  testcase, the pcap thread and the main loop \<open>run\<close>. Handlers are functions of what the
  operating system answers (\<open>fragment_env\<close>) and of the fragment's state; the result is the
  error code the method returns with the new state, or \<open>None\<close> for a failed assert, an access
  outside a block, or a call that still waits. \<open>die_on_error\<close> is the macro DIE_ON_ERROR.
\<close>

subsection \<open>State\<close>

datatype fragment_state =
    FS_SETUP_CTRL | FS_SETUP_PCAP | FS_CREATE_TOPOLOGY | FS_START_MIXNET_SERVER
  | FS_START_MIXNET_CLIENT | FS_RESOLVE_MIXNET_CONNECTIONS | FS_START_TESTCASE
  | FS_RUN_TESTCASE | FS_SHUTDOWN | FS_DONE

definition MQ_PCAP_DEPTH :: u32 where "MQ_PCAP_DEPTH = 128"
definition MQ_USER_DEPTH :: u32 where "MQ_USER_DEPTH = 128"
definition DEFAULT_TIMEOUT_MS :: u64 where "DEFAULT_TIMEOUT_MS = 5000"
definition INVALID_FRAGMENT_ID :: u16 where "INVALID_FRAGMENT_ID = - 1"

text \<open>
  \<open>pcap_netaddr\<close> is the local of \<open>run_state_setup_pcap\<close> its lambda writes. The last five fields
  are the kernel's side of the two connections, and the descriptors closed so far.
\<close>

record fragment =
  fid :: u16
  autotest_mode :: bool
  fragment_state :: fragment_state
  msg_ctrl :: message
  msg_pcap :: message
  local_fd_ctrl :: int
  local_fd_pcap :: int
  orc_netaddr :: sockaddr_in
  pcap_netaddr :: sockaddr_in
  timeout_connect_long :: u64
  timeout_connect_short :: u64
  node_ctx :: "node_context option"
  ts_pcap :: thread_state
  queues :: itc
  node_accept_args :: "accept_args option"
  ctrl_pending :: buf
  pcap_pending :: buf
  ctrl_wire :: buf
  pcap_wire :: buf
  closed_fds :: "int list"

text \<open>
  Answers of the outside world during one handler: the k-th receive, send, new socket,
  connect and getsockname, the set-up of the server and the turns of the accept thread.
\<close>

record fragment_env =
  e_rx :: "nat \<Rightarrow> rx_io"
  e_tx :: "nat \<Rightarrow> tx_io"
  e_socket :: "nat \<Rightarrow> socket_env"
  e_connect :: "nat \<Rightarrow> sockaddr_in \<Rightarrow> connect_env"
  e_sockname :: "nat \<Rightarrow> sockaddr_in option"
  e_setup :: setup_env
  e_turns :: "accept_turn list"
  e_pid :: u32

definition die_on_error ::
  "(error_code \<times> 's) option \<Rightarrow> ('s \<Rightarrow> (error_code \<times> 's) option) \<Rightarrow> (error_code \<times> 's) option" where
  "die_on_error m k = do { (ec, s) \<leftarrow> m; if ec \<noteq> NONE then Some (ec, s) else k s }"

definition fragment_new :: "sockaddr_in \<Rightarrow> message \<Rightarrow> message \<Rightarrow> message_queue \<Rightarrow> message_queue \<Rightarrow> fragment"
where
  "fragment_new netaddr mc mp qp qu =
     \<lparr>fid = - 1, autotest_mode = False, fragment_state = FS_SETUP_CTRL, msg_ctrl = mc, msg_pcap = mp,
      local_fd_ctrl = -1, local_fd_pcap = -1, orc_netaddr = netaddr,
      pcap_netaddr = no_address,
      timeout_connect_long = DEFAULT_TIMEOUT_MS, timeout_connect_short = DEFAULT_TIMEOUT_MS,
      node_ctx = None, ts_pcap = thread_state_new,
      queues = \<lparr>mq_pcap = qp, pcap_cells = (\<lambda>_. None), mq_user = qu, user_cells = (\<lambda>_. None)\<rparr>,
      node_accept_args = None, ctrl_pending = [], pcap_pending = [], ctrl_wire = [], pcap_wire = [],
      closed_fds = []\<rparr>"

subsection \<open>Messages\<close>

definition ctrl_config :: config where
  "ctrl_config = \<lparr>mode = RX_TX_BLOCKING, timeout_ms = 0\<rparr>"

definition prepare_header ::
  "fragment \<Rightarrow> message_type \<Rightarrow> error_code \<Rightarrow> message \<Rightarrow> message option" where
  "prepare_header f t e m = do {
     m \<leftarrow> set_error_code e m;
     m \<leftarrow> set_code False t m;
     set_fragment_id (fid f) m
   }"

definition check_header ::
  "fragment \<Rightarrow> bool \<Rightarrow> bool \<Rightarrow> message_type \<Rightarrow> message \<Rightarrow> error_code option" where
  "check_header f check_id check_type t m = do {
     valid \<leftarrow> validate m;
     if \<not> valid then Some MALFORMED_MESSAGE
     else do {
       request \<leftarrow> is_request m;
       if \<not> request then Some BAD_MESSAGE_CODE
       else do {
         id \<leftarrow> get_fragment_id m;
         if check_id \<and> id \<noteq> fid f then Some BAD_FRAGMENT_ID
         else do {
           u \<leftarrow> get_type m;
           if check_type \<and> u \<noteq> t then Some BAD_MESSAGE_CODE
           else do {
             e \<leftarrow> get_error_code m;
             if e \<noteq> NONE then Some FRAGMENT_EXCEPTION else Some NONE
           }
         }
       }
     }
   }"

definition msg_send_blocking :: "tx_io \<Rightarrow> message \<Rightarrow> error_code \<Rightarrow> (error_code \<times> buf) option" where
  "msg_send_blocking io m e =
     send_generic ctrl_config (fst io) (snd io) m e MIN_MESSAGE_LENGTH MAX_MESSAGE_LENGTH"

definition msg_recv_blocking ::
  "rx_io \<Rightarrow> buf \<Rightarrow> message \<Rightarrow> error_code \<Rightarrow> (error_code \<times> message \<times> buf) option" where
  "msg_recv_blocking io pending m e =
     returned (recv_generic ctrl_config (fst io) (snd io) pending m e MIN_MESSAGE_LENGTH MAX_MESSAGE_LENGTH)"

definition connection_error :: "bool \<Rightarrow> error_code" where
  "connection_error is_ctrl = (if is_ctrl then CTRL_CONNECTION_BROKEN else PCAP_CONNECTION_BROKEN)"

definition put_msg :: "bool \<Rightarrow> message \<Rightarrow> fragment \<Rightarrow> fragment" where
  "put_msg is_ctrl m f = (if is_ctrl then f\<lparr>msg_ctrl := m\<rparr> else f\<lparr>msg_pcap := m\<rparr>)"

definition put_wire :: "bool \<Rightarrow> buf \<Rightarrow> fragment \<Rightarrow> fragment" where
  "put_wire is_ctrl out f =
     (if is_ctrl then f\<lparr>ctrl_wire := ctrl_wire f @ out\<rparr> else f\<lparr>pcap_wire := pcap_wire f @ out\<rparr>)"

definition put_pending :: "bool \<Rightarrow> buf \<Rightarrow> fragment \<Rightarrow> fragment" where
  "put_pending is_ctrl p f = (if is_ctrl then f\<lparr>ctrl_pending := p\<rparr> else f\<lparr>pcap_pending := p\<rparr>)"

definition send_response ::
  "tx_io \<Rightarrow> bool \<Rightarrow> message_type \<Rightarrow> error_code \<Rightarrow> (message \<Rightarrow> (error_code \<times> message) option) \<Rightarrow>
   fragment \<Rightarrow> (error_code \<times> fragment) option"
where
  "send_response io is_ctrl t ec fill f = do {
     m \<leftarrow> prepare_header f t ec (if is_ctrl then msg_ctrl f else msg_pcap f);
     (r, m) \<leftarrow> fill m;
     if r \<noteq> NONE then Some (r, put_msg is_ctrl m f)
     else do {
       m \<leftarrow> finalize m;
       (r, out) \<leftarrow> msg_send_blocking io m (connection_error is_ctrl);
       Some (r, put_wire is_ctrl out (put_msg is_ctrl m f))
     }
   }"

definition recv_request ::
  "rx_io \<Rightarrow> bool \<Rightarrow> bool \<Rightarrow> bool \<Rightarrow> message_type \<Rightarrow>
   (message \<Rightarrow> fragment \<Rightarrow> (error_code \<times> fragment) option) \<Rightarrow> fragment \<Rightarrow> (error_code \<times> fragment) option"
where
  "recv_request io is_ctrl check_id check_type t process f = do {
     (ec, m, pending) \<leftarrow> msg_recv_blocking io (if is_ctrl then ctrl_pending f else pcap_pending f)
        (if is_ctrl then msg_ctrl f else msg_pcap f) (connection_error is_ctrl);
     let f = put_pending is_ctrl pending (put_msg is_ctrl m f);
     if ec \<noteq> NONE then Some (ec, f)
     else do {
       ec \<leftarrow> check_header f check_id check_type t m;
       if ec \<noteq> NONE then Some (ec, f) else process m f
     }
   }"

text \<open>The empty lambdas.\<close>

definition no_payload :: "message \<Rightarrow> (error_code \<times> message) option" where
  "no_payload m = Some (NONE, m)"

definition no_action :: "message \<Rightarrow> fragment \<Rightarrow> (error_code \<times> fragment) option" where
  "no_action m f = Some (NONE, f)"

subsection \<open>Payload fields\<close>

definition enc_sockaddr :: "sockaddr_in \<Rightarrow> buf" where
  "enc_sockaddr a =
     le_bytes 2 (sin_family a) @ le_bytes 2 (sin_port a) @ le_bytes 4 (sin_addr a) @ le_bytes 8 (sin_zero a)"

definition dec_sockaddr :: "buf \<Rightarrow> sockaddr_in" where
  "dec_sockaddr b = \<lparr>sin_family = rd16 b 0, sin_port = rd16 b 2, sin_addr = rd32 b 4, sin_zero = rd64 b 8\<rparr>"

interpretation fsaddr: field enc_sockaddr dec_sockaddr 16
proof
  fix a :: sockaddr_in
  show "length (enc_sockaddr a) = 16" by (simp add: enc_sockaddr_def)
  show "dec_sockaddr (enc_sockaddr a) = a"
    by (cases a) (simp add: enc_sockaddr_def dec_sockaddr_def rd16_def rd32_def rd64_def slice_def
        f16.dec_enc f32.dec_enc f64.dec_enc)
qed

definition off_msg :: nat where [simp]: "off_msg = sizeof_header"

definition get_bool :: "buf \<Rightarrow> nat \<Rightarrow> bool option" where
  "get_bool b off = map_option (\<lambda>v. v \<noteq> 0) (get8 b off)"

definition put_bool :: "buf \<Rightarrow> nat \<Rightarrow> bool \<Rightarrow> buf option" where
  "put_bool b off v = put8 b off (if v then 1 else 0)"

definition get_topology :: "message \<Rightarrow> topology_request option" where
  "get_topology m = do {
     a \<leftarrow> get16 m off_msg;
     n \<leftarrow> get16 m (off_msg + 2);
     r \<leftarrow> get_bool m (off_msg + 4);
     mf \<leftarrow> get16 m (off_msg + 6);
     hello \<leftarrow> get32 m (off_msg + 8);
     reel \<leftarrow> get32 m (off_msg + 12);
     costs \<leftarrow> get_elems le_word 2 (off_msg + sizeof_req_topology) (unat n) m;
     Some \<lparr>mixaddr = a, t_num_neighbors = n, t_do_random_routing = r, t_mixing_factor = mf,
           t_root_hello_interval_ms = hello, t_reelection_interval_ms = reel, t_link_costs = costs\<rparr>
   }"

text \<open>The address arrays of START_MIXNET_CLIENTS and RESOLVE_MIXNET_CONNS.\<close>

definition get_netaddrs :: "nat \<Rightarrow> message \<Rightarrow> sockaddr_in list option" where
  "get_netaddrs n m = get_elems dec_sockaddr 16 (off_msg + 8) n m"

subsection \<open>Handlers of the set-up states\<close>

definition run_state_setup_ctrl :: "fragment_env \<Rightarrow> fragment \<Rightarrow> (error_code \<times> fragment) option" where
  "run_state_setup_ctrl e f =
     (if fragment_state f \<noteq> FS_SETUP_CTRL then None
      else do {
        let f = f\<lparr>local_fd_ctrl := fst (open_socket (e_socket e 0) False True)\<rparr>;
        if local_fd_ctrl f < 0 then Some (SOCKET_CREATE_FAILED, f)
        else do {
          (rc, _) \<leftarrow> connect_with_timeout (timeout_connect_long f) (e_connect e 0 (orc_netaddr f));
          if rc < 0 then Some (SOCKET_CONNECT_FAILED, f)
          else
            die_on_error (send_response (e_tx e 0) True SETUP_CTRL NONE
                (\<lambda>m. map_option (Pair NONE) (put32 m off_msg (e_pid e))) f)
              (recv_request (e_rx e 0) True False True SETUP_CTRL
                (\<lambda>m f. do {
                   id \<leftarrow> get_fragment_id m;
                   auto \<leftarrow> get_bool m off_msg;
                   Some (NONE, f\<lparr>fid := id, autotest_mode := auto\<rparr>)
                 }))
        }
      })"

definition run_state_setup_pcap :: "fragment_env \<Rightarrow> fragment \<Rightarrow> (error_code \<times> fragment) option" where
  "run_state_setup_pcap e f =
     (if fragment_state f \<noteq> FS_SETUP_PCAP then None
      else
        die_on_error (recv_request (e_rx e 0) True True True SETUP_PCAP
            (\<lambda>m f. do {
               b \<leftarrow> read_at m off_msg sizeof_req_setup_pcap;
               Some (NONE, f\<lparr>pcap_netaddr := (dec_sockaddr b)\<lparr>sin_addr := sin_addr (orc_netaddr f)\<rparr>\<rparr>)
             }) f)
          (\<lambda>f. die_on_error (send_response (e_tx e 0) True SETUP_PCAP NONE no_payload f)
          (\<lambda>f. do {
             let f = f\<lparr>local_fd_pcap := fst (open_socket (e_socket e 0) False True)\<rparr>;
             if local_fd_pcap f < 0 then Some (SOCKET_CREATE_FAILED, f)
             else do {
               (rc, _) \<leftarrow> connect_with_timeout (timeout_connect_short f) (e_connect e 0 (pcap_netaddr f));
               if rc < 0 then Some (SOCKET_CONNECT_FAILED, f)
               else die_on_error (send_response (e_tx e 1) False SETUP_PCAP NONE no_payload f)
                 (recv_request (e_rx e 1) False True True SETUP_PCAP no_action)
             }
           })))"

definition run_state_create_topology :: "fragment_env \<Rightarrow> fragment \<Rightarrow> (error_code \<times> fragment) option" where
  "run_state_create_topology e f =
     (if fragment_state f \<noteq> FS_CREATE_TOPOLOGY then None
      else
        die_on_error (recv_request (e_rx e 0) True True True TOPOLOGY
            (\<lambda>m f. do {
               p \<leftarrow> get_topology m;
               Some (NONE, f\<lparr>node_ctx := Some (init_node_context p)\<rparr>)
             }) f)
          (send_response (e_tx e 0) True TOPOLOGY NONE no_payload))"

text \<open>
  DIE_DURING_ACCEPT: on an error the accept thread is told to stop and joined. The thread's
  result is that of \<open>server_accept\<close> over the turns the environment gives it.
\<close>

definition stop_accept :: "fragment_env \<Rightarrow> fragment \<Rightarrow> fragment option" where
  "stop_accept e f = do {
     args \<leftarrow> node_accept_args f;
     args \<leftarrow> (if accept_done args then Some args else server_accept (e_turns e) args);
     Some (f\<lparr>node_accept_args := Some (args\<lparr>keep_running := False\<rparr>)\<rparr>)
   }"

definition die_during_accept ::
  "fragment_env \<Rightarrow> (error_code \<times> fragment) option \<Rightarrow> (fragment \<Rightarrow> (error_code \<times> fragment) option) \<Rightarrow>
   (error_code \<times> fragment) option"
where
  "die_during_accept e m k = do {
     (ec, f) \<leftarrow> m;
     if ec \<noteq> NONE then map_option (Pair ec) (stop_accept e f) else k f
   }"

definition run_state_start_mixnet_server ::
  "fragment_env \<Rightarrow> fragment \<Rightarrow> (error_code \<times> fragment) option" where
  "run_state_start_mixnet_server e f =
     (if fragment_state f \<noteq> FS_START_MIXNET_SERVER then None
      else
        die_on_error (recv_request (e_rx e 0) True True True START_MIXNET_SERVER no_action f)
          (\<lambda>f. do {
             c \<leftarrow> node_ctx f;
             let n = num_neighbors (node_config c);
             let c = c\<lparr>tx_server_netaddr := (tx_server_netaddr c)\<lparr>sin_family := AF_INET, sin_addr := 0\<rparr>\<rparr>;
             let (ec, fd, netaddr) = server_setup (e_setup e) (tx_listen_fd c) (tx_server_netaddr c) (unat n) False;
             let c = c\<lparr>tx_listen_fd := fd, tx_server_netaddr := netaddr\<rparr>;
             let f = f\<lparr>node_ctx := Some c\<rparr>;
             if ec \<noteq> NONE then Some (ec, f)
             else
               die_during_accept e (send_response (e_tx e 0) True START_MIXNET_SERVER NONE
                   (\<lambda>m. map_option (Pair NONE)
                      (write_at m off_msg (enc_sockaddr (netaddr\<lparr>sin_addr := - 1\<rparr>))))
                   (f\<lparr>node_accept_args := Some (accept_args_new fd False 0 n)\<rparr>))
                 (\<lambda>f. Some (NONE, f))
           }))"

text \<open>The loop that connects to the neighbours' servers, from neighbour \<open>nid\<close> on.\<close>

fun connect_loop ::
  "fragment_env \<Rightarrow> nat \<Rightarrow> nat \<Rightarrow> fragment \<Rightarrow> (error_code \<times> fragment) option" where
  "connect_loop e 0 nid f = Some (NONE, f)"
| "connect_loop e (Suc left) nid f = do {
     c \<leftarrow> node_ctx f;
     let fd = fst (open_socket (e_socket e nid) False False);
     fds \<leftarrow> set_at (rx_socket_fds c) nid fd;
     let f = f\<lparr>node_ctx := Some (c\<lparr>rx_socket_fds := fds\<rparr>)\<rparr>;
     if fd < 0 then Some (SOCKET_CREATE_FAILED, f)
     else do {
       netaddr \<leftarrow> get_at (neighbor_netaddrs c) nid;
       (rc, _) \<leftarrow> connect_with_timeout (timeout_connect_short f) (e_connect e nid netaddr);
       if rc < 0 then Some (SOCKET_CONNECT_FAILED, f) else connect_loop e left (Suc nid) f
     }
   }"

text \<open>The loop that writes the local addresses of the receiving sockets into the response.\<close>

fun sockname_loop :: "fragment_env \<Rightarrow> nat \<Rightarrow> nat \<Rightarrow> message \<Rightarrow> (error_code \<times> message) option" where
  "sockname_loop e 0 nid m = Some (NONE, m)"
| "sockname_loop e (Suc left) nid m =
     (case e_sockname e nid of
        None \<Rightarrow> Some (SOCKET_OPTIONS_FAILED, m)
      | Some a \<Rightarrow> do {
          m \<leftarrow> write_at m (off_msg + 8 + 16 * nid) (enc_sockaddr a);
          sockname_loop e left (Suc nid) m
        })"

definition run_state_start_mixnet_client ::
  "fragment_env \<Rightarrow> fragment \<Rightarrow> (error_code \<times> fragment) option" where
  "run_state_start_mixnet_client e f =
     (if fragment_state f \<noteq> FS_START_MIXNET_CLIENT then None
      else do {
        c0 \<leftarrow> node_ctx f;
        let num = num_neighbors (node_config c0);
        die_during_accept e (recv_request (e_rx e 0) True True True START_MIXNET_CLIENTS
            (\<lambda>m f. do {
               n \<leftarrow> get16 m off_msg;
               if num \<noteq> n then Some (FRAGMENT_BAD_NEIGHBOR_COUNT, f)
               else do {
                 netaddrs \<leftarrow> get_netaddrs (unat num) m;
                 c \<leftarrow> node_ctx f;
                 Some (NONE, f\<lparr>node_ctx := Some (c\<lparr>neighbor_netaddrs := netaddrs\<rparr>)\<rparr>)
               }
             }) f)
          (\<lambda>f. die_during_accept e (connect_loop e (unat num) 0 f)
          (\<lambda>f. do {
             args \<leftarrow> node_accept_args f;
             args \<leftarrow> server_accept (e_turns e) args;
             let args = args\<lparr>keep_running := False\<rparr>;
             let f = f\<lparr>node_accept_args := Some args\<rparr>;
             die_during_accept e
               (if num_accepted args \<noteq> num then Some (SOCKET_ACCEPT_TIMEOUT, f) else Some (NONE, f))
               (\<lambda>f. die_during_accept e (send_response (e_tx e 0) True START_MIXNET_CLIENTS NONE
                   (\<lambda>m. do { m \<leftarrow> put16 m off_msg num; sockname_loop e (unat num) 0 m }) f)
                 (\<lambda>f. Some (NONE, f)))
           }))
      })"

text \<open>For each neighbour, the accepted connection whose peer has the neighbour's client address.\<close>

fun resolve_loop ::
  "accepted_state list \<Rightarrow> sockaddr_in list \<Rightarrow> nat \<Rightarrow> int list \<Rightarrow> (error_code \<times> int list) option" where
  "resolve_loop sts [] nid fds = Some (NONE, fds)"
| "resolve_loop sts (a # as) nid fds =
     (case find (\<lambda>s. equal_netaddrs (address s) a) sts of
        None \<Rightarrow> Some (FRAGMENT_EXCEPTION, fds)
      | Some s \<Rightarrow> do {
          fds \<leftarrow> set_at fds nid (connection_fd s);
          resolve_loop sts as (Suc nid) fds
        })"

definition run_state_resolve_mixnet_connections ::
  "fragment_env \<Rightarrow> fragment \<Rightarrow> (error_code \<times> fragment) option" where
  "run_state_resolve_mixnet_connections e f =
     (if fragment_state f \<noteq> FS_RESOLVE_MIXNET_CONNECTIONS then None
      else do {
        c0 \<leftarrow> node_ctx f;
        let num = num_neighbors (node_config c0);
        die_during_accept e (recv_request (e_rx e 0) True True True RESOLVE_MIXNET_CONNS
            (\<lambda>m f. do {
               n \<leftarrow> get16 m off_msg;
               if n \<noteq> num then Some (FRAGMENT_BAD_NEIGHBOR_COUNT, f)
               else do {
                 netaddrs \<leftarrow> get_netaddrs (unat num) m;
                 args \<leftarrow> node_accept_args f;
                 c \<leftarrow> node_ctx f;
                 (ec, fds) \<leftarrow> resolve_loop (states args) netaddrs 0 (tx_socket_fds c);
                 Some (ec, f\<lparr>node_ctx := Some (c\<lparr>tx_socket_fds := fds\<rparr>)\<rparr>)
               }
             }) f)
          (send_response (e_tx e 0) True RESOLVE_MIXNET_CONNS NONE no_payload)
      })"

definition run_state_start_testcase :: "fragment_env \<Rightarrow> fragment \<Rightarrow> (error_code \<times> fragment) option" where
  "run_state_start_testcase e f =
     (if fragment_state f \<noteq> FS_START_TESTCASE then None
      else
        die_on_error (recv_request (e_rx e 0) True True True START_TESTCASE no_action f)
          (send_response (e_tx e 0) True START_TESTCASE NONE no_payload))"

subsection \<open>Tasks of a testcase\<close>

definition task_update_pcap_subscription :: "bool \<Rightarrow> fragment \<Rightarrow> (error_code \<times> fragment) option" where
  "task_update_pcap_subscription v f = do {
     c \<leftarrow> node_ctx f;
     Some (NONE, f\<lparr>node_ctx := Some (c\<lparr>is_pcap_subscribed := v\<rparr>)\<rparr>)
   }"

text \<open>
  The packet \<open>task_send_packet\<close> builds in a fresh block from the request in \<open>msg_ctrl\<close>. Sizes are
  16 bits wide.
\<close>

definition build_user_packet :: "buf \<Rightarrow> message \<Rightarrow> buf option" where
  "build_user_packet fresh m = do {
     code \<leftarrow> get16 m off_msg;
     src \<leftarrow> get16 m (off_msg + 2);
     dst \<leftarrow> get16 m (off_msg + 4);
     data_length \<leftarrow> get16 m (off_msg + 6);
     let total = (of_nat sizeof_mixnet_packet :: u16);
     b \<leftarrow> put16 fresh off_type code;
     (total, b) \<leftarrow>
       (if code = type_code PACKET_TYPE_DATA \<or> code = type_code PACKET_TYPE_PING then do {
          b \<leftarrow> put16 b off_rh_src src;
          b \<leftarrow> put16 b off_rh_dst dst;
          b \<leftarrow> put16 b off_rh_route_length 0;
          b \<leftarrow> put16 b off_rh_hop_index 0;
          let total = total + of_nat sizeof_routing_header;
          if code = type_code PACKET_TYPE_DATA then do {
            bytes \<leftarrow> read_at m (off_msg + sizeof_req_send_packet) (unat data_length);
            b \<leftarrow> write_at b (off_rh_route 0) bytes;
            Some (total + data_length, b)
          } else Some (total, b)
        } else Some (total, b));
     put16 b off_total_size total
   }"

definition task_send_packet ::
  "bool \<Rightarrow> (nat \<Rightarrow> byte) \<Rightarrow> fragment \<Rightarrow> (error_code \<times> fragment) option" where
  "task_send_packet malloc_ok uninit f =
     (if \<not> malloc_ok then Some (FRAGMENT_EXCEPTION, f)
      else do {
        packet \<leftarrow> build_user_packet (map uninit [0..<MAX_MIXNET_PACKET_SIZE]) (msg_ctrl f);
        let q = queues f;
        (p, mq) \<leftarrow> message_queue_message_alloc (mq_user q);
        let q = q\<lparr>mq_user := mq\<rparr>;
        case p of
          None \<Rightarrow> Some (FRAGMENT_EXCEPTION, f\<lparr>queues := q\<rparr>)
        | Some p \<Rightarrow> do {
            let q = q\<lparr>user_cells := (user_cells q)(p := Some packet)\<rparr>;
            mq \<leftarrow> message_queue_write p (mq_user q);
            Some (NONE, f\<lparr>queues := q\<lparr>mq_user := mq\<rparr>\<rparr>)
          }
      })"

text \<open>Draining a socket into the scratch buffer, until a receive does not succeed.\<close>

fun drain_loop :: "rx_io list \<Rightarrow> buf \<Rightarrow> buf \<Rightarrow> (error_code \<times> buf \<times> buf) option" where
  "drain_loop [] pending b = None"
| "drain_loop (io # ios) pending b = do {
     (ec, b, pending) \<leftarrow> packet_recv_once io pending b;
     if ec = NONE then drain_loop ios pending b else Some (ec, b, pending)
   }"

definition task_update_link_state ::
  "rx_io list \<Rightarrow> u16 \<Rightarrow> bool \<Rightarrow> fragment \<Rightarrow> (error_code \<times> fragment) option" where
  "task_update_link_state ios nid state f = do {
     c \<leftarrow> node_ctx f;
     if \<not> nid < num_neighbors (node_config c) then None
     else do {
       links \<leftarrow> set_at (link_states c) (unat nid) state;
       let c = c\<lparr>link_states := links\<rparr>;
       (ec, f) \<leftarrow>
         (if \<not> state then do {
            pending \<leftarrow> get_at (rx_pending c) (unat nid);
            (ec, b, pending) \<leftarrow> drain_loop ios pending (msg_ctrl f);
            Some (ec, f\<lparr>msg_ctrl := b,
              node_ctx := Some (c\<lparr>rx_pending := (rx_pending c)[unat nid := pending]\<rparr>)\<rparr>)
          } else Some (NONE, f\<lparr>node_ctx := Some c\<rparr>));
       Some (if ec = RECV_ZERO_PENDING then NONE else ec, f)
     }
   }"

text \<open>\<open>both_exited\<close>: whether both helper threads have exited when the fragment looks the second time.\<close>

definition task_end_testcase :: "bool \<Rightarrow> fragment \<Rightarrow> (error_code \<times> fragment) option" where
  "task_end_testcase both_exited f = do {
     c \<leftarrow> node_ctx f;
     let f = f\<lparr>node_ctx := Some (c\<lparr>ts := (ts c)\<lparr>thread_keep_running := False\<rparr>\<rparr>),
               ts_pcap := (ts_pcap f)\<lparr>thread_keep_running := False\<rparr>\<rparr>;
     let q = queues f;
     (p, mq) \<leftarrow> message_queue_message_alloc (mq_pcap q);
     let q = q\<lparr>mq_pcap := mq\<rparr>;
     case p of
       None \<Rightarrow> Some (FRAGMENT_EXCEPTION, f\<lparr>queues := q\<rparr>)
     | Some p \<Rightarrow> do {
         let q = q\<lparr>pcap_cells := (pcap_cells q)(p := None)\<rparr>;
         mq \<leftarrow> message_queue_write p (mq_pcap q);
         let f = f\<lparr>queues := q\<lparr>mq_pcap := mq\<rparr>\<rparr>;
         Some (if both_exited then NONE else FRAGMENT_THREADS_NONRESPONSIVE, f)
       }
   }"

text \<open>One turn of the loop of \<open>run_state_run_testcase\<close> as the outside world makes it.\<close>

record run_turn =
  t_rx :: rx_io
  t_tx :: tx_io
  t_drain :: "rx_io list"
  t_malloc :: bool
  t_uninit :: "nat \<Rightarrow> byte"
  t_both_exited :: bool
  t_any_exited :: bool

text \<open>The switch: the task's code, whether the testcase ends, whether to respond.\<close>

definition run_task ::
  "run_turn \<Rightarrow> message_type \<Rightarrow> fragment \<Rightarrow> (error_code \<times> bool \<times> bool \<times> fragment) option" where
  "run_task t ty f = (case ty of
     CHANGE_LINK_STATE \<Rightarrow> do {
       nid \<leftarrow> get16 (msg_ctrl f) off_msg;
       state \<leftarrow> get_bool (msg_ctrl f) (off_msg + 2);
       (ec, f) \<leftarrow> task_update_link_state (t_drain t) nid state f;
       Some (ec, False, True, f)
     }
   | PCAP_SUBSCRIPTION \<Rightarrow> do {
       v \<leftarrow> get_bool (msg_ctrl f) off_msg;
       (ec, f) \<leftarrow> task_update_pcap_subscription v f;
       Some (ec, False, True, f)
     }
   | SEND_PACKET \<Rightarrow> do {
       (ec, f) \<leftarrow> task_send_packet (t_malloc t) (t_uninit t) f;
       Some (ec, False, True, f)
     }
   | END_TESTCASE \<Rightarrow> do {
       (ec, f) \<leftarrow> task_end_testcase (t_both_exited t) f;
       Some (ec, True, ec = NONE, f)
     }
   | _ \<Rightarrow> Some (BAD_MESSAGE_CODE, False, False, f))"

fun run_loop :: "run_turn list \<Rightarrow> fragment \<Rightarrow> (error_code \<times> fragment) option" where
  "run_loop [] f = None"
| "run_loop (t # turns) f = do {
     (ec, f) \<leftarrow> recv_request (t_rx t) True True False NOOP no_action f;
     if ec = RECV_WAIT_TIMEOUT then None
     else if ec \<noteq> NONE then Some (ec, f)
     else do {
       ty \<leftarrow> get_type (msg_ctrl f);
       (ec, end_testcase, do_respond, f) \<leftarrow> run_task t ty f;
       (ec, f) \<leftarrow> (if do_respond then send_response (t_tx t) True ty ec no_payload f else Some (ec, f));
       let ec = (if \<not> end_testcase \<and> t_any_exited t then FRAGMENT_EXCEPTION else ec);
       if ec = NONE \<and> \<not> end_testcase then run_loop turns f else Some (ec, f)
     }
   }"

definition run_state_run_testcase :: "run_turn list \<Rightarrow> fragment \<Rightarrow> (error_code \<times> fragment) option" where
  "run_state_run_testcase turns f =
     (if fragment_state f \<noteq> FS_RUN_TESTCASE then None else run_loop turns f)"

subsection \<open>Shutdown, the pcap thread and the main loop\<close>

text \<open>The destructor of the node context closes its descriptors.\<close>

definition node_context_fds :: "node_context \<Rightarrow> int list" where
  "node_context_fds c =
     filter (\<lambda>fd. fd \<noteq> -1) (tx_socket_fds c) @
     (if tx_listen_fd c \<noteq> -1 then [tx_listen_fd c] else []) @
     filter (\<lambda>fd. fd \<noteq> -1) (rx_socket_fds c)"

definition destroy_node_context :: "fragment \<Rightarrow> fragment option" where
  "destroy_node_context f = do {
     c \<leftarrow> node_ctx f;
     Some (f\<lparr>node_ctx := None, closed_fds := closed_fds f @ node_context_fds c\<rparr>)
   }"

definition run_state_do_shutdown :: "fragment_env \<Rightarrow> fragment \<Rightarrow> (error_code \<times> fragment) option" where
  "run_state_do_shutdown e f =
     (if fragment_state f \<noteq> FS_SHUTDOWN then None
      else
        die_on_error (recv_request (e_rx e 0) True True True SHUTDOWN no_action f)
          (\<lambda>f. do {
             (ec, f) \<leftarrow> send_response (e_tx e 0) True SHUTDOWN NONE no_payload f;
             if ec = NONE then map_option (Pair NONE) (destroy_node_context f) else Some (ec, f)
           }))"

text \<open>One round of the pcap thread: may it go on, what others do while it waits, its send.\<close>

record pcap_turn =
  p_keep :: bool
  p_others :: "(message_queue \<Rightarrow> message_queue) list"
  p_tx :: tx_io

definition pcap_exit :: "fragment \<Rightarrow> fragment" where
  "pcap_exit f = f\<lparr>ts_pcap := (ts_pcap f)\<lparr>exited := True\<rparr>\<rparr>"

fun worker_pcap :: "pcap_turn list \<Rightarrow> fragment \<Rightarrow> fragment option" where
  "worker_pcap [] f = None"
| "worker_pcap (t # turns) f =
     (if \<not> p_keep t then Some (pcap_exit f)
      else do {
        let q = queues f;
        (p, mq) \<leftarrow> message_queue_read (p_others t) (mq_pcap q);
        mq \<leftarrow> message_queue_message_free p mq;
        let f = f\<lparr>queues := q\<lparr>mq_pcap := mq\<rparr>\<rparr>;
        case pcap_cells q p of
          None \<Rightarrow> Some (pcap_exit f)
        | Some packet \<Rightarrow> do {
            total \<leftarrow> get16 packet off_total_size;
            if MAX_MIXNET_PACKET_SIZE < unat total then None
            else do {
              (ec, f) \<leftarrow> send_response (p_tx t) False PCAP_DATA NONE
                (\<lambda>m. do {
                   bytes \<leftarrow> read_at packet 0 (unat total);
                   map_option (Pair NONE) (write_at m off_msg bytes)
                 }) f;
              let f = f\<lparr>ts_pcap := (ts_pcap f)\<lparr>exit_code := ec\<rparr>\<rparr>;
              if ec = NONE then worker_pcap turns f else Some (pcap_exit f)
            }
          }
      })"

definition run_state :: "fragment_env \<Rightarrow> run_turn list \<Rightarrow> fragment \<Rightarrow> (error_code \<times> fragment) option"
where
  "run_state e turns f = (case fragment_state f of
     FS_SETUP_CTRL \<Rightarrow> run_state_setup_ctrl e f
   | FS_SETUP_PCAP \<Rightarrow> run_state_setup_pcap e f
   | FS_CREATE_TOPOLOGY \<Rightarrow> run_state_create_topology e f
   | FS_START_MIXNET_SERVER \<Rightarrow> run_state_start_mixnet_server e f
   | FS_START_MIXNET_CLIENT \<Rightarrow> run_state_start_mixnet_client e f
   | FS_RESOLVE_MIXNET_CONNECTIONS \<Rightarrow> run_state_resolve_mixnet_connections e f
   | FS_START_TESTCASE \<Rightarrow> run_state_start_testcase e f
   | FS_RUN_TESTCASE \<Rightarrow> run_state_run_testcase turns f
   | FS_SHUTDOWN \<Rightarrow> run_state_do_shutdown e f
   | FS_DONE \<Rightarrow> Some (NONE, f))"

primrec next_state :: "fragment_state \<Rightarrow> fragment_state" where
  "next_state FS_SETUP_CTRL = FS_SETUP_PCAP"
| "next_state FS_SETUP_PCAP = FS_CREATE_TOPOLOGY"
| "next_state FS_CREATE_TOPOLOGY = FS_START_MIXNET_SERVER"
| "next_state FS_START_MIXNET_SERVER = FS_START_MIXNET_CLIENT"
| "next_state FS_START_MIXNET_CLIENT = FS_RESOLVE_MIXNET_CONNECTIONS"
| "next_state FS_RESOLVE_MIXNET_CONNECTIONS = FS_START_TESTCASE"
| "next_state FS_START_TESTCASE = FS_RUN_TESTCASE"
| "next_state FS_RUN_TESTCASE = FS_SHUTDOWN"
| "next_state FS_SHUTDOWN = FS_DONE"
| "next_state FS_DONE = FS_DONE"

fun fragment_loop ::
  "(fragment_env \<times> run_turn list) list \<Rightarrow> fragment \<Rightarrow> (error_code \<times> fragment) option" where
  "fragment_loop [] f = None"
| "fragment_loop ((e, turns) # es) f = do {
     (ec, f') \<leftarrow> run_state e turns f;
     let f' = f'\<lparr>fragment_state := next_state (fragment_state f)\<rparr>;
     if fragment_state f' \<noteq> FS_DONE \<and> ec = NONE then fragment_loop es f' else Some (ec, f')
   }"

text \<open>How \<open>run\<close> ends: it returns, or, after an error in autotest mode, spins until it is killed.\<close>

datatype run_outcome = Returned error_code fragment | Spins fragment

definition run_fragment ::
  "(fragment_env \<times> run_turn list) list \<Rightarrow> fragment \<Rightarrow> run_outcome option" where
  "run_fragment es f =
     (if fragment_state f \<noteq> FS_SETUP_CTRL then None
      else do {
        (ec, f) \<leftarrow> fragment_loop es f;
        Some (if ec \<noteq> NONE \<and> autotest_mode f then Spins f else Returned ec f)
      })"

text \<open>The destructor of the fragment: the queues and the descriptors it closes.\<close>

definition fragment_destroy :: "fragment \<Rightarrow> release list \<times> release list \<times> int list" where
  "fragment_destroy f =
     (message_queue_destroy (mq_pcap (queues f)), message_queue_destroy (mq_user (queues f)),
      (if local_fd_pcap f \<noteq> -1 then [local_fd_pcap f] else []) @
      (if local_fd_ctrl f \<noteq> -1 then [local_fd_ctrl f] else []))"

end
