(* ===== verification/Test_Graph.thy ===== *)
theory Test_Graph
  imports Prelude
begin

text \<open>
  The virtual network of a testcase, \<open>testing/common/graph.h\<close> and \<open>graph.cpp\<close>: adjacency lists
  whose positions are the port numbers of the nodes, and the generators of standard topologies.
  \<open>None\<close> is a failed assert, an access outside a vector, or a loop whose 16-bit index never
  reaches the size of the vector.
\<close>

subsection \<open>Data\<close>

record graph_node =
  g_mixing_factor :: u16
  g_random_routing :: bool
  g_link_costs :: "u16 list"
  g_mixaddr :: u16

definition graph_node_new :: "u16 \<Rightarrow> graph_node" where
  "graph_node_new a = \<lparr>g_mixing_factor = 1, g_random_routing = False, g_link_costs = [], g_mixaddr = a\<rparr>"

record test_graph =
  num_nodes :: u16
  nodes :: "graph_node list"
  adjacency :: "u16 list list"

record half_edge =
  edge_id :: u16
  edge_cost :: u16

definition half_edge_new :: "u16 \<Rightarrow> half_edge" where
  "half_edge_new i = \<lparr>edge_id = i, edge_cost = 1\<rparr>"

definition graph_new :: "u16 \<Rightarrow> test_graph" where
  "graph_new n = \<lparr>num_nodes = n, nodes = map (\<lambda>i. graph_node_new (of_nat i)) [0..<unat n],
     adjacency = replicate (unat n) []\<rparr>"

subsection \<open>Operations\<close>

fun find_node :: "u16 \<Rightarrow> graph_node list \<Rightarrow> nat option" where
  "find_node a [] = None"
| "find_node a (v # vs) = (if g_mixaddr v = a then Some 0 else map_option Suc (find_node a vs))"

definition get_node_id :: "u16 \<Rightarrow> test_graph \<Rightarrow> int" where
  "get_node_id a g = (case find_node a (nodes g) of None \<Rightarrow> -1 | Some i \<Rightarrow> int i)"

definition add_link_cost :: "nat \<Rightarrow> u16 \<Rightarrow> graph_node list \<Rightarrow> graph_node list option" where
  "add_link_cost i c vs = do {
     v \<leftarrow> get_at vs i;
     set_at vs i (v\<lparr>g_link_costs := g_link_costs v @ [c]\<rparr>)
   }"

definition push_neighbor :: "nat \<Rightarrow> u16 \<Rightarrow> u16 list list \<Rightarrow> u16 list list option" where
  "push_neighbor i j tops = do {
     adj \<leftarrow> get_at tops i;
     set_at tops i (adj @ [j])
   }"

definition add_edge :: "half_edge \<Rightarrow> half_edge \<Rightarrow> test_graph \<Rightarrow> test_graph option" where
  "add_edge s d g =
     (if \<not> (edge_id s < num_nodes g \<and> edge_id d < num_nodes g) then None
      else if edge_id s = edge_id d then None
      else do {
        adj \<leftarrow> get_at (adjacency g) (unat (edge_id s));
        if edge_id d \<in> set adj then None
        else do {
          vs \<leftarrow> add_link_cost (unat (edge_id s)) (edge_cost s) (nodes g);
          vs \<leftarrow> add_link_cost (unat (edge_id d)) (edge_cost d) vs;
          tops \<leftarrow> push_neighbor (unat (edge_id s)) (edge_id d) (adjacency g);
          tops \<leftarrow> push_neighbor (unat (edge_id d)) (edge_id s) tops;
          Some (g\<lparr>nodes := vs, adjacency := tops\<rparr>)
        }
      })"

fun add_edges :: "(u16 \<times> u16) list \<Rightarrow> test_graph \<Rightarrow> test_graph option" where
  "add_edges [] g = Some g"
| "add_edges ((a, b) # es) g = do {
     g \<leftarrow> add_edge (half_edge_new a) (half_edge_new b) g;
     add_edges es g
   }"

definition set_mixaddrs :: "u16 list \<Rightarrow> test_graph \<Rightarrow> test_graph option" where
  "set_mixaddrs m g =
     (if length m \<noteq> unat (num_nodes g) then None
      else Some (g\<lparr>nodes := map2 (\<lambda>v a. v\<lparr>g_mixaddr := a\<rparr>) (nodes g) m\<rparr>))"

datatype topology_type = LINE | RING | STAR | FULL_MESH

text \<open>The calls of \<open>add_edge\<close>, in the order of the loops.\<close>

definition topology_edges :: "topology_type \<Rightarrow> u16 list \<Rightarrow> (u16 \<times> u16) list" where
  "topology_edges t idxs = (let n = length idxs in case t of
     LINE \<Rightarrow> map (\<lambda>i. (idxs ! i, idxs ! (i + 1))) [0..<n - 1]
   | RING \<Rightarrow> map (\<lambda>i. (idxs ! i, idxs ! ((i + 1) mod n))) [0..<n]
   | FULL_MESH \<Rightarrow> concat (map (\<lambda>i. map (\<lambda>j. (idxs ! i, idxs ! j)) [i + 1..<n]) [0..<n])
   | STAR \<Rightarrow> map (\<lambda>i. (idxs ! 0, idxs ! i)) [1..<n])"

definition generate_topology :: "topology_type \<Rightarrow> u16 list \<Rightarrow> test_graph \<Rightarrow> test_graph option" where
  "generate_topology t idxs g =
     (if num_nodes g < 2 then Some g
      else
        let idxs = (if idxs = [] then map of_nat [0..<unat (num_nodes g)] else idxs) in
        if 2 ^ 16 \<le> (if t = LINE then length idxs - 1 else length idxs) then None
        else if t = RING \<and> \<not> 2 < length idxs then None
        else add_edges (topology_edges t idxs) g)"

subsection \<open>Sound graphs\<close>

text \<open>
  What the orchestrator relies on: a link costs and a node per position, no node its own
  neighbour, no neighbour twice, and links in both directions.
\<close>

definition linked_to :: "test_graph \<Rightarrow> u16 \<Rightarrow> u16 \<Rightarrow> bool" where
  "linked_to g a b \<longleftrightarrow> a < num_nodes g \<and> b \<in> set (adjacency g ! unat a)"

definition graph_ok :: "test_graph \<Rightarrow> bool" where
  "graph_ok g \<longleftrightarrow> length (nodes g) = unat (num_nodes g) \<and> length (adjacency g) = unat (num_nodes g) \<and>
     (\<forall>i < unat (num_nodes g). distinct (adjacency g ! i) \<and>
        length (g_link_costs (nodes g ! i)) = length (adjacency g ! i)) \<and>
     (\<forall>a b. linked_to g a b \<longrightarrow> a \<noteq> b \<and> linked_to g b a)"

lemma graph_new_ok: "graph_ok (graph_new n)"
  by (auto simp: graph_ok_def graph_new_def linked_to_def graph_node_new_def word_less_nat_alt)

lemma add_edge_ok:
  assumes ok: "graph_ok g" and add: "add_edge s d g = Some g'"
  shows "graph_ok g'" and "num_nodes g' = num_nodes g"
    and "linked_to g' a b \<longleftrightarrow> linked_to g a b \<or> (a, b) \<in> {(edge_id s, edge_id d), (edge_id d, edge_id s)}"
proof -
  let ?s = "unat (edge_id s)" and ?d = "unat (edge_id d)" and ?A = "adjacency g" and ?V = "nodes g"
  have new: "edge_id s < num_nodes g" "edge_id d < num_nodes g" "edge_id s \<noteq> edge_id d"
    "edge_id d \<notin> set (?A ! ?s)"
    using add by (auto simp: add_edge_def get_at_def split: if_splits)
  then have bound: "?s < unat (num_nodes g)" "?d < unat (num_nodes g)" "?s \<noteq> ?d"
    by (simp_all add: word_less_nat_alt word_unat_eq_iff)
  note len = ok [unfolded graph_ok_def, THEN conjunct1] ok [unfolded graph_ok_def, THEN conjunct2, THEN conjunct1]
  have g': "g' = g\<lparr>nodes := ?V[?s := (?V ! ?s)\<lparr>g_link_costs := g_link_costs (?V ! ?s) @ [edge_cost s]\<rparr>,
        ?d := (?V ! ?d)\<lparr>g_link_costs := g_link_costs (?V ! ?d) @ [edge_cost d]\<rparr>],
      adjacency := ?A[?s := ?A ! ?s @ [edge_id d], ?d := ?A ! ?d @ [edge_id s]]\<rparr>"
    using add new bound len
    by (auto simp: add_edge_def add_link_cost_def push_neighbor_def access_simps split: if_splits)
  show n: "num_nodes g' = num_nodes g" by (simp add: g')
  have linked: "linked_to g' a b \<longleftrightarrow> linked_to g a b \<or> (a, b) \<in> {(edge_id s, edge_id d), (edge_id d, edge_id s)}" for a b
    using new bound len by (auto simp: linked_to_def g' nth_list_update word_unat_eq_iff word_less_nat_alt)
  then show "linked_to g' a b \<longleftrightarrow> linked_to g a b \<or> (a, b) \<in> {(edge_id s, edge_id d), (edge_id d, edge_id s)}" .
  have sym: "linked_to g a b \<longrightarrow> a \<noteq> b \<and> linked_to g b a" for a b using ok by (simp add: graph_ok_def)
  have "edge_id s \<notin> set (?A ! ?d)" using sym [of "edge_id d" "edge_id s"] new by (auto simp: linked_to_def)
  then have "distinct (adjacency g' ! i) \<and> length (g_link_costs (nodes g' ! i)) = length (adjacency g' ! i)"
    if "i < unat (num_nodes g)" for i
    using ok new bound len that by (auto simp: g' nth_list_update graph_ok_def)
  then show "graph_ok g'"
    using linked sym new len n by (auto simp: graph_ok_def g')
qed

lemma add_edges_ok:
  "graph_ok g \<Longrightarrow> add_edges es g = Some g' \<Longrightarrow> graph_ok g' \<and> num_nodes g' = num_nodes g \<and>
     (\<forall>a b. linked_to g' a b \<longleftrightarrow> linked_to g a b \<or> (a, b) \<in> set es \<or> (b, a) \<in> set es)"
proof (induction es arbitrary: g)
  case Nil
  then show ?case by simp
next
  case (Cons e es)
  obtain a b where e: "e = (a, b)" by force
  obtain g1 where g1: "add_edge (half_edge_new a) (half_edge_new b) g = Some g1" "add_edges es g1 = Some g'"
    using Cons.prems(2) by (auto simp: e bind_eq_Some_conv)
  note s = add_edge_ok [OF Cons.prems(1) g1(1)]
  have "linked_to g1 c d \<longleftrightarrow> linked_to g c d \<or> (c, d) = (a, b) \<or> (d, c) = (a, b)" for c d
    using s(3) [of c d] by (auto simp: half_edge_new_def)
  moreover note ih = Cons.IH [OF s(1) g1(2)]
  ultimately have "linked_to g' c d \<longleftrightarrow>
      linked_to g c d \<or> (c, d) \<in> set (e # es) \<or> (d, c) \<in> set (e # es)" for c d
    by (auto simp: e)
  then show ?case using ih s(2) by simp
qed

lemma add_edge_defined:
  assumes "graph_ok g" and "a < num_nodes g" and "b < num_nodes g" and "a \<noteq> b" and "\<not> linked_to g a b"
  shows "\<exists>g'. add_edge (half_edge_new a) (half_edge_new b) g = Some g'"
proof -
  have l: "unat a < length (adjacency g)" "unat b < length (adjacency g)"
    "unat a < length (nodes g)" "unat b < length (nodes g)"
    using assms(1-3) by (simp_all add: graph_ok_def word_less_nat_alt)
  have "b \<notin> set (adjacency g ! unat a)" using assms(2,5) by (simp add: linked_to_def)
  with l assms(2-4) show ?thesis
    by (simp add: add_edge_def half_edge_new_def add_link_cost_def push_neighbor_def access_simps)
qed

lemma add_edges_defined:
  "graph_ok g \<Longrightarrow> distinct es \<Longrightarrow>
   \<forall>(a, b) \<in> set es. a < num_nodes g \<and> b < num_nodes g \<and> a \<noteq> b \<and> \<not> linked_to g a b \<and> (b, a) \<notin> set es \<Longrightarrow>
   \<exists>g'. add_edges es g = Some g'"
proof (induction es arbitrary: g)
  case Nil
  then show ?case by simp
next
  case (Cons e es)
  obtain a b where e: "e = (a, b)" by force
  have "a < num_nodes g" "b < num_nodes g" "a \<noteq> b" "\<not> linked_to g a b" using Cons.prems(3) by (auto simp: e)
  from add_edge_defined [OF Cons.prems(1) this] obtain g1
    where g1: "add_edge (half_edge_new a) (half_edge_new b) g = Some g1" ..
  note s = add_edge_ok [OF Cons.prems(1) g1]
  have "\<forall>(c, d) \<in> set es. c < num_nodes g1 \<and> d < num_nodes g1 \<and> c \<noteq> d \<and> \<not> linked_to g1 c d \<and> (d, c) \<notin> set es"
    using Cons.prems(2,3) s(2,3) by (fastforce simp: e half_edge_new_def)
  with Cons.IH [OF s(1)] Cons.prems(2) g1 show ?case by (auto simp: e)
qed

subsection \<open>The generated topologies\<close>

text \<open>Which positions of the index list a topology joins, lower end or predecessor first.\<close>

definition joins :: "topology_type \<Rightarrow> nat \<Rightarrow> nat \<Rightarrow> nat \<Rightarrow> bool" where
  "joins t n i j \<longleftrightarrow> i < n \<and> j < n \<and> (case t of
     LINE \<Rightarrow> j = i + 1
   | RING \<Rightarrow> j = (i + 1) mod n
   | STAR \<Rightarrow> i = 0 \<and> j \<noteq> 0
   | FULL_MESH \<Rightarrow> i < j)"

definition topology_pairs :: "topology_type \<Rightarrow> nat \<Rightarrow> (nat \<times> nat) list" where
  "topology_pairs t n = (case t of
     LINE \<Rightarrow> map (\<lambda>i. (i, i + 1)) [0..<n - 1]
   | RING \<Rightarrow> map (\<lambda>i. (i, (i + 1) mod n)) [0..<n]
   | FULL_MESH \<Rightarrow> concat (map (\<lambda>i. map (Pair i) [i + 1..<n]) [0..<n])
   | STAR \<Rightarrow> map (Pair 0) [1..<n])"

lemma topology_edges_pairs:
  "topology_edges t idxs = map (\<lambda>(i, j). (idxs ! i, idxs ! j)) (topology_pairs t (length idxs))"
  by (cases t) (simp_all add: topology_edges_def topology_pairs_def Let_def map_concat comp_def)

lemma set_topology_pairs: "set (topology_pairs t n) = {(i, j). joins t n i j}"
  by (cases t) (auto simp: topology_pairs_def joins_def image_iff)

lemma topology_edges_joins:
  "set (topology_edges t idxs) = {(idxs ! i, idxs ! j) | i j. joins t (length idxs) i j}"
  by (auto simp: topology_edges_pairs set_topology_pairs image_iff)

lemma distinct_topology_pairs: "distinct (topology_pairs t n)"
proof (cases t)
  case FULL_MESH
  have "x = y" if "x < n" "y < n" "map (Pair x) [Suc x..<n] = map (Pair y) [Suc y..<n]" for x y
    using map_eq_imp_length_eq [OF that(3)] that(1,2) by simp
  then have "distinct (map (\<lambda>i. map (Pair i) [i + 1..<n]) [0..<n])"
    by (auto simp: distinct_map inj_on_def)
  then show ?thesis
    unfolding FULL_MESH topology_pairs_def topology_type.case
    by (intro distinct_concat) (auto simp: distinct_map intro: inj_onI)
qed (auto simp: topology_pairs_def distinct_map inj_on_def)

lemma joins_asym:
  "joins t n i j \<Longrightarrow> (t = RING \<Longrightarrow> 2 < n) \<Longrightarrow> i \<noteq> j \<and> \<not> joins t n j i"
proof (cases "t = RING")
  case True
  assume j: "joins t n i j" and n: "t = RING \<Longrightarrow> 2 < n"
  have "j = (if i + 1 = n then 0 else i + 1)" "i < n" using j True by (auto simp: joins_def)
  moreover have "i \<noteq> (j + 1) mod n"
    using calculation n True by (cases "j + 1 = n") (auto split: if_splits)
  ultimately show ?thesis using True n by (auto simp: joins_def split: if_splits)
qed (auto simp: joins_def split: topology_type.splits)

lemma topology_edges_distinct:
  assumes "distinct idxs"
  shows "distinct (topology_edges t idxs)"
  using assms distinct_topology_pairs [of t "length idxs"] set_topology_pairs [of t "length idxs"]
  by (auto simp: topology_edges_pairs distinct_map inj_on_def joins_def nth_eq_iff_index_eq)

lemma edges_of_distinct:
  assumes "distinct idxs" and "set idxs \<subseteq> {a. a < num_nodes g}" and "t = RING \<Longrightarrow> 2 < length idxs"
    and "(a, b) \<in> set (topology_edges t idxs)"
  shows "a < num_nodes g \<and> b < num_nodes g \<and> a \<noteq> b \<and> (b, a) \<notin> set (topology_edges t idxs)"
proof -
  obtain i j where e: "a = idxs ! i" "b = idxs ! j" "joins t (length idxs) i j"
    using assms(4) by (auto simp: topology_edges_joins)
  then have ij: "i < length idxs" "j < length idxs" by (simp_all add: joins_def)
  have "\<not> (b = idxs ! i' \<and> a = idxs ! j' \<and> joins t (length idxs) i' j')" for i' j'
    using e ij joins_asym [OF e(3) assms(3)] assms(1) by (auto simp: joins_def nth_eq_iff_index_eq)
  moreover have "a \<in> set idxs" "b \<in> set idxs" using e ij by simp_all
  moreover have "a \<noteq> b" using joins_asym [OF e(3) assms(3)] e ij assms(1) by (simp add: nth_eq_iff_index_eq)
  ultimately show ?thesis using assms(2) by (auto simp: topology_edges_joins)
qed

text \<open>
  C32. The standard topologies. On a graph without the links in question, distinct nodes of the
  graph (more than two for a ring) always give a topology; the result has exactly the old links
  and those the topology joins, in both directions, no node its own neighbour or another's
  neighbour twice, and a cost for every port.
\<close>

theorem generate_topology_correct:
  assumes "graph_ok g" and "2 \<le> num_nodes g" and "idxs \<noteq> []" and "distinct idxs"
    and "set idxs \<subseteq> {a. a < num_nodes g}" and "t = RING \<Longrightarrow> 2 < length idxs"
    and "\<forall>a \<in> set idxs. \<forall>b \<in> set idxs. \<not> linked_to g a b"
  shows "\<exists>g'. generate_topology t idxs g = Some g' \<and> graph_ok g' \<and> num_nodes g' = num_nodes g \<and>
    (\<forall>a b. linked_to g' a b \<longleftrightarrow> linked_to g a b \<or>
       (\<exists>i j. {a, b} = {idxs ! i, idxs ! j} \<and> joins t (length idxs) i j))"
proof -
  let ?es = "topology_edges t idxs"
  have "card (set idxs) \<le> card {..<unat (num_nodes g)}"
    using assms(5) by (intro card_inj_on_le [of unat]) (auto simp: inj_on_def word_less_nat_alt word_unat_eq_iff)
  then have "length idxs < 65536"
    using distinct_card [OF assms(4)] unat_u16_less [of "num_nodes g"] by simp
  moreover have "\<not> num_nodes g < 2" using assms(2) by simp
  ultimately have gen: "generate_topology t idxs g = add_edges ?es g"
    using assms(3,6) by (auto simp: generate_topology_def)
  have "\<forall>(a, b) \<in> set ?es. a < num_nodes g \<and> b < num_nodes g \<and> a \<noteq> b \<and> \<not> linked_to g a b \<and> (b, a) \<notin> set ?es"
  proof (intro ballI, clarify)
    fix a b assume e: "(a, b) \<in> set ?es"
    then have "a \<in> set idxs" "b \<in> set idxs" by (auto simp: topology_edges_joins joins_def)
    with edges_of_distinct [OF assms(4-6) e] assms(7)
    show "a < num_nodes g \<and> b < num_nodes g \<and> a \<noteq> b \<and> \<not> linked_to g a b \<and> (b, a) \<notin> set ?es"
      by blast
  qed
  from add_edges_defined [OF assms(1) topology_edges_distinct [OF assms(4)] this]
  obtain g' where g': "add_edges ?es g = Some g'" ..
  have "(a, b) \<in> set ?es \<or> (b, a) \<in> set ?es \<longleftrightarrow>
      (\<exists>i j. {a, b} = {idxs ! i, idxs ! j} \<and> joins t (length idxs) i j)" for a b
    by (auto simp: topology_edges_joins doubleton_eq_iff)
  with add_edges_ok [OF assms(1) g'] gen g' show ?thesis by auto
qed

lemma generate_topology_correct_witness:
  "\<exists>g. generate_topology RING [0, 2, 1] (graph_new 3) = Some g \<and> linked_to g 1 0"
proof -
  let ?l = "[0, 2, 1 :: u16]"
  have "set ?l \<subseteq> {a. a < num_nodes (graph_new 3)}" by (auto simp: graph_new_def)
  moreover have "\<not> linked_to (graph_new 3) a b" for a b
    by (auto simp: linked_to_def graph_new_def word_less_nat_alt)
  moreover have "2 \<le> num_nodes (graph_new 3)" "2 < length ?l" "distinct ?l" "?l \<noteq> []"
    by (simp_all add: graph_new_def)
  ultimately obtain g where g: "generate_topology RING ?l (graph_new 3) = Some g"
    and links: "linked_to g a b \<longleftrightarrow>
       (\<exists>i j. {a, b} = {?l ! i, ?l ! j} \<and> joins RING (length ?l) i j)" for a b
    using generate_topology_correct [OF graph_new_ok, of 3 ?l RING] by metis
  have "linked_to g 1 0" unfolding links by (rule exI [of _ 2], rule exI [of _ 0]) (auto simp: joins_def)
  with g show ?thesis by blast
qed

end
