(* ===== verification/Orchestrator.thy ===== *)
theory Orchestrator
  imports Fragment Test_Graph
begin

text \<open>
  The orchestrator of \<open>framework/orchestrator.h\<close> and \<open>framework/orchestrator.cpp\<close>: it starts the
  fragment processes, talks to all of them in rounds (send to every fragment, then poll for
  every answer), runs the testcase and shuts everything down. As for the fragment, the outside
  world is an argument: what sends, receives and polls do, and how much of the time for a round
  is left after each of them. The testcase's own code is a parameter.
\<close>

subsection \<open>State\<close>

definition PORT_LISTEN_CTRL :: u16 where "PORT_LISTEN_CTRL = 9107"
definition PORT_LISTEN_PCAP :: u16 where "PORT_LISTEN_PCAP = 9108"
definition PCAP_POLL_TIMEOUT_MS :: u64 where "PCAP_POLL_TIMEOUT_MS = 50"
definition DEFAULT_WAIT_TIME_MS :: u64 where "DEFAULT_WAIT_TIME_MS = 1000"

datatype orc_state =
    INIT | SETUP_CTRL_PLANE | SETUP_PCAP_PLANE | CREATE_MIXNET_TOPOLOGY | START_ALL_MIXNET_SERVERS
  | START_ALL_MIXNET_CLIENTS | RESOLVE_MIXNET_CONNECTIONS | BEGIN_TESTCASE | RUN_TESTCASE
  | FINISH_TESTCASE | GRACEFUL_SHUTDOWN | FORCEFUL_SHUTDOWN | RESET

record fragment_metadata =
  pid :: int
  fd_ctrl :: int
  fd_pcap :: int
  md_subscribed :: bool
  mixnet_server_netaddr :: sockaddr_in
  mixnet_client_netaddrs :: "sockaddr_in list"

definition fragment_metadata_new :: fragment_metadata where
  "fragment_metadata_new = \<lparr>pid = -1, fd_ctrl = -1, fd_pcap = -1, md_subscribed = False,
     mixnet_server_netaddr = no_address, mixnet_client_netaddrs = []\<rparr>"

text \<open>What the orchestrator asks of its testcase; the callbacks are parameters of the run.\<close>

record testcase =
  tc_graph :: test_graph
  tc_root_hello_interval_ms :: u32
  tc_reelection_interval_ms :: u32

text \<open>
  The last fields are the kernel's side: the bytes waiting on and sent to each descriptor, the
  descriptors closed and the processes killed so far, and the calls of \<open>testcase::pcap\<close>.
\<close>

record orchestrator =
  fragments :: "fragment_metadata list"
  pcap_thread_run :: bool
  pcap_thread_error :: error_code
  orc_msg_ctrl :: message
  orc_msg_pcap :: message
  listen_fd_ctrl :: int
  listen_fd_pcap :: int
  orc_state :: orc_state
  testcase :: testcase
  is_configured :: bool
  orc_autotest_mode :: bool
  timeout_connect_ms :: u64
  timeout_communication_ms :: u64
  inbox :: "int \<Rightarrow> buf"
  outbox :: "int \<Rightarrow> buf"
  orc_closed :: "int list"
  killed :: "int list"
  pcap_log :: "(u16 \<times> buf) list"

definition tc_topology :: "orchestrator \<Rightarrow> u16 list list" where
  "tc_topology s = adjacency (tc_graph (testcase s))"

definition tc_num_nodes :: "orchestrator \<Rightarrow> u16" where
  "tc_num_nodes s = num_nodes (tc_graph (testcase s))"

subsection \<open>Messages\<close>

definition orc_prepare_header :: "u16 \<Rightarrow> message_type \<Rightarrow> message \<Rightarrow> message option" where
  "orc_prepare_header i t m = do {
     m \<leftarrow> set_fragment_id i m;
     m \<leftarrow> set_code True t m;
     set_error_code NONE m
   }"

definition orc_check_header :: "message \<Rightarrow> bool \<Rightarrow> u16 \<Rightarrow> message_type \<Rightarrow> error_code option" where
  "orc_check_header m check_id i t = do {
     valid \<leftarrow> validate m;
     if \<not> valid then Some MALFORMED_MESSAGE
     else do {
       id \<leftarrow> get_fragment_id m;
       if check_id \<and> id \<noteq> i then Some BAD_FRAGMENT_ID
       else do {
         request \<leftarrow> is_request m;
         u \<leftarrow> (if request then Some t else get_type m);
         if request \<or> u \<noteq> t then Some BAD_MESSAGE_CODE
         else do {
           e \<leftarrow> get_error_code m;
           if e \<noteq> NONE then Some FRAGMENT_EXCEPTION else Some NONE
         }
       }
     }
   }"

definition timed :: "u64 \<Rightarrow> config" where
  "timed t = \<lparr>mode = RX_TX_TIMEOUT, timeout_ms = t\<rparr>"

definition send_with_timeout ::
  "tx_io \<Rightarrow> int \<Rightarrow> u64 \<Rightarrow> error_code \<Rightarrow> orchestrator \<Rightarrow> (error_code \<times> orchestrator) option" where
  "send_with_timeout io fd t e s = do {
     (r, out) \<leftarrow> send_generic (timed t) (fst io) (snd io) (orc_msg_ctrl s) e MIN_MESSAGE_LENGTH MAX_MESSAGE_LENGTH;
     Some (r, s\<lparr>outbox := (outbox s)(fd := outbox s fd @ out)\<rparr>)
   }"

text \<open>Into the ctrl buffer, or into the pcap buffer.\<close>

definition recv_with_timeout ::
  "rx_io \<Rightarrow> bool \<Rightarrow> int \<Rightarrow> u64 \<Rightarrow> error_code \<Rightarrow> orchestrator \<Rightarrow> (error_code \<times> orchestrator) option" where
  "recv_with_timeout io is_ctrl fd t e s = do {
     (r, m, pending) \<leftarrow> returned (recv_generic (timed t) (fst io) (snd io) (inbox s fd)
        (if is_ctrl then orc_msg_ctrl s else orc_msg_pcap s) e MIN_MESSAGE_LENGTH MAX_MESSAGE_LENGTH);
     let s = s\<lparr>inbox := (inbox s)(fd := pending)\<rparr>;
     Some (r, if is_ctrl then s\<lparr>orc_msg_ctrl := m\<rparr> else s\<lparr>orc_msg_pcap := m\<rparr>)
   }"

definition fragment_request_response ::
  "tx_io \<Rightarrow> rx_io \<Rightarrow> u16 \<Rightarrow> message_type \<Rightarrow> (message \<Rightarrow> message option) \<Rightarrow> orchestrator \<Rightarrow>
   (error_code \<times> orchestrator) option"
where
  "fragment_request_response tx rx i t fill s = do {
     m \<leftarrow> orc_prepare_header i t (orc_msg_ctrl s);
     m \<leftarrow> fill m;
     m \<leftarrow> finalize m;
     md \<leftarrow> get_at (fragments s) (unat i);
     die_on_error (send_with_timeout tx (fd_ctrl md) (timeout_communication_ms s) CTRL_CONNECTION_BROKEN
         (s\<lparr>orc_msg_ctrl := m\<rparr>))
       (\<lambda>s. die_on_error (recv_with_timeout rx True (fd_ctrl md) (timeout_communication_ms s)
           CTRL_CONNECTION_BROKEN s)
         (\<lambda>s. do {
            ec \<leftarrow> orc_check_header (orc_msg_ctrl s) True i t;
            Some (ec, s)
          }))
   }"

subsection \<open>Rounds\<close>

text \<open>The send to one fragment: its outcomes, and the time left for the rest of the round.\<close>

type_synonym send_turn = "tx_io \<times> int"

fun foreach_send_loop ::
  "(nat \<Rightarrow> send_turn) \<Rightarrow> (u16 \<Rightarrow> message \<Rightarrow> message option) \<Rightarrow> error_code \<Rightarrow> int \<Rightarrow> nat \<Rightarrow> int list \<Rightarrow>
   error_code \<Rightarrow> u16 \<Rightarrow> orchestrator \<Rightarrow> (error_code \<times> u16 \<times> orchestrator) option"
where
  "foreach_send_loop turn fill e timer idx [] ec num_pending s = Some (ec, num_pending, s)"
| "foreach_send_loop turn fill e timer idx (fd # fds) ec num_pending s =
     (if \<not> 0 < timer then Some (ec, num_pending, s)
      else do {
        m \<leftarrow> set_fragment_id (of_nat idx) (orc_msg_ctrl s);
        m \<leftarrow> fill (of_nat idx) m;
        m \<leftarrow> finalize m;
        (r, s) \<leftarrow> send_with_timeout (fst (turn idx)) fd (of_int timer) e (s\<lparr>orc_msg_ctrl := m\<rparr>);
        foreach_send_loop turn fill e (snd (turn idx)) (Suc idx) fds (if ec = NONE then r else ec)
          (num_pending - 1) s
      })"

definition foreach_fragment_send_generic ::
  "(nat \<Rightarrow> send_turn) \<Rightarrow> int list \<Rightarrow> message_type \<Rightarrow> (u16 \<Rightarrow> message \<Rightarrow> message option) \<Rightarrow> error_code \<Rightarrow>
   orchestrator \<Rightarrow> (error_code \<times> orchestrator) option"
where
  "foreach_fragment_send_generic turn fds t fill e s = do {
     m \<leftarrow> orc_prepare_header 0 t (orc_msg_ctrl s);
     (ec, num_pending, s) \<leftarrow> foreach_send_loop turn fill e (uint (timeout_communication_ms s)) 0 fds NONE
        (of_nat (length fds)) (s\<lparr>orc_msg_ctrl := m\<rparr>);
     Some (if ec = NONE \<and> num_pending \<noteq> 0 then SEND_REQS_TIMEOUT else ec, s)
   }"

definition foreach_fragment_send_ctrl ::
  "(nat \<Rightarrow> send_turn) \<Rightarrow> message_type \<Rightarrow> (u16 \<Rightarrow> message \<Rightarrow> message option) \<Rightarrow> orchestrator \<Rightarrow>
   (error_code \<times> orchestrator) option"
where
  "foreach_fragment_send_ctrl turn t fill s =
     foreach_fragment_send_generic turn (map fd_ctrl (fragments s)) t fill CTRL_CONNECTION_BROKEN s"

text \<open>
  One round of polling: the value \<open>poll\<close> returns, for which positions \<open>revents\<close> is exactly
  POLLIN, the receives, and the time left afterwards.
\<close>

record poll_round =
  poll_rc :: int
  poll_ready :: "nat \<Rightarrow> bool"
  poll_rx :: "nat \<Rightarrow> rx_io"
  poll_timer :: int

type_synonym handle_response = "u16 \<Rightarrow> message \<Rightarrow> orchestrator \<Rightarrow> (error_code \<times> orchestrator) option"

text \<open>The locals of the loop: the error so far, the open responses, the poll descriptors.\<close>

type_synonym recv_locals = "error_code \<times> nat \<times> int list \<times> orchestrator"

definition recv_response ::
  "rx_io \<Rightarrow> bool \<Rightarrow> message_type \<Rightarrow> handle_response \<Rightarrow> error_code \<Rightarrow> int \<Rightarrow> nat \<Rightarrow> int \<Rightarrow> orchestrator \<Rightarrow>
   (error_code \<times> orchestrator) option"
where
  "recv_response rx check_ids t handle e timer idx fd s =
     die_on_error (recv_with_timeout rx True fd (of_int timer) e s)
       (\<lambda>s. do {
          ec \<leftarrow> orc_check_header (orc_msg_ctrl s) check_ids (of_nat idx) t;
          if ec = NONE then handle (of_nat idx) (orc_msg_ctrl s) s else Some (ec, s)
        })"

fun recv_scan ::
  "poll_round \<Rightarrow> bool \<Rightarrow> message_type \<Rightarrow> handle_response \<Rightarrow> error_code \<Rightarrow> int \<Rightarrow> nat \<Rightarrow> int list \<Rightarrow>
   recv_locals \<Rightarrow> recv_locals option"
where
  "recv_scan r check_ids t handle e timer idx [] l = Some l"
| "recv_scan r check_ids t handle e timer idx (fd # fds) (ec, num_pending, pfds, s) = do {
     p \<leftarrow> get_at pfds idx;
     if poll_ready r idx \<and> 0 < p then do {
       (current_ec, s) \<leftarrow> recv_response (poll_rx r idx) check_ids t handle e timer idx fd s;
       recv_scan r check_ids t handle e timer (Suc idx) fds
         (if ec = NONE then current_ec else ec, num_pending - 1, pfds[idx := -1], s)
     }
     else recv_scan r check_ids t handle e timer (Suc idx) fds (ec, num_pending, pfds, s)
   }"

fun foreach_recv_loop ::
  "poll_round list \<Rightarrow> bool \<Rightarrow> message_type \<Rightarrow> handle_response \<Rightarrow> error_code \<Rightarrow> int \<Rightarrow> int list \<Rightarrow>
   recv_locals \<Rightarrow> recv_locals option"
where
  "foreach_recv_loop rounds check_ids t handle e timer fds (ec, num_pending, pfds, s) =
     (if num_pending \<noteq> 0 \<and> 0 < timer then
        (case rounds of
           [] \<Rightarrow> None
         | r # rounds \<Rightarrow>
             if poll_rc r = 0 then Some (ec, num_pending, pfds, s)
             else do {
               l \<leftarrow> (if 0 < poll_rc r then
                       if poll_rc r \<le> int num_pending
                       then recv_scan r check_ids t handle e timer 0 fds (ec, num_pending, pfds, s)
                       else None
                     else Some (ec, num_pending, pfds, s));
               foreach_recv_loop rounds check_ids t handle e (poll_timer r) fds l
             })
      else Some (ec, num_pending, pfds, s))"

declare foreach_recv_loop.simps [simp del]

definition foreach_fragment_recv_generic ::
  "poll_round list \<Rightarrow> bool \<Rightarrow> int list \<Rightarrow> message_type \<Rightarrow> handle_response \<Rightarrow> error_code \<Rightarrow> orchestrator \<Rightarrow>
   (error_code \<times> orchestrator) option"
where
  "foreach_fragment_recv_generic rounds check_ids fds t handle e s = do {
     (ec, num_pending, pfds, s) \<leftarrow> foreach_recv_loop rounds check_ids t handle e
        (uint (timeout_communication_ms s)) fds (NONE, length fds, fds, s);
     Some (if ec = NONE \<and> num_pending \<noteq> 0 then RECV_WAIT_TIMEOUT else ec, s)
   }"

definition foreach_fragment_recv_ctrl ::
  "poll_round list \<Rightarrow> message_type \<Rightarrow> handle_response \<Rightarrow> orchestrator \<Rightarrow> (error_code \<times> orchestrator) option"
where
  "foreach_fragment_recv_ctrl rounds t handle s =
     foreach_fragment_recv_generic rounds True (map fd_ctrl (fragments s)) t handle CTRL_CONNECTION_BROKEN s"

subsection \<open>Setting up the overlays\<close>

text \<open>
  Answers of the outside world during one state: per round the sends (by position) and the
  polls, the set-up of a server and the turns of its accept thread, what \<open>fork\<close> returns to the
  parent and what \<open>getpeername\<close> gives for a descriptor.
\<close>

record orc_env =
  o_send :: "nat \<Rightarrow> nat \<Rightarrow> send_turn"
  o_recv :: "nat \<Rightarrow> poll_round list"
  o_setup :: setup_env
  o_turns :: "accept_turn list"
  o_fork :: "nat \<Rightarrow> int"
  o_peername :: "int \<Rightarrow> sockaddr_in option"

definition orc_no_payload :: "u16 \<Rightarrow> message \<Rightarrow> message option" where
  "orc_no_payload i m = Some m"

definition acknowledged :: handle_response where
  "acknowledged i m s = Some (NONE, s)"

definition run_state_init :: "orchestrator \<Rightarrow> (error_code \<times> orchestrator) option" where
  "run_state_init s = (if orc_state s \<noteq> INIT \<or> fragments s \<noteq> [] then None else Some (NONE, s))"

text \<open>The loop that forks the fragment processes, as the parent sees it.\<close>

fun fork_loop :: "(nat \<Rightarrow> int) \<Rightarrow> nat \<Rightarrow> nat \<Rightarrow> fragment_metadata list \<Rightarrow> bool \<times> fragment_metadata list" where
  "fork_loop fork 0 idx mds = (True, mds)"
| "fork_loop fork (Suc left) idx mds =
     (if fork idx < 0 then (False, mds)
      else fork_loop fork left (Suc idx) (mds @ [fragment_metadata_new\<lparr>pid := fork idx\<rparr>]))"

text \<open>The search for a fragment process by its PID.\<close>

fun assign_ctrl ::
  "int \<Rightarrow> int \<Rightarrow> fragment_metadata list \<Rightarrow> error_code \<times> fragment_metadata list" where
  "assign_ctrl p fd [] = (FRAGMENT_EXCEPTION, [])"
| "assign_ctrl p fd (md # mds) =
     (if pid md = p
      then (if fd_ctrl md \<noteq> -1 then (FRAGMENT_EXCEPTION, md # mds) else (NONE, md\<lparr>fd_ctrl := fd\<rparr> # mds))
      else let (ec, mds) = assign_ctrl p fd mds in (ec, md # mds))"

definition handle_setup_ctrl :: "int list \<Rightarrow> handle_response" where
  "handle_setup_ctrl fds i m s = do {
     fd \<leftarrow> get_at fds (unat i);
     if orc_autotest_mode s then do {
       p \<leftarrow> get32 m off_msg;
       let (ec, mds) = assign_ctrl (sint p) fd (fragments s);
       Some (ec, s\<lparr>fragments := mds\<rparr>)
     } else do {
       md \<leftarrow> get_at (fragments s) (unat i);
       if fd_ctrl md \<noteq> -1 then Some (FRAGMENT_EXCEPTION, s)
       else Some (NONE, s\<lparr>fragments := (fragments s)[unat i := md\<lparr>fd_ctrl := fd\<rparr>]\<rparr>)
     }
   }"

definition any_address :: "u16 \<Rightarrow> sockaddr_in" where
  "any_address port = \<lparr>sin_family = AF_INET, sin_port = port, sin_addr = 0, sin_zero = 0\<rparr>"

text \<open>Ports on the wire are big endian.\<close>

definition htons :: "u16 \<Rightarrow> u16" where
  "htons p = push_bit 8 p OR drop_bit 8 p"

definition run_state_setup_ctrl_plane :: "orc_env \<Rightarrow> orchestrator \<Rightarrow> (error_code \<times> orchestrator) option" where
  "run_state_setup_ctrl_plane e s =
     (if orc_state s \<noteq> SETUP_CTRL_PLANE \<or> fragments s \<noteq> [] then None
      else do {
        let n = tc_num_nodes s;
        let (ec, fd, netaddr) = server_setup (o_setup e) (listen_fd_ctrl s)
              (any_address (htons PORT_LISTEN_CTRL)) (unat n) True;
        let s = s\<lparr>listen_fd_ctrl := fd\<rparr>;
        if ec \<noteq> NONE then Some (ec, s)
        else do {
          let (success, mds) =
            (if orc_autotest_mode s then fork_loop (o_fork e) (unat n) 0 []
             else (True, replicate (unat n) fragment_metadata_new));
          let s = s\<lparr>fragments := mds\<rparr>;
          args \<leftarrow> server_accept (o_turns e) (accept_args_new fd True (timeout_connect_ms s) n);
          if \<not> success then Some (FORK_FAILED, s)
          else if rc args \<noteq> 0 then Some (SOCKET_ACCEPT_FAILED, s)
          else if num_accepted args \<noteq> n then Some (SOCKET_ACCEPT_TIMEOUT, s)
          else if length (fragments s) \<noteq> unat n then None
          else do {
            let fds = map connection_fd (take (length (fragments s)) (states args));
            die_on_error (foreach_fragment_recv_generic (o_recv e 0) False fds SETUP_CTRL
                (handle_setup_ctrl fds) CTRL_CONNECTION_BROKEN s)
              (\<lambda>s. foreach_fragment_send_ctrl (o_send e 0) SETUP_CTRL
                (\<lambda>i m. put_bool m off_msg (orc_autotest_mode s)) s)
          }
        }
      })"

definition handle_setup_pcap :: "int list \<Rightarrow> handle_response" where
  "handle_setup_pcap fds i m s = do {
     fd \<leftarrow> get_at fds (unat i);
     k \<leftarrow> get_fragment_id m;
     if length (fragments s) \<le> unat k then Some (BAD_FRAGMENT_ID, s)
     else do {
       md \<leftarrow> get_at (fragments s) (unat k);
       if fd_pcap md \<noteq> -1 then Some (BAD_FRAGMENT_ID, s)
       else Some (NONE, s\<lparr>fragments := (fragments s)[unat k := md\<lparr>fd_pcap := fd\<rparr>]\<rparr>)
     }
   }"

text \<open>DIE_DURING_ACCEPT: the accept thread is stopped and joined; its result is not used.\<close>

definition die_while_accepting ::
  "accept_args option \<Rightarrow> (error_code \<times> orchestrator) option \<Rightarrow>
   (orchestrator \<Rightarrow> (error_code \<times> orchestrator) option) \<Rightarrow> (error_code \<times> orchestrator) option"
where
  "die_while_accepting joined m k = do {
     (ec, s) \<leftarrow> m;
     if ec \<noteq> NONE then map_option (\<lambda>_. (ec, s)) joined else k s
   }"

definition run_state_setup_pcap_plane :: "orc_env \<Rightarrow> orchestrator \<Rightarrow> (error_code \<times> orchestrator) option" where
  "run_state_setup_pcap_plane e s =
     (if orc_state s \<noteq> SETUP_PCAP_PLANE then None
      else do {
        let n = tc_num_nodes s;
        let (ec, fd, netaddr) = server_setup (o_setup e) (listen_fd_pcap s)
              (any_address (htons PORT_LISTEN_PCAP)) (unat n) True;
        let s = s\<lparr>listen_fd_pcap := fd\<rparr>;
        if ec \<noteq> NONE then Some (ec, s)
        else do {
          let joined = server_accept (o_turns e) (accept_args_new fd True (timeout_connect_ms s) n);
          die_while_accepting joined (foreach_fragment_send_ctrl (o_send e 0) SETUP_PCAP
              (\<lambda>i m. write_at m off_msg (enc_sockaddr netaddr)) s)
            (\<lambda>s. die_while_accepting joined (foreach_fragment_recv_ctrl (o_recv e 0) SETUP_PCAP acknowledged s)
            (\<lambda>s. do {
               args \<leftarrow> joined;
               if rc args \<noteq> 0 then Some (SOCKET_ACCEPT_FAILED, s)
               else if num_accepted args \<noteq> n then Some (SOCKET_ACCEPT_TIMEOUT, s)
               else do {
                 let fds = map connection_fd (take (length (fragments s)) (states args));
                 die_on_error (foreach_fragment_recv_generic (o_recv e 1) False fds SETUP_PCAP
                     (handle_setup_pcap fds) PCAP_CONNECTION_BROKEN s)
                   (\<lambda>s. foreach_fragment_send_generic (o_send e 1) (map fd_pcap (fragments s)) SETUP_PCAP
                     orc_no_payload PCAP_CONNECTION_BROKEN s)
               }
             }))
        }
      })"

subsection \<open>Setting up the virtual network\<close>

text \<open>The TOPOLOGY request for node \<open>i\<close>.\<close>

definition fill_topology :: "testcase \<Rightarrow> u16 \<Rightarrow> message \<Rightarrow> message option" where
  "fill_topology tc i m = do {
     node \<leftarrow> get_at (nodes (tc_graph tc)) (unat i);
     adj \<leftarrow> get_at (adjacency (tc_graph tc)) (unat i);
     m \<leftarrow> put16 m off_msg (g_mixaddr node);
     m \<leftarrow> put16 m (off_msg + 2) (of_nat (length adj));
     m \<leftarrow> put16 m (off_msg + 6) (g_mixing_factor node);
     m \<leftarrow> put_bool m (off_msg + 4) (g_random_routing node);
     m \<leftarrow> put32 m (off_msg + 12) (tc_reelection_interval_ms tc);
     m \<leftarrow> put32 m (off_msg + 8) (tc_root_hello_interval_ms tc);
     if length (g_link_costs node) < length adj then None
     else put_elems (le_bytes 2) (off_msg + sizeof_req_topology) (take (length adj) (g_link_costs node)) m
   }"

definition run_state_create_mixnet_topology ::
  "orc_env \<Rightarrow> orchestrator \<Rightarrow> (error_code \<times> orchestrator) option" where
  "run_state_create_mixnet_topology e s =
     (if orc_state s \<noteq> CREATE_MIXNET_TOPOLOGY then None
      else
        die_on_error (foreach_fragment_send_ctrl (o_send e 0) TOPOLOGY (fill_topology (testcase s)) s)
          (foreach_fragment_recv_ctrl (o_recv e 0) TOPOLOGY acknowledged))"

definition valid_address :: "sockaddr_in \<Rightarrow> bool" where
  "valid_address a \<longleftrightarrow> sin_family a = AF_INET \<and> sin_addr a \<noteq> 0 \<and> sin_port a \<noteq> 0"

definition handle_server_started :: "(int \<Rightarrow> sockaddr_in option) \<Rightarrow> handle_response" where
  "handle_server_started peername i m s = do {
     b \<leftarrow> read_at m off_msg sizeof_resp_start_mixnet_server;
     adj \<leftarrow> get_at (tc_topology s) (unat i);
     if adj = [] then Some (NONE, s)
     else if \<not> valid_address (dec_sockaddr b) then Some (FRAGMENT_INVALID_SADDR, s)
     else do {
       md \<leftarrow> get_at (fragments s) (unat i);
       case peername (fd_ctrl md) of
         None \<Rightarrow> Some (SOCKET_OPTIONS_FAILED, s)
       | Some base \<Rightarrow> Some (NONE, s\<lparr>fragments := (fragments s)[unat i :=
           md\<lparr>mixnet_server_netaddr := (dec_sockaddr b)\<lparr>sin_addr := sin_addr base\<rparr>\<rparr>]\<rparr>)
     }
   }"

definition run_state_start_all_mixnet_servers ::
  "orc_env \<Rightarrow> orchestrator \<Rightarrow> (error_code \<times> orchestrator) option" where
  "run_state_start_all_mixnet_servers e s =
     (if orc_state s \<noteq> START_ALL_MIXNET_SERVERS then None
      else
        die_on_error (foreach_fragment_send_ctrl (o_send e 0) START_MIXNET_SERVER orc_no_payload s)
          (foreach_fragment_recv_ctrl (o_recv e 0) START_MIXNET_SERVER (handle_server_started (o_peername e))))"

text \<open>An address array with its count, as in START_MIXNET_CLIENTS and RESOLVE_MIXNET_CONNS.\<close>

definition put_netaddrs :: "u16 \<Rightarrow> sockaddr_in list \<Rightarrow> message \<Rightarrow> message option" where
  "put_netaddrs n as m = do {
     m \<leftarrow> put16 m off_msg n;
     put_elems enc_sockaddr (off_msg + sizeof_req_start_mixnet_clients) as m
   }"

definition collect :: "('a \<Rightarrow> 'b option) \<Rightarrow> 'a list \<Rightarrow> 'b list option" where
  "collect f xs = (if \<exists>x \<in> set xs. f x = None then None else Some (map (\<lambda>x. the (f x)) xs))"

definition server_address :: "orchestrator \<Rightarrow> u16 \<Rightarrow> sockaddr_in option" where
  "server_address s j = map_option mixnet_server_netaddr (get_at (fragments s) (unat j))"

definition fill_start_clients :: "orchestrator \<Rightarrow> u16 \<Rightarrow> message \<Rightarrow> message option" where
  "fill_start_clients s i m = do {
     adj \<leftarrow> get_at (tc_topology s) (unat i);
     as \<leftarrow> collect (server_address s) adj;
     put_netaddrs (of_nat (length adj)) as m
   }"

text \<open>The loop over the client addresses of the response: those before an invalid one are kept.\<close>

definition handle_clients_started :: handle_response where
  "handle_clients_started i m s = do {
     n \<leftarrow> get16 m off_msg;
     adj \<leftarrow> get_at (tc_topology s) (unat i);
     if unat n \<noteq> length adj then Some (FRAGMENT_BAD_NEIGHBOR_COUNT, s)
     else do {
       as \<leftarrow> get_netaddrs (length adj) m;
       md \<leftarrow> get_at (fragments s) (unat i);
       let good = takeWhile valid_address as;
       Some (if length good = length as then NONE else FRAGMENT_INVALID_CADDR,
         s\<lparr>fragments := (fragments s)[unat i :=
            md\<lparr>mixnet_client_netaddrs := mixnet_client_netaddrs md @ good\<rparr>]\<rparr>)
     }
   }"

definition run_state_start_all_mixnet_clients ::
  "orc_env \<Rightarrow> orchestrator \<Rightarrow> (error_code \<times> orchestrator) option" where
  "run_state_start_all_mixnet_clients e s =
     (if orc_state s \<noteq> START_ALL_MIXNET_CLIENTS then None
      else
        die_on_error (foreach_fragment_send_ctrl (o_send e 0) START_MIXNET_CLIENTS (fill_start_clients s) s)
          (foreach_fragment_recv_ctrl (o_recv e 0) START_MIXNET_CLIENTS handle_clients_started))"

text \<open>The position of a node among the neighbours of another.\<close>

fun neighbor_position :: "u16 \<Rightarrow> u16 list \<Rightarrow> nat option" where
  "neighbor_position i [] = None"
| "neighbor_position i (j # js) = (if j = i then Some 0 else map_option Suc (neighbor_position i js))"

text \<open>The address on which neighbour \<open>k\<close> reads what node \<open>i\<close> sends: the assert is the \<open>None\<close> of the search.\<close>

definition client_address :: "orchestrator \<Rightarrow> u16 \<Rightarrow> u16 \<Rightarrow> sockaddr_in option" where
  "client_address s i k = do {
     adj \<leftarrow> get_at (tc_topology s) (unat k);
     j \<leftarrow> neighbor_position i adj;
     md \<leftarrow> get_at (fragments s) (unat k);
     get_at (mixnet_client_netaddrs md) j
   }"

definition fill_resolve :: "orchestrator \<Rightarrow> u16 \<Rightarrow> message \<Rightarrow> message option" where
  "fill_resolve s i m = do {
     adj \<leftarrow> get_at (tc_topology s) (unat i);
     as \<leftarrow> collect (client_address s i) adj;
     put_netaddrs (of_nat (length adj)) as m
   }"

definition run_state_resolve_connections ::
  "orc_env \<Rightarrow> orchestrator \<Rightarrow> (error_code \<times> orchestrator) option" where
  "run_state_resolve_connections e s =
     (if orc_state s \<noteq> RESOLVE_MIXNET_CONNECTIONS then None
      else
        die_on_error (foreach_fragment_send_ctrl (o_send e 0) RESOLVE_MIXNET_CONNS (fill_resolve s) s)
          (foreach_fragment_recv_ctrl (o_recv e 0) RESOLVE_MIXNET_CONNS acknowledged))"

definition run_state_begin_testcase :: "orc_env \<Rightarrow> orchestrator \<Rightarrow> (error_code \<times> orchestrator) option" where
  "run_state_begin_testcase e s =
     (if orc_state s \<noteq> BEGIN_TESTCASE then None
      else
        die_on_error (foreach_fragment_send_ctrl (o_send e 0) START_TESTCASE orc_no_payload s)
          (foreach_fragment_recv_ctrl (o_recv e 0) START_TESTCASE acknowledged))"

subsection \<open>Ending a run\<close>

definition run_state_finish_testcase :: "orc_env \<Rightarrow> orchestrator \<Rightarrow> (error_code \<times> orchestrator) option" where
  "run_state_finish_testcase e s =
     (if orc_state s \<noteq> FINISH_TESTCASE then None
      else
        die_on_error (foreach_fragment_send_ctrl (o_send e 0) END_TESTCASE orc_no_payload s)
          (foreach_fragment_recv_ctrl (o_recv e 0) END_TESTCASE acknowledged))"

definition handle_shutdown :: handle_response where
  "handle_shutdown i m s = do {
     md \<leftarrow> get_at (fragments s) (unat i);
     Some (NONE, s\<lparr>fragments := (fragments s)[unat i := md\<lparr>pid := -1\<rparr>]\<rparr>)
   }"

text \<open>The code of the send is dropped.\<close>

definition run_state_graceful_shutdown :: "orc_env \<Rightarrow> orchestrator \<Rightarrow> (error_code \<times> orchestrator) option" where
  "run_state_graceful_shutdown e s =
     (if orc_state s \<noteq> GRACEFUL_SHUTDOWN then None
      else do {
        (_, s) \<leftarrow> foreach_fragment_send_ctrl (o_send e 0) SHUTDOWN orc_no_payload s;
        foreach_fragment_recv_ctrl (o_recv e 0) SHUTDOWN handle_shutdown s
      })"

definition destroy_fragments :: "orchestrator \<Rightarrow> orchestrator" where
  "destroy_fragments s = s\<lparr>killed := killed s @ filter (\<lambda>p. p \<noteq> -1) (map pid (fragments s))\<rparr>"

definition run_state_forceful_shutdown :: "orchestrator \<Rightarrow> orchestrator option" where
  "run_state_forceful_shutdown s =
     (if orc_state s \<noteq> FORCEFUL_SHUTDOWN then None else Some (destroy_fragments s))"

definition destroy_sockets :: "orchestrator \<Rightarrow> orchestrator" where
  "destroy_sockets s = s\<lparr>orc_closed := orc_closed s @ filter (\<lambda>fd. fd \<noteq> -1)
     (concat (map (\<lambda>md. [fd_ctrl md, fd_pcap md]) (fragments s)) @ [listen_fd_pcap s, listen_fd_ctrl s])\<rparr>"

definition run_state_reset :: "orchestrator \<Rightarrow> orchestrator option" where
  "run_state_reset s =
     (if orc_state s \<noteq> RESET then None
      else Some ((destroy_sockets s)\<lparr>pcap_thread_error := NONE, pcap_thread_run := True,
             listen_fd_ctrl := -1, listen_fd_pcap := -1, fragments := []\<rparr>))"

subsection \<open>The pcap thread\<close>

text \<open>
  One round of the thread: whether it may go on, what \<open>poll\<close> returns, for which fragments
  \<open>revents\<close> is POLLIN, which are subscribed when it looks (the testcase changes that in the
  meantime), and the receives. The callback is recorded with the payload it is given.
\<close>

record pcap_round =
  k_run :: bool
  k_rc :: int
  k_ready :: "nat \<Rightarrow> bool"
  k_subscribed :: "nat \<Rightarrow> bool"
  k_rx :: "nat \<Rightarrow> rx_io"

fun orc_pcap_scan ::
  "pcap_round \<Rightarrow> nat \<Rightarrow> int list \<Rightarrow> error_code \<Rightarrow> orchestrator \<Rightarrow> (error_code \<times> orchestrator) option" where
  "orc_pcap_scan r i [] ec s = Some (ec, s)"
| "orc_pcap_scan r i (fd # fds) ec s =
     (if \<not> k_ready r i \<or> \<not> k_subscribed r i then orc_pcap_scan r (Suc i) fds ec s
      else do {
        (ec, s) \<leftarrow> recv_with_timeout (k_rx r i) False fd PCAP_POLL_TIMEOUT_MS PCAP_CONNECTION_BROKEN s;
        if ec = NONE then do {
          ec \<leftarrow> orc_check_header (orc_msg_pcap s) True (of_nat i) PCAP_DATA;
          if ec \<noteq> NONE then Some (ec, s)
          else do {
            total \<leftarrow> get16 (orc_msg_pcap s) (off_msg + off_total_size);
            if MAX_MIXNET_PACKET_SIZE < unat total then Some (MIXNET_BAD_PACKET_SIZE, s)
            else do {
              k \<leftarrow> get_fragment_id (orc_msg_pcap s);
              orc_pcap_scan r (Suc i) fds NONE
                (s\<lparr>pcap_log := pcap_log s @ [(k, drop off_msg (orc_msg_pcap s))]\<rparr>)
            }
          }
        }
        else if ec = RECV_ZERO_PENDING then orc_pcap_scan r (Suc i) fds NONE s
        else Some (ec, s)
      })"

fun pcap_thread_loop :: "pcap_round list \<Rightarrow> error_code \<Rightarrow> orchestrator \<Rightarrow> orchestrator option" where
  "pcap_thread_loop [] ec s = None"
| "pcap_thread_loop (r # rounds) ec s =
     (if \<not> (k_run r \<and> ec = NONE) then Some s
      else do {
        (ec, s) \<leftarrow> orc_pcap_scan r 0 (map fd_pcap (fragments s)) (if k_rc r < 0 then POLL_ERROR else NONE) s;
        pcap_thread_loop rounds ec (s\<lparr>pcap_thread_error := ec\<rparr>)
      })"

subsection \<open>The main loop\<close>

text \<open>
  The state machine: the code of the current state, the next state, and whether the run is
  over. \<open>tc_run\<close> is \<open>testcase::run\<close>; the pcap thread, whose receives touch other sockets, another
  buffer and other fields than the testcase, is run before it.
\<close>

record run_env =
  r_env :: orc_env
  r_pcap :: "pcap_round list"
  r_testcase :: "orchestrator \<Rightarrow> (error_code \<times> orchestrator) option"

definition next_if :: "error_code \<Rightarrow> orc_state \<Rightarrow> orc_state \<Rightarrow> orc_state" where
  "next_if ec good bad = (if ec = NONE then good else bad)"

definition orc_step :: "run_env \<Rightarrow> orchestrator \<Rightarrow> (error_code \<times> orc_state \<times> orchestrator) option" where
  "orc_step x s = (let e = r_env x in case orc_state s of
     INIT \<Rightarrow> do {
       (ec, s) \<leftarrow> run_state_init s;
       Some (ec, next_if ec SETUP_CTRL_PLANE FORCEFUL_SHUTDOWN, s) }
   | SETUP_CTRL_PLANE \<Rightarrow> do {
       (ec, s) \<leftarrow> run_state_setup_ctrl_plane e s;
       Some (ec, next_if ec SETUP_PCAP_PLANE FORCEFUL_SHUTDOWN, s) }
   | SETUP_PCAP_PLANE \<Rightarrow> do {
       (ec, s) \<leftarrow> run_state_setup_pcap_plane e s;
       Some (ec, next_if ec CREATE_MIXNET_TOPOLOGY GRACEFUL_SHUTDOWN, s) }
   | CREATE_MIXNET_TOPOLOGY \<Rightarrow> do {
       (ec, s) \<leftarrow> run_state_create_mixnet_topology e s;
       Some (ec, next_if ec START_ALL_MIXNET_SERVERS GRACEFUL_SHUTDOWN, s) }
   | START_ALL_MIXNET_SERVERS \<Rightarrow> do {
       (ec, s) \<leftarrow> run_state_start_all_mixnet_servers e s;
       Some (ec, next_if ec START_ALL_MIXNET_CLIENTS GRACEFUL_SHUTDOWN, s) }
   | START_ALL_MIXNET_CLIENTS \<Rightarrow> do {
       (ec, s) \<leftarrow> run_state_start_all_mixnet_clients e s;
       Some (ec, next_if ec RESOLVE_MIXNET_CONNECTIONS GRACEFUL_SHUTDOWN, s) }
   | RESOLVE_MIXNET_CONNECTIONS \<Rightarrow> do {
       (ec, s) \<leftarrow> run_state_resolve_connections e s;
       Some (ec, next_if ec BEGIN_TESTCASE GRACEFUL_SHUTDOWN, s) }
   | BEGIN_TESTCASE \<Rightarrow> do {
       (ec, s) \<leftarrow> run_state_begin_testcase e s;
       Some (ec, next_if ec RUN_TESTCASE FINISH_TESTCASE, s) }
   | RUN_TESTCASE \<Rightarrow> do {
       s \<leftarrow> pcap_thread_loop (r_pcap x) NONE s;
       (ec, s) \<leftarrow> r_testcase x s;
       Some (ec, FINISH_TESTCASE, s\<lparr>pcap_thread_run := False\<rparr>) }
   | FINISH_TESTCASE \<Rightarrow> do {
       (ec, s) \<leftarrow> run_state_finish_testcase e s;
       Some (ec, GRACEFUL_SHUTDOWN, s) }
   | GRACEFUL_SHUTDOWN \<Rightarrow> do {
       (ec, s) \<leftarrow> run_state_graceful_shutdown e s;
       Some (ec, next_if ec RESET FORCEFUL_SHUTDOWN, s) }
   | FORCEFUL_SHUTDOWN \<Rightarrow> do {
       s \<leftarrow> run_state_forceful_shutdown s;
       Some (NONE, RESET, s) }
   | RESET \<Rightarrow> do {
       s \<leftarrow> run_state_reset s;
       Some (NONE, RESET, s) })"

fun orc_loop ::
  "run_env list \<Rightarrow> bool \<Rightarrow> error_code \<Rightarrow> orchestrator \<Rightarrow> (error_code \<times> orchestrator) option" where
  "orc_loop [] show_errors result s = None"
| "orc_loop (x # xs) show_errors result s = do {
     (ec, next_state, s') \<leftarrow> orc_step x s;
     let log = (show_errors \<and> ec \<noteq> NONE);
     let result = (if log then ec else result);
     let s' = s'\<lparr>orc_state := next_state\<rparr>;
     if orc_state s = RESET then Some (result, s')
     else orc_loop xs (show_errors \<and> \<not> log) result s'
   }"

text \<open>\<open>tc\<close> is the testcase as \<open>testcase::setup\<close> leaves it.\<close>

definition orchestrator_run :: "testcase \<Rightarrow> run_env list \<Rightarrow> orchestrator \<Rightarrow> (error_code \<times> orchestrator) option"
where
  "orchestrator_run tc xs s =
     (if \<not> is_configured s then None
      else orc_loop xs True NONE (s\<lparr>testcase := tc, orc_state := INIT\<rparr>))"

subsection \<open>The interface of testcases\<close>

definition orchestrator_new :: "message \<Rightarrow> message \<Rightarrow> testcase \<Rightarrow> orchestrator" where
  "orchestrator_new mc mp tc =
     \<lparr>fragments = [], pcap_thread_run = True, pcap_thread_error = NONE,
      orc_msg_ctrl = mc, orc_msg_pcap = mp, listen_fd_ctrl = -1, listen_fd_pcap = -1,
      orc_state = INIT, testcase = tc, is_configured = False, orc_autotest_mode = False,
      timeout_connect_ms = DEFAULT_WAIT_TIME_MS, timeout_communication_ms = DEFAULT_WAIT_TIME_MS,
      inbox = (\<lambda>_. []), outbox = (\<lambda>_. []), orc_closed = [], killed = [], pcap_log = []\<rparr>"

definition configure :: "bool \<Rightarrow> orchestrator \<Rightarrow> orchestrator" where
  "configure autotest s =
     (let s = s\<lparr>orc_autotest_mode := autotest\<rparr>;
          s = (if \<not> autotest then s\<lparr>timeout_communication_ms := 5000, timeout_connect_ms := 10 * 60 * 1000\<rparr>
               else s)
      in s\<lparr>is_configured := True\<rparr>)"

definition pcap_change_subscription ::
  "tx_io \<Rightarrow> rx_io \<Rightarrow> u16 \<Rightarrow> bool \<Rightarrow> orchestrator \<Rightarrow> (error_code \<times> orchestrator) option" where
  "pcap_change_subscription tx rx i subscribe s =
     (if orc_state s \<noteq> RUN_TESTCASE then None
      else do {
        md \<leftarrow> get_at (fragments s) (unat i);
        if md_subscribed md = subscribe then Some (NONE, s)
        else fragment_request_response tx rx i PCAP_SUBSCRIPTION (\<lambda>m. put_bool m off_msg subscribe)
          (s\<lparr>fragments := (fragments s)[unat i := md\<lparr>md_subscribed := subscribe\<rparr>]\<rparr>)
      })"

definition fill_link_state :: "nat \<Rightarrow> bool \<Rightarrow> message \<Rightarrow> message option" where
  "fill_link_state nid enabled m = do {
     m \<leftarrow> put16 m off_msg (of_nat nid);
     put_bool m (off_msg + 2) enabled
   }"

definition change_link_state ::
  "tx_io \<times> rx_io \<Rightarrow> tx_io \<times> rx_io \<Rightarrow> u16 \<Rightarrow> u16 \<Rightarrow> bool \<Rightarrow> orchestrator \<Rightarrow> (error_code \<times> orchestrator) option"
where
  "change_link_state io_a io_b a b enabled s =
     (if orc_state s \<noteq> RUN_TESTCASE then None
      else do {
        adj_a \<leftarrow> get_at (tc_topology s) (unat a);
        adj_b \<leftarrow> get_at (tc_topology s) (unat b);
        case (neighbor_position b adj_a, neighbor_position a adj_b) of
          (Some i, Some j) \<Rightarrow>
            die_on_error (fragment_request_response (fst io_a) (snd io_a) a CHANGE_LINK_STATE
                (fill_link_state i enabled) s)
              (fragment_request_response (fst io_b) (snd io_b) b CHANGE_LINK_STATE (fill_link_state j enabled))
        | _ \<Rightarrow> Some (BAD_TESTCASE, s)
      })"

definition fill_send_packet :: "u16 \<Rightarrow> u16 \<Rightarrow> u16 \<Rightarrow> buf \<Rightarrow> message \<Rightarrow> message option" where
  "fill_send_packet code src dst bytes m = do {
     m \<leftarrow> put16 m off_msg code;
     m \<leftarrow> put16 m (off_msg + 2) src;
     m \<leftarrow> put16 m (off_msg + 4) dst;
     m \<leftarrow> write_at m (off_msg + sizeof_req_send_packet) bytes;
     put16 m (off_msg + 6) (of_nat (length bytes))
   }"

definition orc_send_packet ::
  "tx_io \<Rightarrow> rx_io \<Rightarrow> u16 \<Rightarrow> u16 \<Rightarrow> u16 \<Rightarrow> buf \<Rightarrow> orchestrator \<Rightarrow>
   (error_code \<times> orchestrator) option"
where
  "orc_send_packet tx rx src_idx dst_idx code bytes s =
     (if orc_state s \<noteq> RUN_TESTCASE then None
      else if MAX_MIXNET_DATA_SIZE < length bytes then Some (BAD_TESTCASE, s)
      else do {
        src \<leftarrow> get_at (nodes (tc_graph (testcase s))) (unat src_idx);
        dst \<leftarrow> get_at (nodes (tc_graph (testcase s))) (unat dst_idx);
        fragment_request_response tx rx src_idx SEND_PACKET
          (fill_send_packet code (g_mixaddr src) (g_mixaddr dst) bytes) s
      })"

end
