(* ===== verification/Fragment_Run.thy ===== *)
theory Fragment_Run
  imports Fragment
begin

text \<open>
  Properties of the fragment process: its invariant through all handlers and how a run ends.
\<close>

subsection \<open>Results of partial operations\<close>

text \<open>\<open>after P m\<close>: whatever \<open>m\<close> returns satisfies \<open>P\<close>.\<close>

named_theorems after_rules

definition after :: "('a \<Rightarrow> bool) \<Rightarrow> 'a option \<Rightarrow> bool" where
  "after P m \<longleftrightarrow> (\<forall>x. m = Some x \<longrightarrow> P x)"

lemma after_None [after_rules]: "after P None"
  by (simp add: after_def)

lemma after_Some [after_rules]: "P x \<Longrightarrow> after P (Some x)"
  by (simp add: after_def)

lemma after_bind: "after Q m \<Longrightarrow> (\<And>x. Q x \<Longrightarrow> after P (k x)) \<Longrightarrow> after P (m \<bind> k)"
  by (cases m) (auto simp: after_def)

lemma after_any [after_rules]: "(\<And>x. m = Some x \<Longrightarrow> after P (k x)) \<Longrightarrow> after P (m \<bind> k)"
  by (cases m) (auto simp: after_def)

lemma after_if [after_rules]:
  "(b \<Longrightarrow> after P m) \<Longrightarrow> (\<not> b \<Longrightarrow> after P n) \<Longrightarrow> after P (if b then m else n)"
  by simp

lemma after_map [after_rules]: "after (\<lambda>x. P (h x)) m \<Longrightarrow> after P (map_option h m)"
  by (cases m) (auto simp: after_def)

lemma after_mono: "after Q m \<Longrightarrow> (\<And>x. Q x \<Longrightarrow> P x) \<Longrightarrow> after P m"
  by (simp add: after_def)

lemma afterD: "after P m \<Longrightarrow> m = Some x \<Longrightarrow> P x"
  by (simp add: after_def)

text \<open>Buffers keep their length.\<close>

lemma kept_lengths:
  "write_at b off bs = Some b' \<Longrightarrow> length b' = length b"
  "put8 b off v8 = Some b' \<Longrightarrow> length b' = length b"
  "put16 b off v16 = Some b' \<Longrightarrow> length b' = length b"
  "put32 b off v32 = Some b' \<Longrightarrow> length b' = length b"
  by (auto simp: write_at_def put8_def put16_def put32_def split: if_splits)

lemma recv_loop_keeps:
  "recv_loop c e mn mx evs p s = Returns (ec, s', p') \<Longrightarrow> length (buffer s') = length (buffer s)"
proof (induction evs arbitrary: p s)
  case Nil
  then show ?case by (subst (asm) recv_loop.simps) (auto split: if_splits)
next
  case (Cons ev evs)
  obtain a t where ev: "ev = (a, t)" by force
  obtain oc p1 where o: "sock_recv (peek s) (expected_size s) p a = (oc, p1)" by force
  show ?case
  proof (cases "\<not> use_timeout c \<or> delta_ms s < timeout c")
    case True
    show ?thesis
    proof (cases "recv_step c e mn mx oc s")
      case None
      then show ?thesis using Cons.prems True o by (subst (asm) recv_loop.simps) (simp add: ev)
    next
      case (Some r)
      then have rest: "(case r of Inl (ec, s) \<Rightarrow> Returns (ec, s, p1)
        | Inr s \<Rightarrow> recv_loop c e mn mx evs p1 (if use_timeout c then s\<lparr>delta_ms := t\<rparr> else s)) =
          Returns (ec, s', p')"
        using Cons.prems True o by (subst (asm) recv_loop.simps) (auto simp: ev split: sum.splits)
      show ?thesis
      proof (cases r)
        case (Inl x)
        then show ?thesis using rest recv_step_room [OF Some] by (auto split: prod.splits)
      next
        case (Inr s1)
        then show ?thesis using rest recv_step_room [OF Some] Cons.IH by force
      qed
    qed
  next
    case False
    then show ?thesis using Cons.prems by (subst (asm) recv_loop.simps) auto
  qed
qed

lemma recv_generic_keeps:
  "recv_generic c flags evs p b e mn mx = Returns (ec, b', p') \<Longrightarrow> length b' = length b"
  by (auto simp: recv_generic_def recv_init_def map_call_eq_Returns dest!: recv_loop_keeps
      split: if_splits)

subsection \<open>The invariant\<close>

text \<open>
  Both message buffers have their length, the node context (once there: \<open>up\<close>) has its arrays at
  \<open>num_neighbors\<close> and its turn in range, and both queues implement a specification state.
\<close>

definition frag_ok :: "bool \<Rightarrow> fragment \<Rightarrow> bool" where
  "frag_ok up f \<longleftrightarrow> is_message (msg_ctrl f) \<and> is_message (msg_pcap f) \<and>
     (\<forall>c. node_ctx f = Some c \<longrightarrow> ctx_ok c) \<and> (up \<longrightarrow> node_ctx f \<noteq> None) \<and>
     (\<exists>s. implements (mq_pcap (queues f)) s) \<and> (\<exists>s. itc_ok (queues f) s)"

definition result_ok :: "bool \<Rightarrow> (error_code \<times> fragment) option \<Rightarrow> bool" where
  "result_ok up m \<longleftrightarrow> after (\<lambda>r. frag_ok up (snd r)) m"

named_theorems result_rules

lemma result_okD: "result_ok up m \<Longrightarrow> m = Some (ec, f) \<Longrightarrow> frag_ok up f"
  by (auto simp: result_ok_def after_def)

lemma result_simple [result_rules]:
  "frag_ok up f \<Longrightarrow> result_ok up (Some (ec, f))" "result_ok up None"
  by (simp_all add: result_ok_def after_def)

lemma result_bind [result_rules]: "(\<And>x. m = Some x \<Longrightarrow> result_ok up (k x)) \<Longrightarrow> result_ok up (m \<bind> k)"
  unfolding result_ok_def by (rule after_any)

lemma result_if [result_rules]:
  "(b \<Longrightarrow> result_ok up m) \<Longrightarrow> (\<not> b \<Longrightarrow> result_ok up n) \<Longrightarrow> result_ok up (if b then m else n)"
  by simp

lemma result_prod [result_rules]:
  "(\<And>x y. p = (x, y) \<Longrightarrow> result_ok up (k x y)) \<Longrightarrow> result_ok up (case p of (x, y) \<Rightarrow> k x y)"
  by (cases p) simp

lemma result_option [result_rules]:
  "(p = None \<Longrightarrow> result_ok up m) \<Longrightarrow> (\<And>x. p = Some x \<Longrightarrow> result_ok up (k x)) \<Longrightarrow>
   result_ok up (case p of None \<Rightarrow> m | Some x \<Rightarrow> k x)"
  by (cases p) simp_all

lemma result_bind_ok [result_rules]:
  "result_ok up m \<Longrightarrow> (\<And>f. frag_ok up f \<Longrightarrow> result_ok up (k f)) \<Longrightarrow> result_ok up (die_on_error m k)"
  by (auto simp: die_on_error_def result_ok_def after_def bind_eq_Some_conv split: if_splits)

lemma result_bind_result:
  "result_ok up m \<Longrightarrow> (\<And>ec f. frag_ok up f \<Longrightarrow> result_ok up (k ec f)) \<Longrightarrow>
   result_ok up (m \<bind> (\<lambda>(ec, f). k ec f))"
  by (auto simp: result_ok_def after_def bind_eq_Some_conv)

lemma frag_ok_frame:
  "frag_ok up (f\<lparr>fid := i\<rparr>) = frag_ok up f" "frag_ok up (f\<lparr>autotest_mode := a\<rparr>) = frag_ok up f"
  "frag_ok up (f\<lparr>fragment_state := t\<rparr>) = frag_ok up f"
  "frag_ok up (f\<lparr>local_fd_ctrl := d\<rparr>) = frag_ok up f" "frag_ok up (f\<lparr>local_fd_pcap := d\<rparr>) = frag_ok up f"
  "frag_ok up (f\<lparr>pcap_netaddr := n\<rparr>) = frag_ok up f" "frag_ok up (f\<lparr>ts_pcap := h\<rparr>) = frag_ok up f"
  "frag_ok up (f\<lparr>node_accept_args := g\<rparr>) = frag_ok up f" "frag_ok up (f\<lparr>closed_fds := k\<rparr>) = frag_ok up f"
  "frag_ok up (put_wire w out f) = frag_ok up f" "frag_ok up (put_pending w out f) = frag_ok up f"
  by (simp_all add: frag_ok_def put_wire_def put_pending_def)

lemma frag_ok_put_msg: "frag_ok up f \<Longrightarrow> is_message m \<Longrightarrow> frag_ok up (put_msg w m f)"
  by (simp add: frag_ok_def put_msg_def)

lemma frag_ok_ctx: "frag_ok up f \<Longrightarrow> ctx_ok c \<Longrightarrow> frag_ok up (f\<lparr>node_ctx := Some c\<rparr>)"
  by (simp add: frag_ok_def)

lemma frag_ok_ctxD: "frag_ok up f \<Longrightarrow> node_ctx f = Some c \<Longrightarrow> ctx_ok c"
  by (simp add: frag_ok_def)

lemma frag_ok_down: "frag_ok up f \<Longrightarrow> frag_ok False f"
  by (simp add: frag_ok_def)

lemma is_message_kept: "is_message m \<Longrightarrow> length m' = length m \<Longrightarrow> is_message m'"
  by (simp add: is_message_def)

lemma prepare_header_keeps: "prepare_header f t e m = Some m' \<Longrightarrow> length m' = length m"
  by (auto simp: prepare_header_def set_error_code_def set_code_def set_fragment_id_def
      bind_eq_Some_conv dest!: kept_lengths)

lemma finalize_keeps: "finalize m = Some m' \<Longrightarrow> length m' = length m"
  by (auto simp: finalize_def Let_def bind_eq_Some_conv dest!: kept_lengths split: if_splits)

lemma send_response_ok [result_rules]:
  assumes "frag_ok up f" and "\<And>m r m'. fill m = Some (r, m') \<Longrightarrow> length m' = length m"
  shows "result_ok up (send_response io w t ec fill f)"
proof -
  have "is_message (if w then msg_ctrl f else msg_pcap f)" using assms(1) by (simp add: frag_ok_def)
  then show ?thesis
    unfolding send_response_def
    by (intro result_rules)
       (auto simp: frag_ok_frame dest!: prepare_header_keeps finalize_keeps assms(2)
         intro!: frag_ok_put_msg assms(1) elim!: is_message_kept)
qed

lemma recv_request_ok [result_rules]:
  assumes "frag_ok up f"
    and "\<And>m f'. frag_ok up f' \<Longrightarrow> node_ctx f' = node_ctx f \<Longrightarrow> result_ok up (process m f')"
  shows "result_ok up (recv_request io w ci ct t process f)"
proof -
  have "is_message (if w then msg_ctrl f else msg_pcap f)" using assms(1) by (simp add: frag_ok_def)
  moreover have "node_ctx (put_pending w p (put_msg w m f)) = node_ctx f" for p m
    by (simp add: put_pending_def put_msg_def)
  ultimately show ?thesis
    unfolding recv_request_def Let_def
    by (intro result_rules assms(2))
       (auto simp: frag_ok_frame msg_recv_blocking_def dest!: recv_generic_keeps
         intro!: frag_ok_put_msg assms(1) elim!: is_message_kept)
qed

lemma no_payload_keeps: "no_payload m = Some (r, m') \<Longrightarrow> length m' = length m"
  by (simp add: no_payload_def)

lemma result_no_action [result_rules]: "frag_ok up f \<Longrightarrow> result_ok up (no_action m f)"
  by (simp add: no_action_def result_rules)

lemma ctx_ok_frame:
  "ctx_ok (c\<lparr>tx_listen_fd := d\<rparr>) = ctx_ok c"
  "ctx_ok (c\<lparr>tx_server_netaddr := n\<rparr>) = ctx_ok c"
  "ctx_ok (c\<lparr>neighbor_netaddrs := ns\<rparr>) = ctx_ok c" "ctx_ok (c\<lparr>is_pcap_subscribed := v\<rparr>) = ctx_ok c"
  "ctx_ok (c\<lparr>ts := h\<rparr>) = ctx_ok c"
  by (simp_all add: ctx_ok_def)

lemma ctx_ok_arrays:
  "ctx_ok c \<Longrightarrow> length l = length (rx_socket_fds c) \<Longrightarrow> ctx_ok (c\<lparr>rx_socket_fds := l\<rparr>)"
  "ctx_ok c \<Longrightarrow> length l = length (tx_socket_fds c) \<Longrightarrow> ctx_ok (c\<lparr>tx_socket_fds := l\<rparr>)"
  "ctx_ok c \<Longrightarrow> length w = length (link_states c) \<Longrightarrow> ctx_ok (c\<lparr>link_states := w\<rparr>)"
  "ctx_ok c \<Longrightarrow> length p = length (rx_pending c) \<Longrightarrow> ctx_ok (c\<lparr>rx_pending := p\<rparr>)"
  by (simp_all add: ctx_ok_def)

lemma set_at_length: "set_at xs i v = Some ys \<Longrightarrow> length ys = length xs"
  by (auto simp: set_at_def split: if_splits)

lemma setup_ctrl_ok: "frag_ok up f \<Longrightarrow> result_ok up (run_state_setup_ctrl e f)"
  unfolding run_state_setup_ctrl_def Let_def
  by (intro result_rules) (auto simp: frag_ok_frame dest: kept_lengths)

lemma setup_pcap_ok: "frag_ok up f \<Longrightarrow> result_ok up (run_state_setup_pcap e f)"
  unfolding run_state_setup_pcap_def Let_def
  by (intro result_rules) (auto simp: frag_ok_frame dest: no_payload_keeps)

lemma create_topology_ok: "frag_ok up f \<Longrightarrow> result_ok up (run_state_create_topology e f)"
  unfolding run_state_create_topology_def Let_def
  by (intro result_rules)
     (auto simp: frag_ok_frame dest: no_payload_keeps intro: frag_ok_ctx init_node_context_ok)

lemma stop_accept_ok: "frag_ok up f \<Longrightarrow> stop_accept e f = Some f' \<Longrightarrow> frag_ok up f'"
  by (auto simp: stop_accept_def bind_eq_Some_conv frag_ok_frame)

lemma result_bind_accept [result_rules]:
  "result_ok up m \<Longrightarrow> (\<And>f. frag_ok up f \<Longrightarrow> result_ok up (k f)) \<Longrightarrow> result_ok up (die_during_accept e m k)"
  by (auto simp: die_during_accept_def result_ok_def after_def bind_eq_Some_conv dest: stop_accept_ok
      split: if_splits)

lemma start_server_ok: "frag_ok up f \<Longrightarrow> result_ok up (run_state_start_mixnet_server e f)"
  unfolding run_state_start_mixnet_server_def Let_def
  by (intro result_rules)
     (auto simp: frag_ok_frame ctx_ok_frame dest: frag_ok_ctxD kept_lengths intro!: frag_ok_ctx)

lemma connect_loop_ok: "frag_ok up f \<Longrightarrow> result_ok up (connect_loop e n nid f)"
proof (induction n arbitrary: nid f)
  case 0
  then show ?case by (simp add: result_rules)
next
  case (Suc n)
  have "frag_ok up (f\<lparr>node_ctx := Some (c\<lparr>rx_socket_fds := l\<rparr>)\<rparr>)"
    if "node_ctx f = Some c" "set_at (rx_socket_fds c) nid d = Some l" for c d l
    using that by (intro frag_ok_ctx ctx_ok_arrays Suc.prems frag_ok_ctxD [OF Suc.prems]) (auto dest: set_at_length)
  then show ?case unfolding connect_loop.simps Let_def by (intro result_rules Suc.IH) auto
qed

lemma sockname_loop_keeps: "sockname_loop e n nid m = Some (r, m') \<Longrightarrow> length m' = length m"
  by (induction n arbitrary: nid m)
     (auto simp: bind_eq_Some_conv dest!: kept_lengths split: option.splits)

lemma start_client_ok: "frag_ok up f \<Longrightarrow> result_ok up (run_state_start_mixnet_client e f)"
  unfolding run_state_start_mixnet_client_def Let_def
  by (intro result_rules connect_loop_ok)
     (auto simp: frag_ok_frame ctx_ok_frame bind_eq_Some_conv
        dest: frag_ok_ctxD dest!: kept_lengths sockname_loop_keeps intro!: frag_ok_ctx)

lemma resolve_loop_length:
  "resolve_loop sts as nid fds = Some (ec, fds') \<Longrightarrow> length fds' = length fds"
proof (induction as arbitrary: nid fds)
  case (Cons a as)
  then show ?case
    using set_at_length [of fds nid] by (fastforce simp: bind_eq_Some_conv split: option.splits)
qed simp

lemma resolve_ok: "frag_ok up f \<Longrightarrow> result_ok up (run_state_resolve_mixnet_connections e f)"
  unfolding run_state_resolve_mixnet_connections_def Let_def
  by (intro result_rules)
     (auto dest: no_payload_keeps resolve_loop_length frag_ok_ctxD intro!: frag_ok_ctx ctx_ok_arrays)

lemma start_testcase_ok: "frag_ok up f \<Longrightarrow> result_ok up (run_state_start_testcase e f)"
  unfolding run_state_start_testcase_def by (intro result_rules) (auto dest: no_payload_keeps)

lemma shutdown_ok: "frag_ok up f \<Longrightarrow> result_ok False (run_state_do_shutdown e f)"
  unfolding run_state_do_shutdown_def
  by (intro result_simple(2) result_bind_ok recv_request_ok result_no_action result_bind_result
        send_response_ok result_if)
     (auto dest: no_payload_keeps frag_ok_down
       simp: destroy_node_context_def result_ok_def after_def bind_eq_Some_conv frag_ok_def)

lemma frag_ok_user:
  assumes "frag_ok up f" and "message_queue_message_alloc (mq_user (queues f)) = Some (r, mq)"
  shows "r = None \<Longrightarrow> frag_ok up (f\<lparr>queues := (queues f)\<lparr>mq_user := mq\<rparr>\<rparr>)"
    and "r = Some p \<Longrightarrow> message_queue_write p mq = Some mq' \<Longrightarrow>
      frag_ok up (f\<lparr>queues := (queues f)\<lparr>user_cells := (user_cells (queues f))(p := Some b), mq_user := mq'\<rparr>\<rparr>)"
proof -
  obtain s where s: "implements (mq_user (queues f)) s" "\<forall>p \<in> set (queued s). \<exists>b. user_cells (queues f) p = Some b"
    using assms(1) by (auto simp: frag_ok_def itc_ok_def)
  show "r = None \<Longrightarrow> frag_ok up (f\<lparr>queues := (queues f)\<lparr>mq_user := mq\<rparr>\<rparr>)"
    using assms alloc_then_write [OF s(1)] s by (cases "free_list s") (auto simp: frag_ok_def itc_ok_def)
  show "frag_ok up (f\<lparr>queues := (queues f)\<lparr>user_cells := (user_cells (queues f))(p := Some b), mq_user := mq'\<rparr>\<rparr>)"
    if "r = Some p" "message_queue_write p mq = Some mq'"
  proof (cases "free_list s")
    case Nil
    then show ?thesis using that assms(2) alloc_then_write(1) [OF s(1)] by simp
  next
    case (Cons p' ps)
    then have "implements mq' (s\<lparr>free_list := ps, queued := queued s @ [p]\<rparr>)"
      using that assms(2) alloc_then_write(2) [OF s(1) Cons] by auto
    then show ?thesis
      using assms(1) s(2)
      by (auto simp: frag_ok_def itc_ok_def intro!: exI [of _ "s\<lparr>free_list := ps, queued := queued s @ [p]\<rparr>"])
  qed
qed

lemma frag_ok_pcap:
  assumes "frag_ok up f" and "message_queue_message_alloc (mq_pcap (queues f)) = Some (r, mq)"
  shows "r = None \<Longrightarrow> frag_ok up (f\<lparr>queues := (queues f)\<lparr>mq_pcap := mq\<rparr>\<rparr>)"
    and "r = Some p \<Longrightarrow> message_queue_write p mq = Some mq' \<Longrightarrow>
      frag_ok up (f\<lparr>queues := (queues f)\<lparr>pcap_cells := cells, mq_pcap := mq'\<rparr>\<rparr>)"
proof -
  obtain s where s: "implements (mq_pcap (queues f)) s" using assms(1) by (auto simp: frag_ok_def)
  show "r = None \<Longrightarrow> frag_ok up (f\<lparr>queues := (queues f)\<lparr>mq_pcap := mq\<rparr>\<rparr>)"
    using assms alloc_then_write [OF s] by (cases "free_list s") (auto simp: frag_ok_def itc_ok_def)
  show "frag_ok up (f\<lparr>queues := (queues f)\<lparr>pcap_cells := cells, mq_pcap := mq'\<rparr>\<rparr>)"
    if "r = Some p" "message_queue_write p mq = Some mq'"
    using assms alloc_then_write [OF s] that
    by (cases "free_list s") (auto simp: frag_ok_def itc_ok_def)
qed

lemma task_send_packet_ok: "frag_ok up f \<Longrightarrow> result_ok up (task_send_packet mk un f)"
  unfolding task_send_packet_def Let_def by (intro result_rules) (auto simp: frag_ok_user)

lemma task_end_testcase_ok: "frag_ok up f \<Longrightarrow> result_ok up (task_end_testcase both f)"
proof -
  assume f: "frag_ok up f"
  have g: "frag_ok up (f\<lparr>node_ctx := Some (c\<lparr>ts := h\<rparr>), ts_pcap := h'\<rparr>)" if "node_ctx f = Some c" for c h h'
    using frag_ok_ctx [OF f, of "c\<lparr>ts := h\<rparr>"] frag_ok_ctxD [OF f that]
    by (simp add: frag_ok_frame ctx_ok_frame)
  show ?thesis
    unfolding task_end_testcase_def Let_def
    by (intro result_rules) (use frag_ok_pcap [OF g] in auto)
qed

lemma drain_loop_keeps: "drain_loop ios p b = Some (ec, b', p') \<Longrightarrow> length b' = length b"
proof (induction ios arbitrary: p b)
  case (Cons io ios)
  then obtain ec1 b1 p1 where r: "packet_recv_once io p b = Some (ec1, b1, p1)"
    and rest: "(if ec1 = NONE then drain_loop ios p1 b1 else Some (ec1, b1, p1)) = Some (ec, b', p')"
    by (auto simp: bind_eq_Some_conv)
  have "length b1 = length b" using r by (auto simp: packet_recv_once_def dest: recv_generic_keeps)
  then show ?case using rest Cons.IH by (auto split: if_splits)
qed simp

lemma task_update_link_state_ok: "frag_ok up f \<Longrightarrow> result_ok up (task_update_link_state ios nid v f)"
proof -
  assume f: "frag_ok up f"
  have c: "ctx_ok (c\<lparr>link_states := l\<rparr>)"
    "ctx_ok (c\<lparr>link_states := l, rx_pending := (rx_pending c)[i := p]\<rparr>)"
    if "node_ctx f = Some c" "set_at (link_states c) k w = Some l" for c l i p k w
    using frag_ok_ctxD [OF f that(1)] set_at_length [OF that(2)]
    by (simp_all add: ctx_ok_arrays)
  have "frag_ok up (f\<lparr>msg_ctrl := b, node_ctx := Some c'\<rparr>)" if "ctx_ok c'" "length b = length (msg_ctrl f)" for b c'
    using f that by (auto simp: frag_ok_def is_message_def)
  moreover have "frag_ok up (f\<lparr>node_ctx := Some c'\<rparr>)" if "ctx_ok c'" for c'
    using f that by (rule frag_ok_ctx)
  ultimately show ?thesis
    unfolding task_update_link_state_def Let_def
    by (intro result_rules)
       (auto dest!: drain_loop_keeps dest: c simp: bind_eq_Some_conv split: if_splits)
qed

lemma run_task_ok:
  assumes "frag_ok up f" and "run_task t ty f = Some (ec, fin, resp, f')"
  shows "frag_ok up f'"
  using assms result_okD [OF task_update_link_state_ok [OF assms(1)]]
    result_okD [OF task_send_packet_ok [OF assms(1)]] result_okD [OF task_end_testcase_ok [OF assms(1)]]
  by (cases ty)
     (auto simp: run_task_def bind_eq_Some_conv task_update_pcap_subscription_def ctx_ok_frame
       dest: frag_ok_ctxD intro!: frag_ok_ctx)

lemma run_loop_ok: "frag_ok up f \<Longrightarrow> result_ok up (run_loop turns f)"
proof (induction turns arbitrary: f)
  case Nil
  then show ?case by (simp add: result_rules)
next
  case (Cons t turns)
  show ?case
    unfolding run_loop.simps Let_def
    by (intro result_bind_result recv_request_ok Cons.prems result_no_action result_if result_simple
          result_bind result_prod send_response_ok Cons.IH)
       (auto dest: run_task_ok no_payload_keeps)
qed

lemma run_state_keeps:
  assumes "frag_ok up f" and "fragment_state f \<noteq> FS_SHUTDOWN"
  shows "result_ok up (run_state e turns f)"
  using assms
  by (cases "fragment_state f")
     (simp_all add: run_state_def setup_ctrl_ok setup_pcap_ok create_topology_ok start_server_ok
       start_client_ok resolve_ok start_testcase_ok run_state_run_testcase_def run_loop_ok result_rules)

lemma bind_ok_NONE:
  "die_on_error m k = Some (NONE, f') \<longleftrightarrow> (\<exists>f. m = Some (NONE, f) \<and> k f = Some (NONE, f'))"
  by (auto simp: die_on_error_def bind_eq_Some_conv split: if_splits)

lemma send_response_ctx: "send_response io w t ec fill f = Some (r, f') \<Longrightarrow> node_ctx f' = node_ctx f"
  by (auto simp: send_response_def bind_eq_Some_conv put_msg_def put_wire_def split: if_splits)

lemma recv_request_NONE:
  assumes "recv_request io w ci ct t process f = Some (NONE, f')"
  obtains m g where "process m g = Some (NONE, f')"
  using assms that by (auto simp: recv_request_def Let_def bind_eq_Some_conv split: if_splits)

lemma create_topology_creates:
  assumes "run_state_create_topology e f = Some (NONE, f')"
  shows "node_ctx f' \<noteq> None"
proof -
  obtain g where r: "recv_request (e_rx e 0) True True True TOPOLOGY
      (\<lambda>m f. do { p \<leftarrow> get_topology m; Some (NONE, f\<lparr>node_ctx := Some (init_node_context p)\<rparr>) }) f =
        Some (NONE, g)"
    and s: "send_response (e_tx e 0) True TOPOLOGY NONE no_payload g = Some (NONE, f')"
    using assms by (auto simp: run_state_create_topology_def bind_ok_NONE split: if_splits)
  from r obtain m h where "get_topology m \<bind>
      (\<lambda>p. Some (NONE, h\<lparr>node_ctx := Some (init_node_context p)\<rparr>)) = Some (NONE, g)"
    by (rule recv_request_NONE)
  then have "node_ctx g \<noteq> None" by (auto simp: bind_eq_Some_conv)
  then show ?thesis using send_response_ctx [OF s] by simp
qed

text \<open>Where the node context exists.\<close>

definition has_context :: "fragment_state \<Rightarrow> bool" where
  "has_context t \<longleftrightarrow> t \<in> {FS_START_MIXNET_SERVER, FS_START_MIXNET_CLIENT,
     FS_RESOLVE_MIXNET_CONNECTIONS, FS_START_TESTCASE, FS_RUN_TESTCASE, FS_SHUTDOWN}"

definition advance :: "fragment \<Rightarrow> fragment \<Rightarrow> fragment" where
  "advance f f' = f'\<lparr>fragment_state := next_state (fragment_state f)\<rparr>"

lemma run_state_step:
  assumes ok: "frag_ok (has_context (fragment_state f)) f" and r: "run_state e turns f = Some (NONE, f')"
  shows "frag_ok (has_context (fragment_state (advance f f'))) (advance f f')"
proof (cases "fragment_state f = FS_SHUTDOWN")
  case True
  then have "frag_ok False f'"
    using r ok result_okD [OF shutdown_ok] by (simp add: run_state_def)
  then show ?thesis using True by (simp add: advance_def frag_ok_frame has_context_def)
next
  case False
  note keep = result_okD [OF run_state_keeps [OF ok False] r]
  show ?thesis
  proof (cases "fragment_state f = FS_CREATE_TOPOLOGY")
    case True
    then have "node_ctx f' \<noteq> None" using r create_topology_creates by (simp add: run_state_def)
    then show ?thesis using keep True by (simp add: advance_def frag_ok_frame has_context_def frag_ok_def)
  next
    case other: False
    then show ?thesis
      using keep False by (cases "fragment_state f") (simp_all add: advance_def frag_ok_frame has_context_def)
  qed
qed

subsection \<open>A whole run\<close>

text \<open>
  The order of the handlers, and the handlers a run visits with the codes they return, one per
  element of the list of what it meets.
\<close>

definition handler_order :: "fragment_state list" where
  "handler_order = [FS_SETUP_CTRL, FS_SETUP_PCAP, FS_CREATE_TOPOLOGY, FS_START_MIXNET_SERVER,
     FS_START_MIXNET_CLIENT, FS_RESOLVE_MIXNET_CONNECTIONS, FS_START_TESTCASE, FS_RUN_TESTCASE,
     FS_SHUTDOWN]"

inductive visits ::
  "(fragment_env \<times> run_turn list) list \<Rightarrow> fragment \<Rightarrow> (fragment_state \<times> error_code) list \<Rightarrow> fragment \<Rightarrow> bool"
where
  visits_Nil: "visits [] f [] f"
| visits_Cons: "run_state e turns f = Some (ec, f') \<Longrightarrow> visits es (advance f f') tr g \<Longrightarrow>
    visits ((e, turns) # es) f ((fragment_state f, ec) # tr) g"

inductive_simps visits_simps: "visits [] f tr g" "visits (x # es) f tr g"

text \<open>Soundness along a run: it never depends on which handlers succeed later.\<close>

lemma visits_ok:
  "visits es f tr h \<Longrightarrow> list_all (\<lambda>x. snd x = NONE) tr \<Longrightarrow> frag_ok (has_context (fragment_state f)) f \<Longrightarrow>
   frag_ok (has_context (fragment_state h)) h"
  by (induction rule: visits.induct) (simp_all add: run_state_step)

lemma visits_last_ok:
  "visits es f (tr @ [(st, ec)]) g \<Longrightarrow> list_all (\<lambda>x. snd x = NONE) tr \<Longrightarrow>
   frag_ok (has_context (fragment_state f)) f \<Longrightarrow> frag_ok (has_context st \<and> st \<noteq> FS_SHUTDOWN) g"
proof (induction tr arbitrary: es f)
  case Nil
  then obtain e turns f' where r: "run_state e turns f = Some (ec, f')" and g: "g = advance f f'"
    and st: "st = fragment_state f"
    by (auto elim!: visits.cases)
  have "frag_ok (has_context st \<and> st \<noteq> FS_SHUTDOWN) f'"
  proof (cases "st = FS_SHUTDOWN")
    case True
    then show ?thesis
      using r st Nil.prems(3) result_okD [OF shutdown_ok] by (simp add: run_state_def)
  next
    case False
    then show ?thesis using result_okD [OF run_state_keeps [OF Nil.prems(3)] r] st by simp
  qed
  then show ?case by (simp add: g advance_def frag_ok_frame)
next
  case (Cons x tr)
  from Cons.prems(1) obtain e turns f' es' where r: "run_state e turns f = Some (snd x, f')"
    and v: "visits es' (advance f f') (tr @ [(st, ec)]) g"
    by (cases rule: visits.cases) auto
  from Cons.IH [OF v] show ?case using run_state_step [OF Cons.prems(3)] r Cons.prems(2) by simp
qed

text \<open>How a loop ends that has visited \<open>n\<close> handlers before.\<close>

definition loop_post ::
  "nat \<Rightarrow> (fragment_env \<times> run_turn list) list \<Rightarrow> fragment \<Rightarrow> (error_code \<times> fragment) option \<Rightarrow> bool" where
  "loop_post n es f result \<longleftrightarrow> (case result of
     Some (ec, g) \<Rightarrow> \<exists>tr. length tr < length es \<and>
       visits (take (Suc (length tr)) es) f (tr @ [(handler_order ! (n + length tr), ec)]) g \<and>
       map fst tr = take (length tr) (drop n handler_order) \<and> list_all (\<lambda>x. snd x = NONE) tr \<and>
       n + length tr < 9 \<and> (ec = NONE \<longrightarrow> n + length tr = 8 \<and> fragment_state g = FS_DONE)
   | None \<Rightarrow> \<exists>tr h. visits (take (length tr) es) f tr h \<and>
       map fst tr = take (length tr) (drop n handler_order) \<and>
       list_all (\<lambda>x. snd x = NONE) tr \<and> n + length tr < 9 \<and>
       (length tr = length es \<or> length tr < length es \<and>
        run_state (fst (es ! length tr)) (snd (es ! length tr)) h = None))"

lemma handler_order_simps:
  "length handler_order = 9" "n < 9 \<Longrightarrow> handler_order ! n \<noteq> FS_DONE"
  "n < 9 \<Longrightarrow> next_state (handler_order ! n) = (if n = 8 then FS_DONE else handler_order ! Suc n)"
proof -
  show "length handler_order = 9" by (simp add: handler_order_def)
  show "n < 9 \<Longrightarrow> handler_order ! n \<noteq> FS_DONE"
    "n < 9 \<Longrightarrow> next_state (handler_order ! n) = (if n = 8 then FS_DONE else handler_order ! Suc n)"
    by (auto simp: handler_order_def less_Suc_eq numeral_eq_Suc)
qed

lemma handler_order_context:
  "n < 9 \<Longrightarrow> (has_context (handler_order ! n) \<and> handler_order ! n \<noteq> FS_SHUTDOWN) = (3 \<le> n \<and> n < 8)"
  by (auto simp: handler_order_def has_context_def less_Suc_eq numeral_eq_Suc)

lemma loop_post_step:
  assumes "run_state (fst e) (snd e) f = Some (NONE, f')" and "fragment_state f = handler_order ! n"
    and "n < 9" and "loop_post (Suc n) es (advance f f') result"
  shows "loop_post n (e # es) f result"
proof -
  have d: "drop n handler_order = handler_order ! n # drop (Suc n) handler_order"
    using assms(3) by (simp add: Cons_nth_drop_Suc handler_order_simps)
  have v: "visits (e # xs) f ((handler_order ! n, NONE) # tr) g" if "visits xs (advance f f') tr g" for xs tr g
    using visits_Cons [OF assms(1) that] by (simp add: assms(2))
  show ?thesis
  proof (cases result)
    case None
    with assms(4) obtain tr h where "visits (take (length tr) es) (advance f f') tr h"
      "map fst tr = take (length tr) (drop (Suc n) handler_order)" "list_all (\<lambda>x. snd x = NONE) tr"
      "Suc n + length tr < 9"
      "length tr = length es \<or>
       length tr < length es \<and> run_state (fst (es ! length tr)) (snd (es ! length tr)) h = None"
      by (auto simp: loop_post_def)
    with v None d show ?thesis
      by (auto simp: loop_post_def intro!: exI [of _ "(handler_order ! n, NONE) # tr"] exI [of _ h])
  next
    case (Some r)
    obtain ec g where r: "r = (ec, g)" by force
    with Some assms(4) obtain tr
      where "length tr < length es"
        "visits (take (Suc (length tr)) es) (advance f f') (tr @ [(handler_order ! (Suc n + length tr), ec)]) g"
      "map fst tr = take (length tr) (drop (Suc n) handler_order)" "list_all (\<lambda>x. snd x = NONE) tr"
      "Suc n + length tr < 9" "ec = NONE \<longrightarrow> Suc n + length tr = 8 \<and> fragment_state g = FS_DONE"
      by (auto simp: loop_post_def)
    with v Some r d show ?thesis
      by (auto simp: loop_post_def intro!: exI [of _ "(handler_order ! n, NONE) # tr"])
  qed
qed

lemma fragment_loop_post:
  "frag_ok (has_context (fragment_state f)) f \<Longrightarrow> fragment_state f = handler_order ! n \<Longrightarrow> n < 9 \<Longrightarrow>
   loop_post n es f (fragment_loop es f)"
proof (induction es arbitrary: f n)
  case Nil
  then show ?case
    by (auto simp: loop_post_def intro!: exI [of _ "[]"] visits_Nil)
next
  case (Cons x es)
  obtain e turns where x: "x = (e, turns)" by force
  show ?case
  proof (cases "run_state e turns f")
    case None
    then show ?thesis using Cons.prems x
      by (auto simp: loop_post_def intro!: exI [of _ "[]"] visits_Nil)
  next
    case (Some r)
    obtain ec f' where r: "run_state e turns f = Some (ec, f')" using Some by (cases r) auto
    let ?g = "advance f f'"
    have s: "fragment_state ?g = (if n = 8 then FS_DONE else handler_order ! Suc n)"
      using Cons.prems by (simp add: advance_def handler_order_simps)
    show ?thesis
    proof (cases "ec = NONE \<and> n \<noteq> 8")
      case True
      then have "run_state e turns f = Some (NONE, f')" using r by simp
      from run_state_step [OF Cons.prems(1) this] have "frag_ok (has_context (fragment_state ?g)) ?g" .
      from Cons.IH [OF this, of "Suc n"] have "loop_post (Suc n) es ?g (fragment_loop es ?g)"
        using s True Cons.prems(3) by simp
      moreover have "fragment_loop (x # es) f = fragment_loop es ?g"
        using r True s Cons.prems handler_order_simps(2) [of "Suc n"] by (simp add: x advance_def)
      ultimately show ?thesis
        using loop_post_step [of x f f' n] r x True Cons.prems by simp
    next
      case False
      then have "fragment_loop (x # es) f = Some (ec, ?g)"
        using r s by (auto simp: x advance_def)
      moreover have "visits [x] f [(handler_order ! n, ec)] ?g"
        using visits_Cons [OF r visits_Nil] Cons.prems by (simp add: x)
      ultimately show ?thesis
        using False Cons.prems s by (auto simp: loop_post_def intro!: exI [of _ "[]"])
    qed
  qed
qed

text \<open>
  C30. How a fragment's run ends. Whatever the network, the kernel and the orchestrator do: \<open>run\<close>
  calls the handlers in the order of the states, each at most once and each with what the list
  \<open>es\<close> holds for it, and goes on only while they report no error. Before every handler the
  fragment is in a sound state: message buffers, queues and, from START_MIXNET_SERVER on, a node
  context with all its arrays. If the run returns without an error, all nine handlers succeeded
  and the state is FS_DONE; after an error it returns that handler's code, or spins when in
  autotest mode. Either way the state it leaves is sound too, that of a failed handler included
  (the shutdown handler gives up the context). It does not come back only where a handler does
  not, or where the list ends.
\<close>

theorem fragment_run_ends:
  assumes "frag_ok False f" and "fragment_state f = FS_SETUP_CTRL"
  shows "case run_fragment es f of
    Some out \<Rightarrow> \<exists>tr ec g. length tr < length es \<and>
      visits (take (Suc (length tr)) es) f (tr @ [(handler_order ! length tr, ec)]) g \<and>
      map fst tr = take (length tr) handler_order \<and> list_all (\<lambda>x. snd x = NONE) tr \<and>
      length tr < 9 \<and> (ec = NONE \<longrightarrow> length tr = 8 \<and> fragment_state g = FS_DONE) \<and>
      (\<forall>k h. visits (take k es) f (take k tr) h \<longrightarrow> frag_ok (has_context (fragment_state h)) h) \<and>
      frag_ok (3 \<le> length tr \<and> length tr < 8) g \<and>
      out = (if ec \<noteq> NONE \<and> autotest_mode g then Spins g else Returned ec g)
  | None \<Rightarrow> \<exists>tr h. visits (take (length tr) es) f tr h \<and>
      map fst tr = take (length tr) handler_order \<and>
      list_all (\<lambda>x. snd x = NONE) tr \<and> length tr < 9 \<and>
      (\<forall>k h. visits (take k es) f (take k tr) h \<longrightarrow> frag_ok (has_context (fragment_state h)) h) \<and>
      (length tr = length es \<or> length tr < length es \<and>
       run_state (fst (es ! length tr)) (snd (es ! length tr)) h = None)"
proof -
  have start: "has_context (fragment_state f) = False" "fragment_state f = handler_order ! 0"
    using assms by (simp_all add: has_context_def handler_order_def)
  then have post: "loop_post 0 es f (fragment_loop es f)"
    using assms fragment_loop_post [of f 0 es] by simp
  have run: "run_fragment es f = map_option
      (\<lambda>(ec, g). if ec \<noteq> NONE \<and> autotest_mode g then Spins g else Returned ec g) (fragment_loop es f)"
    using assms by (cases "fragment_loop es f") (auto simp: run_fragment_def)
  have ok: "\<forall>k h. visits (take k es) f (take k tr) h \<longrightarrow> frag_ok (has_context (fragment_state h)) h"
    if "list_all (\<lambda>x. snd x = NONE) tr" for tr
  proof (intro allI impI)
    fix k h
    assume v: "visits (take k es) f (take k tr) h"
    have "list_all (\<lambda>x. snd x = NONE) (take k tr)" using that by (auto simp: list_all_iff dest: in_set_takeD)
    then show "frag_ok (has_context (fragment_state h)) h"
      using visits_ok [OF v] start(1) assms(1) by simp
  qed
  have last: "frag_ok (3 \<le> length tr \<and> length tr < 8) g"
    if v: "visits xs f (tr @ [(handler_order ! length tr, ec)]) g" "list_all (\<lambda>x. snd x = NONE) tr"
      "length tr < 9" for xs tr ec g
    using visits_last_ok [OF v(1,2)] start(1) assms(1) handler_order_context [OF v(3)] by simp
  show ?thesis
  proof (cases "fragment_loop es f")
    case None
    with post obtain tr h where "visits (take (length tr) es) f tr h"
      "map fst tr = take (length tr) handler_order" "list_all (\<lambda>x. snd x = NONE) tr" "length tr < 9"
      "length tr = length es \<or> length tr < length es \<and>
         run_state (fst (es ! length tr)) (snd (es ! length tr)) h = None"
      by (auto simp: loop_post_def)
    with ok [of tr] show ?thesis using run None by simp (intro exI [of _ tr] conjI exI [of _ h], auto)
  next
    case (Some r)
    obtain ec g where r: "r = (ec, g)" by force
    with post Some obtain tr where t: "length tr < length es"
      "visits (take (Suc (length tr)) es) f (tr @ [(handler_order ! length tr, ec)]) g"
      "map fst tr = take (length tr) handler_order" "list_all (\<lambda>x. snd x = NONE) tr" "length tr < 9"
      "ec = NONE \<longrightarrow> length tr = 8 \<and> fragment_state g = FS_DONE"
      by (auto simp: loop_post_def)
    show ?thesis
      unfolding run Some r option.map prod.case option.case
      by (intro exI [of _ tr] exI [of _ ec] exI [of _ g] conjI t ok [OF t(4)] last [OF t(2,4,5)] refl)
  qed
qed

definition example_fragment :: fragment where
  "example_fragment = fragment_new no_address (replicate 65535 0) (replicate 65535 0) example_queue example_queue"

lemma example_fragment_ok: "frag_ok False example_fragment"
  using example_queue_idle
  by (auto simp: frag_ok_def example_fragment_def fragment_new_def is_message_def itc_ok_def idle_spec_def)

definition no_socket_env :: fragment_env where
  "no_socket_env = \<lparr>e_rx = (\<lambda>_. (None, [])), e_tx = (\<lambda>_. (None, [])),
     e_socket = (\<lambda>_. \<lparr>new_fd = -1, get_flags_ok = True, set_flags_ok = True, set_reuse_ok = True\<rparr>),
     e_connect = (\<lambda>_ _. \<lparr>nonblock_flag = None, set_nonblock_ok = True, connect_error = None,
       polls = [], restore_ok = True\<rparr>),
     e_sockname = (\<lambda>_. None),
     e_setup = \<lparr>new_fd = -1, get_flags_ok = True, set_flags_ok = True, set_reuse_ok = True,
       bind_ok = True, bound_name = None, listen_ok = True\<rparr>,
     e_turns = [], e_pid = 1\<rparr>"

lemma fragment_run_ends_witness:
  "\<exists>tr g. visits (take (Suc (length tr)) [(no_socket_env, [])]) example_fragment
       (tr @ [(handler_order ! length tr, SOCKET_CREATE_FAILED)]) g
     \<and> length tr < 1 \<and> frag_ok False g \<and> fragment_state g = FS_SETUP_PCAP"
proof -
  have s: "fragment_state example_fragment = FS_SETUP_CTRL" "autotest_mode example_fragment = False"
    by (simp_all add: example_fragment_def fragment_new_def)
  then have "run_fragment [(no_socket_env, [])] example_fragment =
      Some (Returned SOCKET_CREATE_FAILED (example_fragment\<lparr>local_fd_ctrl := -1, fragment_state := FS_SETUP_PCAP\<rparr>))"
    by (simp add: run_fragment_def run_state_def run_state_setup_ctrl_def open_socket_def no_socket_env_def)
  with fragment_run_ends [OF example_fragment_ok s(1), of "[(no_socket_env, [])]"]
  show ?thesis by (fastforce split: if_splits)
qed

subsection \<open>Link changes\<close>

definition whole_packet :: "buf \<Rightarrow> bool" where
  "whole_packet p \<longleftrightarrow> frame_len p = length p \<and> MIN_MIXNET_PACKET_SIZE \<le> length p \<and>
     length p \<le> MAX_MIXNET_PACKET_SIZE"

lemma recv_once_any:
  assumes "MAX_MIXNET_PACKET_SIZE \<le> length b"
  shows "\<exists>b'. packet_recv_once (quiet_io i) P b = Some
      (if complete_packet P then (NONE, b', drop (frame_len P) P)
       else (if bad_stream P then MALFORMED_MESSAGE else RECV_ZERO_PENDING, b', P)) \<and>
    length b' = length b"
proof -
  have "try_once packet_once" by (simp add: packet_once_def try_once_def)
  from recv_once_quiet [OF this, of MIN_MIXNET_PACKET_SIZE MAX_MIXNET_PACKET_SIZE b P MIXNET_CONNECTION_BROKEN]
  show ?thesis
    unfolding packet_recv_once_def quiet_io_def complete_packet_def bad_stream_def fst_conv snd_conv returned_iff
    using assms by auto
qed

lemma whole_packet_head:
  assumes "whole_packet p"
  shows "complete_packet (p @ rest)" and "frame_len (p @ rest) = length p"
proof -
  have l: "2 \<le> length p" using assms by (simp add: whole_packet_def)
  then show f: "frame_len (p @ rest) = length p"
    using assms frame_len_prefix [of p rest] by (simp add: whole_packet_def)
  show "complete_packet (p @ rest)"
    using assms l f by (simp add: complete_packet_def frame_complete_def whole_packet_def)
qed

lemma drain_quiet:
  "MAX_MIXNET_PACKET_SIZE \<le> length b \<Longrightarrow> list_all whole_packet ps \<Longrightarrow> \<not> complete_packet rest \<Longrightarrow>
   \<exists>b'. drain_loop (replicate (Suc (length ps)) (quiet_io i)) (concat ps @ rest) b =
     Some (if bad_stream rest then MALFORMED_MESSAGE else RECV_ZERO_PENDING, b', rest)"
proof (induction ps arbitrary: b)
  case Nil
  then show ?case using recv_once_any [of b i rest] by auto
next
  case (Cons p ps)
  let ?S = "p @ concat ps @ rest"
  have w: "whole_packet p" using Cons.prems(2) by simp
  obtain b1 where r: "packet_recv_once (quiet_io i) ?S b = Some (NONE, b1, drop (length p) ?S)"
    and l: "length b1 = length b"
    using recv_once_any [OF Cons.prems(1), of i ?S] whole_packet_head [OF w] by auto
  then have "packet_recv_once (quiet_io i) ?S b = Some (NONE, b1, concat ps @ rest)" by simp
  then show ?case using Cons.IH [of b1] Cons.prems l by simp
qed

text \<open>
  A link change. Taking a link down clears its state and drains its socket: every packet
  that has arrived completely is lost, an incomplete one at the end stays, and a malformed head
  is the code of the task. Taking it up sets its state and touches no socket. No other link, and
  nothing else of the node context, changes.
\<close>

theorem link_change_effect:
  assumes "frag_ok True f" and "node_ctx f = Some c" and "nid < num_neighbors (node_config c)"
    and "rx_pending c ! unat nid = concat ps @ rest" and "list_all whole_packet ps"
    and "\<not> complete_packet rest"
  shows "(\<exists>b. task_update_link_state (replicate (Suc (length ps)) (quiet_io i)) nid False f = Some
      (if bad_stream rest then MALFORMED_MESSAGE else NONE, f\<lparr>msg_ctrl := b, node_ctx := Some (c\<lparr>
         link_states := (link_states c)[unat nid := False],
         rx_pending := (rx_pending c)[unat nid := rest]\<rparr>)\<rparr>)) \<and>
    task_update_link_state ios nid True f = Some (NONE, f\<lparr>node_ctx := Some (c\<lparr>
         link_states := (link_states c)[unat nid := True]\<rparr>)\<rparr>)" (is "?down \<and> ?up")
proof
  have l: "unat nid < length (link_states c)" "unat nid < length (rx_pending c)"
    using assms(3) frag_ok_ctxD [OF assms(1,2)] by (simp_all add: ctx_ok_def word_less_nat_alt)
  have "MAX_MIXNET_PACKET_SIZE \<le> length (msg_ctrl f)" using assms(1) by (simp add: frag_ok_def is_message_def)
  from drain_quiet [OF this assms(5,6), of i] obtain b where
    "drain_loop (replicate (Suc (length ps)) (quiet_io i)) (concat ps @ rest) (msg_ctrl f) =
     Some (if bad_stream rest then MALFORMED_MESSAGE else RECV_ZERO_PENDING, b, rest)" by blast
  with assms l show ?down
    by (auto simp: task_update_link_state_def access_simps simp del: drain_loop.simps intro!: exI [of _ b])
  show ?up
    using assms l by (simp add: task_update_link_state_def access_simps)
qed

lemma link_change_effect_witness:
  "\<exists>b. task_update_link_state (replicate 2 (quiet_io 0)) 0 False
       (example_fragment\<lparr>node_ctx := Some (example_ctx\<lparr>rx_pending := [stp_packet @ [20, 0], []]\<rparr>)\<rparr>) = Some
     (NONE, example_fragment\<lparr>msg_ctrl := b, node_ctx := Some (example_ctx\<lparr>link_states := [False, True],
        rx_pending := [[20, 0], []]\<rparr>)\<rparr>)"
proof -
  have "whole_packet stp_packet" "\<not> complete_packet [20, 0]" "\<not> bad_stream [20, 0]"
    by code_simp+
  moreover have "frag_ok True (example_fragment\<lparr>node_ctx := Some (example_ctx\<lparr>rx_pending := [stp_packet @ [20, 0], []]\<rparr>)\<rparr>)"
    using example_fragment_ok example_ctx_ok by (auto simp: frag_ok_def ctx_ok_def)
  moreover have "(0 :: u16) < num_neighbors (node_config example_ctx)"
    by (simp add: word_less_nat_alt)
  ultimately show ?thesis
    using link_change_effect [of "example_fragment\<lparr>node_ctx := Some (example_ctx\<lparr>rx_pending := [stp_packet @ [20, 0], []]\<rparr>)\<rparr>"
        "example_ctx\<lparr>rx_pending := [stp_packet @ [20, 0], []]\<rparr>" 0 "[stp_packet]" "[20, 0]" 0]
    by (simp add: numeral_2_eq_2)
qed

end
