(* ===== verification/Orchestrator_Run.thy ===== *)
theory Orchestrator_Run
  imports Orchestrator Fragment_Run
begin

text \<open>
  Properties of the orchestrator's run: what a round of answers that reports no error has done,
  what every handler keeps, how a run ends and what it leaves behind.
\<close>

subsection \<open>Rounds of responses\<close>

lemma die_on_error_cases:
  assumes "die_on_error m k = Some (ec, f')"
  obtains "m = Some (ec, f')" "ec \<noteq> NONE" | f where "m = Some (NONE, f)" "k f = Some (ec, f')"
  using assms by (auto simp: die_on_error_def bind_eq_Some_conv split: if_splits)

text \<open>
  The invariant of a round: a set of positions has been dealt with, their poll descriptors are
  -1 and the others open; without an error so far, \<open>J\<close> holds of the set and the state.
\<close>

definition recv_inv :: "(nat set \<Rightarrow> orchestrator \<Rightarrow> bool) \<Rightarrow> int list \<Rightarrow> recv_locals \<Rightarrow> bool" where
  "recv_inv J fds l = (case l of (ec, num_pending, pfds, s) \<Rightarrow>
     \<exists>P \<subseteq> {..<length fds}. pfds = map (\<lambda>i. if i \<in> P then -1 else fds ! i) [0..<length fds] \<and>
       num_pending = length fds - card P \<and> (ec = NONE \<longrightarrow> J P s))"

definition round_step :: "(nat set \<Rightarrow> orchestrator \<Rightarrow> bool) \<Rightarrow> nat \<Rightarrow> handle_response \<Rightarrow> bool" where
  "round_step J n handle \<longleftrightarrow>
     (\<forall>P s i m. J P s \<longrightarrow> J P (s\<lparr>inbox := i\<rparr>) \<and> J P (s\<lparr>orc_msg_ctrl := m\<rparr>)) \<and>
     (\<forall>P i s s'. J P s \<longrightarrow> i < n \<longrightarrow> i \<notin> P \<longrightarrow>
        handle (of_nat i) (orc_msg_ctrl s) s = Some (NONE, s') \<longrightarrow> J (insert i P) s')"

lemma recv_with_timeout_frame:
  assumes "recv_with_timeout io True fd t e s = Some (r, s')"
  shows "\<exists>i m. s' = s\<lparr>inbox := i, orc_msg_ctrl := m\<rparr>"
  using assms by (auto simp: recv_with_timeout_def Let_def bind_eq_Some_conv)

lemma recv_response_NONE:
  assumes "recv_response rx ck t handle e timer idx fd s = Some (NONE, s')"
  obtains i m where "handle (of_nat idx) m (s\<lparr>inbox := i, orc_msg_ctrl := m\<rparr>) = Some (NONE, s')"
proof -
  from assms obtain s1 where r: "recv_with_timeout rx True fd (of_int timer) e s = Some (NONE, s1)"
    and h: "handle (of_nat idx) (orc_msg_ctrl s1) s1 = Some (NONE, s')"
    unfolding recv_response_def
    by (elim die_on_error_cases) (auto simp: bind_eq_Some_conv split: if_splits)
  from recv_with_timeout_frame [OF r] obtain i m where "s1 = s\<lparr>inbox := i, orc_msg_ctrl := m\<rparr>" by blast
  with h that [of m i] show ?thesis by simp
qed

lemma recv_scan_inv:
  assumes step: "round_step J (length fds) handle" and e: "e \<noteq> NONE"
  shows "recv_inv J fds l \<Longrightarrow> idx + length rest = length fds \<Longrightarrow> rest = drop idx fds \<Longrightarrow>
    recv_scan r ck t handle e timer idx rest l = Some l' \<Longrightarrow> recv_inv J fds l'"
proof (induction rest arbitrary: idx l)
  case Nil
  then show ?case by simp
next
  case (Cons fd rest)
  obtain ec k pfds s where l: "l = (ec, k, pfds, s)" by (cases l) auto
  obtain P where P: "P \<subseteq> {..<length fds}"
    and pfds: "pfds = map (\<lambda>i. if i \<in> P then -1 else fds ! i) [0..<length fds]"
    and k: "k = length fds - card P" and J: "ec = NONE \<longrightarrow> J P s"
    using Cons.prems(1) by (auto simp: recv_inv_def l)
  have lt: "idx < length fds" using Cons.prems(2) by simp
  have c: "fd # rest = fds ! idx # drop (Suc idx) fds"
    using Cons.prems(3) Cons_nth_drop_Suc [OF lt] by metis
  have idx: "idx < length fds" "fd = fds ! idx" "rest = drop (Suc idx) fds"
    using lt c by simp_all
  then have at: "get_at pfds idx = Some (if idx \<in> P then -1 else fds ! idx)"
    by (simp add: pfds access_simps)
  show ?case
  proof (cases "poll_ready r idx \<and> idx \<notin> P \<and> 0 < fds ! idx")
    case True
    then obtain cur s1 where resp: "recv_response (poll_rx r idx) ck t handle e timer idx fd s = Some (cur, s1)"
      and rest: "recv_scan r ck t handle e timer (Suc idx) rest
        (if ec = NONE then cur else ec, k - 1, pfds[idx := -1], s1) = Some l'"
      using Cons.prems(4) at by (auto simp: l bind_eq_Some_conv)
    have "J (insert idx P) s1" if "cur = NONE" "ec = NONE"
    proof -
      obtain i m where "handle (of_nat idx) m (s\<lparr>inbox := i, orc_msg_ctrl := m\<rparr>) = Some (NONE, s1)"
        using resp \<open>cur = NONE\<close> recv_response_NONE by metis
      moreover let ?s = "s\<lparr>inbox := i, orc_msg_ctrl := m\<rparr>"
      have "J P ?s" using step J that(2) by (simp add: round_step_def)
      moreover have "orc_msg_ctrl ?s = m" by simp
      ultimately show ?thesis using step True idx(1) unfolding round_step_def by metis
    qed
    moreover have "pfds[idx := -1] = map (\<lambda>i. if i \<in> insert idx P then -1 else fds ! i) [0..<length fds]"
      by (rule nth_equalityI) (auto simp: pfds nth_update_if)
    moreover have "k - 1 = length fds - card (insert idx P)"
      using P True finite_subset [OF P] by (simp add: k)
    ultimately have "recv_inv J fds (if ec = NONE then cur else ec, k - 1, pfds[idx := -1], s1)"
      using P idx(1) unfolding recv_inv_def by (auto intro!: exI [of _ "insert idx P"])
    then show ?thesis using Cons.IH [OF _ _ idx(3) rest] idx by simp
  next
    case False
    then have "recv_scan r ck t handle e timer (Suc idx) rest l = Some l'"
      using Cons.prems(4) at by (auto simp: l split: if_splits)
    then show ?thesis using Cons.IH [OF Cons.prems(1) _ idx(3)] idx by simp
  qed
qed

lemma recv_loop_inv:
  assumes step: "round_step J (length fds) handle" and e: "e \<noteq> NONE"
  shows "recv_inv J fds l \<Longrightarrow>
    foreach_recv_loop rounds ck t handle e timer fds l = Some l' \<Longrightarrow> recv_inv J fds l'"
proof (induction rounds arbitrary: timer l)
  case Nil
  then show ?case
    by (cases l) (auto simp: foreach_recv_loop.simps split: if_splits)
next
  case (Cons r rounds)
  obtain ec k pfds s where l: "l = (ec, k, pfds, s)" by (cases l) auto
  show ?case
  proof (cases "k \<noteq> 0 \<and> 0 < timer \<and> poll_rc r \<noteq> 0")
    case True
    then obtain l1 where scan: "(if 0 < poll_rc r then
          if poll_rc r \<le> int k then recv_scan r ck t handle e timer 0 fds l else None
        else Some l) = Some l1"
      and rest: "foreach_recv_loop rounds ck t handle e (poll_timer r) fds l1 = Some l'"
      using Cons.prems(2) unfolding l
      by (subst (asm) foreach_recv_loop.simps) (auto simp: bind_eq_Some_conv)
    have "recv_inv J fds l1"
      using scan Cons.prems(1) recv_scan_inv [OF step e Cons.prems(1), of 0 fds r ck t timer l1]
      by (auto split: if_splits)
    then show ?thesis using Cons.IH rest by blast
  next
    case False
    then show ?thesis
      using Cons.prems unfolding l
      by (subst (asm) foreach_recv_loop.simps) (auto split: if_splits)
  qed
qed

text \<open>A round of responses without an error has dealt with every position.\<close>

lemma foreach_recv_all:
  assumes r: "foreach_fragment_recv_generic rounds ck fds t handle e s = Some (NONE, s')"
    and step: "round_step J (length fds) handle" and e: "e \<noteq> NONE" and J: "J {} s"
  shows "J {..<length fds} s'"
proof -
  obtain ec k pfds where loop: "foreach_recv_loop rounds ck t handle e
      (uint (timeout_communication_ms s)) fds (NONE, length fds, fds, s) = Some (ec, k, pfds, s')"
    and fin: "ec = NONE" "k = 0"
    using r by (auto simp: foreach_fragment_recv_generic_def bind_eq_Some_conv split: if_splits)
  have "recv_inv J fds (NONE, length fds, fds, s)"
    using J by (auto simp: recv_inv_def map_nth)
  from recv_loop_inv [OF step e this loop] obtain P
    where P: "P \<subseteq> {..<length fds}" "length fds - card P = 0" "J P s'"
    by (auto simp: recv_inv_def fin)
  moreover have "card P \<le> length fds" using card_mono [OF _ P(1)] by simp
  ultimately have "P = {..<length fds}" by (intro card_subset_eq) auto
  then show ?thesis using P(3) by simp
qed

subsection \<open>What the handlers keep\<close>

text \<open>A predicate that does not look at messages and sockets, and operations that keep it.\<close>

definition keeps :: "(orchestrator \<Rightarrow> bool) \<Rightarrow> (error_code \<times> orchestrator) option \<Rightarrow> bool" where
  "keeps I m \<longleftrightarrow> (\<forall>ec s. m = Some (ec, s) \<longrightarrow> I s)"

definition blind :: "(orchestrator \<Rightarrow> bool) \<Rightarrow> bool" where
  "blind I \<longleftrightarrow> (\<forall>s i p m. I (s\<lparr>inbox := i\<rparr>) = I s \<and> I (s\<lparr>outbox := p\<rparr>) = I s \<and>
     I (s\<lparr>orc_msg_ctrl := m\<rparr>) = I s \<and> I (s\<lparr>orc_msg_pcap := m\<rparr>) = I s)"

named_theorems keeps_rules

lemma keepsD: "keeps I m \<Longrightarrow> m = Some (ec, s) \<Longrightarrow> I s"
  by (simp add: keeps_def)

lemma keeps_basic [keeps_rules]:
  "keeps I None" "I s \<Longrightarrow> keeps I (Some (ec, s))"
  by (simp_all add: keeps_def)

lemma keeps_bind_result: "keeps I m \<Longrightarrow> (\<And>ec s. I s \<Longrightarrow> keeps I (k ec s)) \<Longrightarrow> keeps I (m \<bind> (\<lambda>(ec, s). k ec s))"
  by (auto simp: keeps_def bind_eq_Some_conv)

lemma keeps_bind [keeps_rules]: "(\<And>x. m = Some x \<Longrightarrow> keeps I (k x)) \<Longrightarrow> keeps I (m \<bind> k)"
  by (auto simp: keeps_def bind_eq_Some_conv)

lemma keeps_if [keeps_rules]:
  "(b \<Longrightarrow> keeps I m) \<Longrightarrow> (\<not> b \<Longrightarrow> keeps I n) \<Longrightarrow> keeps I (if b then m else n)"
  by simp

lemma keeps_prod [keeps_rules]:
  "(\<And>x y. p = (x, y) \<Longrightarrow> keeps I (k x y)) \<Longrightarrow> keeps I (case p of (x, y) \<Rightarrow> k x y)"
  by (cases p) simp

lemma keeps_option [keeps_rules]:
  "(p = None \<Longrightarrow> keeps I m) \<Longrightarrow> (\<And>x. p = Some x \<Longrightarrow> keeps I (k x)) \<Longrightarrow>
   keeps I (case p of None \<Rightarrow> m | Some x \<Rightarrow> k x)"
  by (cases p) simp_all

lemma keeps_die [keeps_rules]:
  "keeps I m \<Longrightarrow> (\<And>s. I s \<Longrightarrow> keeps I (k s)) \<Longrightarrow> keeps I (die_on_error m k)"
  by (auto simp: keeps_def elim!: die_on_error_cases)

lemma keeps_die_accepting [keeps_rules]:
  "keeps I m \<Longrightarrow> (\<And>s. I s \<Longrightarrow> keeps I (k s)) \<Longrightarrow> keeps I (die_while_accepting joined m k)"
  by (auto simp: keeps_def die_while_accepting_def bind_eq_Some_conv split: if_splits)

lemma blindD:
  assumes "blind I"
  shows "I (s\<lparr>inbox := i\<rparr>) = I s" "I (s\<lparr>outbox := p\<rparr>) = I s"
    "I (s\<lparr>orc_msg_ctrl := m\<rparr>) = I s" "I (s\<lparr>orc_msg_pcap := m\<rparr>) = I s"
  using assms by (simp_all add: blind_def)

lemma keeps_send [keeps_rules]: "blind I \<Longrightarrow> I s \<Longrightarrow> keeps I (send_with_timeout io fd t e s)"
  by (auto simp: send_with_timeout_def blind_def keeps_def bind_eq_Some_conv)

lemma keeps_recv [keeps_rules]: "blind I \<Longrightarrow> I s \<Longrightarrow> keeps I (recv_with_timeout io w fd t e s)"
  by (auto simp: recv_with_timeout_def Let_def blind_def keeps_def bind_eq_Some_conv)

lemma keeps_send_loop:
  "blind I \<Longrightarrow> I s \<Longrightarrow> foreach_send_loop turn fill e timer idx fds ec k s = Some (ec', k', s') \<Longrightarrow> I s'"
proof (induction fds arbitrary: timer idx ec k s)
  case Nil
  then show ?case by simp
next
  case (Cons fd fds)
  show ?case
  proof (cases "0 < timer")
    case True
    then obtain m r s1 where sent: "send_with_timeout (fst (turn idx)) fd (of_int timer) e
        (s\<lparr>orc_msg_ctrl := m\<rparr>) = Some (r, s1)"
      and rest: "foreach_send_loop turn fill e (snd (turn idx)) (Suc idx) fds (if ec = NONE then r else ec)
          (k - 1) s1 = Some (ec', k', s')"
      using Cons.prems(3) by (auto simp: bind_eq_Some_conv)
    have "I (s\<lparr>orc_msg_ctrl := m\<rparr>)" using Cons.prems(2) blindD(3) [OF Cons.prems(1)] by simp
    from keepsD [OF keeps_send [OF Cons.prems(1) this] sent] have "I s1" .
    then show ?thesis using Cons.IH [OF Cons.prems(1)] rest by blast
  qed (use Cons.prems in auto)
qed

lemma keeps_foreach_send [keeps_rules]:
  assumes "blind I" and "I s"
  shows "keeps I (foreach_fragment_send_generic turn fds t fill e s)"
proof -
  have "I (s\<lparr>orc_msg_ctrl := m\<rparr>)" for m using assms blindD(3) by blast
  from keeps_send_loop [OF assms(1) this] show ?thesis
    by (auto simp: foreach_fragment_send_generic_def keeps_def bind_eq_Some_conv)
qed

lemma keeps_foreach_send_ctrl [keeps_rules]:
  "blind I \<Longrightarrow> I s \<Longrightarrow> keeps I (foreach_fragment_send_ctrl turn t fill s)"
  by (simp add: foreach_fragment_send_ctrl_def keeps_foreach_send)

lemma keeps_response:
  assumes "blind I" and "I s" and "\<And>i m s. I s \<Longrightarrow> keeps I (handle i m s)"
  shows "keeps I (recv_response rx ck t handle e timer idx fd s)"
  unfolding recv_response_def using assms by (intro keeps_rules)

lemma keeps_scan:
  assumes "blind I" and h: "\<And>i m s. I s \<Longrightarrow> keeps I (handle i m s)"
  shows "I (snd (snd (snd l))) \<Longrightarrow> recv_scan r ck t handle e timer idx fds l = Some l' \<Longrightarrow> I (snd (snd (snd l')))"
proof (induction fds arbitrary: idx l)
  case (Cons fd fds)
  obtain ec k pfds s where l: "l = (ec, k, pfds, s)" by (cases l) auto
  obtain p where p: "get_at pfds idx = Some p" using Cons.prems(2) by (auto simp: l bind_eq_Some_conv)
  show ?case
  proof (cases "poll_ready r idx \<and> 0 < p")
    case True
    then obtain cur s1 where resp: "recv_response (poll_rx r idx) ck t handle e timer idx fd s = Some (cur, s1)"
      and rest: "recv_scan r ck t handle e timer (Suc idx) fds
        (if ec = NONE then cur else ec, k - 1, pfds[idx := -1], s1) = Some l'"
      using Cons.prems(2) p by (auto simp: l bind_eq_Some_conv)
    have "I s" using Cons.prems(1) by (simp add: l)
    from keepsD [OF keeps_response [OF assms(1) this h] resp] have "I s1" .
    then show ?thesis using Cons.IH [OF _ rest] by simp
  next
    case False
    then have "recv_scan r ck t handle e timer (Suc idx) fds l = Some l'"
      using Cons.prems(2) p by (auto simp: l split: if_splits)
    then show ?thesis using Cons.IH [OF Cons.prems(1)] by simp
  qed
qed simp

lemma keeps_recv_loop:
  assumes "blind I" and h: "\<And>i m s. I s \<Longrightarrow> keeps I (handle i m s)"
  shows "I (snd (snd (snd l))) \<Longrightarrow> foreach_recv_loop rounds ck t handle e timer fds l = Some l' \<Longrightarrow>
    I (snd (snd (snd l')))"
proof (induction rounds arbitrary: timer l)
  case Nil
  then show ?case by (cases l) (auto simp: foreach_recv_loop.simps split: if_splits)
next
  case (Cons r rounds)
  obtain ec k pfds s where l: "l = (ec, k, pfds, s)" by (cases l) auto
  show ?case
  proof (cases "k \<noteq> 0 \<and> 0 < timer \<and> poll_rc r \<noteq> 0")
    case True
    then obtain l1 where scan: "(if 0 < poll_rc r then
          if poll_rc r \<le> int k then recv_scan r ck t handle e timer 0 fds l else None
        else Some l) = Some l1"
      and rest: "foreach_recv_loop rounds ck t handle e (poll_timer r) fds l1 = Some l'"
      using Cons.prems(2) unfolding l
      by (subst (asm) foreach_recv_loop.simps) (auto simp: bind_eq_Some_conv)
    have "I (snd (snd (snd l1)))"
      using scan Cons.prems(1) keeps_scan [where handle = handle, OF assms Cons.prems(1)]
      by (auto split: if_splits)
    then show ?thesis using Cons.IH rest by blast
  next
    case False
    then show ?thesis
      using Cons.prems unfolding l
      by (subst (asm) foreach_recv_loop.simps) (auto split: if_splits)
  qed
qed

lemma keeps_foreach_recv [keeps_rules]:
  assumes "blind I" and "I s" and "\<And>i m s. I s \<Longrightarrow> keeps I (handle i m s)"
  shows "keeps I (foreach_fragment_recv_generic rounds ck fds t handle e s)"
    and "keeps I (foreach_fragment_recv_ctrl rounds t handle s)"
proof -
  show g: "keeps I (foreach_fragment_recv_generic rounds ck fds t handle e s)" for ck fds e
    unfolding keeps_def
  proof (intro allI impI)
    fix ec s'
    assume "foreach_fragment_recv_generic rounds ck fds t handle e s = Some (ec, s')"
    then obtain ec' k pfds where "foreach_recv_loop rounds ck t handle e
        (uint (timeout_communication_ms s)) fds (NONE, length fds, fds, s) = Some (ec', k, pfds, s')"
      by (auto simp: foreach_fragment_recv_generic_def bind_eq_Some_conv)
    from keeps_recv_loop [where handle = handle, OF assms(1,3) _ this] show "I s'" using assms(2) by simp
  qed
  show "keeps I (foreach_fragment_recv_ctrl rounds t handle s)"
    unfolding foreach_fragment_recv_ctrl_def by (rule g)
qed

subsection \<open>A whole run\<close>

text \<open>Positions in the array of fragments fit 16 bits.\<close>

definition few :: "orchestrator \<Rightarrow> bool" where
  "few s \<longleftrightarrow> length (fragments s) < 65536"

text \<open>Every process has acknowledged the shutdown or has been killed.\<close>

definition reaped :: "orchestrator \<Rightarrow> bool" where
  "reaped s \<longleftrightarrow> pid ` set (fragments s) \<subseteq> insert (-1) (set (killed s))"

lemma blind_few: "blind few"
  by (simp add: blind_def few_def)

lemma few_update: "few (s\<lparr>fragments := (fragments s)[i := md]\<rparr>) = few s"
  by (simp add: few_def)

lemma assign_ctrl_length: "assign_ctrl p fd mds = (ec, mds') \<Longrightarrow> length mds' = length mds"
  by (induction mds arbitrary: mds') (auto simp: Let_def split: if_splits prod.splits)

lemma fork_loop_length: "fork_loop fork n i mds = (ok, mds') \<Longrightarrow> length mds' \<le> length mds + n"
proof (induction n arbitrary: i mds)
  case (Suc n)
  then show ?case by (auto split: if_splits) fastforce
qed simp

lemma few_handlers:
  "few s \<Longrightarrow> keeps few (acknowledged i m s)" "few s \<Longrightarrow> keeps few (handle_setup_ctrl fds i m s)"
  "few s \<Longrightarrow> keeps few (handle_setup_pcap fds i m s)" "few s \<Longrightarrow> keeps few (handle_server_started pn i m s)"
  "few s \<Longrightarrow> keeps few (handle_clients_started i m s)" "few s \<Longrightarrow> keeps few (handle_shutdown i m s)"
proof -
  assume f: "few s"
  show "keeps few (acknowledged i m s)" using f by (simp add: acknowledged_def keeps_rules)
  show "keeps few (handle_setup_ctrl fds i m s)"
    unfolding handle_setup_ctrl_def Let_def
    by (intro keeps_rules) (use f in \<open>auto simp: few_def dest!: assign_ctrl_length\<close>)
  show "keeps few (handle_setup_pcap fds i m s)"
    unfolding handle_setup_pcap_def by (intro keeps_rules) (use f in \<open>auto simp: few_update\<close>)
  show "keeps few (handle_server_started pn i m s)"
    unfolding handle_server_started_def by (intro keeps_rules) (use f in \<open>auto simp: few_update\<close>)
  show "keeps few (handle_clients_started i m s)"
    unfolding handle_clients_started_def Let_def by (intro keeps_rules) (use f in \<open>auto simp: few_update\<close>)
  show "keeps few (handle_shutdown i m s)"
    unfolding handle_shutdown_def by (intro keeps_rules) (use f in \<open>auto simp: few_update\<close>)
qed

lemmas few_rules = keeps_rules blind_few few_handlers

lemma few_setup_ctrl: "keeps few (run_state_setup_ctrl_plane e s)"
proof -
  have f: "few (s'\<lparr>fragments := mds\<rparr>)"
    if "(if orc_autotest_mode s' then fork_loop (o_fork e) (unat (tc_num_nodes s)) 0 []
         else (True, replicate (unat (tc_num_nodes s)) fragment_metadata_new)) = (ok, mds)" for s' mds ok
    using that fork_loop_length [of "o_fork e" "unat (tc_num_nodes s)" 0 "[]" ok mds] unat_u16_less [of "tc_num_nodes s"]
    by (auto simp: few_def split: if_splits)
  show ?thesis
  proof (cases "fragments s = []")
    case True
    then have "few (s\<lparr>listen_fd_ctrl := fd\<rparr>)" for fd by (simp add: few_def)
    then show ?thesis
      unfolding run_state_setup_ctrl_plane_def Let_def by (intro few_rules) (auto intro: f)
  qed (simp add: run_state_setup_ctrl_plane_def keeps_rules)
qed

lemma few_setup_pcap: "few s \<Longrightarrow> keeps few (run_state_setup_pcap_plane e s)"
proof -
  assume "few s"
  then have "few (s\<lparr>listen_fd_pcap := fd\<rparr>)" for fd by (simp add: few_def)
  then show ?thesis unfolding run_state_setup_pcap_plane_def Let_def by (intro few_rules) auto
qed

lemma few_states:
  assumes "few s"
  shows "keeps few (run_state_create_mixnet_topology e s)" "keeps few (run_state_start_all_mixnet_servers e s)"
    "keeps few (run_state_start_all_mixnet_clients e s)" "keeps few (run_state_resolve_connections e s)"
    "keeps few (run_state_begin_testcase e s)" "keeps few (run_state_finish_testcase e s)"
    "keeps few (run_state_graceful_shutdown e s)"
proof -
  show "keeps few (run_state_create_mixnet_topology e s)"
    unfolding run_state_create_mixnet_topology_def using assms by (intro few_rules)
  show "keeps few (run_state_start_all_mixnet_servers e s)"
    unfolding run_state_start_all_mixnet_servers_def using assms by (intro few_rules)
  show "keeps few (run_state_start_all_mixnet_clients e s)"
    unfolding run_state_start_all_mixnet_clients_def using assms by (intro few_rules)
  show "keeps few (run_state_resolve_connections e s)"
    unfolding run_state_resolve_connections_def using assms by (intro few_rules)
  show "keeps few (run_state_begin_testcase e s)"
    unfolding run_state_begin_testcase_def using assms by (intro few_rules)
  show "keeps few (run_state_finish_testcase e s)"
    unfolding run_state_finish_testcase_def using assms by (intro few_rules)
  show "keeps few (run_state_graceful_shutdown e s)"
    unfolding run_state_graceful_shutdown_def
    using assms by (intro keeps_if keeps_basic(1) keeps_bind_result keeps_foreach_send_ctrl
        keeps_foreach_recv few_handlers blind_few)
qed

text \<open>A graceful shutdown without an error has the answer of every process.\<close>

lemma graceful_reaps:
  assumes "few s" and "run_state_graceful_shutdown e s = Some (NONE, s')"
  shows "reaped s'"
proof -
  obtain ec s1 where send: "foreach_fragment_send_ctrl (o_send e 0) SHUTDOWN orc_no_payload s = Some (ec, s1)"
    and recv: "foreach_fragment_recv_ctrl (o_recv e 0) SHUTDOWN handle_shutdown s1 = Some (NONE, s')"
    using assms(2) by (auto simp: run_state_graceful_shutdown_def bind_eq_Some_conv split: if_splits)
  have f: "few s1" using keepsD [OF keeps_foreach_send_ctrl [OF blind_few assms(1)] send] .
  let ?n = "length (fragments s1)"
  let ?J = "\<lambda>P s. length (fragments s) = ?n \<and> (\<forall>i \<in> P. pid (fragments s ! i) = -1)"
  have "round_step ?J ?n handle_shutdown"
    using f by (auto simp: round_step_def handle_shutdown_def few_def unat_of_nat_u16 access_simps nth_update_if)
  then have "?J {..<?n} s'"
    using foreach_recv_all [OF recv [unfolded foreach_fragment_recv_ctrl_def], of ?J] by simp
  then show ?thesis by (auto simp: reaped_def in_set_conv_nth)
qed

text \<open>How far a state is from the end.\<close>

primrec orc_rank :: "orc_state \<Rightarrow> nat" where
  "orc_rank INIT = 12"
| "orc_rank SETUP_CTRL_PLANE = 11"
| "orc_rank SETUP_PCAP_PLANE = 10"
| "orc_rank CREATE_MIXNET_TOPOLOGY = 9"
| "orc_rank START_ALL_MIXNET_SERVERS = 8"
| "orc_rank START_ALL_MIXNET_CLIENTS = 7"
| "orc_rank RESOLVE_MIXNET_CONNECTIONS = 6"
| "orc_rank BEGIN_TESTCASE = 5"
| "orc_rank RUN_TESTCASE = 4"
| "orc_rank FINISH_TESTCASE = 3"
| "orc_rank GRACEFUL_SHUTDOWN = 2"
| "orc_rank FORCEFUL_SHUTDOWN = 1"
| "orc_rank RESET = 0"

text \<open>\<open>testcase::run\<close> has only the public interface: it neither adds nor removes fragments.\<close>

definition testcase_ok :: "run_env \<Rightarrow> bool" where
  "testcase_ok x \<longleftrightarrow> (\<forall>s ec s'. r_testcase x s = Some (ec, s') \<longrightarrow> length (fragments s') = length (fragments s))"

lemma pcap_scan_fragments:
  "orc_pcap_scan r i fds ec s = Some (ec', s') \<Longrightarrow> fragments s' = fragments s"
proof (induction fds arbitrary: i ec s)
  case (Cons fd fds)
  show ?case
  proof (cases "k_ready r i \<and> k_subscribed r i")
    case True
    then obtain c s1 where r: "recv_with_timeout (k_rx r i) False fd PCAP_POLL_TIMEOUT_MS
        PCAP_CONNECTION_BROKEN s = Some (c, s1)"
      using Cons.prems by (auto simp: bind_eq_Some_conv)
    then have "fragments s1 = fragments s"
      by (auto simp: recv_with_timeout_def Let_def bind_eq_Some_conv)
    then show ?thesis
      using Cons.prems Cons.IH True r by (fastforce simp: bind_eq_Some_conv split: if_splits)
  qed (use Cons in auto)
qed simp

lemma pcap_thread_fragments:
  "pcap_thread_loop rounds ec s = Some s' \<Longrightarrow> fragments s' = fragments s"
proof (induction rounds arbitrary: ec s)
  case (Cons r rounds)
  then show ?case
    by (cases "k_run r \<and> ec = NONE") (auto simp: bind_eq_Some_conv dest!: pcap_scan_fragments)
qed simp

lemma orc_step_few:
  assumes f: "few s" and x: "testcase_ok x" and r: "orc_step x s = Some (ec, nx, s')"
  shows "few s'"
proof (cases "orc_state s")
  case RUN_TESTCASE
  then obtain s1 s2 where p: "pcap_thread_loop (r_pcap x) NONE s = Some s1"
    and t: "r_testcase x s1 = Some (ec, s2)" and s': "s' = s2\<lparr>pcap_thread_run := False\<rparr>"
    using r by (auto simp: orc_step_def bind_eq_Some_conv)
  show ?thesis using f x t pcap_thread_fragments [OF p] by (auto simp: s' testcase_ok_def few_def)
next
  case INIT
  then show ?thesis using f r by (auto simp: orc_step_def run_state_init_def split: if_splits)
next
  case FORCEFUL_SHUTDOWN
  then show ?thesis
    using f r by (auto simp: orc_step_def run_state_forceful_shutdown_def destroy_fragments_def few_def)
next
  case RESET
  then show ?thesis using r by (auto simp: orc_step_def run_state_reset_def few_def)
next
  case SETUP_CTRL_PLANE
  then show ?thesis using r keepsD [OF few_setup_ctrl] by (auto simp: orc_step_def bind_eq_Some_conv)
next
  case SETUP_PCAP_PLANE
  then show ?thesis using r keepsD [OF few_setup_pcap [OF f]] by (auto simp: orc_step_def bind_eq_Some_conv)
qed (use r few_states [OF f, unfolded keeps_def] in \<open>auto simp: orc_step_def bind_eq_Some_conv\<close>)

lemma orc_step_rank:
  "orc_step x s = Some (ec, nx, s') \<Longrightarrow> orc_state s \<noteq> RESET \<Longrightarrow> orc_rank nx < orc_rank (orc_state s)"
  by (cases "orc_state s") (auto simp: orc_step_def next_if_def bind_eq_Some_conv split: if_splits)

lemma orc_step_reaped:
  assumes f: "few s" and r: "orc_step x s = Some (ec, RESET, s')" and s: "orc_state s \<noteq> RESET"
  shows "reaped s'"
proof -
  have "orc_state s \<in> {GRACEFUL_SHUTDOWN, FORCEFUL_SHUTDOWN}"
    using r s by (cases "orc_state s") (auto simp: orc_step_def next_if_def bind_eq_Some_conv split: if_splits)
  then show ?thesis
  proof
    assume "orc_state s = GRACEFUL_SHUTDOWN"
    then have "run_state_graceful_shutdown (r_env x) s = Some (NONE, s')"
      using r by (auto simp: orc_step_def next_if_def bind_eq_Some_conv split: if_splits)
    then show ?thesis by (rule graceful_reaps [OF f])
  next
    assume "orc_state s \<in> {FORCEFUL_SHUTDOWN}"
    then show ?thesis
      using r by (auto simp: orc_step_def run_state_forceful_shutdown_def destroy_fragments_def reaped_def)
  qed
qed

text \<open>
  The states a run visits with the codes of their handlers, one per element of the list of what
  it meets, and the code it reports.
\<close>

definition move :: "orc_state \<Rightarrow> orchestrator \<Rightarrow> orchestrator" where
  "move nx s = s\<lparr>orc_state := nx\<rparr>"

inductive orc_visits ::
  "run_env list \<Rightarrow> orchestrator \<Rightarrow> (orc_state \<times> error_code) list \<Rightarrow> orchestrator \<Rightarrow> bool" where
  orc_visits_Nil: "orc_visits [] s [] s"
| orc_visits_Cons: "orc_step x s = Some (ec, nx, s1) \<Longrightarrow> orc_visits xs (move nx s1) tr u \<Longrightarrow>
    orc_visits (x # xs) s ((orc_state s, ec) # tr) u"

inductive_simps orc_visits_simps: "orc_visits [] s tr u" "orc_visits (x # xs) s tr u"

text \<open>Every environment leads to one trace: a run has no choice.\<close>

lemma orc_visits_unique:
  "orc_visits xs s tr u \<Longrightarrow> orc_visits xs s tr' u' \<Longrightarrow> tr' = tr \<and> u' = u"
proof (induction arbitrary: tr' rule: orc_visits.induct)
  case (orc_visits_Cons x s ec nx s1 xs tr u)
  then show ?case by (auto simp: orc_visits_simps(2))
qed (simp add: orc_visits_simps)

fun first_error :: "(orc_state \<times> error_code) list \<Rightarrow> error_code" where
  "first_error [] = NONE"
| "first_error ((t, ec) # tr) = (if ec \<noteq> NONE then ec else first_error tr)"

lemma move_sel [simp]: "orc_state (move nx s) = nx" "few (move nx s) = few s" "reaped (move nx s) = reaped s"
  by (simp_all add: move_def few_def reaped_def)

definition orc_post :: "run_env list \<Rightarrow> bool \<Rightarrow> error_code \<Rightarrow> orchestrator \<Rightarrow> (error_code \<times> orchestrator) option \<Rightarrow> bool"
where
  "orc_post xs log r0 s result \<longleftrightarrow> (case result of
     Some (r, s') \<Rightarrow> \<exists>tr u v. orc_visits (take (length tr) xs) s tr u \<and> RESET \<notin> fst ` set tr \<and>
       orc_state u = RESET \<and> reaped u \<and> run_state_reset u = Some v \<and> s' = move RESET v \<and>
       length tr < length xs \<and> length tr \<le> orc_rank (orc_state s) \<and>
       r = (if log \<and> first_error tr \<noteq> NONE then first_error tr else r0)
   | None \<Rightarrow> \<exists>tr u. orc_visits (take (length tr) xs) s tr u \<and> few u \<and>
       length tr \<le> orc_rank (orc_state s) \<and>
       (length tr = length xs \<or> length tr < length xs \<and> orc_step (xs ! length tr) u = None))"

lemma orc_post_step:
  assumes r: "orc_step x s = Some (ec, nx, s1)" and s: "orc_state s \<noteq> RESET"
    and post: "orc_post xs (log \<and> \<not> (log \<and> ec \<noteq> NONE)) (if log \<and> ec \<noteq> NONE then ec else r0) (move nx s1) result"
  shows "orc_post (x # xs) log r0 s result"
proof (cases result)
  case None
  with post obtain tr u where v: "orc_visits (take (length tr) xs) (move nx s1) tr u"
    and u: "few u" "length tr \<le> orc_rank nx"
    "length tr = length xs \<or> length tr < length xs \<and> orc_step (xs ! length tr) u = None"
    by (auto simp: orc_post_def)
  from u None orc_step_rank [OF r s] orc_visits_Cons [OF r v] show ?thesis
    by (auto simp: orc_post_def intro!: exI [of _ "(orc_state s, ec) # tr"] exI [of _ u])
next
  case (Some y)
  obtain r' s' where y: "y = (r', s')" by force
  with Some post obtain tr u w where v: "orc_visits (take (length tr) xs) (move nx s1) tr u"
    and u: "orc_state u = RESET" "reaped u" "run_state_reset u = Some w" "s' = move RESET w"
    "length tr < length xs" "length tr \<le> orc_rank nx" "RESET \<notin> fst ` set tr"
    and r': "r' = (if (log \<and> \<not> (log \<and> ec \<noteq> NONE)) \<and> first_error tr \<noteq> NONE then first_error tr
           else if log \<and> ec \<noteq> NONE then ec else r0)" by (auto simp: orc_post_def)
  have "r' = (if log \<and> first_error ((orc_state s, ec) # tr) \<noteq> NONE
      then first_error ((orc_state s, ec) # tr) else r0)" using r' by auto
  with u s Some y orc_step_rank [OF r s] orc_visits_Cons [OF r v] show ?thesis
    unfolding orc_post_def Some y option.case prod.case
    by (intro exI [of _ "(orc_state s, ec) # tr"] exI [of _ u] exI [of _ w]) simp
qed

lemma orc_loop_post:
  "few s \<Longrightarrow> \<forall>x \<in> set xs. testcase_ok x \<Longrightarrow> (orc_state s = RESET \<Longrightarrow> reaped s) \<Longrightarrow>
   orc_post xs log r0 s (orc_loop xs log r0 s)"
proof (induction xs arbitrary: log r0 s)
  case Nil
  then show ?case by (auto simp: orc_post_def intro!: exI [of _ "[]"] orc_visits_Nil)
next
  case (Cons x xs)
  show ?case
  proof (cases "orc_step x s")
    case None
    then show ?thesis
      using Cons.prems by (auto simp: orc_post_def intro!: exI [of _ "[]"] orc_visits_Nil)
  next
    case (Some y)
    then obtain ec nx s1 where r: "orc_step x s = Some (ec, nx, s1)" by (cases y) auto
    show ?thesis
    proof (cases "orc_state s = RESET")
      case True
      then have "run_state_reset s = Some s1" "ec = NONE" "nx = RESET"
        using r by (auto simp: orc_step_def bind_eq_Some_conv)
      then show ?thesis
        using r True Cons.prems
        by (auto simp: orc_post_def move_def intro!: exI [of _ "[]"] orc_visits_Nil)
    next
      case False
      have "few s1" using orc_step_few [OF Cons.prems(1) _ r] Cons.prems(2) by simp
      moreover have "nx = RESET \<Longrightarrow> reaped s1" using orc_step_reaped [OF Cons.prems(1) _ False] r by simp
      ultimately have "orc_post xs (log \<and> \<not> (log \<and> ec \<noteq> NONE)) (if log \<and> ec \<noteq> NONE then ec else r0) (move nx s1)
          (orc_loop xs (log \<and> \<not> (log \<and> ec \<noteq> NONE)) (if log \<and> ec \<noteq> NONE then ec else r0) (move nx s1))"
        using Cons.prems(2) by (intro Cons.IH) simp_all
      from orc_post_step [OF r False this] show ?thesis
        using r False by (simp add: Let_def move_def)
    qed
  qed
qed

lemma reset_effect:
  assumes "run_state_reset u = Some v"
  shows "fragments v = []" "listen_fd_ctrl v = -1" "listen_fd_pcap v = -1"
    "set (orc_closed v) = set (orc_closed u) \<union> {fd. fd \<noteq> -1 \<and>
       (fd \<in> {listen_fd_pcap u, listen_fd_ctrl u} \<or> (\<exists>md \<in> set (fragments u). fd \<in> {fd_ctrl md, fd_pcap md}))}"
proof -
  have v: "v = (destroy_sockets u)\<lparr>pcap_thread_error := NONE, pcap_thread_run := True,
      listen_fd_ctrl := -1, listen_fd_pcap := -1, fragments := []\<rparr>"
    using assms by (simp add: run_state_reset_def split: if_splits)
  then show "fragments v = []" "listen_fd_ctrl v = -1" "listen_fd_pcap v = -1" by simp_all
  show "set (orc_closed v) = set (orc_closed u) \<union> {fd. fd \<noteq> -1 \<and>
       (fd \<in> {listen_fd_pcap u, listen_fd_ctrl u} \<or> (\<exists>md \<in> set (fragments u). fd \<in> {fd_ctrl md, fd_pcap md}))}"
    by (auto simp: v destroy_sockets_def split: if_splits)
qed

text \<open>
  C10. How the orchestrator's run ends, whatever the network, the processes and the testcase do.
  The run takes one state after another, each with what the list \<open>xs\<close> holds for it. It passes
  through at most twelve states before its first RESET and returns only from that one, with the
  code of the first state that failed. Every fragment process of that moment has either answered
  the shutdown request or been killed, every control, pcap and listening socket it had has been
  closed, and the state it leaves is that of RESET, with empty tables for the next run. It does
  not come back only where a handler does not, or where the list ends.
\<close>

theorem orchestrator_run_ends:
  assumes "is_configured s" and "few s" and "\<forall>x \<in> set xs. testcase_ok x"
  shows "case orchestrator_run tc xs s of
    Some (r, s') \<Rightarrow> \<exists>tr u v. length tr \<le> 12 \<and> length tr < length xs \<and>
      orc_visits (take (length tr) xs) (s\<lparr>testcase := tc, orc_state := INIT\<rparr>) tr u \<and>
      RESET \<notin> fst ` set tr \<and> orc_state u = RESET \<and> r = first_error tr \<and> reaped u \<and>
      run_state_reset u = Some v \<and> s' = move RESET v \<and>
      (\<forall>md \<in> set (fragments u). {fd_ctrl md, fd_pcap md} \<subseteq> insert (-1) (set (orc_closed s'))) \<and>
      {listen_fd_ctrl u, listen_fd_pcap u} \<subseteq> insert (-1) (set (orc_closed s')) \<and>
      fragments s' = [] \<and> listen_fd_ctrl s' = -1 \<and> listen_fd_pcap s' = -1
  | None \<Rightarrow> \<exists>tr u. length tr \<le> 12 \<and>
      orc_visits (take (length tr) xs) (s\<lparr>testcase := tc, orc_state := INIT\<rparr>) tr u \<and> few u \<and>
      (length tr = length xs \<or> length tr < length xs \<and> orc_step (xs ! length tr) u = None)"
proof -
  let ?s = "s\<lparr>testcase := tc, orc_state := INIT\<rparr>"
  have "few ?s" using assms(2) by (simp add: few_def)
  then have post: "orc_post xs True NONE ?s (orc_loop xs True NONE ?s)"
    using orc_loop_post [of ?s xs] assms(3) by simp
  have run: "orchestrator_run tc xs s = orc_loop xs True NONE ?s"
    using assms(1) by (simp add: orchestrator_run_def)
  show ?thesis
  proof (cases "orc_loop xs True NONE ?s")
    case None
    then show ?thesis using post run by (auto simp: orc_post_def)
  next
    case (Some y)
    obtain r s' where y: "y = (r, s')" by force
    with post Some obtain tr u v where
      "orc_visits (take (length tr) xs) ?s tr u" "orc_state u = RESET" "reaped u"
      and v: "run_state_reset u = Some v" "s' = move RESET v" "length tr \<le> 12" "r = first_error tr"
        "length tr < length xs" "RESET \<notin> fst ` set tr"
      by (auto simp: orc_post_def)
    then show ?thesis
      using run Some y reset_effect [OF v(1)]
      by simp (intro exI [of _ tr] conjI exI [of _ u] exI [of _ v], auto simp: move_def)
  qed
qed

definition no_server_env :: run_env where
  "no_server_env = \<lparr>r_env = \<lparr>o_send = (\<lambda>_ _. ((None, []), 0)), o_recv = (\<lambda>_. []),
       o_setup = \<lparr>new_fd = -1, get_flags_ok = True, set_flags_ok = True, set_reuse_ok = True,
         bind_ok = True, bound_name = None, listen_ok = True\<rparr>,
       o_turns = [], o_fork = (\<lambda>_. 1), o_peername = (\<lambda>_. None)\<rparr>,
     r_pcap = [], r_testcase = (\<lambda>s. Some (NONE, s))\<rparr>"

definition three_nodes :: testcase where
  "three_nodes = \<lparr>tc_graph = graph_new 3, tc_root_hello_interval_ms = 100, tc_reelection_interval_ms = 1000\<rparr>"

definition example_orchestrator :: orchestrator where
  "example_orchestrator = configure True (orchestrator_new [] [] three_nodes)"

lemma orchestrator_run_ends_witness:
  "\<exists>s' tr u. orchestrator_run three_nodes (replicate 4 no_server_env) example_orchestrator =
     Some (SOCKET_CREATE_FAILED, s') \<and> fragments s' = [] \<and> first_error tr = SOCKET_CREATE_FAILED \<and>
     orc_visits (take (length tr) (replicate 4 no_server_env))
       (example_orchestrator\<lparr>testcase := three_nodes, orc_state := INIT\<rparr>) tr u \<and> reaped u"
proof -
  let ?s = "example_orchestrator"
  have s: "is_configured ?s" "few ?s" "fragments ?s = []" "listen_fd_ctrl ?s = -1"
    by (simp_all add: example_orchestrator_def configure_def orchestrator_new_def few_def)
  have "unat (tc_num_nodes (?s\<lparr>testcase := three_nodes\<rparr>)) = 3"
    by (simp add: tc_num_nodes_def three_nodes_def graph_new_def)
  then have "\<exists>s'. orchestrator_run three_nodes (replicate 4 no_server_env) ?s = Some (SOCKET_CREATE_FAILED, s')"
    using s by (simp add: numeral_eq_Suc orchestrator_run_def orc_step_def run_state_init_def next_if_def
        run_state_setup_ctrl_plane_def server_setup_def open_socket_def no_server_env_def tc_num_nodes_def
        run_state_forceful_shutdown_def destroy_fragments_def run_state_reset_def Let_def
        socket_env.truncate_def)
  then obtain s' where "orchestrator_run three_nodes (replicate 4 no_server_env) ?s = Some (SOCKET_CREATE_FAILED, s')"
    by blast
  moreover have "\<forall>x \<in> set (replicate 4 no_server_env). testcase_ok x"
    by (simp add: testcase_ok_def no_server_env_def)
  from orchestrator_run_ends [OF s(1,2) this, of three_nodes] calculation
  obtain tr u where "orc_visits (take (length tr) (replicate 4 no_server_env)) (?s\<lparr>testcase := three_nodes, orc_state := INIT\<rparr>) tr u"
    "SOCKET_CREATE_FAILED = first_error tr" "reaped u" "fragments s' = []"
    unfolding calculation option.case prod.case by blast
  ultimately show ?thesis by metis
qed

end
