(* ===== verification/Requests.thy ===== *)
theory Requests
  imports Orchestrator_Run
begin

text \<open>
  Requests from the orchestrator to a fragment, from the function that fills the message to the
  handler on the other side: what a round of requests puts on the wire, and what the fragment
  makes of it.
\<close>

subsection \<open>The process of a fragment\<close>

text \<open>
  \<open>main\<close>: \<open>args\<close> is what the vendored parser makes of the command line, the orchestrator's address
  and port, or none; \<open>inet_addr\<close> is the library's, with all bits set for no address. \<open>mc\<close> to \<open>qu\<close>
  are the buffers and queues of the new fragment, \<open>es\<close> the environment of its run. The exit status
  is 0 however the run ended.
\<close>

definition fragment_main ::
  "(string \<Rightarrow> u32) \<Rightarrow> message \<Rightarrow> message \<Rightarrow> message_queue \<Rightarrow> message_queue \<Rightarrow>
   (fragment_env \<times> run_turn list) list \<Rightarrow> (string \<times> u32) option \<Rightarrow>
   (int \<times> (error_code \<times> fragment) option) option" where
  "fragment_main inet_addr mc mp qp qu es args =
     (case args of
        None \<Rightarrow> Some (1, None)
      | Some (orchestrator_ip, orchestrator_port) \<Rightarrow>
          (let s_addr = inet_addr orchestrator_ip; port_number = (ucast orchestrator_port :: u16) in
           if s_addr = - 1 then Some (1, None)
           else
             (case run_fragment es (fragment_new
                 \<lparr>sin_family = AF_INET, sin_port = htons port_number, sin_addr = s_addr, sin_zero = 0\<rparr> mc mp qp qu) of
                Some (Returned ec f) \<Rightarrow> Some (0, Some (ec, f))
              | _ \<Rightarrow> None)))"

text \<open>A process that ends has either run no fragment, or one that starts at its first state.\<close>

lemma fragment_main_runs:
  assumes "fragment_main inet_addr mc mp qp qu es args = Some (status, r)"
  shows "(status = 1 \<longleftrightarrow> r = None) \<and> (\<forall>ec f. r = Some (ec, f) \<longrightarrow> status = 0 \<and>
    (\<exists>f0. fragment_state f0 = FS_SETUP_CTRL \<and> \<not> autotest_mode f0 \<and> run_fragment es f0 = Some (Returned ec f)))"
proof -
  have new: "fragment_state (fragment_new a mc mp qp qu) = FS_SETUP_CTRL" "\<not> autotest_mode (fragment_new a mc mp qp qu)" for a
    by (simp_all add: fragment_new_def)
  then show ?thesis
    using assms by (fastforce simp: fragment_main_def Let_def split: option.splits if_splits run_outcome.splits)
qed

subsection \<open>Prefixes of messages\<close>

lemma slice_take_prefix:
  assumes "off + k \<le> n" and "take n b = take n b'"
  shows "slice b off k = slice b' off k"
proof -
  have "slice b off k = slice (take n b) off k" for b :: buf
    using assms(1) by (simp add: slice_def drop_take min_def)
  then show ?thesis using assms(2) by metis
qed

lemma rd16_take_prefix: "off + 2 \<le> n \<Longrightarrow> take n b = take n b' \<Longrightarrow> rd16 b off = rd16 b' off"
  using slice_take_prefix [of off 2 n b b'] by (simp add: rd16_def)

lemma rd32_take_prefix: "off + 4 \<le> n \<Longrightarrow> take n b = take n b' \<Longrightarrow> rd32 b off = rd32 b' off"
  using slice_take_prefix [of off 4 n b b'] by (simp add: rd32_def)

text \<open>
  A buffer that has received the sealed message \<open>m\<close>: behind the message's end it holds whatever
  it held before.
\<close>

definition received :: "bool \<Rightarrow> message_type \<Rightarrow> message \<Rightarrow> message \<Rightarrow> bool" where
  "received r t m R \<longleftrightarrow> ready r t m \<and> is_message R \<and>
     take (12 + payload_size r t m) R = take (12 + payload_size r t m) (sealed (payload_size r t m) m)"

lemma received_reads:
  assumes "received r t m R"
  shows "2 \<le> off \<Longrightarrow> off + k \<le> 8 + payload_size r t m \<Longrightarrow> slice R off k = slice m off k"
    and "2 \<le> off \<Longrightarrow> off + 2 \<le> 8 + payload_size r t m \<Longrightarrow> rd16 R off = rd16 m off"
    and "2 \<le> off \<Longrightarrow> off + 4 \<le> 8 + payload_size r t m \<Longrightarrow> rd32 R off = rd32 m off"
    and "ready r t R" and "payload_size r t R = payload_size r t m" and "validate R = Some True"
    and "is_request R = Some r" and "get_type R = Some t"
proof -
  let ?n = "payload_size r t m" and ?s = "sealed (payload_size r t m) m"
  have m: "length m = 65535" "12 + ?n \<le> 65535" and R: "length R = 65535"
    and p: "take (12 + ?n) R = take (12 + ?n) ?s"
    using assms by (auto simp: received_def ready_def has_code_def is_message_def)
  note s = sealed_slice [OF m]
  show sl: "2 \<le> off \<Longrightarrow> off + k \<le> 8 + ?n \<Longrightarrow> slice R off k = slice m off k" for off k
    using slice_take_prefix [OF _ p, of off k] s(2) by simp
  show r16: "2 \<le> off \<Longrightarrow> off + 2 \<le> 8 + ?n \<Longrightarrow> rd16 R off = rd16 m off" for off
    using sl [of off 2] by (simp add: rd16_def)
  show "2 \<le> off \<Longrightarrow> off + 4 \<le> 8 + ?n \<Longrightarrow> rd32 R off = rd32 m off"
    using sl [of off 4] by (simp add: rd32_def)
  have ready: "ready r t m" using assms by (simp add: received_def)
  show n: "payload_size r t R = ?n"
    using ready r16 by (cases t; cases r) (simp_all add: payload_size_def ready_def)
  show rR: "ready r t R" using ready r16 [of 2] n R by (auto simp: ready_def has_code_def is_message_def)
  have "rd32 R (8 + ?n) = canary" using rd32_take_prefix [OF _ p, of "8 + ?n"] s(4) by simp
  then show "validate R = Some True" using ready_validate [OF rR] n by simp
  show "is_request R = Some r" "get_type R = Some t"
    using rR by (auto simp: ready_def has_code_reads)
qed

lemma received_header:
  assumes "received True t m R" and "rd16 m 4 = i" and "rd16 m 6 = 0" and "fid f = i" and "ct \<Longrightarrow> u = t"
  shows "check_header f ck ct u R = Some NONE"
proof -
  note r = received_reads [OF assms(1)]
  have l: "length R = 65535" using assms(1) by (simp add: received_def is_message_def)
  have "get_fragment_id R = Some i" "get_error_code R = Some NONE"
    using r(2) [of 4] r(2) [of 6] assms(2,3) l
    by (simp_all add: get_fragment_id_def get_error_code_def get16_iff error_codes_def get_at_def)
  then show ?thesis using r(6-8) assms(4,5) by (auto simp: check_header_def)
qed

text \<open>The fragment's blocking receive of one request.\<close>

lemma recv_request_received:
  assumes f: "frag_ok up f" and m: "ready True t m"
    and wire: "all_arrive evs" "ctrl_pending f @ stream evs =
      take (12 + payload_size True t m) (sealed (payload_size True t m) m) @ later"
  shows "\<exists>R left. received True t m R \<and>
    msg_recv_blocking (Some nb, evs @ [(Arrive [], t1), (Arrive [], t2)]) (ctrl_pending f) (msg_ctrl f)
      CTRL_CONNECTION_BROKEN = Some (NONE, R, left)"
proof -
  let ?n = "payload_size True t m" and ?s = "sealed (payload_size True t m) m"
  have l: "length m = 65535" "12 + ?n \<le> 65535" using m by (auto simp: ready_def has_code_def is_message_def)
  note s = sealed_slice [OF l]
  have n: "frame_len ?s = 12 + ?n" using s(3) l(2) unat_of_nat_u16 [of "12 + ?n"] by (simp add: frame_len_def)
  have "length (msg_ctrl f) = 65535" using f by (simp add: frag_ok_def is_message_def)
  moreover have "block ctrl_config" by (simp add: block_def ctrl_config_def)
  ultimately obtain R k left where "recv_generic ctrl_config (Some nb) (evs @ [(Arrive [], t1), (Arrive [], t2)])
      (ctrl_pending f) (msg_ctrl f) CTRL_CONNECTION_BROKEN MIN_MESSAGE_LENGTH MAX_MESSAGE_LENGTH =
        Returns (NONE, R, left)" and R: "take (frame_len ?s) R = take (frame_len ?s) ?s"
    using recv_blocking_frame [of MIN_MESSAGE_LENGTH MAX_MESSAGE_LENGTH "msg_ctrl f" CTRL_CONNECTION_BROKEN
        ctrl_config ?s evs "ctrl_pending f" later nb t1 t2] wire n l s(1)
    by (auto simp: MIN_MESSAGE_LENGTH_def)
  moreover from this have "length R = length (msg_ctrl f)" using recv_generic_keeps by blast
  ultimately show ?thesis
    using m f n by (auto simp: received_def msg_recv_blocking_def frag_ok_def is_message_def)
qed

subsection \<open>What a round of requests sends\<close>

text \<open>
  A function that fills payloads as it should: the message fits, and its code, fragment id and
  error code stay.
\<close>

definition good_fill :: "message_type \<Rightarrow> (u16 \<Rightarrow> message \<Rightarrow> message option) \<Rightarrow> bool" where
  "good_fill t fill \<longleftrightarrow> (\<forall>i m m'. has_code True t m \<longrightarrow> fill i m = Some m' \<longrightarrow>
     ready True t m' \<and> rd16 m' 4 = rd16 m 4 \<and> rd16 m' 6 = rd16 m 6)"

definition request_for :: "message_type \<Rightarrow> (u16 \<Rightarrow> message \<Rightarrow> message option) \<Rightarrow> u16 \<Rightarrow> message \<Rightarrow> bool" where
  "request_for t fill i m \<longleftrightarrow> (\<exists>m0. has_code True t m0 \<and> rd16 m0 4 = i \<and> rd16 m0 6 = 0 \<and> fill i m0 = Some m)"

definition frame_of :: "bool \<Rightarrow> message_type \<Rightarrow> message \<Rightarrow> buf" where
  "frame_of r t m = take (12 + payload_size r t m) (sealed (payload_size r t m) m)"

lemma request_for_ready:
  assumes "good_fill t fill" and "request_for t fill i m"
  shows "ready True t m" "rd16 m 4 = i" "rd16 m 6 = 0"
  using assms by (auto simp: good_fill_def request_for_def)

lemma has_code_wr16: "has_code r t m \<Longrightarrow> 4 \<le> off \<Longrightarrow> off \<le> 6 \<Longrightarrow> has_code r t (wr16 m off v)"
  by (auto simp: has_code_def is_message_def)

lemma prepared_header:
  assumes "is_message m"
  shows "\<exists>m'. orc_prepare_header i t m = Some m' \<and> has_code True t m' \<and> rd16 m' 4 = i \<and> rd16 m' 6 = 0"
  using assms
  by (auto simp: orc_prepare_header_def set_fragment_id_def set_code_def set_error_code_def is_message_def
      has_code_def access_simps error_num_def error_codes_def enum_index_def)

lemma sent_frame:
  assumes m: "ready True t m" and e: "e \<noteq> NONE"
    and s: "orc_msg_ctrl s = sealed (payload_size True t m) m"
    and r: "send_with_timeout io fd tm e s = Some (NONE, s')"
  shows "s' = s\<lparr>outbox := (outbox s)(fd := outbox s fd @ frame_of True t m)\<rparr>"
proof -
  let ?n = "payload_size True t m"
  have l: "length m = 65535" "12 + ?n \<le> 65535" using m by (auto simp: ready_def has_code_def is_message_def)
  note sl = sealed_slice [OF l]
  have u: "unat (rd16 (sealed ?n m) 0) = 12 + ?n" using sl(3) l(2) unat_of_nat_u16 [of "12 + ?n"] by simp
  obtain out where g: "send_generic (timed tm) (fst io) (snd io) (sealed ?n m) e MIN_MESSAGE_LENGTH
      MAX_MESSAGE_LENGTH = Some (NONE, out)" and s': "s' = s\<lparr>outbox := (outbox s)(fd := outbox s fd @ out)\<rparr>"
    using r by (auto simp: send_with_timeout_def s bind_eq_Some_conv)
  then have "send_loop (timed tm) e (snd io) 0 (slice (sealed ?n m) 0 (12 + ?n)) [] = Some (NONE, out)"
    using u l sl(1) by (auto simp: send_generic_def get16_iff read_at_Some bind_eq_Some_conv split: if_splits)
  from send_loop_prefix [OF this] have "out = slice (sealed ?n m) 0 (12 + ?n)" using e by auto
  then show ?thesis by (simp add: s' frame_of_def slice_def)
qed

lemma send_loop_requests:
  assumes g: "good_fill t fill" and e: "e \<noteq> NONE"
  shows "foreach_send_loop turn fill e timer idx fds NONE (of_nat (length fds)) s = Some (NONE, 0, s') \<Longrightarrow>
    length fds < 65536 \<Longrightarrow> has_code True t (orc_msg_ctrl s) \<Longrightarrow> rd16 (orc_msg_ctrl s) 6 = 0 \<Longrightarrow>
    \<exists>ms. length ms = length fds \<and>
      (\<forall>i < length fds. request_for t fill (of_nat (idx + i)) (ms ! i)) \<and>
      (\<forall>fd. outbox s' fd = outbox s fd @ concat (map (\<lambda>(f, m). if f = fd then frame_of True t m else []) (zip fds ms)))"
proof (induction fds arbitrary: timer idx s)
  case Nil
  then show ?case by auto
next
  case (Cons fd fds)
  let ?m0 = "wr16 (orc_msg_ctrl s) 4 (of_nat idx)"
  have l: "length (orc_msg_ctrl s) = 65535" using Cons.prems(3) by (simp add: has_code_def is_message_def)
  have m0: "has_code True t ?m0" "rd16 ?m0 4 = of_nat idx" "rd16 ?m0 6 = 0"
    using Cons.prems(3,4) l by (simp_all add: has_code_wr16)
  have k: "(of_nat (length (fd # fds)) :: u16) \<noteq> 0"
    using Cons.prems(2) unat_of_nat_u16 [of "length (fd # fds)"] by (auto simp del: of_nat_Suc)
  have timer: "0 < timer" using Cons.prems(1) k by (auto split: if_splits)
  have "(of_nat (length (fd # fds)) :: u16) - 1 = of_nat (length fds)" by simp
  with Cons.prems(1) timer l obtain m M r s1 where fill: "fill (of_nat idx) ?m0 = Some m"
    and M: "finalize m = Some M"
    and sent: "send_with_timeout (fst (turn idx)) fd (of_int timer) e (s\<lparr>orc_msg_ctrl := M\<rparr>) = Some (r, s1)"
    and rest: "foreach_send_loop turn fill e (snd (turn idx)) (Suc idx) fds r (of_nat (length fds)) s1 = Some (NONE, 0, s')"
    by (auto simp: bind_eq_Some_conv set_fragment_id_def access_simps simp del: length_Cons of_nat_Suc)
  have req: "request_for t fill (of_nat idx) m" using m0 fill by (auto simp: request_for_def)
  note rdy = request_for_ready [OF g req]
  have sealed: "M = sealed (payload_size True t m) m" using M finalize_ready [OF rdy(1)] by simp
  have stays: "foreach_send_loop turn fill e tm j fs ec k' u = Some (ec', k'', u') \<Longrightarrow> ec \<noteq> NONE \<Longrightarrow> ec' = ec"
    for tm j fs ec k' u ec' k'' u'
    by (induction fs arbitrary: tm j k' u) (auto simp: bind_eq_Some_conv split: if_splits)
  then have r: "r = NONE" using rest by metis
  have s1: "s1 = s\<lparr>orc_msg_ctrl := M, outbox := (outbox s)(fd := outbox s fd @ frame_of True t m)\<rparr>"
    using sent_frame [OF rdy(1) e _ sent [unfolded r]] sealed by simp
  have code: "has_code True t (orc_msg_ctrl s1)" "rd16 (orc_msg_ctrl s1) 6 = 0"
    using ready_sealed(2) [OF rdy(1)] rdy sealed_rd16 [of m "payload_size True t m" 6]
    by (auto simp: s1 sealed ready_def has_code_def is_message_def)
  obtain ms where ms: "length ms = length fds" "\<forall>i < length fds. request_for t fill (of_nat (Suc idx + i)) (ms ! i)"
    "\<forall>f. outbox s' f = outbox s1 f @ concat (map (\<lambda>(f', m). if f' = f then frame_of True t m else []) (zip fds ms))"
    using Cons.IH [OF rest [unfolded r] _ code] Cons.prems(2) by auto
  show ?case
    using ms req by (intro exI [of _ "m # ms"]) (auto simp: nth_Cons' s1 less_Suc_eq_0_disj add_ac)
qed

lemma pick_no_frame: "fd \<notin> set fds \<Longrightarrow> concat (map (\<lambda>(f, m). if f = fd then g m else []) (zip fds ms)) = []"
  by (auto dest: set_zip_leftD)

lemma pick_frame:
  "distinct fds \<Longrightarrow> length ms = length fds \<Longrightarrow> i < length fds \<Longrightarrow>
   concat (map (\<lambda>(f, m). if f = fds ! i then g m else []) (zip fds ms)) = g (ms ! i)"
proof (induction fds ms arbitrary: i rule: list_induct2')
  case (4 f fs x xs)
  show ?case
  proof (cases i)
    case 0
    have "f \<notin> set fs" using 4 by simp
    from pick_no_frame [OF this, of g xs] show ?thesis using 0 by simp
  next
    case (Suc j)
    then have "f \<noteq> fs ! j" using 4 by auto
    then show ?thesis using 4 Suc by simp
  qed
qed auto

lemma round_requests:
  assumes "good_fill t fill" and "is_message (orc_msg_ctrl s)" and "few s" and "distinct (map fd_ctrl (fragments s))"
    and "foreach_fragment_send_ctrl turn t fill s = Some (NONE, s')"
  shows "\<exists>ms. length ms = length (fragments s) \<and>
    (\<forall>i < length (fragments s). request_for t fill (of_nat i) (ms ! i) \<and>
       outbox s' (fd_ctrl (fragments s ! i)) = outbox s (fd_ctrl (fragments s ! i)) @ frame_of True t (ms ! i)) \<and>
    (\<forall>fd. fd \<notin> fd_ctrl ` set (fragments s) \<longrightarrow> outbox s' fd = outbox s fd)"
proof -
  let ?fds = "map fd_ctrl (fragments s)"
  obtain m0 where m0: "orc_prepare_header 0 t (orc_msg_ctrl s) = Some m0" "has_code True t m0" "rd16 m0 6 = 0"
    using prepared_header [OF assms(2)] by blast
  then have "foreach_send_loop turn fill CTRL_CONNECTION_BROKEN (uint (timeout_communication_ms s)) 0 ?fds NONE
      (of_nat (length ?fds)) (s\<lparr>orc_msg_ctrl := m0\<rparr>) = Some (NONE, 0, s')"
    using assms(5)
    by (auto simp: foreach_fragment_send_ctrl_def foreach_fragment_send_generic_def bind_eq_Some_conv split: if_splits)
  from send_loop_requests [OF assms(1) _ this] m0 assms(3) obtain ms
    where ms: "length ms = length ?fds" "\<forall>i < length ?fds. request_for t fill (of_nat i) (ms ! i)"
    and out: "outbox s' fd = outbox s fd @ concat (map (\<lambda>(f, m). if f = fd then frame_of True t m else []) (zip ?fds ms))" for fd
    by (auto simp: few_def)
  have "concat (map (\<lambda>(f, m). if f = fd_ctrl (fragments s ! i) then frame_of True t m else []) (zip ?fds ms)) =
      frame_of True t (ms ! i)" if "i < length (fragments s)" for i
    using pick_frame [of ?fds ms i "frame_of True t"] assms(4) ms(1) that by simp
  then show ?thesis
    using ms out pick_no_frame [of _ ?fds "frame_of True t" ms] by (intro exI [of _ ms]) auto
qed

text \<open>
  A round of requests that reports no error has put on every fragment's connection exactly
  one complete request with the fragment's own position and payload, and nothing on any other
  connection.
\<close>

theorem round_sends_requests:
  assumes "good_fill t fill" and "is_message (orc_msg_ctrl s)" and "few s" and "distinct (map fd_ctrl (fragments s))"
    and "foreach_fragment_send_ctrl turn t fill s = Some (NONE, s')"
  shows "\<exists>ms. length ms = length (fragments s) \<and>
    (\<forall>i < length (fragments s). request_for t fill (of_nat i) (ms ! i) \<and>
       outbox s' (fd_ctrl (fragments s ! i)) = outbox s (fd_ctrl (fragments s ! i)) @ frame_of True t (ms ! i)) \<and>
    (\<forall>fd. fd \<notin> fd_ctrl ` set (fragments s) \<longrightarrow> outbox s' fd = outbox s fd)"
  using assms by (rule round_requests)

text \<open>The same for a single request whose answer was accepted.\<close>

lemma request_response_sends:
  assumes g: "good_fill t (\<lambda>_. fill)" and s: "is_message (orc_msg_ctrl s)"
    and r: "fragment_request_response tx rx i t fill s = Some (NONE, s')"
  shows "\<exists>m. request_for t (\<lambda>_. fill) i m \<and> unat i < length (fragments s) \<and> (let fd = fd_ctrl (fragments s ! unat i) in
    outbox s' = (outbox s)(fd := outbox s fd @ frame_of True t m))"
proof -
  obtain m0 where m0: "orc_prepare_header i t (orc_msg_ctrl s) = Some m0" "has_code True t m0"
    "rd16 m0 4 = i" "rd16 m0 6 = 0" using prepared_header [OF s] by blast
  with r obtain m M s1 where m: "fill m0 = Some m" and M: "finalize m = Some M"
    and i: "unat i < length (fragments s)"
    and s1: "send_with_timeout tx (fd_ctrl (fragments s ! unat i)) (timeout_communication_ms s)
      CTRL_CONNECTION_BROKEN (s\<lparr>orc_msg_ctrl := M\<rparr>) = Some (NONE, s1)"
    and "outbox s' = outbox s1"
    by (auto simp: fragment_request_response_def die_on_error_def bind_eq_Some_conv get_at_def
        recv_with_timeout_def Let_def split: if_splits)
  moreover have req: "request_for t (\<lambda>_. fill) i m" using m0 m by (auto simp: request_for_def)
  note rdy = request_for_ready [OF g req]
  have "M = sealed (payload_size True t m) m" using M finalize_ready [OF rdy(1)] by simp
  ultimately show ?thesis
    using sent_frame [OF rdy(1) _ _ s1] i req by (intro exI [of _ m]) (simp add: Let_def)
qed

subsection \<open>The topology request\<close>

text \<open>The configuration of node \<open>i\<close> in the testcase's graph.\<close>

definition topology_of :: "testcase \<Rightarrow> nat \<Rightarrow> topology_request" where
  "topology_of tc i = (let node = nodes (tc_graph tc) ! i; d = length (adjacency (tc_graph tc) ! i) in
     \<lparr>mixaddr = g_mixaddr node, t_num_neighbors = of_nat d, t_do_random_routing = g_random_routing node,
      t_mixing_factor = g_mixing_factor node, t_root_hello_interval_ms = tc_root_hello_interval_ms tc,
      t_reelection_interval_ms = tc_reelection_interval_ms tc, t_link_costs = g_link_costs node\<rparr>)"

text \<open>Its link costs fill a message of at most 65535 bytes.\<close>

definition small_degrees :: "test_graph \<Rightarrow> bool" where
  "small_degrees g \<longleftrightarrow> (\<forall>adj \<in> set (adjacency g). length adj \<le> 32753)"

lemma fill_topology_writes:
  assumes g: "graph_ok (tc_graph tc)" "small_degrees (tc_graph tc)"
    and m: "length m = 65535" and f: "fill_topology tc i m = Some m'"
  defines "p \<equiv> topology_of tc (unat i)"
  shows "length m' = 65535" "16 + 2 * unat (t_num_neighbors p) \<le> 65523"
    "unat (t_num_neighbors p) = length (t_link_costs p)"
    "off + k \<le> 8 \<Longrightarrow> slice m' off k = slice m off k"
    "slice m' 8 2 = le_bytes 2 (mixaddr p)" "slice m' 10 2 = le_bytes 2 (t_num_neighbors p)"
    "slice m' 12 1 = [if t_do_random_routing p then 1 else 0]" "slice m' 14 2 = le_bytes 2 (t_mixing_factor p)"
    "slice m' 16 4 = le_bytes 4 (t_root_hello_interval_ms p)"
    "slice m' 20 4 = le_bytes 4 (t_reelection_interval_ms p)"
    "slice m' 24 (2 * length (t_link_costs p)) = concat (map (le_bytes 2) (t_link_costs p))"
proof -
  let ?adj = "adjacency (tc_graph tc) ! unat i" and ?node = "nodes (tc_graph tc) ! unat i"
  have i: "unat i < length (nodes (tc_graph tc))" "unat i < length (adjacency (tc_graph tc))"
    using f by (auto simp: fill_topology_def get_at_def split: if_splits)
  then have d: "length ?adj \<le> 32753" "length (g_link_costs ?node) = length ?adj"
    using g by (auto simp: small_degrees_def graph_ok_def)
  have u: "unat (of_nat (length ?adj) :: u16) = length ?adj" using d by (intro unat_of_nat_u16) simp
  let ?w = "wr32 (wr32 (wr8 (wr16 (wr16 (wr16 m 8 (g_mixaddr ?node)) 10 (of_nat (length ?adj))) 14
      (g_mixing_factor ?node)) 12 (if g_random_routing ?node then 1 else 0)) 20
      (tc_reelection_interval_ms tc)) 16 (tc_root_hello_interval_ms tc)"
  have w: "length ?w = 65535" using m by simp
  have "put_elems (le_bytes 2) 24 (g_link_costs ?node) ?w =
      Some (splice ?w 24 (concat (map (le_bytes 2) (g_link_costs ?node))))"
    using d w by (intro f16.put_elems_write) simp
  then have m': "m' = splice ?w 24 (concat (map (le_bytes 2) (g_link_costs ?node)))"
    using f i m d by (simp add: fill_topology_def put_bool_def access_simps)
  have sel: "mixaddr p = g_mixaddr ?node" "t_num_neighbors p = of_nat (length ?adj)"
    "t_do_random_routing p = g_random_routing ?node" "t_mixing_factor p = g_mixing_factor ?node"
    "t_root_hello_interval_ms p = tc_root_hello_interval_ms tc"
    "t_reelection_interval_ms p = tc_reelection_interval_ms tc" "t_link_costs p = g_link_costs ?node"
    by (simp_all add: p_def topology_of_def Let_def)
  show "length m' = 65535" using w d by (simp add: m')
  show "16 + 2 * unat (t_num_neighbors p) \<le> 65523" "unat (t_num_neighbors p) = length (t_link_costs p)"
    using d u by (simp_all add: sel)
  show "slice m' 12 1 = [if t_do_random_routing p then 1 else 0]"
    using w d m slice_wr_same(3) [of 12 "wr16 (wr16 (wr16 m 8 (g_mixaddr ?node)) 10 (of_nat (length ?adj))) 14
      (g_mixing_factor ?node)"]
    by (simp add: m' sel slice_splice_other slice_wr_other del: One_nat_def)
  show "off + k \<le> 8 \<Longrightarrow> slice m' off k = slice m off k"
    "slice m' 8 2 = le_bytes 2 (mixaddr p)" "slice m' 10 2 = le_bytes 2 (t_num_neighbors p)"
    "slice m' 14 2 = le_bytes 2 (t_mixing_factor p)"
    "slice m' 16 4 = le_bytes 4 (t_root_hello_interval_ms p)"
    "slice m' 20 4 = le_bytes 4 (t_reelection_interval_ms p)"
    using w d m by (simp_all add: m' sel slice_splice_other slice_wr_other slice_wr_same)
  show "slice m' 24 (2 * length (t_link_costs p)) = concat (map (le_bytes 2) (t_link_costs p))"
    using w d slice_splice_same [of 24 "concat (map (le_bytes 2) (g_link_costs ?node))" ?w]
    by (simp add: m' sel)
qed

lemma good_fill_topology:
  assumes "graph_ok (tc_graph tc)" "small_degrees (tc_graph tc)"
  shows "good_fill TOPOLOGY (fill_topology tc)"
  unfolding good_fill_def
proof (intro allI impI)
  fix i m m'
  assume m: "has_code True TOPOLOGY m" and f: "fill_topology tc i m = Some m'"
  have l: "length m = 65535" using m by (simp add: has_code_def is_message_def)
  note w = fill_topology_writes [OF assms l f]
  have "rd16 m' off = rd16 m off" if "off + 2 \<le> 8" for off using w(4) [OF that] by (simp add: rd16_def)
  moreover have "rd16 m' 10 = t_num_neighbors (topology_of tc (unat i))"
    by (simp add: rd16_def w(6) f16.dec_enc)
  ultimately show "ready True TOPOLOGY m' \<and> rd16 m' 4 = rd16 m 4 \<and> rd16 m' 6 = rd16 m 6"
    using m w(1,2) by (simp add: ready_def has_code_def is_message_def payload_size_def)
qed

text \<open>The fragment reads back what the orchestrator wrote.\<close>

lemma topology_decoded:
  assumes g: "graph_ok (tc_graph tc)" "small_degrees (tc_graph tc)"
    and q: "request_for TOPOLOGY (fill_topology tc) i m" and R: "received True TOPOLOGY m R"
  shows "get_topology R = Some (topology_of tc (unat i))"
proof -
  let ?p = "topology_of tc (unat i)"
  obtain m0 where "has_code True TOPOLOGY m0" and f: "fill_topology tc i m0 = Some m"
    using q by (auto simp: request_for_def)
  then have "length m0 = 65535" by (simp add: has_code_def is_message_def)
  note w = fill_topology_writes [OF g this f]
  have n: "payload_size True TOPOLOGY m = 16 + 2 * length (t_link_costs ?p)"
    by (simp add: payload_size_def rd16_def w(6) f16.dec_enc w(3) del: One_nat_def)
  note r = received_reads(1) [OF R, unfolded n]
  have l: "length R = 65535" using R by (simp add: received_def is_message_def)
  have c: "get_elems le_word 2 24 (length (t_link_costs ?p)) R = Some (t_link_costs ?p)"
    using r [of 24 "2 * length (t_link_costs ?p)"] l w(2,3,11) by (intro f16.get_elems_read) auto
  show ?thesis
    using r [of 8 2] r [of 10 2] r [of 12 1] r [of 14 2] r [of 16 4] r [of 20 4] l c w
    by (simp add: get_topology_def get_bool_def access_simps rd16_def rd32_def f16.dec_enc f32.dec_enc nth_by_slice)
qed

text \<open>The fragment's answer without a payload, and what the orchestrator makes of it.\<close>

lemma prepared_response:
  assumes "is_message m"
  shows "\<exists>m'. prepare_header f t NONE m = Some m' \<and> has_code False t m' \<and> rd16 m' 4 = fid f \<and> rd16 m' 6 = 0"
  using assms
  by (auto simp: prepare_header_def set_fragment_id_def set_code_def set_error_code_def is_message_def
      has_code_def access_simps error_num_def error_codes_def enum_index_def)

lemma response_sent:
  assumes f: "is_message (msg_ctrl f)" and t: "t \<noteq> NOOP" "\<And>m. payload_size False t m = 0" "t \<noteq> PCAP_DATA"
    and io: "fst io = Some nb" "no_send_error (snd io)" "progress (snd io) = 12"
  shows "\<exists>a f'. send_response io True t NONE no_payload f = Some (NONE, f') \<and> ready False t a \<and>
    rd16 a 4 = fid f \<and> rd16 a 6 = 0 \<and>
    f' = f\<lparr>msg_ctrl := sealed 0 a, ctrl_wire := ctrl_wire f @ frame_of False t a\<rparr>"
proof -
  obtain a where a: "prepare_header f t NONE (msg_ctrl f) = Some a" "has_code False t a" "rd16 a 4 = fid f" "rd16 a 6 = 0"
    using prepared_response [OF f] by blast
  then have r: "ready False t a" using t by (simp add: ready_def)
  have l: "length a = 65535" using a(2) by (simp add: has_code_def is_message_def)
  note sl = sealed_slice [OF l, of 0]
  have "send_loop ctrl_config CTRL_CONNECTION_BROKEN (snd io) 0 (slice (sealed 0 a) 0 12) [] =
      Some (NONE, slice (sealed 0 a) 0 12)"
    using send_loop_blocking [of ctrl_config "snd io" "slice (sealed 0 a) 0 12"] io sl(1)
    by (simp add: block_def ctrl_config_def slice_def)
  then have "msg_send_blocking io (sealed 0 a) CTRL_CONNECTION_BROKEN = Some (NONE, frame_of False t a)"
    using io sl t(2)
    by (simp add: msg_send_blocking_def send_generic_def validate_config_def MIN_MESSAGE_LENGTH_def
        MAX_MESSAGE_LENGTH_def get16_iff read_at_Some frame_of_def slice_def ctrl_config_def block_def try_once_def)
  then show ?thesis
    using a r finalize_ready [OF r] t(2)
    by (auto simp: send_response_def no_payload_def connection_error_def put_msg_def put_wire_def)
qed

lemma answer_accepted:
  assumes R: "received False t a R" and a: "rd16 a 4 = i" "rd16 a 6 = 0"
  shows "orc_check_header R check_id i t = Some NONE"
proof -
  note r = received_reads [OF R]
  have l: "length R = 65535" using R by (simp add: received_def is_message_def)
  have "get_fragment_id R = Some i" "get_error_code R = Some NONE"
    using r(2) [of 4] r(2) [of 6] a l
    by (simp_all add: get_fragment_id_def get_error_code_def get16_iff error_codes_def get_at_def)
  then show ?thesis using r(6-8) by (simp add: orc_check_header_def)
qed

lemma topology_answered:
  assumes g: "graph_ok (tc_graph tc)" "small_degrees (tc_graph tc)"
    and q: "request_for TOPOLOGY (fill_topology tc) (fid f) m"
    and f: "frag_ok up f" "fragment_state f = FS_CREATE_TOPOLOGY"
    and rx: "e_rx e 0 = (Some nb, evs @ [(Arrive [], t1), (Arrive [], t2)])" "all_arrive evs"
      "ctrl_pending f @ stream evs = frame_of True TOPOLOGY m @ later"
    and tx: "fst (e_tx e 0) = Some nb'" "no_send_error (snd (e_tx e 0))" "progress (snd (e_tx e 0)) = 12"
  shows "\<exists>f' a. run_state_create_topology e f = Some (NONE, f') \<and>
    node_ctx f' = Some (init_node_context (topology_of tc (unat (fid f)))) \<and>
    ctrl_wire f' = ctrl_wire f @ frame_of False TOPOLOGY a \<and>
    (\<forall>R. received False TOPOLOGY a R \<longrightarrow> orc_check_header R True (fid f) TOPOLOGY = Some NONE)"
proof -
  note rdy = request_for_ready [OF good_fill_topology [OF g] q]
  obtain R left where R: "received True TOPOLOGY m R" and recv: "msg_recv_blocking (e_rx e 0) (ctrl_pending f)
      (msg_ctrl f) CTRL_CONNECTION_BROKEN = Some (NONE, R, left)"
    using recv_request_received [OF f(1) rdy(1) rx(2) rx(3) [unfolded frame_of_def]] rx(1) by force
  let ?c = "init_node_context (topology_of tc (unat (fid f)))"
  let ?f = "f\<lparr>msg_ctrl := R, ctrl_pending := left, node_ctx := Some ?c\<rparr>"
  have "check_header (f\<lparr>msg_ctrl := R, ctrl_pending := left\<rparr>) True True TOPOLOGY R = Some NONE"
    by (intro received_header [OF R rdy(2,3)]) simp_all
  then have "recv_request (e_rx e 0) True True True TOPOLOGY
      (\<lambda>m f. do { p \<leftarrow> get_topology m; Some (NONE, f\<lparr>node_ctx := Some (init_node_context p)\<rparr>) }) f = Some (NONE, ?f)"
    using recv topology_decoded [OF g q R]
    by (simp add: recv_request_def connection_error_def put_msg_def put_pending_def Let_def)
  moreover have "is_message (msg_ctrl ?f)" using R by (simp add: received_def)
  then obtain a f' where "send_response (e_tx e 0) True TOPOLOGY NONE no_payload ?f = Some (NONE, f')"
    "rd16 a 4 = fid ?f" "rd16 a 6 = 0"
    "f' = ?f\<lparr>msg_ctrl := sealed 0 a, ctrl_wire := ctrl_wire ?f @ frame_of False TOPOLOGY a\<rparr>"
    using response_sent [OF _ _ _ _ tx, of ?f TOPOLOGY] by (auto simp: payload_size_def)
  ultimately show ?thesis
    using f(2) answer_accepted
    by (intro exI [of _ f'] exI [of _ a])
       (simp add: run_state_create_topology_def die_on_error_def)
qed

text \<open>
  C11. A node gets its own place in the testcase's graph. After a TOPOLOGY round without an
  error, the fragment with index \<open>i\<close> that reads the bytes sent to its connection, in any pieces,
  accepts the request and starts a node with the mixnet address, the links and their costs, the
  timers and the mixing and routing settings that the testcase gives node \<open>i\<close>. It answers with
  one message, and the orchestrator accepts that as the answer of fragment \<open>i\<close>.
\<close>

theorem topology_reaches_node:
  assumes "graph_ok (tc_graph tc)" and "small_degrees (tc_graph tc)"
    and "is_message (orc_msg_ctrl s)" and "few s" and "distinct (map fd_ctrl (fragments s))"
    and "foreach_fragment_send_ctrl turn TOPOLOGY (fill_topology tc) s = Some (NONE, s')"
    and "unat i < length (fragments s)" and "outbox s (fd_ctrl (fragments s ! unat i)) = []"
    and "frag_ok False f" and "fid f = i" and "fragment_state f = FS_CREATE_TOPOLOGY"
    and "e_rx e 0 = (Some nb, evs @ [(Arrive [], t1), (Arrive [], t2)])" and "all_arrive evs"
    and "ctrl_pending f @ stream evs = outbox s' (fd_ctrl (fragments s ! unat i))"
    and "fst (e_tx e 0) = Some nb'" and "no_send_error (snd (e_tx e 0))" and "progress (snd (e_tx e 0)) = 12"
  shows "\<exists>f' a. run_state_create_topology e f = Some (NONE, f') \<and>
    node_ctx f' = Some (init_node_context (topology_of tc (unat i))) \<and>
    ctrl_wire f' = ctrl_wire f @ frame_of False TOPOLOGY a \<and>
    (\<forall>R. received False TOPOLOGY a R \<longrightarrow> orc_check_header R True i TOPOLOGY = Some NONE)"
proof -
  from round_requests [OF good_fill_topology [OF assms(1,2)] assms(3-6)] assms(7,8)
  obtain m where "request_for TOPOLOGY (fill_topology tc) (of_nat (unat i)) m"
    "outbox s' (fd_ctrl (fragments s ! unat i)) = frame_of True TOPOLOGY m"
    by fastforce
  with topology_answered [OF assms(1,2) _ assms(9,11-13) _ assms(15-17), of m "[]"] assms(10,14)
  show ?thesis by simp
qed

subsection \<open>A network that takes every byte at once\<close>

definition fast :: "(nat \<Rightarrow> nat) \<Rightarrow> nat \<Rightarrow> send_turn" where
  "fast len idx = ((Some True, [(Sent (12 + len idx), 0)]), 5)"

lemma send_fast:
  assumes r: "ready True t m" "payload_size True t m = n" and tm: "0 < tm"
  shows "send_with_timeout (Some True, [(Sent (12 + n), 0)]) fd tm e (s\<lparr>orc_msg_ctrl := sealed n m\<rparr>) =
    Some (NONE, s\<lparr>orc_msg_ctrl := sealed n m, outbox := (outbox s)(fd := outbox s fd @ frame_of True t m)\<rparr>)"
proof -
  have lm: "length m = 65535" "12 + n \<le> 65535" using r by (auto simp: ready_def has_code_def is_message_def)
  note sl = sealed_slice [OF lm]
  let ?M = "sealed n m"
  have u: "unat (rd16 ?M 0) = 12 + n" using sl(3) lm(2) unat_of_nat_u16 [of "12 + n"] by simp
  have out: "send_loop (timed tm) e [(Sent (12 + n), 0)] 0 (slice ?M 0 (12 + n)) [] = Some (NONE, slice ?M 0 (12 + n))"
    using tm sl(1) lm(2)
    by (subst send_loop.simps) (simp add: send_loop.simps timed_def use_timeout_def timeout_def slice_def)
  have "validate_config (Some True) (timed tm) True = NONE"
    by (simp add: validate_config_def timed_def block_def try_once_def)
  then show ?thesis
    using u out sl(1) lm(2) r(2)
    by (simp add: send_with_timeout_def send_generic_def get16_iff read_at_Some MIN_MESSAGE_LENGTH_def
        MAX_MESSAGE_LENGTH_def frame_of_def slice_def)
qed

lemma fast_time: "snd (fast len idx) = 5"
  by (simp add: fast_def)

lemma fast_round:
  assumes g: "good_fill t fill"
    and fill: "\<And>i m. i < n \<Longrightarrow> has_code True t m \<Longrightarrow> \<exists>m'. fill (of_nat i) m = Some m' \<and> payload_size True t m' = len i"
  shows "idx + length fds = n \<Longrightarrow> 0 < timer \<Longrightarrow> (0 :: u64) < of_int timer \<Longrightarrow> has_code True t (orc_msg_ctrl s) \<Longrightarrow>
    \<exists>s'. foreach_send_loop (fast len) fill e timer idx fds NONE k s = Some (NONE, k - of_nat (length fds), s')"
proof (induction fds arbitrary: timer idx s k)
  case Nil
  then show ?case by simp
next
  case (Cons fd fds)
  let ?m0 = "wr16 (orc_msg_ctrl s) 4 (of_nat idx)"
  have l: "length (orc_msg_ctrl s) = 65535" using Cons.prems(4) by (simp add: has_code_def is_message_def)
  have m0: "has_code True t ?m0" using Cons.prems(4) l by (simp add: has_code_wr16)
  then obtain m where m: "fill (of_nat idx) ?m0 = Some m" "payload_size True t m = len idx"
    using fill [of idx] Cons.prems(1) by auto
  then have r: "ready True t m" using g m0 by (auto simp: good_fill_def)
  let ?M = "sealed (len idx) m"
  obtain s1 where s1: "send_with_timeout (fst (fast len idx)) fd (of_int timer) e (s\<lparr>orc_msg_ctrl := ?M\<rparr>) = Some (NONE, s1)"
    "orc_msg_ctrl s1 = ?M"
    using send_fast [OF r m(2) Cons.prems(3), of fd e s] by (simp add: fast_def)
  have "has_code True t (orc_msg_ctrl s1)" using ready_sealed(2) [OF r] m(2) s1(2) by (simp add: ready_def)
  then obtain s' where "foreach_send_loop (fast len) fill e 5 (Suc idx) fds NONE (k - 1) s1 =
      Some (NONE, k - 1 - of_nat (length fds), s')"
    using Cons.IH [of "Suc idx" 5 s1 "k - 1"] Cons.prems(1) by auto
  moreover have "set_fragment_id (of_nat idx) (orc_msg_ctrl s) = Some ?m0"
    using l by (simp add: set_fragment_id_def access_simps)
  ultimately show ?case
    using Cons.prems(2) m(1) finalize_ready [OF r] m(2) s1(1)
    by (simp add: fast_time diff_diff_eq)
qed

text \<open>A complete message that waits in the kernel is received within the time.\<close>

lemma recv_timed_complete:
  assumes c: "use_timeout c" "0 < timeout c" and m: "2 \<le> mn" "mn \<le> mx" "mx \<le> length b" and P: "frame_complete mn mx P"
  shows "\<exists>b'. recv_generic c (Some True) quiet P b e mn mx = Returns (NONE, b', drop (frame_len P) P) \<and>
    length b' = length b \<and> take (frame_len P) b' = take (frame_len P) P"
proof -
  let ?L = "frame_len P"
  have t: "\<not> try_once c" "\<not> block c" using c modes by blast+
  have L: "2 \<le> length P" "mn \<le> ?L" "?L \<le> mx" "?L \<le> length P" "P \<noteq> []" using P by (auto simp: frame_complete_def)
  have "get16 (splice b 0 (take 2 P)) 0 = Some (rd16 P 0)"
    using L m get16_splice_front [of "take 2 P" b] by (simp add: rd16_def slice_def min_def)
  moreover have "validate_config (Some True) c False = NONE" by (simp add: validate_config_def)
  moreover have q: "quiet = [(Arrive [], 0), (Arrive [], 0), (Arrive [], 0)]" by (simp add: quiet_def numeral_3_eq_3)
  ultimately show ?thesis
    using L m c t
    unfolding q
    by (simp add: recv_generic_def recv_init_def recv_step_def sock_recv_quiet recv_loop.simps write_at_def
        frame_len_def [of P, symmetric] splice_def Let_def)
      arith
qed

lemma request_completes:
  assumes g: "good_fill t (\<lambda>_. fill)"
    and fill: "\<And>m. has_code True t m \<Longrightarrow> \<exists>m'. fill m = Some m' \<and> payload_size True t m' = n"
    and s: "is_message (orc_msg_ctrl s)" "unat i < length (fragments s)" "0 < timeout_communication_ms s"
    and a: "ready False t a" "rd16 a 4 = i" "rd16 a 6 = 0"
      "inbox s (fd_ctrl (fragments s ! unat i)) = frame_of False t a"
  shows "\<exists>s'. fragment_request_response (Some True, [(Sent (12 + n), 0)]) (Some True, quiet) i t fill s = Some (NONE, s')"
proof -
  obtain m0 where m0: "orc_prepare_header i t (orc_msg_ctrl s) = Some m0" "has_code True t m0"
    using prepared_header [OF s(1)] by blast
  obtain m where m: "fill m0 = Some m" "payload_size True t m = n" using fill [OF m0(2)] by blast
  then have r: "ready True t m" using g m0(2) by (auto simp: good_fill_def)
  let ?fd = "fd_ctrl (fragments s ! unat i)" and ?c = "timed (timeout_communication_ms s)"
  let ?s1 = "s\<lparr>orc_msg_ctrl := sealed n m, outbox := (outbox s)(?fd := outbox s ?fd @ frame_of True t m)\<rparr>"
  have la: "length a = 65535" "12 + payload_size False t a \<le> 65535" using a(1) by (auto simp: ready_def has_code_def is_message_def)
  note sa = sealed_slice [OF la]
  let ?F = "frame_of False t a"
  have F: "frame_len ?F = 12 + payload_size False t a" "length ?F = 12 + payload_size False t a"
    using sa(1,3) la(2) unat_of_nat_u16 [of "12 + payload_size False t a"]
    by (simp_all add: frame_of_def frame_len_def rd16_def slice_def)
  have lm: "length (sealed n m) = 65535" using r m(2) sealed_slice(1) [of m n] by (auto simp: ready_def has_code_def is_message_def)
  have c: "use_timeout ?c" "0 < timeout ?c" using s(3) by (simp_all add: timed_def use_timeout_def timeout_def)
  have "frame_complete MIN_MESSAGE_LENGTH MAX_MESSAGE_LENGTH ?F"
    using F la(2) by (simp add: frame_complete_def MAX_MESSAGE_LENGTH_def)
  from recv_timed_complete [OF c _ _ _ this, of "sealed n m" CTRL_CONNECTION_BROKEN] lm
  obtain R left where R: "recv_generic ?c (Some True) quiet ?F (sealed n m) CTRL_CONNECTION_BROKEN
      MIN_MESSAGE_LENGTH MAX_MESSAGE_LENGTH = Returns (NONE, R, left)" "length R = 65535"
    "take (frame_len ?F) R = take (frame_len ?F) ?F"
    by (auto simp: MAX_MESSAGE_LENGTH_def)
  then have "received False t a R" using a(1) F(1) by (simp add: received_def is_message_def frame_of_def)
  from answer_accepted [OF this a(2,3)] have h: "orc_check_header R True i t = Some NONE" .
  have "get_at (fragments s) (unat i) = Some (fragments s ! unat i)" using s(2) by (simp add: get_at_def)
  then show ?thesis
    using m0(1) m finalize_ready [OF r] send_fast [OF r m(2) s(3), of ?fd CTRL_CONNECTION_BROKEN s] R h a(4)
    by (simp add: fragment_request_response_def die_on_error_def recv_with_timeout_def Let_def)
qed

lemma fill_topology_size:
  assumes g: "graph_ok (tc_graph tc)" "small_degrees (tc_graph tc)" and i: "unat i < length (nodes (tc_graph tc))"
    and m: "has_code True TOPOLOGY m"
  shows "\<exists>m'. fill_topology tc i m = Some m' \<and>
    payload_size True TOPOLOGY m' = 16 + 2 * length (adjacency (tc_graph tc) ! unat i)"
proof -
  let ?adj = "adjacency (tc_graph tc) ! unat i"
  have l: "length m = 65535" using m by (simp add: has_code_def is_message_def)
  have n: "unat i < length (adjacency (tc_graph tc))" "length (g_link_costs (nodes (tc_graph tc) ! unat i)) = length ?adj"
    using g(1) i by (auto simp: graph_ok_def)
  then have d: "length ?adj \<le> 32753" using g(2) by (auto simp: small_degrees_def)
  from n d i l have "\<exists>m'. fill_topology tc i m = Some m'"
    by (simp add: fill_topology_def put_bool_def access_simps f16.put_elems_write)
  then obtain m' where f: "fill_topology tc i m = Some m'" ..
  note w = fill_topology_writes [OF g l f]
  have "length (t_link_costs (topology_of tc (unat i))) = length ?adj"
    using n by (simp add: topology_of_def Let_def)
  then show ?thesis using f w(3) by (simp add: payload_size_def rd16_def w(6) f16.dec_enc)
qed

text \<open>A link between two nodes, with different costs in the two directions.\<close>

definition one_link :: testcase where
  "one_link = \<lparr>tc_graph = \<lparr>num_nodes = 2,
       nodes = [(graph_node_new 40)\<lparr>g_link_costs := [7]\<rparr>, (graph_node_new 41)\<lparr>g_link_costs := [9]\<rparr>],
       adjacency = [[1], [0]]\<rparr>,
     tc_root_hello_interval_ms = 100, tc_reelection_interval_ms = 1000\<rparr>"

lemma one_link_ok: "graph_ok (tc_graph one_link)" "small_degrees (tc_graph one_link)"
proof -
  have 2: "(a :: u16) < 2 \<longleftrightarrow> a = 0 \<or> a = 1" for a by (auto simp: word_less_nat_alt word_unat_eq_iff)
  have "linked_to (tc_graph one_link) a b \<longleftrightarrow> (a, b) \<in> {(0, 1), (1, 0)}" for a b
    by (auto simp: linked_to_def one_link_def 2)
  then show "graph_ok (tc_graph one_link)"
    by (simp add: graph_ok_def) (auto simp: one_link_def graph_node_new_def dest!: less_2_cases)
  show "small_degrees (tc_graph one_link)" by (simp add: small_degrees_def one_link_def)
qed

definition two_fragments :: orchestrator where
  "two_fragments = (orchestrator_new (replicate 65535 0) (replicate 65535 0) one_link)\<lparr>fragments :=
     [fragment_metadata_new\<lparr>fd_ctrl := 7\<rparr>, fragment_metadata_new\<lparr>fd_ctrl := 8\<rparr>]\<rparr>"

lemma two_fragments_ok:
  "is_message (orc_msg_ctrl two_fragments)" "few two_fragments" "distinct (map fd_ctrl (fragments two_fragments))"
  "length (fragments two_fragments) = 2" "outbox two_fragments fd = []"
  "map fd_ctrl (fragments two_fragments) = [7, 8]" "timeout_communication_ms two_fragments = 1000"
  by (simp_all add: two_fragments_def orchestrator_new_def is_message_def few_def fragment_metadata_new_def
      DEFAULT_WAIT_TIME_MS_def)

lemma topology_round: "\<exists>s'. foreach_fragment_send_ctrl (fast (\<lambda>_. 18)) TOPOLOGY (fill_topology one_link) two_fragments = Some (NONE, s')"
proof -
  obtain m0 where m0: "orc_prepare_header 0 TOPOLOGY (orc_msg_ctrl two_fragments) = Some m0" "has_code True TOPOLOGY m0"
    using prepared_header [OF two_fragments_ok(1)] by blast
  have fill: "\<exists>m'. fill_topology one_link (of_nat i) m = Some m' \<and> payload_size True TOPOLOGY m' = 18"
    if "i < 2" "has_code True TOPOLOGY m" for i m
    using less_2_cases [OF that(1)] fill_topology_size [OF one_link_ok _ that(2), of 0]
      fill_topology_size [OF one_link_ok _ that(2), of 1]
    by (elim disjE) (simp_all add: one_link_def)
  have "\<exists>s'. foreach_send_loop (fast (\<lambda>_. 18)) (fill_topology one_link) CTRL_CONNECTION_BROKEN 1000 0 [7, 8] NONE 2
      (two_fragments\<lparr>orc_msg_ctrl := m0\<rparr>) = Some (NONE, 2 - of_nat (length [7 :: int, 8]), s')"
    by (rule fast_round [OF good_fill_topology [OF one_link_ok] fill]) (simp_all add: m0(2))
  then show ?thesis
    by (auto simp: foreach_fragment_send_ctrl_def foreach_fragment_send_generic_def two_fragments_ok m0(1)
        simp del: foreach_send_loop.simps)
qed

lemma round_sends_requests_witness:
  "\<exists>s' m. foreach_fragment_send_ctrl (fast (\<lambda>_. 18)) TOPOLOGY (fill_topology one_link) two_fragments = Some (NONE, s') \<and>
     request_for TOPOLOGY (fill_topology one_link) 1 m \<and> outbox s' 8 = frame_of True TOPOLOGY m \<and> outbox s' 9 = []"
proof -
  obtain s' where s': "foreach_fragment_send_ctrl (fast (\<lambda>_. 18)) TOPOLOGY (fill_topology one_link) two_fragments = Some (NONE, s')"
    using topology_round by blast
  note f = two_fragments_ok
  have "fd_ctrl (fragments two_fragments ! 1) = 8" "fd_ctrl ` set (fragments two_fragments) = {7, 8}"
    by (simp_all add: two_fragments_def fragment_metadata_new_def)
  moreover from round_sends_requests [OF good_fill_topology [OF one_link_ok] f(1-3) s'] f(4,5)
  obtain ms where "request_for TOPOLOGY (fill_topology one_link) (of_nat 1) (ms ! 1) \<and>
      outbox s' (fd_ctrl (fragments two_fragments ! 1)) = frame_of True TOPOLOGY (ms ! 1)"
    "\<forall>fd. fd \<notin> fd_ctrl ` set (fragments two_fragments) \<longrightarrow> outbox s' fd = []"
    by (metis append_Nil one_less_numeral_iff semiring_norm(76))
  ultimately have "request_for TOPOLOGY (fill_topology one_link) (of_nat 1) (ms ! 1)"
    "outbox s' 8 = frame_of True TOPOLOGY (ms ! 1)" "outbox s' 9 = []"
    by simp_all
  then show ?thesis using s' by auto
qed

lemma topology_reaches_node_witness:
  "\<exists>s' e f f'. foreach_fragment_send_ctrl (fast (\<lambda>_. 18)) TOPOLOGY (fill_topology one_link) two_fragments = Some (NONE, s') \<and>
     run_state_create_topology e f = Some (NONE, f') \<and>
     node_ctx f' = Some (init_node_context \<lparr>mixaddr = 41, t_num_neighbors = 1, t_do_random_routing = False,
       t_mixing_factor = 1, t_root_hello_interval_ms = 100, t_reelection_interval_ms = 1000, t_link_costs = [9]\<rparr>)"
proof -
  obtain s' where s': "foreach_fragment_send_ctrl (fast (\<lambda>_. 18)) TOPOLOGY (fill_topology one_link) two_fragments = Some (NONE, s')"
    using topology_round by blast
  let ?f = "example_fragment\<lparr>fid := 1, fragment_state := FS_CREATE_TOPOLOGY\<rparr>"
  let ?w = "outbox s' (fd_ctrl (fragments two_fragments ! unat (1 :: u16)))"
  let ?e = "no_socket_env\<lparr>e_rx := (\<lambda>_. (Some False, [(Arrive (take 5 ?w), 0), (Arrive (drop 5 ?w), 0)] @
      [(Arrive [], 0), (Arrive [], 0)])), e_tx := (\<lambda>_. (Some False, [(Sent 12, 0)]))\<rparr>"
  note f = two_fragments_ok
  have "frag_ok False ?f" using example_fragment_ok by (simp add: frag_ok_frame)
  moreover have "unat (1 :: u16) < length (fragments two_fragments)" using f(4) by simp
  moreover have "ctrl_pending ?f @ stream [(Arrive (take 5 ?w), 0 :: u64), (Arrive (drop 5 ?w), 0)] = ?w"
    by (simp add: stream_def arrived_def example_fragment_def fragment_new_def del: One_nat_def)
  moreover have "topology_of one_link 1 = \<lparr>mixaddr = 41, t_num_neighbors = 1, t_do_random_routing = False,
       t_mixing_factor = 1, t_root_hello_interval_ms = 100, t_reelection_interval_ms = 1000, t_link_costs = [9]\<rparr>"
    by (simp add: topology_of_def one_link_def graph_node_new_def Let_def)
  ultimately show ?thesis
    using topology_reaches_node [OF one_link_ok f(1-3) s', of 1 ?f ?e False
        "[(Arrive (take 5 ?w), 0), (Arrive (drop 5 ?w), 0)]" 0 0 False] f(5) s'
    by (fastforce simp: all_arrive_def no_send_error_def no_socket_env_def)
qed

end
