(* ===== verification/Shortest_Paths.thy ===== *)
theory Shortest_Paths
  imports Topology "HOL-Library.List_Lexorder" "HOL-Library.Product_Lexorder"
begin

text \<open>
  \<open>path_is_better\<close> and \<open>run_dijkstra\<close> of \<open>mixnet/node.c\<close>, with their specification: the
  routes of a graph are the simple paths from the source, ordered by cost and then by the
  addresses along them, and Dijkstra returns the least one for every vertex. Costs are 32-bit
  words as in the code; that no sum wraps is proved, not assumed.
\<close>

named_theorems route_simps \<open>facts about routes and their keys\<close>

subsection \<open>The code\<close>

definition INFINITE_COST :: u32 where
  "INFINITE_COST = 4294967295"

text \<open>\<open>sp_path\<close> is the used part of the path row, \<open>path_len\<close> its length.\<close>

record sp_vertex =
  sp_cost :: u32
  sp_path :: "mixnet_address list"
  settled :: bool

text \<open>The scan of the common part of two paths, then the comparison of their lengths.\<close>

fun path_less :: "mixnet_address list \<Rightarrow> mixnet_address list \<Rightarrow> bool" where
  "path_less (a # as) (b # bs) = (if a \<noteq> b then a < b else path_less as bs)"
| "path_less as bs = (length as < length bs)"

definition path_is_better ::
  "u32 \<Rightarrow> mixnet_address list \<Rightarrow> u32 \<Rightarrow> mixnet_address list \<Rightarrow> bool" where
  "path_is_better cost_a path_a cost_b path_b =
     (if cost_a \<noteq> cost_b then cost_a < cost_b else path_less path_a path_b)"

definition sp_init :: "graph \<Rightarrow> nat \<Rightarrow> sp_vertex list" where
  "sp_init g self =
     (replicate (count g) \<lparr>sp_cost = INFINITE_COST, sp_path = [], settled = False\<rparr>)
       [self := \<lparr>sp_cost = 0, sp_path = [], settled = False\<rparr>]"

text \<open>The scan for the best vertex that is reached and not settled; \<open>None\<close> is u = -1.\<close>

definition pick_step :: "sp_vertex list \<Rightarrow> nat option \<Rightarrow> nat \<Rightarrow> nat option" where
  "pick_step sp u i =
     (if settled (sp ! i) \<or> sp_cost (sp ! i) = INFINITE_COST then u
      else (case u of
              None \<Rightarrow> Some i
            | Some j \<Rightarrow>
                if path_is_better (sp_cost (sp ! i)) (sp_path (sp ! i))
                     (sp_cost (sp ! j)) (sp_path (sp ! j))
                then Some i else u))"

definition pick_best :: "sp_vertex list \<Rightarrow> nat option" where
  "pick_best sp = foldl (pick_step sp) None [0..<length sp]"

text \<open>Relaxing one outgoing link of the settled vertex \<open>u\<close>.\<close>

definition relax_link ::
  "graph \<Rightarrow> nat \<Rightarrow> sp_vertex list \<Rightarrow> mixnet_lsa_link_params \<Rightarrow> sp_vertex list" where
  "relax_link g u sp l =
     (case id_find g (neighbor_mixaddr l) of
        None \<Rightarrow> sp
      | Some w \<Rightarrow>
          if settled (sp ! w) then sp
          else
            (let c = sp_cost (sp ! u) + ucast (cost l);
                 candidate = sp_path (sp ! u) @ [neighbor_mixaddr l]
             in if path_is_better c candidate (sp_cost (sp ! w)) (sp_path (sp ! w))
                then sp[w := (sp ! w)\<lparr>sp_cost := c, sp_path := candidate\<rparr>]
                else sp))"

definition settle :: "graph \<Rightarrow> nat \<Rightarrow> sp_vertex list \<Rightarrow> sp_vertex list" where
  "settle g u sp =
     foldl (relax_link g u) (sp[u := (sp ! u)\<lparr>settled := True\<rparr>]) (links (verts g ! u))"

subsection \<open>Termination of the settling loop\<close>

definition unsettled :: "sp_vertex list \<Rightarrow> nat set" where
  "unsettled sp = {i. i < length sp \<and> \<not> settled (sp ! i)}"

lemma finite_unsettled [simp]: "finite (unsettled sp)"
  by (simp add: unsettled_def)

lemma relax_link_settled [simp]:
  "length (relax_link g u sp l) = length sp"
  "settled (relax_link g u sp l ! i) = settled (sp ! i)"
  by (auto simp: relax_link_def Let_def nth_update_if split: option.split)

lemma relax_links_settled [simp]:
  "length (foldl (relax_link g u) sp ls) = length sp"
  "settled (foldl (relax_link g u) sp ls ! i) = settled (sp ! i)"
  by (induction ls arbitrary: sp) simp_all

lemma settle_settled [simp]:
  "length (settle g u sp) = length sp"
  "u < length sp \<Longrightarrow> settled (settle g u sp ! i) \<longleftrightarrow> settled (sp ! i) \<or> i = u"
  by (auto simp: settle_def nth_update_if)

definition eligible :: "sp_vertex list \<Rightarrow> nat \<Rightarrow> bool" where
  "eligible sp i \<longleftrightarrow> i < length sp \<and> \<not> settled (sp ! i) \<and> sp_cost (sp ! i) \<noteq> INFINITE_COST"

lemma pick_upto_eligible:
  "foldl (pick_step sp) None [0..<n] = Some u \<Longrightarrow> n \<le> length sp \<Longrightarrow> eligible sp u \<and> u < n"
  by (induction n arbitrary: u)
     (auto simp: pick_step_def eligible_def split: if_splits option.splits)

lemma pick_best_eligible: "pick_best sp = Some u \<Longrightarrow> eligible sp u"
  using pick_upto_eligible by (auto simp: pick_best_def)

lemma unsettled_settle:
  assumes "eligible sp u"
  shows "unsettled (settle g u sp) = unsettled sp - {u}" and "u \<in> unsettled sp"
  using assms by (auto simp: unsettled_def eligible_def)

function dijkstra_loop :: "graph \<Rightarrow> sp_vertex list \<Rightarrow> sp_vertex list" where
  "dijkstra_loop g sp =
     (case pick_best sp of None \<Rightarrow> sp | Some u \<Rightarrow> dijkstra_loop g (settle g u sp))"
  by pat_completeness auto
termination
  by (relation "measure (\<lambda>(g, sp). card (unsettled sp))")
     (auto simp: unsettled_settle(1) intro!: card_Diff1_less unsettled_settle(2)
        dest!: pick_best_eligible simp del: card_Diff_insert)

declare dijkstra_loop.simps [simp del]

text \<open>\<open>ok\<close> is the outcome of the single allocation; \<open>None\<close> is a NULL result.\<close>

definition run_dijkstra :: "bool \<Rightarrow> graph \<Rightarrow> nat \<Rightarrow> sp_vertex list option" where
  "run_dijkstra ok g self =
     (if count g = 0 then None
      else if \<not> ok then None
      else Some (dijkstra_loop g (sp_init g self)))"

subsection \<open>Routes: the specification\<close>

text \<open>
  \<open>route_to g s u c p\<close>: starting at vertex \<open>s\<close>, the addresses \<open>p\<close> lead along advertised links to
  vertex \<open>u\<close>, at total cost \<open>c\<close>, without entering a vertex twice. The last address of \<open>p\<close> is
  that of \<open>u\<close>; the source itself is not listed.
\<close>

inductive route_to :: "graph \<Rightarrow> nat \<Rightarrow> nat \<Rightarrow> nat \<Rightarrow> mixnet_address list \<Rightarrow> bool"
  for g :: graph and s :: nat where
  here: "route_to g s s 0 []"
| step: "route_to g s u c p \<Longrightarrow> l \<in> set (links (verts g ! u)) \<Longrightarrow>
    id_find g (neighbor_mixaddr l) = Some w \<Longrightarrow> w \<noteq> s \<Longrightarrow> neighbor_mixaddr l \<notin> set p \<Longrightarrow>
    route_to g s w (c + unat (cost l)) (p @ [neighbor_mixaddr l])"

inductive_cases route_to_snocE: "route_to g s u c (p @ [a])"

inductive_simps route_to_Nil [simp]: "route_to g s u c []"

lemma route_end:
  "route_to g s u c p \<Longrightarrow>
   u = s \<and> p = [] \<and> c = 0 \<or>
   u \<noteq> s \<and> p \<noteq> [] \<and> last p = addr (verts g ! u) \<and> u < count g"
  by (induction rule: route_to.induct) (auto dest: id_find_SomeD)

lemma route_distinct: "route_to g s u c p \<Longrightarrow> distinct p"
  by (induction rule: route_to.induct) auto

lemma route_addrs:
  assumes "route_to g s u c p" and "wf_table g" and "s < count g"
  shows "set p \<subseteq> set (addrs g) - {addr (verts g ! s)}"
  using assms
proof (induction rule: route_to.induct)
  case here
  then show ?case by simp
next
  case (step u c p l w)
  have "neighbor_mixaddr l \<in> set (addrs g)" 
    using step.hyps(3) by (metis id_find_None_iff option.distinct(1))
  moreover have "neighbor_mixaddr l \<noteq> addr (verts g ! s)"
    using step.hyps(3,4) step.prems id_find_complete by (auto simp: wf_table_def)
  ultimately show ?case using step by auto
qed

lemma route_length:
  assumes "route_to g s u c p" and "wf_table g" and "s < count g"
  shows "length p < count g"
proof -
  have s: "addr (verts g ! s) \<in> set (addrs g)" using assms(3) by (auto simp: addrs_def count_def)
  have "length p = card (set p)" using route_distinct [OF assms(1)] by (simp add: distinct_card)
  also have "\<dots> < card (set (addrs g))"
    using route_addrs [OF assms] s by (intro psubset_card_mono) auto
  also have "\<dots> = count g"
    using assms(2) by (metis addrs_def count_def distinct_card length_map wf_table_def)
  finally show ?thesis .
qed

lemma route_cost: "route_to g s u c p \<Longrightarrow> c \<le> 65535 * length p"
proof (induction rule: route_to.induct)
  case (step u c p l w)
  moreover have "unat (cost l) \<le> 65535" by (rule unat_u16_le)
  ultimately show ?case by simp
qed simp

text \<open>No route cost reaches the 32-bit infinity: this is why the sums of the code do not wrap.\<close>

lemma route_cost_bound:
  assumes "route_to g s u c p" and "wf_table g" and "s < count g"
  shows "c \<le> 2147385345"
proof -
  have "length p \<le> 32767"
    using route_length [OF assms] wf_table_count [OF assms(2)] by simp
  then show ?thesis using route_cost [OF assms(1)] by simp
qed

subsection \<open>The order of routes\<close>

lemma Nil_less_iff [simp]: "[] < (bs :: mixnet_address list) \<longleftrightarrow> bs \<noteq> []"
  by (cases bs) simp_all

lemma path_less_iff: "path_less as bs \<longleftrightarrow> as < bs"
  by (induction as bs rule: path_less.induct) (auto simp: neq_Nil_conv)

lemma path_is_better_iff [route_simps]:
  "path_is_better ca pa cb pb \<longleftrightarrow> (unat ca, pa) < (unat cb, pb)"
  by (auto simp: path_is_better_def path_less_iff word_less_nat_alt less_le word_unat_eq_iff)

lemma less_snoc:
  fixes p q :: "mixnet_address list"
  assumes "p < q" and "\<And>r. r \<noteq> [] \<Longrightarrow> q \<noteq> p @ r"
  shows "p @ xs < q @ ys"
  using assms
proof (induction p arbitrary: q)
  case Nil
  then show ?case by (cases q) auto
next
  case (Cons a p)
  then obtain b q' where q: "q = b # q'" by (cases q) auto
  show ?case
  proof (cases "a < b")
    case True
    with q show ?thesis by simp
  next
    case False
    with Cons.prems(1) q have "a = b" "p < q'" by auto
    with Cons.prems(2) q have "\<And>r. r \<noteq> [] \<Longrightarrow> q' \<noteq> p @ r" by auto
    with Cons.IH \<open>p < q'\<close> \<open>a = b\<close> q show ?thesis by simp
  qed
qed

text \<open>Two routes to the same vertex are never prefixes of one another.\<close>

lemma route_not_prefix:
  assumes "route_to g s u c p" and "route_to g s u d q" and "r \<noteq> []"
  shows "q \<noteq> p @ r"
proof
  assume q: "q = p @ r"
  show False
  proof (cases "p = []")
    case True
    then have "u = s" using route_end [OF assms(1)] by auto
    then show False using route_end [OF assms(2)] q assms(3) by auto
  next
    case False
    then have "last p = last q" using route_end [OF assms(1)] route_end [OF assms(2)] q by auto
    then have "last p = last r" using q assms(3) by simp
    then have "last p \<in> set r" using last_in_set [OF assms(3)] by simp
    moreover have "last p \<in> set p" using False by simp
    moreover have "set p \<inter> set r = {}" using route_distinct [OF assms(2)] q by simp
    ultimately show False by blast
  qed
qed

text \<open>Extending two routes to a vertex by the same link keeps their order.\<close>

lemma route_extend_mono:
  assumes "route_to g s u c p" and "route_to g s u d q" and "(c, p) \<le> (d, q)"
  shows "(c + k, p @ [a]) \<le> (d + k, q @ [a])"
proof (cases "c < d \<or> p = q")
  case True
  then show ?thesis using assms(3) by auto
next
  case False
  with assms(3) have eq: "c = d" and "p < q" by auto
  then have "p @ [a] < q @ [a]"
    using route_not_prefix [OF assms(1,2)] by (intro less_snoc) auto
  with eq show ?thesis by simp
qed

lemma snoc_greater: "(c :: nat, p :: mixnet_address list) < (c + k, p @ [a])"
proof -
  have "p < p @ [a]" by (induction p) simp_all
  then show ?thesis by simp
qed

subsection \<open>The loop invariant\<close>

definition key :: "sp_vertex list \<Rightarrow> nat \<Rightarrow> nat \<times> mixnet_address list" where
  "key sp i = (unat (sp_cost (sp ! i)), sp_path (sp ! i))"

abbreviation reached :: "sp_vertex list \<Rightarrow> nat \<Rightarrow> bool" where
  "reached sp i \<equiv> sp_cost (sp ! i) \<noteq> INFINITE_COST"

text \<open>Every finite entry is a route, all of whose vertices but its end are settled.\<close>

definition sound :: "graph \<Rightarrow> nat \<Rightarrow> sp_vertex list \<Rightarrow> bool" where
  "sound g s sp \<longleftrightarrow>
     length sp = count g
     \<and> (\<forall>i < count g. reached sp i \<longrightarrow>
          route_to g s i (fst (key sp i)) (snd (key sp i))
          \<and> (\<forall>a \<in> set (sp_path (sp ! i)). a = addr (verts g ! i) \<or>
               (\<exists>j < count g. addr (verts g ! j) = a \<and> settled (sp ! j))))
     \<and> (\<forall>i < count g. settled (sp ! i) \<longrightarrow> reached sp i)"

text \<open>The source goes first.\<close>

definition started :: "graph \<Rightarrow> nat \<Rightarrow> sp_vertex list \<Rightarrow> bool" where
  "started g s sp \<longleftrightarrow>
     settled (sp ! s) \<or>
     reached sp s \<and> (\<forall>i < count g. \<not> settled (sp ! i) \<and> (i \<noteq> s \<longrightarrow> \<not> reached sp i))"

definition optimal :: "graph \<Rightarrow> nat \<Rightarrow> sp_vertex list \<Rightarrow> bool" where
  "optimal g s sp \<longleftrightarrow>
     (\<forall>i < count g. settled (sp ! i) \<longrightarrow> (\<forall>c p. route_to g s i c p \<longrightarrow> key sp i \<le> (c, p)))"

definition relaxed_by :: "graph \<Rightarrow> sp_vertex list \<Rightarrow> nat \<Rightarrow> mixnet_lsa_link_params \<Rightarrow> bool" where
  "relaxed_by g sp u l \<longleftrightarrow>
     (\<forall>w. id_find g (neighbor_mixaddr l) = Some w \<longrightarrow> \<not> settled (sp ! w) \<longrightarrow>
        key sp w \<le> (fst (key sp u) + unat (cost l), snd (key sp u) @ [neighbor_mixaddr l]))"

definition relaxed :: "graph \<Rightarrow> sp_vertex list \<Rightarrow> bool" where
  "relaxed g sp \<longleftrightarrow>
     (\<forall>u < count g. settled (sp ! u) \<longrightarrow> (\<forall>l \<in> set (links (verts g ! u)). relaxed_by g sp u l))"

text \<open>How a run of relaxations changes the table: settled entries stay, others only improve.\<close>

definition improves :: "sp_vertex list \<Rightarrow> sp_vertex list \<Rightarrow> bool" where
  "improves sp sp' \<longleftrightarrow>
     length sp' = length sp
     \<and> (\<forall>i. settled (sp' ! i) = settled (sp ! i))
     \<and> (\<forall>i. settled (sp ! i) \<longrightarrow> sp' ! i = sp ! i)
     \<and> (\<forall>i. key sp' i \<le> key sp i)"

lemma improves_refl: "improves sp sp"
  by (simp add: improves_def)

lemma improves_trans: "improves sp sp' \<Longrightarrow> improves sp' sp'' \<Longrightarrow> improves sp sp''"
  unfolding improves_def by (metis order_trans)

lemma relaxed_by_improves:
  assumes "improves sp sp'" and "settled (sp ! u)" and "relaxed_by g sp u l"
  shows "relaxed_by g sp' u l"
proof -
  have u: "key sp' u = key sp u" using assms(1,2) by (simp add: improves_def key_def)
  have w: "key sp' w \<le> key sp w" "settled (sp' ! w) = settled (sp ! w)" for w
    using assms(1) by (simp_all add: improves_def)
  show ?thesis
    unfolding relaxed_by_def u w(2)
    using assms(3) order_trans [OF w(1)] by (simp add: relaxed_by_def)
qed

lemma infinite_cost_unat: "unat INFINITE_COST = 4294967295"
  by (simp add: INFINITE_COST_def)

text \<open>Adding a link cost to the cost of a route neither wraps nor reaches infinity.\<close>

lemma route_cost_add:
  assumes "route_to g s u (unat c) p" and "wf_table g" and "s < count g"
  shows "unat (c + ucast (k :: u16)) = unat c + unat k" and "c + ucast k \<noteq> INFINITE_COST"
proof -
  have "unat c + unat k < 4294967295"
    using route_cost_bound [OF assms] unat_u16_le [of k] by linarith
  then show eq: "unat (c + ucast k) = unat c + unat k"
    by (subst unat_add_lem [THEN iffD1]) simp_all
  show "c + ucast k \<noteq> INFINITE_COST"
    using eq \<open>unat c + unat k < 4294967295\<close> infinite_cost_unat by auto
qed

text \<open>One relaxation from a settled vertex.\<close>

lemma relax_link_step:
  assumes wf: "wf_table g" and s: "s < count g" and u: "u < count g"
    and sound: "sound g s sp" and set_u: "settled (sp ! u)" and set_s: "settled (sp ! s)"
    and l: "l \<in> set (links (verts g ! u))"
  shows "sound g s (relax_link g u sp l)" and "improves sp (relax_link g u sp l)"
    and "relaxed_by g (relax_link g u sp l) u l"
proof -
  let ?sp' = "relax_link g u sp l"
  let ?a = "neighbor_mixaddr l"
  have len: "length sp = count g" using sound by (simp add: sound_def)
  have route_u: "route_to g s u (unat (sp_cost (sp ! u))) (sp_path (sp ! u))"
    using sound set_u u by (simp add: sound_def key_def)
  have on_u: "\<exists>j < count g. addr (verts g ! j) = a \<and> settled (sp ! j)"
    if "a \<in> set (sp_path (sp ! u))" for a
  proof -
    from that have "a = addr (verts g ! u) \<or>
        (\<exists>j < count g. addr (verts g ! j) = a \<and> settled (sp ! j))"
      using sound set_u u by (simp add: sound_def)
    then show ?thesis using u set_u by blast
  qed
  have all: "sound g s ?sp' \<and> improves sp ?sp' \<and> relaxed_by g ?sp' u l"
  proof (cases "id_find g ?a")
    case None
    then show ?thesis
      using sound by (simp add: relax_link_def relaxed_by_def improves_refl)
  next
    case (Some w)
    then have w: "w < count g" and aw: "addr (verts g ! w) = ?a" using id_find_SomeD by auto
    let ?c = "sp_cost (sp ! u) + ucast (cost l)"
    let ?p = "sp_path (sp ! u) @ [?a]"
    have c: "unat ?c = unat (sp_cost (sp ! u)) + unat (cost l)" "?c \<noteq> INFINITE_COST"
      using route_cost_add [OF route_u wf s] by auto
    show ?thesis
    proof (cases "settled (sp ! w) \<or> \<not> path_is_better ?c ?p (sp_cost (sp ! w)) (sp_path (sp ! w))")
      case True
      then have eq: "?sp' = sp" by (auto simp: relax_link_def Some Let_def)
      have "relaxed_by g sp u l"
        using True Some c by (auto simp: relaxed_by_def key_def path_is_better_iff not_less)
      with eq sound show ?thesis by (simp add: improves_refl)
    next
      case False
      let ?v = "(sp ! w)\<lparr>sp_cost := ?c, sp_path := ?p\<rparr>"
      have eq: "?sp' = sp[w := ?v]" using False by (simp add: relax_link_def Some Let_def)
      have uw: "u \<noteq> w" and sw: "s \<noteq> w" using False set_u set_s by auto
      have fresh: "?a \<notin> set (sp_path (sp ! u))"
      proof
        assume "?a \<in> set (sp_path (sp ! u))"
        then obtain j where "j < count g" "addr (verts g ! j) = ?a" "settled (sp ! j)"
          using on_u by blast
        then have "j = w" using id_find_complete wf Some by (metis option.inject wf_table_def)
        with False \<open>settled (sp ! j)\<close> show False by simp
      qed
      have route_w: "route_to g s w (unat ?c) ?p"
        unfolding c(1) using route_to.step [OF route_u l Some _ fresh] sw by simp
      have less: "(unat ?c, ?p) < key sp w"
        using False by (simp add: path_is_better_iff key_def)
      have key': "key ?sp' i = (if i = w then (unat ?c, ?p) else key sp i)" for i
        using w len by (simp add: eq key_def nth_update_if)
      have "improves sp ?sp'"
        using less False w len
        by (auto simp: improves_def key' less_imp_le) (auto simp: eq nth_update_if)
      moreover have "relaxed_by g ?sp' u l"
        using Some c uw by (simp add: relaxed_by_def key') (simp add: key_def)
      moreover have "sound g s ?sp'"
        unfolding sound_def
      proof (intro conjI allI impI)
        show "length ?sp' = count g" by (simp add: len)
      next
        fix i assume i: "i < count g" and r: "reached ?sp' i"
        show "route_to g s i (fst (key ?sp' i)) (snd (key ?sp' i))"
        proof (cases "i = w")
          case True
          with route_w show ?thesis by (simp add: key')
        next
          case False
          then have "?sp' ! i = sp ! i" by (simp add: eq nth_update_if)
          with sound i r False show ?thesis by (simp add: key' sound_def)
        qed
        show "\<forall>a \<in> set (sp_path (?sp' ! i)). a = addr (verts g ! i) \<or>
            (\<exists>j < count g. addr (verts g ! j) = a \<and> settled (?sp' ! j))"
        proof (cases "i = w")
          case True
          have path: "sp_path (?sp' ! i) = ?p" using w len True by (simp add: eq)
          have st: "settled (?sp' ! j) = settled (sp ! j)" for j by simp
          show ?thesis
            unfolding path st using on_u aw True by (metis Un_iff empty_iff insert_iff list.set set_append)
        next
          case False
          then have "?sp' ! i = sp ! i" by (simp add: eq nth_update_if)
          with sound i r show ?thesis by (simp add: sound_def)
        qed
      next
        fix i assume "i < count g" and "settled (?sp' ! i)"
        then show "reached ?sp' i"
          using sound c(2) by (auto simp: sound_def eq nth_update_if)
      qed
      ultimately show ?thesis by blast
    qed
  qed
  then show "sound g s ?sp'" and "improves sp ?sp'" and "relaxed_by g ?sp' u l" by auto
qed

lemma relax_links_step:
  assumes "wf_table g" and "s < count g" and "u < count g"
    and "sound g s sp" and "settled (sp ! u)" and "settled (sp ! s)"
    and "set ls \<subseteq> set (links (verts g ! u))"
  shows "sound g s (foldl (relax_link g u) sp ls) \<and> improves sp (foldl (relax_link g u) sp ls)
    \<and> (\<forall>l \<in> set ls. relaxed_by g (foldl (relax_link g u) sp ls) u l)"
  using assms(4-7)
proof (induction ls arbitrary: sp)
  case Nil
  then show ?case by (simp add: improves_refl)
next
  case (Cons l ls)
  let ?sp1 = "relax_link g u sp l"
  have st: "sound g s ?sp1" "improves sp ?sp1" "relaxed_by g ?sp1 u l"
    using relax_link_step [OF assms(1-3) Cons.prems(1-3), of l] Cons.prems(4) by auto
  then have IH: "sound g s (foldl (relax_link g u) ?sp1 ls)"
      "improves ?sp1 (foldl (relax_link g u) ?sp1 ls)"
      "\<forall>l \<in> set ls. relaxed_by g (foldl (relax_link g u) ?sp1 ls) u l"
    using Cons.IH [of ?sp1] Cons.prems by auto
  have "relaxed_by g (foldl (relax_link g u) ?sp1 ls) u l"
    using relaxed_by_improves [OF IH(2) _ st(3)] Cons.prems(2) by simp
  with IH st(2) show ?case using improves_trans by auto
qed

subsection \<open>The choice of the next vertex\<close>

lemma pick_upto_least:
  "n \<le> length sp \<Longrightarrow>
   (case foldl (pick_step sp) None [0..<n] of
      None \<Rightarrow> \<forall>i < n. \<not> eligible sp i
    | Some u \<Rightarrow> \<forall>i < n. eligible sp i \<longrightarrow> key sp u \<le> key sp i)"
proof (induction n)
  case 0
  then show ?case by simp
next
  case (Suc n)
  then have IH: "case foldl (pick_step sp) None [0..<n] of
      None \<Rightarrow> \<forall>i < n. \<not> eligible sp i
    | Some u \<Rightarrow> \<forall>i < n. eligible sp i \<longrightarrow> key sp u \<le> key sp i"
    and el: "eligible sp n \<longleftrightarrow> \<not> settled (sp ! n) \<and> reached sp n"
    by (simp_all add: eligible_def)
  show ?case
  proof (cases "foldl (pick_step sp) None [0..<n]")
    case None
    then have "foldl (pick_step sp) None [0..<Suc n] = (if eligible sp n then Some n else None)"
      using el by (simp add: pick_step_def [of sp None n])
    with None IH show ?thesis by (auto simp: less_Suc_eq)
  next
    case (Some u)
    have better: "path_is_better (sp_cost (sp ! n)) (sp_path (sp ! n)) (sp_cost (sp ! u))
        (sp_path (sp ! u)) \<longleftrightarrow> key sp n < key sp u"
      by (simp add: path_is_better_iff key_def)
    show ?thesis
    proof (cases "eligible sp n \<and> key sp n < key sp u")
      case True
      with Some better el have "foldl (pick_step sp) None [0..<Suc n] = Some n"
        by (simp add: pick_step_def [of sp "Some u" n])
      moreover have "key sp n \<le> key sp i" if "i < n" "eligible sp i" for i
        using IH Some that True by (auto intro: less_imp_le less_le_trans)
      ultimately show ?thesis by (auto simp: less_Suc_eq)
    next
      case False
      with Some better el have "foldl (pick_step sp) None [0..<Suc n] = Some u"
        by (auto simp: pick_step_def [of sp "Some u" n])
      moreover have "eligible sp n \<longrightarrow> key sp u \<le> key sp n" using False by (simp add: not_less)
      ultimately show ?thesis using IH Some by (auto simp: less_Suc_eq)
    qed
  qed
qed

lemma pick_best_least: "pick_best sp = Some u \<Longrightarrow> eligible sp i \<Longrightarrow> key sp u \<le> key sp i"
  using pick_upto_least [of "length sp" sp] by (simp add: pick_best_def eligible_def)

lemma pick_best_None: "pick_best sp = None \<Longrightarrow> \<not> eligible sp i"
  using pick_upto_least [of "length sp" sp] by (auto simp: pick_best_def eligible_def)

subsection \<open>One round and the whole loop\<close>

definition dij_inv :: "graph \<Rightarrow> nat \<Rightarrow> sp_vertex list \<Rightarrow> bool" where
  "dij_inv g s sp \<longleftrightarrow> sound g s sp \<and> started g s sp \<and> optimal g s sp \<and> relaxed g sp"

text \<open>
  The frontier: once the source is settled, every route to a vertex that is not settled is
  beaten by the entry of some vertex that is not settled either.
\<close>

lemma frontier:
  assumes inv: "sound g s sp" "optimal g s sp" "relaxed g sp" and s: "settled (sp ! s)"
    "s < count g" and route: "route_to g s x c p"
  shows "settled (sp ! x) \<and> x < count g \<or>
    (\<exists>y < count g. \<not> settled (sp ! y) \<and> key sp y \<le> (c, p))"
  using route
proof (induction rule: route_to.induct)
  case here
  then show ?case using s by simp
next
  case (step u c p l w)
  let ?a = "neighbor_mixaddr l"
  have w: "w < count g" using step.hyps(3) id_find_SomeD by blast
  show ?case
  proof (cases "settled (sp ! u) \<and> u < count g")
    case True
    show ?thesis
    proof (cases "settled (sp ! w)")
      case False
      have best: "key sp u \<le> (c, p)" using inv(2) True step.hyps(1) by (simp add: optimal_def)
      have "route_to g s u (fst (key sp u)) (snd (key sp u))"
        using inv(1) True by (simp add: sound_def)
      from route_extend_mono [OF this step.hyps(1), of "unat (cost l)" ?a] best
      have "(fst (key sp u) + unat (cost l), snd (key sp u) @ [?a]) \<le> (c + unat (cost l), p @ [?a])"
        by simp
      moreover have "relaxed_by g sp u l" using inv(3) True step.hyps(2) by (simp add: relaxed_def)
      ultimately have "key sp w \<le> (c + unat (cost l), p @ [?a])"
        using step.hyps(3) False order_trans by (simp add: relaxed_by_def del: less_eq_prod_simp)
      with False w show ?thesis by blast
    qed (use w in simp)
  next
    case False
    then obtain y where "y < count g" "\<not> settled (sp ! y)" "key sp y \<le> (c, p)"
      using step.IH by blast
    moreover from this(3) have "key sp y \<le> (c + unat (cost l), p @ [?a])"
      using less_imp_le [OF snoc_greater] by (rule order_trans)
    ultimately show ?thesis by blast
  qed
qed

lemma finite_key_reached: "key sp y \<le> (c, p) \<Longrightarrow> c < 4294967295 \<Longrightarrow> reached sp y"
  using infinite_cost_unat by (auto simp: key_def)

lemma optimal_next:
  assumes wf: "wf_table g" and s: "s < count g" and inv: "dij_inv g s sp"
    and pick: "pick_best sp = Some u" and route: "route_to g s u c p"
  shows "key sp u \<le> (c, p)"
proof (cases "settled (sp ! s)")
  case True
  have "\<not> settled (sp ! u)" using pick_best_eligible [OF pick] by (simp add: eligible_def)
  then obtain y where y: "y < count g" "\<not> settled (sp ! y)" "key sp y \<le> (c, p)"
    using frontier [OF _ _ _ True s route] inv by (auto simp: dij_inv_def)
  have "reached sp y"
    using finite_key_reached [OF y(3)] route_cost_bound [OF route wf s] by simp
  then have "eligible sp y" using y inv by (simp add: eligible_def dij_inv_def sound_def)
  then show ?thesis using pick_best_least [OF pick] y(3) order_trans by blast
next
  case False
  then have "u = s"
    using inv pick_best_eligible [OF pick]
    by (auto simp: dij_inv_def started_def eligible_def sound_def)
  moreover have "reached sp s" using inv False by (simp add: dij_inv_def started_def)
  ultimately have "route_to g s u (fst (key sp u)) (snd (key sp u))"
    using inv s by (simp add: dij_inv_def sound_def)
  then have "key sp u = (0, [])" using route_end \<open>u = s\<close> by (metis prod.collapse)
  then show ?thesis by simp
qed

lemma settle_inv:
  assumes wf: "wf_table g" and s: "s < count g" and inv: "dij_inv g s sp"
    and pick: "pick_best sp = Some u"
  shows "dij_inv g s (settle g u sp)"
proof -
  let ?sp1 = "sp[u := (sp ! u)\<lparr>settled := True\<rparr>]"
  let ?sp2 = "settle g u sp"
  have el: "u < count g" "\<not> settled (sp ! u)" "reached sp u" and len: "length sp = count g"
    using pick_best_eligible [OF pick] inv by (auto simp: eligible_def dij_inv_def sound_def)
  have key1: "key ?sp1 i = key sp i" and st1: "settled (?sp1 ! i) \<longleftrightarrow> settled (sp ! i) \<or> i = u"
    and re1: "reached ?sp1 i \<longleftrightarrow> reached sp i" and pa1: "sp_path (?sp1 ! i) = sp_path (sp ! i)" for i
    using el len by (auto simp: key_def nth_update_if)
  have su: "settled (?sp1 ! s)"
    using inv el len by (auto simp: st1 dij_inv_def started_def)
  have sound1: "sound g s ?sp1"
    using inv el unfolding dij_inv_def sound_def key1 st1 re1 pa1 by auto
  have opt1: "optimal g s ?sp1"
    using inv optimal_next [OF wf s inv pick]
    unfolding dij_inv_def optimal_def key1 st1 by blast
  have "sound g s ?sp2 \<and> improves ?sp1 ?sp2 \<and>
      (\<forall>l \<in> set (links (verts g ! u)). relaxed_by g ?sp2 u l)"
    unfolding settle_def
    using relax_links_step [OF wf s el(1) sound1 _ su] st1 by simp
  then have sound2: "sound g s ?sp2" and imp: "improves ?sp1 ?sp2"
    and rel_u: "\<forall>l \<in> set (links (verts g ! u)). relaxed_by g ?sp2 u l" by auto
  have "relaxed g ?sp2"
    unfolding relaxed_def
  proof (intro allI impI ballI)
    fix v l assume v: "v < count g" "settled (?sp2 ! v)" "l \<in> set (links (verts g ! v))"
    show "relaxed_by g ?sp2 v l"
    proof (cases "v = u")
      case False
      then have sv: "settled (sp ! v)" using v imp st1 by (simp add: improves_def)
      then have "relaxed_by g sp v l" using v inv by (simp add: dij_inv_def relaxed_def)
      then have "relaxed_by g ?sp1 v l" by (simp add: relaxed_by_def key1 st1)
      then show ?thesis using relaxed_by_improves [OF imp] sv st1 by simp
    qed (use v rel_u in simp)
  qed
  moreover have "optimal g s ?sp2"
    using opt1 imp unfolding optimal_def improves_def key_def by metis
  moreover have "started g s ?sp2" using su imp by (simp add: started_def improves_def)
  ultimately show ?thesis using sound2 by (simp add: dij_inv_def)
qed

lemma sp_init_inv:
  assumes "s < count g"
  shows "dij_inv g s (sp_init g s)"
  using assms
  by (auto simp: dij_inv_def sound_def started_def optimal_def relaxed_def sp_init_def
      nth_list_update key_def INFINITE_COST_def split: if_splits)

lemma dijkstra_loop_inv:
  assumes "wf_table g" and "s < count g" and "dij_inv g s sp"
  shows "dij_inv g s (dijkstra_loop g sp) \<and> pick_best (dijkstra_loop g sp) = None"
  using assms
proof (induction g sp rule: dijkstra_loop.induct)
  case (1 g sp)
  show ?case
  proof (cases "pick_best sp")
    case None
    with 1 show ?thesis by (simp add: dijkstra_loop.simps [of g sp])
  next
    case (Some u)
    with 1 settle_inv show ?thesis by (simp add: dijkstra_loop.simps [of g sp])
  qed
qed

subsection \<open>The result\<close>

text \<open>The least route of a vertex: cheapest, and least by addresses among the cheapest.\<close>

definition best_route ::
  "graph \<Rightarrow> nat \<Rightarrow> nat \<Rightarrow> nat \<Rightarrow> mixnet_address list \<Rightarrow> bool" where
  "best_route g s u c p \<longleftrightarrow>
     route_to g s u c p \<and> (\<forall>d q. route_to g s u d q \<longrightarrow> c < d \<or> c = d \<and> p \<le> q)"

lemma run_dijkstra_inv:
  assumes "wf_table g" and "s < count g" and "run_dijkstra ok g s = Some sp"
  shows "dij_inv g s sp" and "pick_best sp = None" and "length sp = count g"
  using assms dijkstra_loop_inv [OF assms(1,2) sp_init_inv [OF assms(2)]]
  by (auto simp: run_dijkstra_def dij_inv_def sound_def split: if_splits)

lemma dijkstra_result:
  assumes wf: "wf_table g" and s: "s < count g" and run: "run_dijkstra ok g s = Some sp"
    and u: "u < count g"
  shows "if reached sp u then best_route g s u (unat (sp_cost (sp ! u))) (sp_path (sp ! u))
         else (\<forall>c p. \<not> route_to g s u c p)"
proof -
  note inv = run_dijkstra_inv [OF wf s run]
  have settled_iff: "reached sp i \<longrightarrow> settled (sp ! i)" if "i < count g" for i
    using pick_best_None [OF inv(2), of i] that inv(3) by (auto simp: eligible_def)
  have s_settled: "settled (sp ! s)"
    using inv(1) settled_iff [OF s] by (auto simp: dij_inv_def started_def)
  show ?thesis
  proof (cases "reached sp u")
    case True
    then have "settled (sp ! u)" using settled_iff u by simp
    then have "key sp u \<le> (c, p)" if "route_to g s u c p" for c p
      using inv(1) u that by (simp add: dij_inv_def optimal_def)
    then have "unat (sp_cost (sp ! u)) < c \<or> unat (sp_cost (sp ! u)) = c \<and> sp_path (sp ! u) \<le> p"
      if "route_to g s u c p" for c p
      using that by (fastforce simp: key_def)
    moreover have "route_to g s u (fst (key sp u)) (snd (key sp u))"
      using inv(1) u True by (simp add: dij_inv_def sound_def)
    ultimately show ?thesis using True by (auto simp: best_route_def key_def)
  next
    case False
    have "\<not> route_to g s u c p" for c p
    proof
      assume route: "route_to g s u c p"
      have "\<not> settled (sp ! u)" using False inv(1) u by (auto simp: dij_inv_def sound_def)
      then obtain y where y: "y < count g" "\<not> settled (sp ! y)" "key sp y \<le> (c, p)"
        using frontier [OF _ _ _ s_settled s route] inv(1) by (auto simp: dij_inv_def)
      then have "reached sp y"
        using finite_key_reached [OF y(3)] route_cost_bound [OF route wf s] by simp
      with y settled_iff show False by blast
    qed
    with False show ?thesis by simp
  qed
qed

lemma best_route_unique:
  "best_route g s u c p \<Longrightarrow> best_route g s u d q \<Longrightarrow> c = d \<and> p = q"
  unfolding best_route_def by (metis less_asym' less_irrefl_nat order_antisym)

text \<open>The tables the loop passes through.\<close>

inductive dij_run :: "graph \<Rightarrow> nat \<Rightarrow> sp_vertex list \<Rightarrow> bool" for g :: graph and s :: nat where
  start: "dij_run g s (sp_init g s)"
| round: "dij_run g s sp \<Longrightarrow> pick_best sp = Some u \<Longrightarrow> dij_run g s (settle g u sp)"

lemma dij_run_inv: "wf_table g \<Longrightarrow> s < count g \<Longrightarrow> dij_run g s sp \<Longrightarrow> dij_inv g s sp"
  by (rotate_tac 2, induction rule: dij_run.induct) (auto intro: sp_init_inv settle_inv)

subsection \<open>Properties\<close>

text \<open>
  A square with zero-cost links, the situation the comment on \<open>path_is_better\<close> is about: vertex 4
  is reached at equal cost over 2 and over 3, and the route over 2 goes on over a free link.
\<close>

definition square_graph :: graph where
  "square_graph =
     \<lparr>verts = [\<lparr>addr = 1, advertised = True,
                links = [\<lparr>neighbor_mixaddr = 3, cost = 1\<rparr>, \<lparr>neighbor_mixaddr = 2, cost = 1\<rparr>]\<rparr>,
               \<lparr>addr = 3, advertised = True,
                links = [\<lparr>neighbor_mixaddr = 4, cost = 0\<rparr>]\<rparr>,
               \<lparr>addr = 2, advertised = True,
                links = [\<lparr>neighbor_mixaddr = 4, cost = 0\<rparr>]\<rparr>,
               \<lparr>addr = 4, advertised = True, links = []\<rparr>],
      capacity = 8\<rparr>"

lemma wf_square_graph: "wf_table square_graph" "wf_graph square_graph"
  by (simp_all add: wf_graph_def wf_table_def closed_rows_def square_graph_def capacities_def
      addrs_def count_def)

text \<open>
  C6. \<open>run_dijkstra\<close> is correct: the table it returns gives, for every vertex that some route
  reaches, the least route by (cost, addresses) -- the equal-cost rule of the handout over the
  whole path, zero-cost links included -- and marks every other vertex unreached.
\<close>

theorem run_dijkstra_correct:
  assumes "wf_table g" and "self < count g" and "run_dijkstra ok g self = Some sp"
    and "u < count g"
  shows "if sp_cost (sp ! u) = INFINITE_COST then (\<forall>c p. \<not> route_to g self u c p)
         else best_route g self u (unat (sp_cost (sp ! u))) (sp_path (sp ! u))"
  using dijkstra_result [OF assms] by (cases "reached sp u") simp_all

theorem run_dijkstra_correct_witness:
  "best_route square_graph 0 3 1 [2, 4]"
proof -
  have run: "run_dijkstra True square_graph 0 =
      Some (dijkstra_loop square_graph (sp_init square_graph 0))"
    by (simp add: run_dijkstra_def square_graph_def count_def)
  have "dijkstra_loop square_graph (sp_init square_graph 0) ! 3 =
      \<lparr>sp_cost = 1, sp_path = [2, 4], settled = True\<rparr>"
    by code_simp
  moreover have "0 < count square_graph" and "3 < count square_graph"
    by (simp_all add: square_graph_def count_def)
  ultimately show ?thesis
    using run_dijkstra_correct [OF wf_square_graph(1) _ run, of 3]
    by (simp add: INFINITE_COST_def)
qed

text \<open>
  The arithmetic and the memory of the relaxation are safe in every round: the 32-bit sum of
  a settled cost and a link cost is exact and not the infinity, and the candidate path fits in
  the scratch row of \<open>count\<close> addresses, hence its length in 16 bits.
\<close>

theorem relaxation_in_bounds:
  assumes "wf_table g" and "self < count g" and "dij_run g self sp" and "pick_best sp = Some u"
  shows "unat (sp_cost (sp ! u) + ucast (k :: u16)) = unat (sp_cost (sp ! u)) + unat k
    \<and> sp_cost (sp ! u) + ucast k \<noteq> INFINITE_COST
    \<and> length (sp_path (sp ! u) @ [a]) \<le> count g \<and> length (sp_path (sp ! u) @ [a]) < 65536"
proof -
  have "eligible sp u" using pick_best_eligible assms(4) by blast
  then have route: "route_to g self u (unat (sp_cost (sp ! u))) (sp_path (sp ! u))"
    using dij_run_inv [OF assms(1-3)] by (simp add: dij_inv_def sound_def eligible_def key_def)
  show ?thesis
    using route_cost_add [OF route assms(1,2)] route_length [OF route assms(1,2)]
      wf_table_count [OF assms(1)] by simp
qed

theorem relaxation_in_bounds_witness:
  "unat (sp_cost (sp_init square_graph 0 ! 0) + ucast (65535 :: u16)) = 65535"
proof -
  have "0 < count square_graph" by (simp add: square_graph_def count_def)
  moreover have "pick_best (sp_init square_graph 0) = Some 0" by code_simp
  moreover have "sp_cost (sp_init square_graph 0 ! 0) = 0" by code_simp
  ultimately show ?thesis
    using relaxation_in_bounds [OF wf_square_graph(1) _ dij_run.start, of 0 0 65535] by simp
qed

end
