(* ===== verification/Routes.thy ===== *)
theory Routes
  imports Shortest_Paths Node_State
begin

text \<open>
  The forwarding table and the routes of \<open>mixnet/node.c\<close>: \<open>fib_reset\<close>, \<open>install_route\<close>,
  \<open>update_shortest_path\<close>, \<open>fib_lookup\<close>, \<open>path_between\<close> and \<open>random_route\<close>. The lemmas show that
  an entry of the table is the least route of the topology it was built from, and that a random
  route is a walk along advertised links that a routing header can carry.
\<close>

subsection \<open>The code\<close>

text \<open>The table after a reset, and whether the calloc succeeded.\<close>

definition fib_reset :: "bool \<Rightarrow> nat \<Rightarrow> fib_entry list \<times> bool" where
  "fib_reset ok n =
     (if n = 0 then ([], True)
      else if \<not> ok then ([], False)
      else (replicate n \<lparr>reachable = False, route = []\<rparr>, True))"

text \<open>
  \<open>hops\<close> is computed in 16 bits; a destination with an empty path would wrap to 65535 and be
  refused with the routes that are too long.
\<close>

definition install_route ::
  "bool \<Rightarrow> fib_entry \<Rightarrow> sp_vertex list \<Rightarrow> nat \<Rightarrow> fib_entry \<times> bool" where
  "install_route ok entry sp dst =
     (let hops = of_nat (length (sp_path (sp ! dst))) - 1 :: u16 in
      if unat hops > MAX_MIXNET_ROUTE_LENGTH then (entry, False)
      else if hops > 0 \<and> \<not> ok then (entry, False)
      else (\<lparr>reachable = True, route = take (unat hops) (sp_path (sp ! dst))\<rparr>, True))"

definition install_step ::
  "(site \<Rightarrow> bool) \<Rightarrow> nat \<Rightarrow> sp_vertex list \<Rightarrow> fib_entry list \<Rightarrow> nat \<Rightarrow> fib_entry list" where
  "install_step ok self sp f i =
     (if i = self \<or> sp_cost (sp ! i) = INFINITE_COST then f
      else f[i := fst (install_route (ok (Fib_Route i)) (f ! i) sp i)])"

definition update_shortest_path ::
  "(site \<Rightarrow> bool) \<Rightarrow> mixnet_node_config \<Rightarrow> node_state \<Rightarrow> node_state" where
  "update_shortest_path ok c s =
     (let g = topology s in
      case fib_reset (ok Fib_Table) (count g) of
        (f, False) \<Rightarrow> s\<lparr>fib := f\<rparr>
      | (f, True) \<Rightarrow>
          (case id_find g (node_addr c) of
             None \<Rightarrow> s\<lparr>fib := f\<rparr>
           | Some self \<Rightarrow>
               (case run_dijkstra (ok Sp_Array) g self of
                  None \<Rightarrow> s\<lparr>fib := f\<rparr>
                | Some sp \<Rightarrow> s\<lparr>fib := foldl (install_step ok self sp) f [0..<count g]\<rparr>)))"

definition fib_lookup :: "node_state \<Rightarrow> mixnet_address \<Rightarrow> fib_entry option" where
  "fib_lookup s dst =
     (case id_find (topology s) dst of
        None \<Rightarrow> None
      | Some i \<Rightarrow>
          if i \<ge> length (fib s) \<or> \<not> reachable (fib s ! i) then None else Some (fib s ! i))"

text \<open>
  The hops strictly between two vertices, at most \<open>cap\<close> of them; \<open>None\<close> is the result -1.
\<close>

definition path_between ::
  "bool \<Rightarrow> graph \<Rightarrow> nat \<Rightarrow> nat \<Rightarrow> nat \<Rightarrow> mixnet_address list option" where
  "path_between ok g src dst cap =
     (if src = dst then Some []
      else
        (case run_dijkstra ok g src of
           None \<Rightarrow> None
         | Some sp \<Rightarrow>
             if sp_cost (sp ! dst) = INFINITE_COST then None
             else
               (let hops = of_nat (length (sp_path (sp ! dst))) - 1 :: u16 in
                if unat hops \<le> cap then Some (take (unat hops) (sp_path (sp ! dst)))
                else None)))"

text \<open>
  A waypoint is a vertex that is neither endpoint: the counting loop, and the scan for the k'th
  one, from index \<open>i\<close> on, where \<open>None\<close> is wid = -1.
\<close>

definition is_waypoint :: "mixnet_address \<Rightarrow> mixnet_address \<Rightarrow> vertex \<Rightarrow> bool" where
  "is_waypoint me dst v \<longleftrightarrow> addr v \<noteq> me \<and> addr v \<noteq> dst"

definition count_waypoints :: "mixnet_address \<Rightarrow> mixnet_address \<Rightarrow> vertex list \<Rightarrow> nat" where
  "count_waypoints me dst vs = length (filter (is_waypoint me dst) vs)"

fun scan_waypoint ::
  "mixnet_address \<Rightarrow> mixnet_address \<Rightarrow> vertex list \<Rightarrow> nat \<Rightarrow> nat \<Rightarrow> nat option" where
  "scan_waypoint me dst [] i k = None"
| "scan_waypoint me dst (v # vs) i k =
     (if addr v = me \<or> addr v = dst then scan_waypoint me dst vs (Suc i) k
      else if k = 0 then Some i
      else scan_waypoint me dst vs (Suc i) (k - 1))"

text \<open>The detour, or \<open>None\<close> for "use the shortest path".\<close>

definition random_route ::
  "env \<Rightarrow> mixnet_node_config \<Rightarrow> node_state \<Rightarrow> mixnet_address \<Rightarrow> mixnet_address list option" where
  "random_route e c s dst =
     (let g = topology s; n = count_waypoints (node_addr c) dst (verts g) in
      if n = 0 then None
      else
        (case scan_waypoint (node_addr c) dst (verts g) 0 (rnd e mod n) of
           None \<Rightarrow> None
         | Some wid \<Rightarrow>
             (let w = addr (verts g ! wid) in
              case id_find g dst of
                None \<Rightarrow> None
              | Some did \<Rightarrow>
                  (case fib_lookup s w of
                     None \<Rightarrow> None
                   | Some src_to_w \<Rightarrow>
                       (let head = length (route src_to_w) in
                        if head + 1 > MAX_MIXNET_ROUTE_LENGTH then None
                        else if \<not> alloc e Detour then None
                        else
                          (case path_between (alloc e Sp_Array) g wid did
                                  (MAX_MIXNET_ROUTE_LENGTH - head - 1) of
                             None \<Rightarrow> None
                           | Some tail \<Rightarrow> Some (route src_to_w @ [w] @ tail)))))))"

subsection \<open>Routes of the advertised network\<close>

text \<open>
  The specification over addresses: routes of the map from addresses to advertised links, which
  is what a topology denotes. Ids and never-advertised vertices play no part in it.
\<close>

inductive net_route ::
  "(mixnet_address \<Rightarrow> mixnet_lsa_link_params list option) \<Rightarrow> mixnet_address \<Rightarrow>
   mixnet_address \<Rightarrow> nat \<Rightarrow> mixnet_address list \<Rightarrow> bool"
  for T :: "mixnet_address \<Rightarrow> mixnet_lsa_link_params list option" and me :: mixnet_address where
  here: "net_route T me me 0 []"
| step: "net_route T me a c p \<Longrightarrow> T a = Some ls \<Longrightarrow> l \<in> set ls \<Longrightarrow>
    neighbor_mixaddr l \<noteq> me \<Longrightarrow> neighbor_mixaddr l \<notin> set p \<Longrightarrow>
    net_route T me (neighbor_mixaddr l) (c + unat (cost l)) (p @ [neighbor_mixaddr l])"

definition best_net_route ::
  "(mixnet_address \<Rightarrow> mixnet_lsa_link_params list option) \<Rightarrow> mixnet_address \<Rightarrow>
   mixnet_address \<Rightarrow> nat \<Rightarrow> mixnet_address list \<Rightarrow> bool" where
  "best_net_route T me dst c p \<longleftrightarrow>
     net_route T me dst c p \<and> (\<forall>d q. net_route T me dst d q \<longrightarrow> c < d \<or> c = d \<and> p \<le> q)"

lemma net_route_end:
  "net_route T me a c p \<Longrightarrow> a = me \<and> p = [] \<and> c = 0 \<or> a \<noteq> me \<and> p \<noteq> [] \<and> last p = a"
  by (induction rule: net_route.induct) auto

lemma links_rows:
  assumes "wf_graph g" and "id_find g a = Some u" and "l \<in> set (links (verts g ! u))"
  shows "\<exists>ls. rows g a = Some ls \<and> l \<in> set ls"
proof -
  have "verts g ! u \<in> set (verts g)" using id_find_SomeD [OF assms(2)] by (simp add: count_def)
  then have "advertised (verts g ! u)"
    using assms(1,3) by (auto simp: wf_graph_def closed_rows_def)
  then show ?thesis using assms(2,3) by (simp add: rows_def)
qed

lemma rows_links:
  assumes "wf_graph g" and "rows g a = Some ls" and "l \<in> set ls"
  obtains u where "id_find g a = Some u" "l \<in> set (links (verts g ! u))"
    "id_find g (neighbor_mixaddr l) \<noteq> None"
proof -
  obtain u where u: "id_find g a = Some u" "ls = links (verts g ! u)"
    using assms(2) by (auto simp: rows_def split: option.splits if_splits)
  then have "verts g ! u \<in> set (verts g)" using id_find_SomeD [OF u(1)] by (simp add: count_def)
  then have "neighbor_mixaddr l \<in> set (addrs g)"
    using assms(1,3) u(2) by (auto simp: wf_graph_def closed_rows_def)
  then have "id_find g (neighbor_mixaddr l) \<noteq> None" by (simp add: id_find_None_iff)
  with that u assms(3) show thesis by blast
qed

lemma route_to_net_route:
  assumes "wf_graph g" and "id_find g me = Some s" and "route_to g s u c p"
  shows "net_route (rows g) me (addr (verts g ! u)) c p \<and> id_find g (addr (verts g ! u)) = Some u"
  using assms(3)
proof (induction rule: route_to.induct)
  case here
  then show ?case using id_find_SomeD [OF assms(2)] assms(2) by (simp add: net_route.here)
next
  case (step u c p l w)
  then obtain ls where "rows g (addr (verts g ! u)) = Some ls" "l \<in> set ls"
    using links_rows [OF assms(1)] by blast
  moreover have w: "addr (verts g ! w) = neighbor_mixaddr l"
    using step.hyps(3) id_find_SomeD by blast
  moreover have "neighbor_mixaddr l \<noteq> me" using step.hyps(3,4) assms(2) by auto
  ultimately have "net_route (rows g) me (neighbor_mixaddr l) (c + unat (cost l))
      (p @ [neighbor_mixaddr l])"
    using step net_route.step by blast
  with w step.hyps(3) show ?case by simp
qed

lemma net_route_route_to:
  assumes "wf_graph g" and "id_find g me = Some s" and "net_route (rows g) me a c p"
  shows "\<exists>u. id_find g a = Some u \<and> route_to g s u c p"
  using assms(3)
proof (induction rule: net_route.induct)
  case here
  then show ?case using assms(2) route_to.here by blast
next
  case (step a c p ls l)
  then obtain u where u: "id_find g a = Some u" "route_to g s u c p" by blast
  obtain w where w: "id_find g (neighbor_mixaddr l) = Some w" "l \<in> set (links (verts g ! u))"
    using rows_links [OF assms(1) step.hyps(2,3)] u(1) by auto
  have "w \<noteq> s" using w(1) assms(2) step.hyps(4) id_find_SomeD by metis
  with route_to.step [OF u(2) w(2) w(1)] step.hyps(5) w(1) show ?case by blast
qed

lemma best_route_net:
  assumes "wf_graph g" and "id_find g me = Some s" and "u < count g"
  shows "best_route g s u c p \<longleftrightarrow> best_net_route (rows g) me (addr (verts g ! u)) c p"
proof -
  have "id_find g (addr (verts g ! u)) = Some u"
    using id_find_complete assms by (auto simp: wf_graph_def wf_table_def)
  then have "route_to g s u d q \<longleftrightarrow> net_route (rows g) me (addr (verts g ! u)) d q" for d q
    using route_to_net_route [OF assms(1,2), of u d q]
      net_route_route_to [OF assms(1,2), of "addr (verts g ! u)" d q] by auto
  then show ?thesis by (simp add: best_route_def best_net_route_def)
qed

subsection \<open>The table after an update\<close>

lemma install_steps:
  assumes "length f = m" and "n \<le> m"
  shows "length (foldl (install_step ok self sp) f [0..<n]) = m \<and>
    (\<forall>i < m. foldl (install_step ok self sp) f [0..<n] ! i =
       (if i < n \<and> i \<noteq> self \<and> reached sp i
        then fst (install_route (ok (Fib_Route i)) (f ! i) sp i) else f ! i))"
  using assms
proof (induction n)
  case 0
  then show ?case by simp
next
  case (Suc n)
  then show ?case by (auto simp: install_step_def nth_update_if less_Suc_eq)
qed

lemma install_route_eq:
  assumes "sp_path (sp ! i) = p @ [a]" and "length p < 32768"
  shows "install_route ok f sp i =
    (if length p \<le> 256 \<and> (p = [] \<or> ok) then (\<lparr>reachable = True, route = p\<rparr>, True) else (f, False))"
proof -
  let ?h = "of_nat (length (sp_path (sp ! i))) - 1 :: u16"
  have h: "?h = of_nat (length p)" using assms(1) by simp
  then have unat_h: "unat ?h = length p" using assms(2) by (simp add: unat_of_nat_u16)
  have "?h > 0 \<longleftrightarrow> p \<noteq> []" using unat_h by (simp add: word_less_nat_alt)
  then show ?thesis
    unfolding install_route_def Let_def unat_h using assms(1) by auto
qed

text \<open>What a table may contain: least routes of the topology that a header can carry.\<close>

definition fib_valid :: "mixnet_node_config \<Rightarrow> node_state \<Rightarrow> bool" where
  "fib_valid c s \<longleftrightarrow>
     (\<forall>dst e. fib_lookup s dst = Some e \<longrightarrow>
        reachable e \<and> length (route e) \<le> MAX_MIXNET_ROUTE_LENGTH
        \<and> (\<exists>k. best_net_route (rows (topology s)) (node_addr c) dst k (route e @ [dst])))"

lemma fib_validD:
  "fib_valid c s \<Longrightarrow> fib_lookup s dst = Some e \<Longrightarrow>
   reachable e \<and> length (route e) \<le> 256
   \<and> (\<exists>k. best_net_route (rows (topology s)) (node_addr c) dst k (route e @ [dst]))"
  by (simp add: fib_valid_def)

lemma update_shortest_path_frame [state_simps]:
  "root (update_shortest_path ok c s) = root s"
  "path_len (update_shortest_path ok c s) = path_len s"
  "next_hop (update_shortest_path ok c s) = next_hop s"
  "neighbor_addr (update_shortest_path ok c s) = neighbor_addr s"
  "blocked (update_shortest_path ok c s) = blocked s"
  "topology (update_shortest_path ok c s) = topology s"
  "hello_start_ms (update_shortest_path ok c s) = hello_start_ms s"
  "reelection_start_ms (update_shortest_path ok c s) = reelection_start_ms s"
  "lsa_start_ms (update_shortest_path ok c s) = lsa_start_ms s"
  "mix (update_shortest_path ok c s) = mix s"
  by (auto simp: update_shortest_path_def Let_def split: prod.split bool.split option.split)

lemma fib_lookup_SomeD:
  assumes "fib_lookup s dst = Some e"
  shows "\<exists>u. id_find (topology s) dst = Some u \<and> u < length (fib s) \<and> reachable (fib s ! u)
    \<and> e = fib s ! u"
  using assms by (auto simp: fib_lookup_def split: option.splits if_splits)

lemma nothing_reachable: "(\<And>i. i < length (fib s) \<Longrightarrow> \<not> reachable (fib s ! i)) \<Longrightarrow> fib_lookup s dst = None"
  by (auto simp: fib_lookup_def split: option.split)

text \<open>The entry of one vertex after a full rebuild.\<close>

lemma rebuilt_entry:
  fixes ok :: "site \<Rightarrow> bool"
  assumes wf: "wf_graph g" and self: "id_find g me = Some s" and run: "run_dijkstra b g s = Some sp"
    and u: "u < count g"
  defines "f \<equiv> foldl (install_step ok s sp)
      (replicate (count g) \<lparr>reachable = False, route = []\<rparr>) [0..<count g]"
  shows "reachable (f ! u) \<longleftrightarrow>
      (\<exists>k p. best_net_route (rows g) me (addr (verts g ! u)) k (p @ [addr (verts g ! u)])
        \<and> length p \<le> 256 \<and> (p = [] \<or> ok (Fib_Route u)))"
    and "reachable (f ! u) \<Longrightarrow>
      \<exists>k. best_net_route (rows g) me (addr (verts g ! u)) k (route (f ! u) @ [addr (verts g ! u)])
        \<and> length (route (f ! u)) \<le> 256"
proof -
  let ?a = "addr (verts g ! u)"
  let ?none = "\<lparr>reachable = False, route = []\<rparr>"
  have s: "s < count g" "addr (verts g ! s) = me" using id_find_SomeD [OF self] by auto
  have wt: "wf_table g" using wf by (simp add: wf_graph_def)
  have entry: "f ! u = (if u \<noteq> s \<and> reached sp u
      then fst (install_route (ok (Fib_Route u)) ?none sp u) else ?none)"
    using install_steps [of "replicate (count g) ?none" "count g" "count g" ok s sp] u
    by (simp add: f_def)
  have res: "if reached sp u then best_route g s u (unat (sp_cost (sp ! u))) (sp_path (sp ! u))
      else (\<forall>c p. \<not> route_to g s u c p)"
    by (rule dijkstra_result [OF wt s(1) run u])
  note net = best_route_net [OF wf self u]
  have no_self: False if "u = s" "best_net_route (rows g) me ?a k (p @ [?a])" for k p
    using that s(2) net_route_end by (fastforce simp: best_net_route_def)
  have both: "(reachable (f ! u) \<longleftrightarrow>
      (\<exists>k p. best_net_route (rows g) me ?a k (p @ [?a]) \<and> length p \<le> 256
        \<and> (p = [] \<or> ok (Fib_Route u))))
    \<and> (reachable (f ! u) \<longrightarrow> (\<exists>k. best_net_route (rows g) me ?a k (route (f ! u) @ [?a])
        \<and> length (route (f ! u)) \<le> 256))"
  proof (cases "u \<noteq> s \<and> reached sp u")
    case False
    have "\<not> best_net_route (rows g) me ?a k (p @ [?a])" for k p
    proof (cases "u = s")
      case False
      with \<open>\<not> (u \<noteq> s \<and> reached sp u)\<close> res show ?thesis
        using net [of k "p @ [?a]"] by (auto simp: best_route_def)
    qed (use no_self in blast)
    moreover have "f ! u = ?none" unfolding entry if_not_P [OF False] by (rule refl)
    ultimately show ?thesis by simp
  next
    case True
    with res have best: "best_route g s u (unat (sp_cost (sp ! u))) (sp_path (sp ! u))" by simp
    then have route: "route_to g s u (unat (sp_cost (sp ! u))) (sp_path (sp ! u))"
      by (simp add: best_route_def)
    then have "sp_path (sp ! u) \<noteq> []" "last (sp_path (sp ! u)) = ?a"
      using route_end [OF route] True by auto
    then obtain p where p: "sp_path (sp ! u) = p @ [?a]" by (metis append_butlast_last_id)
    have "length p < 32768"
      using route_length [OF route wt s(1)] wf_table_count [OF wt] p by simp
    then have f: "f ! u = (if length p \<le> 256 \<and> (p = [] \<or> ok (Fib_Route u))
        then \<lparr>reachable = True, route = p\<rparr> else ?none)"
      using True by (simp add: entry install_route_eq [OF p])
    have bp: "best_net_route (rows g) me ?a (unat (sp_cost (sp ! u))) (p @ [?a])"
      using best net p by simp
    have uniq: "q = p" if "best_net_route (rows g) me ?a k (q @ [?a])" for k q
      using best_route_unique [OF best, of k "q @ [?a]"] that net p by simp
    have "(\<exists>k q. best_net_route (rows g) me ?a k (q @ [?a]) \<and> length q \<le> 256
        \<and> (q = [] \<or> ok (Fib_Route u))) \<longleftrightarrow> length p \<le> 256 \<and> (p = [] \<or> ok (Fib_Route u))"
      using bp uniq by blast
    then show ?thesis using f bp by auto
  qed
  show "reachable (f ! u) \<longleftrightarrow>
      (\<exists>k p. best_net_route (rows g) me ?a k (p @ [?a]) \<and> length p \<le> 256
        \<and> (p = [] \<or> ok (Fib_Route u)))"
    using both by blast
  show "\<exists>k. best_net_route (rows g) me ?a k (route (f ! u) @ [?a]) \<and> length (route (f ! u)) \<le> 256"
    if "reachable (f ! u)"
    using both that by blast
qed

lemma update_shortest_path_empty:
  assumes "id_find (topology s) (node_addr c) = None \<or> \<not> ok Fib_Table \<or> \<not> ok Sp_Array"
  shows "length (fib (update_shortest_path ok c s)) \<le> count (topology s)
    \<and> (\<forall>f \<in> set (fib (update_shortest_path ok c s)). \<not> reachable f)"
proof -
  have "count (topology s) \<noteq> 0" if "id_find (topology s) (node_addr c) = Some i" for i
    using id_find_SomeD [OF that] by auto
  then have "fib (update_shortest_path ok c s) = fst (fib_reset (ok Fib_Table) (count (topology s)))"
    using assms
    by (cases "id_find (topology s) (node_addr c)")
      (auto simp: update_shortest_path_def Let_def run_dijkstra_def fib_reset_def)
  then show ?thesis by (auto simp: fib_reset_def)
qed

lemma update_shortest_path_full:
  assumes "id_find (topology s) (node_addr c) = Some self" and "ok Fib_Table" and "ok Sp_Array"
  shows "\<exists>sp. run_dijkstra (ok Sp_Array) (topology s) self = Some sp
    \<and> fib (update_shortest_path ok c s) = foldl (install_step ok self sp)
      (replicate (count (topology s)) \<lparr>reachable = False, route = []\<rparr>) [0..<count (topology s)]"
proof -
  have "count (topology s) \<noteq> 0" using id_find_SomeD [OF assms(1)] by auto
  moreover from this have "run_dijkstra (ok Sp_Array) (topology s) self =
      Some (dijkstra_loop (topology s) (sp_init (topology s) self))"
    using assms(3) by (simp add: run_dijkstra_def)
  ultimately show ?thesis using assms by (simp add: update_shortest_path_def Let_def fib_reset_def)
qed

lemma net_route_start:
  "net_route T me a c p \<Longrightarrow> T me = None \<Longrightarrow> p = []"
  by (induction rule: net_route.induct) (use net_route_end in fastforce)+

lemma net_route_found:
  assumes "wf_graph g" and "id_find g me = Some s" and "net_route (rows g) me a c p"
  shows "\<exists>u. id_find g a = Some u"
  using net_route_route_to [OF assms] by blast

lemma update_shortest_path_valid:
  assumes wf: "wf_graph (topology s)"
  shows "fib_valid c (update_shortest_path ok c s)"
proof (cases "id_find (topology s) (node_addr c) = None \<or> \<not> ok Fib_Table \<or> \<not> ok Sp_Array")
  case True
  then have "fib_lookup (update_shortest_path ok c s) dst = None" for dst
    using update_shortest_path_empty [OF True] by (intro nothing_reachable) simp
  then show ?thesis by (simp add: fib_valid_def)
next
  case False
  then obtain self where self: "id_find (topology s) (node_addr c) = Some self" by auto
  obtain sp where sp: "run_dijkstra (ok Sp_Array) (topology s) self = Some sp"
    "fib (update_shortest_path ok c s) = foldl (install_step ok self sp)
      (replicate (count (topology s)) \<lparr>reachable = False, route = []\<rparr>) [0..<count (topology s)]"
    using update_shortest_path_full [OF self, of ok] False by blast
  show ?thesis
    unfolding fib_valid_def
  proof (intro allI impI)
    fix dst e
    assume "fib_lookup (update_shortest_path ok c s) dst = Some e"
    from fib_lookup_SomeD [OF this] obtain u where u: "id_find (topology s) dst = Some u"
      "reachable (fib (update_shortest_path ok c s) ! u)"
      "e = fib (update_shortest_path ok c s) ! u"
      unfolding update_shortest_path_frame by blast
    then have uc: "u < count (topology s)" "addr (verts (topology s) ! u) = dst"
      using id_find_SomeD by blast+
    have "\<exists>k. best_net_route (rows (topology s)) (node_addr c) dst k (route e @ [dst])
        \<and> length (route e) \<le> 256"
      using rebuilt_entry(2) [OF wf self sp(1) uc(1), of ok, folded sp(2), unfolded uc(2)] u
      by blast
    with u show "reachable e \<and> length (route e) \<le> MAX_MIXNET_ROUTE_LENGTH
        \<and> (\<exists>k. best_net_route (rows (topology (update_shortest_path ok c s))) (node_addr c) dst k
              (route e @ [dst]))"
      unfolding update_shortest_path_frame by simp
  qed
qed

lemma best_net_route_unique:
  "best_net_route T me dst c p \<Longrightarrow> best_net_route T me dst d q \<Longrightarrow> c = d \<and> p = q"
  unfolding best_net_route_def by (metis less_asym order_antisym)

lemma update_shortest_path_complete:
  assumes wf: "wf_graph (topology s)" and ok: "ok Fib_Table" "ok Sp_Array" "\<And>i. ok (Fib_Route i)"
    and best: "best_net_route (rows (topology s)) (node_addr c) dst k (p @ [dst])"
    and len: "length p \<le> MAX_MIXNET_ROUTE_LENGTH"
  shows "fib_lookup (update_shortest_path ok c s) dst = Some \<lparr>reachable = True, route = p\<rparr>"
proof -
  have route: "net_route (rows (topology s)) (node_addr c) dst k (p @ [dst])"
    using best by (simp add: best_net_route_def)
  then have "rows (topology s) (node_addr c) \<noteq> None" using net_route_start by fastforce
  then obtain self where self: "id_find (topology s) (node_addr c) = Some self"
    by (auto simp: rows_def split: option.splits)
  obtain u where u: "id_find (topology s) dst = Some u"
    using net_route_found [OF wf self route] by blast
  then have uc: "u < count (topology s)" "addr (verts (topology s) ! u) = dst"
    using id_find_SomeD by auto
  obtain sp where sp: "run_dijkstra (ok Sp_Array) (topology s) self = Some sp"
    "fib (update_shortest_path ok c s) = foldl (install_step ok self sp)
      (replicate (count (topology s)) \<lparr>reachable = False, route = []\<rparr>) [0..<count (topology s)]"
    using update_shortest_path_full [OF self, of ok] ok by blast
  note entry = rebuilt_entry [OF wf self sp(1) uc(1), of ok, folded sp(2), unfolded uc(2)]
  have r: "reachable (fib (update_shortest_path ok c s) ! u)"
    using entry(1) best len ok by auto
  then have "route (fib (update_shortest_path ok c s) ! u) = p"
    using entry(2) best best_net_route_unique by blast
  moreover have "u < length (fib (update_shortest_path ok c s))"
    using install_steps [of "replicate (count (topology s)) \<lparr>reachable = False, route = []\<rparr>"
        "count (topology s)" "count (topology s)" ok self sp] uc(1) by (simp add: sp(2))
  ultimately show ?thesis
    using r u by (simp add: fib_lookup_def state_simps)
qed

text \<open>
  C17. Rebuilding the forwarding table makes it exactly the table of least routes: when memory
  suffices, a destination has an entry if and only if the advertised network has a least-cost
  (then least by address sequence) route to it of at most 256 intermediate hops, and the entry
  holds precisely those hops. Before our own row exists nothing is reachable.
\<close>

theorem update_shortest_path_correct:
  assumes "wf_graph (topology s)" and "\<And>x. ok x"
  shows "fib_lookup (update_shortest_path ok c s) dst = Some e \<longleftrightarrow>
    reachable e \<and> length (route e) \<le> MAX_MIXNET_ROUTE_LENGTH
    \<and> (\<exists>k. best_net_route (rows (topology s)) (node_addr c) dst k (route e @ [dst]))"
proof
  assume "fib_lookup (update_shortest_path ok c s) dst = Some e"
  with update_shortest_path_valid [OF assms(1)]
  show "reachable e \<and> length (route e) \<le> MAX_MIXNET_ROUTE_LENGTH
    \<and> (\<exists>k. best_net_route (rows (topology s)) (node_addr c) dst k (route e @ [dst]))"
    by (force dest: fib_validD simp: state_simps)
next
  assume r: "reachable e \<and> length (route e) \<le> MAX_MIXNET_ROUTE_LENGTH
    \<and> (\<exists>k. best_net_route (rows (topology s)) (node_addr c) dst k (route e @ [dst]))"
  then have "e = \<lparr>reachable = True, route = route e\<rparr>" by (cases e) simp
  with r update_shortest_path_complete [OF assms(1)] assms(2)
  show "fib_lookup (update_shortest_path ok c s) dst = Some e" by metis
qed

definition square_state :: node_state where
  "square_state =
     \<lparr>root = 1, path_len = 0, next_hop = INVALID_MIXADDR, neighbor_addr = [3, 2],
      blocked = [False, False], hello_start_ms = 0, reelection_start_ms = 0,
      topology = square_graph, lsa_start_ms = 0, fib = [], mix = None\<rparr>"

lemma square_state_table:
  "fib_lookup (update_shortest_path (\<lambda>_. True) example_config square_state) 4 =
     Some \<lparr>reachable = True, route = [2]\<rparr>"
  by code_simp

theorem update_shortest_path_correct_witness:
  "\<exists>k. best_net_route (rows square_graph) 1 4 k [2, 4]"
proof -
  have "wf_graph (topology square_state)" by (simp add: square_state_def wf_square_graph)
  from update_shortest_path_correct [OF this, of "\<lambda>_. True" example_config 4
      "\<lparr>reachable = True, route = [2]\<rparr>"]
  moreover have "topology square_state = square_graph" "node_addr example_config = 1"
    by (simp_all add: square_state_def example_config_def)
  ultimately show ?thesis by (simp add: square_state_table)
qed

subsection \<open>Random detours\<close>

text \<open>Each address of a walk is named in the advertisement of the one before it.\<close>

definition adjacent ::
  "(mixnet_address \<Rightarrow> mixnet_lsa_link_params list option) \<Rightarrow> mixnet_address \<Rightarrow>
   mixnet_address \<Rightarrow> bool" where
  "adjacent T a b \<longleftrightarrow>
     (case T a of None \<Rightarrow> False | Some ls \<Rightarrow> b \<in> set (map neighbor_mixaddr ls))"

fun linked ::
  "(mixnet_address \<Rightarrow> mixnet_lsa_link_params list option) \<Rightarrow> mixnet_address \<Rightarrow>
   mixnet_address list \<Rightarrow> bool" where
  "linked T a [] \<longleftrightarrow> True"
| "linked T a (b # p) \<longleftrightarrow> adjacent T a b \<and> linked T b p"

lemma linked_append: "linked T a (p @ b # q) \<longleftrightarrow> linked T a (p @ [b]) \<and> linked T b q"
  by (induction p arbitrary: a) auto

lemma net_route_linked: "net_route T me a c p \<Longrightarrow> linked T me p"
proof (induction rule: net_route.induct)
  case here
  then show ?case by simp
next
  case (step a c p ls l)
  then have adj: "adjacent T a (neighbor_mixaddr l)" by (simp add: adjacent_def)
  show ?case
  proof (cases p rule: rev_cases)
    case Nil
    then have "a = me" using net_route_end [OF step.hyps(1)] by auto
    with adj Nil show ?thesis by simp
  next
    case (snoc q b)
    then have "b = a" using net_route_end [OF step.hyps(1)] by auto
    with adj step.IH snoc show ?thesis
      using linked_append [of T me q b "[neighbor_mixaddr l]"] by simp
  qed
qed

lemma best_net_route_linked: "best_net_route T me dst k p \<Longrightarrow> linked T me p"
  using net_route_linked by (auto simp: best_net_route_def)

lemma path_between_best:
  assumes wf: "wf_graph g" and src: "src < count g" and dst: "dst < count g" "src \<noteq> dst"
    and res: "path_between ok g src dst cap = Some p"
  shows "length p \<le> cap \<and>
    (\<exists>k. best_net_route (rows g) (addr (verts g ! src)) (addr (verts g ! dst)) k
       (p @ [addr (verts g ! dst)]))"
proof -
  let ?a = "addr (verts g ! dst)"
  have wt: "wf_table g" using wf by (simp add: wf_graph_def)
  obtain sp where sp: "run_dijkstra ok g src = Some sp" and r: "reached sp dst"
    using res dst by (auto simp: path_between_def split: option.splits if_splits)
  have best: "best_route g src dst (unat (sp_cost (sp ! dst))) (sp_path (sp ! dst))"
    using dijkstra_result [OF wt src sp dst(1)] r by simp
  then have route: "route_to g src dst (unat (sp_cost (sp ! dst))) (sp_path (sp ! dst))"
    by (simp add: best_route_def)
  then have "sp_path (sp ! dst) \<noteq> []" "last (sp_path (sp ! dst)) = ?a"
    using route_end [OF route] dst(2) by auto
  then obtain q where q: "sp_path (sp ! dst) = q @ [?a]" by (metis append_butlast_last_id)
  have "length q < 32768"
    using route_length [OF route wt src] wf_table_count [OF wt] q by simp
  then have "unat (of_nat (length (sp_path (sp ! dst))) - 1 :: u16) = length q"
    using q by (simp add: unat_of_nat_u16)
  then have "p = q" "length q \<le> cap"
    using res sp r dst(2) q
    by (auto simp: path_between_def Let_def split: if_splits)
  moreover have "id_find g (addr (verts g ! src)) = Some src"
    using id_find_complete wt src by (auto simp: wf_table_def)
  ultimately show ?thesis
    using best best_route_net [OF wf _ dst(1)] q by auto
qed

lemma scan_waypoint_SomeD:
  "scan_waypoint me dst vs i k = Some w \<Longrightarrow>
   \<exists>j < length vs. w = i + j \<and> is_waypoint me dst (vs ! j)"
proof (induction vs arbitrary: i k)
  case Nil
  then show ?case by simp
next
  case (Cons v vs)
  show ?case
  proof (cases "is_waypoint me dst v \<and> k = 0")
    case True
    with Cons.prems show ?thesis by (auto simp: is_waypoint_def)
  next
    case False
    then have "\<exists>k. scan_waypoint me dst vs (Suc i) k = Some w"
      using Cons.prems by (auto simp: is_waypoint_def split: if_splits)
    then obtain j where "j < length vs" "w = Suc i + j" "is_waypoint me dst (vs ! j)"
      using Cons.IH by blast
    then show ?thesis by (intro exI [of _ "Suc j"]) simp
  qed
qed

lemma scan_waypoint_finds:
  "k < count_waypoints me dst vs \<Longrightarrow> scan_waypoint me dst vs i k \<noteq> None"
  by (induction vs arbitrary: i k) (auto simp: count_waypoints_def is_waypoint_def)

text \<open>The waypoint a detour goes through, and its two legs.\<close>

lemma random_route_legs:
  assumes wf: "wf_graph (topology s)" and fib: "fib_valid c s"
    and res: "random_route e c s dst = Some r"
  shows "\<exists>p w q. r = p @ [w] @ q \<and> w \<noteq> node_addr c \<and> w \<noteq> dst
    \<and> length r \<le> MAX_MIXNET_ROUTE_LENGTH
    \<and> (\<exists>k. best_net_route (rows (topology s)) (node_addr c) w k (p @ [w]))
    \<and> (\<exists>k. best_net_route (rows (topology s)) w dst k (q @ [dst]))"
proof -
  let ?g = "topology s"
  obtain wid did x q where scan: "scan_waypoint (node_addr c) dst (verts ?g) 0
        (rnd e mod count_waypoints (node_addr c) dst (verts ?g)) = Some wid"
    and did: "id_find ?g dst = Some did"
    and x: "fib_lookup s (addr (verts ?g ! wid)) = Some x" "length (route x) + 1 \<le> 256"
    and q: "path_between (alloc e Sp_Array) ?g wid did (256 - length (route x) - 1) = Some q"
    and r: "r = route x @ [addr (verts ?g ! wid)] @ q"
    using res unfolding random_route_def Let_def
    by (auto split: option.splits if_splits)
  have w: "wid < count ?g" "is_waypoint (node_addr c) dst (verts ?g ! wid)"
    using scan_waypoint_SomeD [OF scan] by (auto simp: count_def)
  have d: "did < count ?g" "addr (verts ?g ! did) = dst" using id_find_SomeD [OF did] by auto
  have "wid \<noteq> did" using w(2) d(2) by (auto simp: is_waypoint_def)
  from path_between_best [OF wf w(1) d(1) this q]
  have "length q \<le> 256 - length (route x) - 1"
    "\<exists>k. best_net_route (rows ?g) (addr (verts ?g ! wid)) dst k (q @ [dst])"
    by (simp_all add: d(2))
  with fib_validD [OF fib x(1)] w(2) x(2) r show ?thesis
    by (intro exI [of _ "route x"] exI [of _ "addr (verts ?g ! wid)"] exI [of _ q])
      (simp add: is_waypoint_def)
qed

lemma random_route_linked:
  assumes "wf_graph (topology s)" and "fib_valid c s" and "random_route e c s dst = Some r"
  shows "linked (rows (topology s)) (node_addr c) (r @ [dst])
    \<and> length r \<le> MAX_MIXNET_ROUTE_LENGTH"
proof -
  obtain p w q where r: "r = p @ [w] @ q" "length r \<le> MAX_MIXNET_ROUTE_LENGTH"
    "\<exists>k. best_net_route (rows (topology s)) (node_addr c) w k (p @ [w])"
    "\<exists>k. best_net_route (rows (topology s)) w dst k (q @ [dst])"
    using random_route_legs [OF assms] by blast
  then have "linked (rows (topology s)) (node_addr c) (p @ w # q @ [dst])"
    using best_net_route_linked linked_append by blast
  with r show ?thesis by simp
qed

text \<open>
  C39. A random detour goes through a waypoint that is neither endpoint, along the least route to
  it and the least route onward: the waypoint is spliced between the two legs, so that every two
  consecutive hops, the source and the destination included, are joined by an advertised link;
  and a header can carry the result.
\<close>

theorem random_route_is_detour:
  assumes "wf_graph (topology s)" and "fib_valid c s" and "random_route e c s dst = Some r"
  shows "linked (rows (topology s)) (node_addr c) (r @ [dst])
    \<and> length r \<le> MAX_MIXNET_ROUTE_LENGTH
    \<and> (\<exists>p w q. r = p @ [w] @ q \<and> w \<noteq> node_addr c \<and> w \<noteq> dst
        \<and> (\<exists>k. best_net_route (rows (topology s)) (node_addr c) w k (p @ [w]))
        \<and> (\<exists>k. best_net_route (rows (topology s)) w dst k (q @ [dst])))"
  using random_route_linked [OF assms] random_route_legs [OF assms] by blast

definition routed_state :: node_state where
  "routed_state = update_shortest_path (\<lambda>_. True) example_config square_state"

lemma routed_state_facts:
  "topology routed_state = square_graph" "fib_valid example_config routed_state"
  "random_route calm_env example_config routed_state 4 = Some [3]"
proof -
  show "topology routed_state = square_graph"
    by (simp add: routed_state_def state_simps square_state_def)
  have "wf_graph (topology square_state)" by (simp add: square_state_def wf_square_graph)
  then show "fib_valid example_config routed_state"
    unfolding routed_state_def by (rule update_shortest_path_valid)
  show "random_route calm_env example_config routed_state 4 = Some [3]"
    by code_simp
qed

theorem random_route_is_detour_witness:
  "linked (rows square_graph) 1 [3, 4]"
proof -
  have "wf_graph (topology routed_state)"
    by (simp add: routed_state_facts(1) wf_square_graph)
  from random_route_is_detour [OF this routed_state_facts(2,3)]
  show ?thesis by (simp add: routed_state_facts(1) example_config_def)
qed

end
