(* ===== verification/Flooding.thy ===== *)
theory Flooding
  imports Routes
begin

text \<open>
  What travels along the spanning tree in \<open>mixnet/node.c\<close>: \<open>handle_flood\<close>, \<open>originate_lsa\<close> and
  \<open>handle_lsa\<close>. The lemmas show on which ports a packet leaves and with what content, that
  nothing crosses a blocked port, that an advertisement replaces exactly one row of the topology
  and keeps the forwarding table valid, and that a malformed advertisement is harmless.
\<close>

subsection \<open>The code\<close>

definition handle_flood ::
  "env \<Rightarrow> mixnet_node_config \<Rightarrow> node_state \<Rightarrow> byte \<Rightarrow> buf \<Rightarrow> (node_state \<times> ev list) option" where
  "handle_flood e c s port packet =
     (if port \<noteq> user_port c then do {
        closed \<leftarrow> get_at (blocked s) (unat port);
        if closed then Some (s, [Free packet])
        else do {
          evs \<leftarrow> broadcast_on_tree e c s (int (unat port)) packet;
          Some (s, evs @ send_packet (unat (user_port c)) packet) } }
      else do {
        evs \<leftarrow> broadcast_on_tree e c s (int (unat port)) packet;
        Some (s, evs @ [Free packet]) })"

text \<open>The step both LSA functions share: replace a row, and rebuild the table when it changed.\<close>

definition learn_row ::
  "(site \<Rightarrow> bool) \<Rightarrow> mixnet_node_config \<Rightarrow> node_state \<Rightarrow> mixnet_address \<Rightarrow>
   mixnet_lsa_link_params list \<Rightarrow> node_state" where
  "learn_row ok c s origin ls =
     (let (g, changed) = graph_update ok (topology s) origin ls;
          s1 = s\<lparr>topology := g\<rparr>
      in if changed then update_shortest_path ok c s1 else s1)"

text \<open>The links array of an advertisement with \<open>n\<close> links, if the block reaches its end.\<close>

definition get_links :: "buf \<Rightarrow> nat \<Rightarrow> mixnet_lsa_link_params list option" where
  "get_links b n = (if LSA_PACKET_SIZE n \<le> length b then Some (lsa_links b n) else None)"

definition originate_lsa ::
  "env \<Rightarrow> mixnet_node_config \<Rightarrow> node_state \<Rightarrow> (node_state \<times> ev list) option" where
  "originate_lsa e c s =
     (if \<exists>p < ports c. neighbor_addr s ! p = INVALID_MIXADDR then Some (s, [])
      else
        (case make_lsa_packet e (alloc e Lsa_Packet) c s of
           None \<Rightarrow> Some (s, [])
         | Some packet \<Rightarrow> do {
             n \<leftarrow> get16 packet off_lsa_count;
             ls \<leftarrow> get_links packet (unat n);
             let s1 = learn_row (alloc e) c s (node_addr c) ls;
             evs \<leftarrow> broadcast_on_tree e c s1 (- 1) packet;
             Some (s1, Alloc packet # evs @ [Free packet]) }))"

definition handle_lsa ::
  "env \<Rightarrow> mixnet_node_config \<Rightarrow> node_state \<Rightarrow> byte \<Rightarrow> buf \<Rightarrow> (node_state \<times> ev list) option" where
  "handle_lsa e c s port packet =
     (if port = user_port c then Some (s, [Free packet])
      else do {
        size \<leftarrow> get16 packet off_total_size;
        if unat size < LSA_PACKET_SIZE 0 then Some (s, [Free packet])
        else do {
          n \<leftarrow> get16 packet off_lsa_count;
          if unat size < LSA_PACKET_SIZE (unat n) then Some (s, [Free packet])
          else do {
            origin \<leftarrow> get16 packet off_lsa_node;
            if origin = node_addr c then Some (s, [Free packet])
            else do {
              closed \<leftarrow> get_at (blocked s) (unat port);
              if closed then Some (s, [Free packet])
              else do {
                ls \<leftarrow> get_links packet (unat n);
                let s1 = learn_row (alloc e) c s origin ls;
                evs \<leftarrow> broadcast_on_tree e c s1 (int (unat port)) packet;
                Some (s1, evs @ [Free packet]) } } } } })"

subsection \<open>Learning a row\<close>

lemma learn_row_frame [state_simps]:
  "root (learn_row ok c s a ls) = root s" "path_len (learn_row ok c s a ls) = path_len s"
  "next_hop (learn_row ok c s a ls) = next_hop s"
  "neighbor_addr (learn_row ok c s a ls) = neighbor_addr s"
  "blocked (learn_row ok c s a ls) = blocked s"
  "topology (learn_row ok c s a ls) = fst (graph_update ok (topology s) a ls)"
  "hello_start_ms (learn_row ok c s a ls) = hello_start_ms s"
  "reelection_start_ms (learn_row ok c s a ls) = reelection_start_ms s"
  "lsa_start_ms (learn_row ok c s a ls) = lsa_start_ms s"
  "mix (learn_row ok c s a ls) = mix s"
  by (simp_all add: learn_row_def Let_def state_simps split: prod.split)

lemma tree_ports_learn_row [state_simps]: "tree_ports c (learn_row ok d s a ls) = tree_ports c s"
  by (simp add: tree_ports_def state_simps fun_eq_iff)

lemma fib_lookup_grown:
  assumes wf: "wf_graph (topology s)" "wf_graph g'" and len: "length (fib s) \<le> count (topology s)"
    and stable: "\<And>a i. id_find (topology s) a = Some i \<Longrightarrow> id_find g' a = Some i"
  shows "fib_lookup (s\<lparr>topology := g'\<rparr>) dst = fib_lookup s dst"
proof (cases "id_find (topology s) dst")
  case (Some i)
  with stable show ?thesis by (simp add: fib_lookup_def)
next
  case None
  have "length (fib s) \<le> i" if i: "id_find g' dst = Some i" for i
  proof (rule ccontr)
    assume "\<not> length (fib s) \<le> i"
    then have lt: "i < count (topology s)" using len by simp
    then have "id_find (topology s) (addr (verts (topology s) ! i)) = Some i"
      using id_find_complete wf(1) by (auto simp: wf_graph_def wf_table_def)
    moreover from this have "addr (verts (topology s) ! i) = dst"
      using id_find_SomeD stable i by metis
    ultimately show False using None by simp
  qed
  then show ?thesis using None by (auto simp: fib_lookup_def split: option.split)
qed

lemma update_shortest_path_size:
  "length (fib (update_shortest_path ok c s)) \<le> count (topology s)"
proof (cases "id_find (topology s) (node_addr c) = None \<or> \<not> ok Fib_Table \<or> \<not> ok Sp_Array")
  case True
  then show ?thesis using update_shortest_path_empty by blast
next
  case False
  then obtain self where self: "id_find (topology s) (node_addr c) = Some self" by auto
  let ?none = "replicate (count (topology s)) \<lparr>reachable = False, route = []\<rparr>"
  obtain sp where "fib (update_shortest_path ok c s) =
      foldl (install_step ok self sp) ?none [0..<count (topology s)]"
    using update_shortest_path_full [OF self, of ok] False by blast
  then show ?thesis
    using install_steps [of ?none "count (topology s)" "count (topology s)" ok self sp] by simp
qed

lemma graph_update_grows:
  assumes wf: "wf_graph g" and upd: "graph_update ok g a ls = (g', ch)"
  shows "count g \<le> count g'"
proof (rule ccontr)
  assume "\<not> count g \<le> count g'"
  then have "id_find g (addr (verts g ! count g')) = Some (count g')"
    using id_find_complete wf by (auto simp: wf_graph_def wf_table_def)
  then have "id_find g' (addr (verts g ! count g')) = Some (count g')"
    by (rule graph_update_stable [OF wf upd])
  then show False using id_find_SomeD by blast
qed

lemma learn_row_cases:
  assumes wf: "wf_graph (topology s)" and upd: "graph_update ok (topology s) a ls = (g, ch)"
  shows "learn_row ok c s a ls =
    (if ch then update_shortest_path ok c (s\<lparr>topology := g\<rparr>) else s\<lparr>topology := g\<rparr>)"
  by (simp add: learn_row_def upd)

lemma learn_row_keeps:
  assumes wf: "wf_state c s" and fv: "fib_valid c s"
  shows "wf_state c (learn_row ok c s a ls) \<and> fib_valid c (learn_row ok c s a ls)"
proof -
  obtain g ch where upd: "graph_update ok (topology s) a ls = (g, ch)" by fastforce
  note st = wf_stateD [OF wf]
  have wf': "wf_graph g" using st(3) upd by (auto elim: graph_update_cases)
  have len: "length (fib s) \<le> count g" using graph_update_grows [OF st(3) upd] st(4) by simp
  have wf_s: "wf_state c (s\<lparr>topology := g\<rparr>)"
    using wf wf' len by (simp add: wf_state_def wf_mix_def)
  show ?thesis
  proof (cases ch)
    case True
    have "wf_state c (update_shortest_path ok c (s\<lparr>topology := g\<rparr>))"
      using wf_s update_shortest_path_size [of ok c "s\<lparr>topology := g\<rparr>"]
      by (simp add: wf_state_def wf_mix_def state_simps)
    with True show ?thesis
      using update_shortest_path_valid [of "s\<lparr>topology := g\<rparr>" c ok] wf'
      by (simp add: learn_row_cases [OF st(3) upd])
  next
    case False
    have "rows g = rows (topology s)" using st(3) upd False by (auto elim: graph_update_cases)
    moreover have "fib_lookup (s\<lparr>topology := g\<rparr>) dst = fib_lookup s dst" for dst
      by (rule fib_lookup_grown [OF st(3) wf' st(4) graph_update_stable [OF st(3) upd]])
    ultimately have "fib_valid c (s\<lparr>topology := g\<rparr>)" using fv by (simp add: fib_valid_def)
    with False wf_s show ?thesis by (simp add: learn_row_cases [OF st(3) upd])
  qed
qed

subsection \<open>Floods\<close>

lemma handle_flood_eq:
  assumes wf: "wf_state c s" and b: "pkt_block b" and port: "port = user_port c \<or> unat port < ports c"
  shows "handle_flood e c s port b = Some (s,
    if port \<noteq> user_port c \<and> blocked s ! unat port then [Free b]
    else concat (map (copy_evs e (wire_copy b)) (tree_ports c s (int (unat port))))
      @ (if port = user_port c then [Free b] else [Send (user_port c) b]))"
  using port wf_stateD(2) [OF wf]
  by (auto simp: handle_flood_def access_simps broadcast_on_tree_eq [OF b] send_packet_def)

lemma tree_ports_port:
  "tree_ports c s (int (unat port)) = filter (\<lambda>p. p \<noteq> unat port \<and> \<not> blocked s ! p) [0..<ports c]"
  for port :: byte
  by (auto simp: tree_ports_def intro!: filter_cong dest: arg_cong [where f = nat])

text \<open>
  C25. A flood leaves on every open port but the one it came in on, each copy carrying exactly
  the declared bytes, and goes up to the user unless the user sent it; one that arrives on a
  blocked port goes nowhere. The node's state does not change, and the packet is consumed once.
  (Memory permitting: a failed copy drops that copy only.)
\<close>

theorem handle_flood_forwards:
  assumes "wf_state c s" and "pkt_block b" and "port = user_port c \<or> unat port < ports c"
    and "\<And>p. alloc e (Clone_Packet p)"
  shows "\<exists>evs. handle_flood e c s port b = Some (s, evs) \<and> balance evs = - 1 \<and>
    sent evs =
      (if port \<noteq> user_port c \<and> blocked s ! unat port then []
       else map (\<lambda>p. (of_nat p, take (unat (pkt_total_size b)) b))
              (filter (\<lambda>p. p \<noteq> unat port \<and> \<not> blocked s ! p) [0..<ports c])
            @ (if port = user_port c then [] else [(user_port c, b)]))"
  unfolding handle_flood_eq [OF assms(1-3), of e] tree_ports_port
  using assms(4) by (simp add: sent_copy_evs wire_copy_def)

subsection \<open>Advertisements\<close>

text \<open>Our own: sent once every neighbour is known.\<close>

definition neighbors_known :: "mixnet_node_config \<Rightarrow> node_state \<Rightarrow> bool" where
  "neighbors_known c s \<longleftrightarrow> (\<forall>p < ports c. neighbor_addr s ! p \<noteq> INVALID_MIXADDR)"

lemma make_lsa_packet_block:
  assumes "make_lsa_packet e ok c s = Some b"
  shows "pkt_block b"
proof -
  have "unat (of_nat (length b) :: u16) \<le> length b" by (simp only: unat_of_nat mod_less_eq_dividend)
  then show ?thesis
    using make_lsa_packet_fields(1,2) [OF assms] unfolding pkt_block_def by simp
qed

lemma originate_lsa_eq:
  "originate_lsa e c s = Some
    (if \<not> neighbors_known c s \<or> \<not> alloc e Lsa_Packet then (s, [])
     else
       (let b = the (make_lsa_packet e True c s);
            s1 = learn_row (alloc e) c s (node_addr c) (own_links c s)
        in (s1, Alloc b # concat (map (copy_evs e (wire_copy b)) (tree_ports c s (- 1)))
                @ [Free b])))"
proof (cases "neighbors_known c s \<and> alloc e Lsa_Packet")
  case False
  then show ?thesis
    by (auto simp: originate_lsa_def neighbors_known_def make_lsa_packet_def)
next
  case True
  obtain b where b: "make_lsa_packet e True c s = Some b"
    by (simp add: make_lsa_packet_def Let_def)
  note f = make_lsa_packet_fields [OF b]
  have "get16 b off_lsa_count = Some (num_neighbors c)"
    using f(1,5) by (simp add: get16_Some)
  moreover have "get_links b (ports c) = Some (own_links c s)" using f(1,6) by (simp add: get_links_def)
  ultimately show ?thesis
    using True b broadcast_on_tree_eq [OF make_lsa_packet_block [OF b]]
    by (auto simp: originate_lsa_def neighbors_known_def Let_def state_simps)
qed

lemma balance_cons_append: "balance (Alloc b # xs @ [Free b]) = balance xs"
  by simp

lemma own_links_addrs:
  "length (neighbor_addr s) = ports c \<Longrightarrow> map neighbor_mixaddr (own_links c s) = neighbor_addr s"
  by (simp add: own_links_def comp_def list_eq_iff_nth_eq)

lemma lsa_links_take:
  "LSA_PACKET_SIZE n \<le> m \<Longrightarrow> lsa_links (take m b) n = lsa_links b n"
  by (simp add: lsa_links_def)

lemma wire_copy_full: "pkt_total_size b = of_nat (length b) \<Longrightarrow> length b < 65536 \<Longrightarrow> wire_copy b = b"
  by (simp add: wire_copy_def unat_of_nat_u16)

text \<open>An origination touches the topology and the table only.\<close>

lemma originate_lsa_frame:
  assumes "originate_lsa e c s = Some (s', evs)"
  shows "s' = s\<lparr>topology := topology s', fib := fib s'\<rparr>"
proof -
  have "learn_row (alloc e) c s a ls = s\<lparr>topology := topology (learn_row (alloc e) c s a ls),
      fib := fib (learn_row (alloc e) c s a ls)\<rparr>" for a ls
    using learn_row_frame [of "alloc e" c s a ls] by simp
  then show ?thesis using assms unfolding originate_lsa_eq by (auto simp: Let_def split: if_splits)
qed

lemma originate_lsa_effect:
  assumes "wf_state c s" and "fib_valid c s" and "ports c \<le> 1020" and mem: "\<And>x. alloc e x"
    and room: "card (set (addrs (topology s)) \<union> set (neighbor_addr s) \<union> {node_addr c}) \<le> 32768"
  shows "\<exists>s' evs. originate_lsa e c s = Some (s', evs)
    \<and> wf_state c s' \<and> fib_valid c s' \<and> balance evs = 0
    \<and> rows (topology s') = (if neighbors_known c s
        then (rows (topology s))(node_addr c \<mapsto> own_links c s) else rows (topology s))
    \<and> map fst (sent evs) = (if neighbors_known c s
        then map of_nat (filter (\<lambda>p. \<not> blocked s ! p) [0..<ports c]) else [])
    \<and> (\<forall>(q, x) \<in> set (sent evs). pkt_type x = type_code PACKET_TYPE_LSA
        \<and> length x = LSA_PACKET_SIZE (ports c) \<and> rd16 x off_lsa_node = node_addr c
        \<and> rd16 x off_lsa_count = num_neighbors c \<and> lsa_links x (ports c) = own_links c s)"
proof (cases "neighbors_known c s")
  case False
  then show ?thesis using assms(1,2) by (simp add: originate_lsa_eq)
next
  case True
  obtain b where b: "make_lsa_packet e True c s = Some b"
    by (simp add: make_lsa_packet_def Let_def)
  note f = make_lsa_packet_fields [OF b]
  have "wire_copy b = b" using f(1,2) assms(3) by (intro wire_copy_full) simp_all
  moreover have "tree_ports c s (- 1) = filter (\<lambda>p. \<not> blocked s ! p) [0..<ports c]"
    by (auto simp: tree_ports_def)
  moreover have "neighbor_mixaddr ` set (own_links c s) = set (neighbor_addr s)"
    using own_links_addrs [OF wf_stateD(1) [OF assms(1)]] by (metis set_map)
  then have "rows (fst (graph_update (alloc e) (topology s) (node_addr c) (own_links c s))) =
      (rows (topology s))(node_addr c \<mapsto> own_links c s)"
    using graph_update_room [OF wf_stateD(3) [OF assms(1)]] room mem by simp
  ultimately show ?thesis
    using True b f mem learn_row_keeps [OF assms(1,2), of "alloc e" "node_addr c" "own_links c s"]
    by (auto simp: originate_lsa_eq Let_def state_simps sent_copy_evs)
qed

text \<open>
  C26. A node that knows all its neighbours puts its own links in its own row and tells every
  tree neighbour: each packet carries its address and, in port order, the address and the cost
  of each link. Until then it neither sends nor changes anything. Its forwarding table stays
  valid, and no block is lost.
\<close>

theorem originate_lsa_advertises:
  assumes "wf_state c s" and "fib_valid c s" and "ports c \<le> 1020" and mem: "\<And>x. alloc e x"
    and room: "card (set (addrs (topology s)) \<union> set (neighbor_addr s) \<union> {node_addr c}) \<le> 32768"
  shows "\<exists>s' evs. originate_lsa e c s = Some (s', evs)
    \<and> wf_state c s' \<and> fib_valid c s' \<and> balance evs = 0
    \<and> rows (topology s') = (if neighbors_known c s
        then (rows (topology s))(node_addr c \<mapsto> own_links c s) else rows (topology s))
    \<and> map fst (sent evs) = (if neighbors_known c s
        then map of_nat (filter (\<lambda>p. \<not> blocked s ! p) [0..<ports c]) else [])
    \<and> (\<forall>(q, x) \<in> set (sent evs). pkt_type x = type_code PACKET_TYPE_LSA
        \<and> length x = LSA_PACKET_SIZE (ports c) \<and> rd16 x off_lsa_node = node_addr c
        \<and> rd16 x off_lsa_count = num_neighbors c \<and> lsa_links x (ports c) = own_links c s)"
  by (rule originate_lsa_effect [OF assms])

text \<open>Which packets \<open>handle_lsa\<close> accepts.\<close>

definition lsa_accepted :: "mixnet_node_config \<Rightarrow> node_state \<Rightarrow> byte \<Rightarrow> buf \<Rightarrow> bool" where
  "lsa_accepted c s port b \<longleftrightarrow>
     port \<noteq> user_port c \<and> LSA_PACKET_SIZE 0 \<le> unat (pkt_total_size b)
     \<and> LSA_PACKET_SIZE (unat (rd16 b off_lsa_count)) \<le> unat (pkt_total_size b)
     \<and> rd16 b off_lsa_node \<noteq> node_addr c \<and> \<not> blocked s ! unat port"

lemma handle_lsa_eq:
  assumes wf: "wf_state c s" and b: "pkt_block b"
    and port: "port = user_port c \<or> unat port < ports c"
  shows "handle_lsa e c s port b = Some
    (if lsa_accepted c s port b then
       (learn_row (alloc e) c s (rd16 b off_lsa_node) (lsa_links b (unat (rd16 b off_lsa_count))),
        concat (map (copy_evs e (wire_copy b)) (tree_ports c s (int (unat port)))) @ [Free b])
     else (s, [Free b]))"
proof -
  have len: "12 \<le> length b" "unat (pkt_total_size b) \<le> length b"
    using b by (simp_all add: pkt_block_def)
  have size: "get16 b 0 = Some (pkt_total_size b)"
    using len by (simp add: get16_iff pkt_total_size_def)
  show ?thesis
  proof (cases "port = user_port c \<or> unat (pkt_total_size b) < LSA_PACKET_SIZE 0")
    case True
    then show ?thesis by (auto simp: handle_lsa_def lsa_accepted_def size)
  next
    case False
    then have "16 \<le> length b" using len by simp
    then have "get16 b 14 = Some (rd16 b 14)" "get16 b 12 = Some (rd16 b 12)"
      by (simp_all add: get16_iff)
    then show ?thesis
      using False port len wf_stateD(2) [OF wf]
      by (simp add: handle_lsa_def lsa_accepted_def size get_links_def access_simps
          broadcast_on_tree_eq [OF b] state_simps Let_def)
  qed
qed

text \<open>
  \<open>handle_lsa\<close> is safe against any packet block from any port: however the sizes and the
  link count are forged it stays inside the block and inside its arrays, consumes the packet
  exactly once, and keeps the state well formed and every table entry a least route of the
  topology -- whichever of its allocations fail.
\<close>

theorem handle_lsa_safe:
  assumes "wf_state c s" and "fib_valid c s" and "pkt_block b"
    and "port = user_port c \<or> unat port < ports c"
  shows "\<exists>s' evs. handle_lsa e c s port b = Some (s', evs)
    \<and> wf_state c s' \<and> fib_valid c s' \<and> balance evs = - 1"
  unfolding handle_lsa_eq [OF assms(1,3,4)]
  using learn_row_keeps [OF assms(1,2)] assms(1,2) by simp

text \<open>
  C24. An advertisement of another node that arrives on an open port and declares a size that
  covers its links (\<open>lsa_accepted\<close>) is copied to every other open port and never to the user,
  each copy carrying exactly the declared bytes, and its block is freed; of the state only the
  topology and the forwarding table may change. Every other advertisement is dropped without a
  trace: its block is freed, nothing is sent and the state is as before. When every allocation
  succeeds and the network has at most 32768 addresses, an accepted one becomes its origin's
  row, whole, and every other row stays; a copy goes missing only where its allocation fails.
\<close>

theorem handle_lsa_installs_and_floods:
  assumes "wf_state c s" and "pkt_block b" and "port = user_port c \<or> unat port < ports c"
  shows "\<exists>s' evs. handle_lsa e c s port b = Some (s', evs) \<and>
    (if lsa_accepted c s port b then
       s' = s\<lparr>topology := topology s', fib := fib s'\<rparr> \<and>
       evs = concat (map (\<lambda>p. if alloc e (Clone_Packet p)
                 then [Alloc (take (unat (pkt_total_size b)) b),
                       Send (of_nat p) (take (unat (pkt_total_size b)) b)] else [])
               (filter (\<lambda>p. p \<noteq> unat port \<and> \<not> blocked s ! p) [0..<ports c])) @ [Free b] \<and>
       ((\<forall>x. alloc e x) \<and>
        card (set (addrs (topology s)) \<union> neighbor_mixaddr ` set (lsa_links b (unat (rd16 b off_lsa_count)))
          \<union> {rd16 b off_lsa_node}) \<le> 32768 \<longrightarrow>
        rows (topology s') =
          (rows (topology s))(rd16 b off_lsa_node \<mapsto> lsa_links b (unat (rd16 b off_lsa_count))))
     else s' = s \<and> evs = [Free b])"
proof -
  let ?a = "rd16 b off_lsa_node" and ?ls = "lsa_links b (unat (rd16 b off_lsa_count))"
  have "rows (fst (graph_update (alloc e) (topology s) ?a ?ls)) = (rows (topology s))(?a \<mapsto> ?ls)"
    if "\<forall>x. alloc e x" "card (set (addrs (topology s)) \<union> neighbor_mixaddr ` set ?ls \<union> {?a}) \<le> 32768"
    using graph_update_room [OF wf_stateD(3) [OF assms(1)]] that by blast
  moreover have "learn_row (alloc e) c s ?a ?ls = s\<lparr>topology := topology (learn_row (alloc e) c s ?a ?ls),
      fib := fib (learn_row (alloc e) c s ?a ?ls)\<rparr>"
    using learn_row_frame [of "alloc e" c s ?a ?ls] by simp
  moreover have "copy_evs e x = (\<lambda>p. if alloc e (Clone_Packet p) then [Alloc x, Send (of_nat p) x] else [])" for x
    by (simp add: copy_evs_def fun_eq_iff)
  ultimately show ?thesis
    unfolding handle_lsa_eq [OF assms] tree_ports_port
    by (simp add: wire_copy_def learn_row_frame(6))
qed

subsection \<open>Examples\<close>

definition example_flood :: buf where
  "example_flood = [12, 0, 1, 0, 0, 0, 0, 0, 0, 0, 0, 0]"

text \<open>Node 3 advertises its link to node 1, at cost 5.\<close>

definition example_lsa :: buf where
  "example_lsa = [20, 0, 2, 0, 0, 0, 0, 0, 0, 0, 0, 0, 3, 0, 1, 0, 1, 0, 5, 0]"

lemma example_blocks:
  "pkt_block example_flood" "pkt_block example_lsa" "user_port example_config = 2"
  "lsa_accepted example_config square_state 0 example_lsa"
  "rd16 example_lsa off_lsa_node = 3" "rd16 example_lsa off_lsa_count = 1"
  "lsa_links example_lsa 1 = [\<lparr>neighbor_mixaddr = 1, cost = 5\<rparr>]"
  by (code_simp, code_simp, code_simp, code_simp, code_simp, code_simp, code_simp)

lemma square_state_ok:
  "wf_state example_config square_state" "fib_valid example_config square_state"
  "topology square_state = square_graph" "neighbor_addr square_state = [3, 2]"
  "blocked square_state = [False, False]"
proof -
  show "wf_state example_config square_state"
    by (simp add: wf_state_def square_state_def wf_square_graph wf_mix_def)
  have "fib_lookup square_state dst = None" for dst
    by (rule nothing_reachable) (simp add: square_state_def)
  then show "fib_valid example_config square_state" by (simp add: fib_valid_def)
qed (simp_all add: square_state_def)

lemma calm_env_alloc [simp]: "alloc calm_env x"
  by (simp add: calm_env_def)

lemma addrs_square_graph: "addrs square_graph = [1, 3, 2, 4]"
  by (simp add: addrs_def square_graph_def)

theorem handle_flood_forwards_witness:
  "\<exists>evs. handle_flood calm_env example_config square_state 0 example_flood
      = Some (square_state, evs)
    \<and> sent evs = [(1, example_flood), (2, example_flood)]"
proof -
  have "take (unat (pkt_total_size example_flood)) example_flood = example_flood" by code_simp
  moreover have "filter (\<lambda>p. p \<noteq> unat (0 :: byte) \<and> \<not> blocked square_state ! p)
      [0..<ports example_config] = [1]"
    by code_simp
  ultimately show ?thesis
    using handle_flood_forwards [OF square_state_ok(1) example_blocks(1), of 0 calm_env]
    by (auto simp: example_blocks square_state_ok)
qed

theorem originate_lsa_advertises_witness:
  "\<exists>s' evs. originate_lsa calm_env example_config square_state = Some (s', evs)
    \<and> rows (topology s') 1 =
        Some [\<lparr>neighbor_mixaddr = 3, cost = 1\<rparr>, \<lparr>neighbor_mixaddr = 2, cost = 1\<rparr>]"
proof -
  have "neighbors_known example_config square_state" by code_simp
  moreover have "own_links example_config square_state =
      [\<lparr>neighbor_mixaddr = 3, cost = 1\<rparr>, \<lparr>neighbor_mixaddr = 2, cost = 1\<rparr>]" by code_simp
  ultimately show ?thesis
    using originate_lsa_advertises [OF square_state_ok(1,2), of calm_env]
    by (auto simp: square_state_ok addrs_square_graph card_insert_if)
qed

theorem handle_lsa_safe_witness:
  "\<exists>s' evs. handle_lsa calm_env example_config square_state 0 example_lsa = Some (s', evs)
    \<and> balance evs = - 1"
  using handle_lsa_safe [OF square_state_ok(1,2) example_blocks(2), of 0 calm_env] by auto

theorem handle_lsa_installs_and_floods_witness:
  "\<exists>s' evs. handle_lsa calm_env example_config square_state 0 example_lsa = Some (s', evs)
    \<and> rows (topology s') 3 = Some [\<lparr>neighbor_mixaddr = 1, cost = 5\<rparr>]
    \<and> evs = [Alloc example_lsa, Send 1 example_lsa, Free example_lsa]"
proof -
  have "take (unat (pkt_total_size example_lsa)) example_lsa = example_lsa"
    "filter (\<lambda>p. p \<noteq> unat (0 :: byte) \<and> \<not> blocked square_state ! p) [0..<ports example_config] = [1]"
    by (code_simp, code_simp)
  then show ?thesis
    using handle_lsa_installs_and_floods [OF square_state_ok(1) example_blocks(2), of 0 calm_env]
      example_blocks
    by (auto simp: square_state_ok addrs_square_graph card_insert_if)
qed

end
