(* ===== verification/Mixing.thy ===== *)
theory Mixing
  imports Node_State
begin

text \<open>
  \<open>send_to_next_hop\<close> of \<open>mixnet/node.c\<close>: the next hop of a routed packet, and the mixing buffer
  that holds packets back until a batch is complete. The lemmas show that a batch leaves exactly
  when it is full, in arrival order, and that nothing is lost or sent twice on the way.
\<close>

subsection \<open>The code\<close>

text \<open>
  The next hop: the route entry the hop index points at, or the destination once the route is
  used up.
\<close>

definition rh_next_hop :: "buf \<Rightarrow> mixnet_address option" where
  "rh_next_hop b = do {
     hop \<leftarrow> get16 b off_rh_hop_index;
     len \<leftarrow> get16 b off_rh_route_length;
     if hop < len then get16 b (off_rh_route (unat hop)) else get16 b off_rh_dst }"

text \<open>The buffer after one more packet, and the batch that completes it, if it does.\<close>

definition mix_put ::
  "mixnet_node_config \<Rightarrow> mix_slot list \<Rightarrow> mix_slot \<Rightarrow> mix_slot list \<times> mix_slot list" where
  "mix_put c q m =
     (let q1 = q @ [m] in
      if length q1 \<ge> unat (mixing_factor c) then ([], q1) else (q1, []))"

text \<open>A write to a slot at or past \<open>mixing_factor\<close>, the size of the array, is \<open>None\<close>.\<close>

definition send_to_next_hop ::
  "mixnet_node_config \<Rightarrow> node_state \<Rightarrow> buf \<Rightarrow> (node_state \<times> ev list) option" where
  "send_to_next_hop c s packet = do {
     hop \<leftarrow> rh_next_hop packet;
     (case port_of c s hop of
        None \<Rightarrow> Some (s, [Free packet])
      | Some port \<Rightarrow>
          (case mix s of
             None \<Rightarrow> Some (s, send_packet port packet)
           | Some q \<Rightarrow>
               if length q \<ge> unat (mixing_factor c) then None
               else
                 (let (q1, batch) =
                      mix_put c q \<lparr>slot_port = of_nat port, slot_packet = packet\<rparr>
                  in Some (s\<lparr>mix := Some q1\<rparr>,
                           concat (map (\<lambda>m. send_packet (unat (slot_port m)) (slot_packet m))
                             batch))))) }"

subsection \<open>Batches\<close>

text \<open>
  What a batching buffer promises: it holds fewer than \<open>k\<close> items, and an item either joins them
  or completes a batch that leaves whole.
\<close>

locale batching =
  fixes put :: "'q \<Rightarrow> 'a \<Rightarrow> 'q \<times> 'a list" and items :: "'q \<Rightarrow> 'a list" and k :: nat
  assumes put_less: "Suc (length (items q)) < k \<Longrightarrow>
      items (fst (put q x)) = items q @ [x] \<and> snd (put q x) = []"
    and put_full: "Suc (length (items q)) \<ge> k \<Longrightarrow>
      items (fst (put q x)) = [] \<and> snd (put q x) = items q @ [x]"
begin

fun put_all :: "'q \<Rightarrow> 'a list \<Rightarrow> 'q \<times> 'a list" where
  "put_all q [] = (q, [])"
| "put_all q (x # xs) = (let (q1, out) = put q x; (q2, rest) = put_all q1 xs in (q2, out @ rest))"

lemma put_fifo: "snd (put q x) @ items (fst (put q x)) = items q @ [x]"
  using put_less put_full by (cases "Suc (length (items q)) < k") auto

lemma put_bound:
  assumes "0 < k" shows "length (items (fst (put q x))) < k"
  using put_less [of q x] put_full [of q x] assms by (cases "Suc (length (items q)) < k") auto

lemma put_batch:
  assumes "length (items q) < k" shows "k dvd length (snd (put q x))"
proof (cases "Suc (length (items q)) < k")
  case True
  then show ?thesis using put_less by simp
next
  case False
  with assms have "Suc (length (items q)) = k" by simp
  then show ?thesis using put_full by simp
qed

lemma put_all_fifo: "snd (put_all q xs) @ items (fst (put_all q xs)) = items q @ xs"
proof (induction xs arbitrary: q)
  case Nil
  then show ?case by simp
next
  case (Cons x xs)
  show ?case
    using Cons [of "fst (put q x)"] put_fifo [of q x] by (simp add: Let_def split_beta)
qed

lemma put_all_batches:
  assumes "length (items q) < k"
  shows "k dvd length (snd (put_all q xs)) \<and> length (items (fst (put_all q xs))) < k"
  using assms
proof (induction xs arbitrary: q)
  case Nil
  then show ?case by simp
next
  case (Cons x xs)
  then show ?case
    using Cons.IH [of "fst (put q x)"] put_bound [of q x] put_batch [of q x]
    by (simp add: Let_def split_beta)
qed

text \<open>So the items that have left are the longest prefix made of whole batches.\<close>

lemma put_all_prefix:
  assumes "items q = []" and "0 < k"
  shows "snd (put_all q xs) = take (length xs div k * k) xs"
    and "items (fst (put_all q xs)) = drop (length xs div k * k) xs"
proof -
  let ?out = "snd (put_all q xs)" and ?left = "items (fst (put_all q xs))"
  have eq: "?out @ ?left = xs" using put_all_fifo [of q xs] assms(1) by simp
  have "length (items q) < k" using assms by simp
  from put_all_batches [OF this] obtain m where m: "length ?out = k * m" and lt: "length ?left < k"
    by (metis dvdE)
  have "length xs = k * m + length ?left" using eq m by (metis length_append)
  then have "length xs div k = m" using lt by simp
  then have "length xs div k * k = length ?out" using m by (simp add: mult.commute)
  with eq show "?out = take (length xs div k * k) xs" "?left = drop (length xs div k * k) xs"
    by (metis append_eq_conv_conj)+
qed

end

interpretation mx: batching "mix_put c" "\<lambda>q. q" "unat (mixing_factor c)"
  for c :: mixnet_node_config
  by unfold_locales (simp_all add: mix_put_def)

subsection \<open>One packet\<close>

text \<open>The port a routed packet leaves on, if its next hop is a neighbour, as a slot.\<close>

definition hop_slot :: "mixnet_node_config \<Rightarrow> node_state \<Rightarrow> buf \<Rightarrow> mix_slot option" where
  "hop_slot c s b = do {
     hop \<leftarrow> rh_next_hop b;
     port \<leftarrow> port_of c s hop;
     Some \<lparr>slot_port = of_nat port, slot_packet = b\<rparr> }"

definition slot_send :: "mix_slot \<Rightarrow> byte \<times> buf" where
  "slot_send m = (slot_port m, slot_packet m)"

lemma send_packet_slot: "send_packet (unat (slot_port m)) (slot_packet m) = [Send (slot_port m) (slot_packet m)]"
  by (simp add: send_packet_def)

lemma sent_batch:
  "sent (concat (map (\<lambda>m. send_packet (unat (slot_port m)) (slot_packet m)) ms)) = map slot_send ms"
  by (induction ms) (simp_all add: send_packet_slot slot_send_def)

lemma balance_batch:
  "balance (concat (map (\<lambda>m. send_packet (unat (slot_port m)) (slot_packet m)) ms)) = - int (length ms)"
  by (induction ms) simp_all

text \<open>The number of packets a node holds back.\<close>

definition held :: "node_state \<Rightarrow> nat" where
  "held s = (case mix s of None \<Rightarrow> 0 | Some q \<Rightarrow> length q)"

lemma send_to_next_hop_eq:
  assumes mix: "wf_mix c s" and hop: "rh_next_hop b \<noteq> None"
  shows "send_to_next_hop c s b = Some
    (case hop_slot c s b of
       None \<Rightarrow> (s, [Free b])
     | Some m \<Rightarrow>
         (case mix s of
            None \<Rightarrow> (s, [Send (slot_port m) b])
          | Some q \<Rightarrow>
              (s\<lparr>mix := Some (fst (mix_put c q m))\<rparr>,
               concat (map (\<lambda>m. send_packet (unat (slot_port m)) (slot_packet m))
                 (snd (mix_put c q m))))))"
proof -
  obtain a where a: "rh_next_hop b = Some a" using hop by auto
  show ?thesis
    using mix
    by (cases "port_of c s a")
      (auto simp: a send_to_next_hop_def hop_slot_def wf_mix_def Let_def send_packet_def split_beta
        split: option.split)
qed

lemma send_to_next_hop_keeps:
  assumes wf: "wf_state c s" and hop: "rh_next_hop b \<noteq> None"
  shows "\<exists>s' evs. send_to_next_hop c s b = Some (s', evs) \<and> wf_state c s'
    \<and> s' = s\<lparr>mix := mix s'\<rparr> \<and> balance evs = int (held s') - int (held s) - 1"
proof -
  have mix: "wf_mix c s" using wf by (simp add: wf_state_def)
  note run = send_to_next_hop_eq [OF mix hop]
  show ?thesis
  proof (cases "hop_slot c s b = None \<or> mix s = None")
    case True
    then show ?thesis using wf by (auto simp: run split: option.split)
  next
    case False
    then obtain m q where m: "hop_slot c s b = Some m" and q: "mix s = Some q" by auto
    have k: "0 < unat (mixing_factor c)" "length q < unat (mixing_factor c)"
      "1 < unat (mixing_factor c)"
      using mix q by (auto simp: wf_mix_def)
    have "length (fst (mix_put c q m)) < unat (mixing_factor c)" by (rule mx.put_bound [OF k(1)])
    moreover have "length (snd (mix_put c q m)) + length (fst (mix_put c q m)) = length q + 1"
      using mx.put_fifo [of c q m] by (metis length_append length_append_singleton Suc_eq_plus1)
    ultimately show ?thesis
      using wf m q k(3)
      by (auto simp: run balance_batch held_def wf_state_def wf_mix_def)
  qed
qed

subsection \<open>A sequence of packets\<close>

fun send_all ::
  "mixnet_node_config \<Rightarrow> node_state \<Rightarrow> buf list \<Rightarrow> (node_state \<times> ev list) option" where
  "send_all c s [] = Some (s, [])"
| "send_all c s (b # bs) = do {
     (s1, evs) \<leftarrow> send_to_next_hop c s b;
     (s2, rest) \<leftarrow> send_all c s1 bs;
     Some (s2, evs @ rest) }"

text \<open>The packets of a sequence that have a next hop among the neighbours, with their ports.\<close>

definition routable :: "mixnet_node_config \<Rightarrow> node_state \<Rightarrow> buf list \<Rightarrow> mix_slot list" where
  "routable c s bs = List.map_filter (hop_slot c s) bs"

lemma hop_slot_mix [simp]: "hop_slot c (s\<lparr>mix := x\<rparr>) = hop_slot c s"
proof -
  have "port_of c (s\<lparr>mix := x\<rparr>) = port_of c s" by (intro ext port_of_cong) simp
  then show ?thesis by (simp add: hop_slot_def fun_eq_iff)
qed

lemma send_all_mixing:
  assumes "mix s = Some q" and "wf_mix c s" and "\<forall>b \<in> set bs. rh_next_hop b \<noteq> None"
  shows "\<exists>evs. send_all c s bs
      = Some (s\<lparr>mix := Some (fst (mx.put_all c q (routable c s bs)))\<rparr>, evs)
    \<and> sent evs = map slot_send (snd (mx.put_all c q (routable c s bs)))"
  using assms
proof (induction bs arbitrary: s q)
  case Nil
  then have "s\<lparr>mix := Some q\<rparr> = s" by simp
  then show ?case by (simp add: routable_def List.map_filter_def)
next
  case (Cons b bs)
  have run: "send_to_next_hop c s b = Some
    (case hop_slot c s b of
       None \<Rightarrow> (s, [Free b])
     | Some m \<Rightarrow> (s\<lparr>mix := Some (fst (mix_put c q m))\<rparr>,
         concat (map (\<lambda>m. send_packet (unat (slot_port m)) (slot_packet m)) (snd (mix_put c q m)))))"
    using send_to_next_hop_eq [OF Cons.prems(2), of b] Cons.prems by (simp split: option.split)
  show ?case
  proof (cases "hop_slot c s b")
    case None
    then show ?thesis
      using Cons.IH [OF Cons.prems(1,2)] Cons.prems(3) run
      by (auto simp: routable_def List.map_filter_def)
  next
    case (Some m)
    let ?s1 = "s\<lparr>mix := Some (fst (mix_put c q m))\<rparr>"
    have "0 < unat (mixing_factor c)" using Cons.prems(1,2) by (simp add: wf_mix_def)
    from mx.put_bound [OF this] have "wf_mix c ?s1"
      using Cons.prems(1,2) by (simp add: wf_mix_def)
    from Cons.IH [OF _ this, of "fst (mix_put c q m)"] Cons.prems(3)
    obtain evs where "send_all c ?s1 bs = Some (?s1\<lparr>mix :=
          Some (fst (mx.put_all c (fst (mix_put c q m)) (routable c ?s1 bs)))\<rparr>, evs)"
      "sent evs = map slot_send (snd (mx.put_all c (fst (mix_put c q m)) (routable c ?s1 bs)))"
      by auto
    then show ?thesis
      using run Some
      by (simp add: routable_def List.map_filter_def Let_def split_beta sent_batch)
  qed
qed

text \<open>
  C23. Mixing releases packets in whole batches: of any sequence of routed packets handed to
  \<open>send_to_next_hop\<close>, those with a neighbour as next hop leave in arrival order, each on its own
  port, and at every moment exactly the longest prefix made of full batches of
  \<open>mixing_factor\<close> packets has left; the rest is in the buffer, none is lost or repeated.
\<close>

theorem send_to_next_hop_batches:
  assumes "mix s = Some []" and "wf_mix c s" and "\<forall>b \<in> set bs. rh_next_hop b \<noteq> None"
  shows "\<exists>s' evs. send_all c s bs = Some (s', evs) \<and>
    (let k = unat (mixing_factor c); all = map slot_send (routable c s bs); n = length all div k * k
     in sent evs = take n all \<and> map_option (map slot_send) (mix s') = Some (drop n all))"
proof -
  have k: "0 < unat (mixing_factor c)" using assms(1,2) by (simp add: wf_mix_def)
  from send_all_mixing [OF assms] mx.put_all_prefix [OF refl k, of "routable c s bs"]
  show ?thesis by (auto simp: take_map drop_map)
qed

definition mixing_config :: mixnet_node_config where
  "mixing_config = example_config\<lparr>mixing_factor := 2\<rparr>"

definition mixing_state :: node_state where
  "mixing_state = idle_state\<lparr>neighbor_addr := [3, 2], mix := Some []\<rparr>"

text \<open>A DATA packet from 1 for node \<open>d\<close> with an empty route.\<close>

definition direct_packet :: "byte \<Rightarrow> buf" where
  "direct_packet d = [20, 0, 3, 0, 0, 0, 0, 0, 0, 0, 0, 0, 1, 0, d, 0, 0, 0, 0, 0]"

theorem send_to_next_hop_batches_witness:
  "\<exists>s' evs. send_all mixing_config mixing_state [direct_packet 2, direct_packet 3, direct_packet 2]
      = Some (s', evs)
    \<and> sent evs = [(1, direct_packet 2), (0, direct_packet 3)]"
proof -
  have "map slot_send (routable mixing_config mixing_state
      [direct_packet 2, direct_packet 3, direct_packet 2]) =
      [(1, direct_packet 2), (0, direct_packet 3), (1, direct_packet 2)]"
    by code_simp
  moreover have "rh_next_hop (direct_packet 2) \<noteq> None" "rh_next_hop (direct_packet 3) \<noteq> None"
    by (code_simp, code_simp)
  moreover have "mix mixing_state = Some []" "wf_mix mixing_config mixing_state"
    "unat (mixing_factor mixing_config) = 2"
    by (simp_all add: mixing_state_def mixing_config_def wf_mix_def)
  ultimately show ?thesis
    using send_to_next_hop_batches [of mixing_state mixing_config
        "[direct_packet 2, direct_packet 3, direct_packet 2]"]
    by (auto simp: Let_def)
qed

end
