(* ===== verification/Forwarding.thy ===== *)
theory Forwarding
  imports Flooding Mixing
begin

text \<open>
  DATA and PING packets in \<open>mixnet/node.c\<close>: \<open>routed_packet_is_well_formed\<close>, \<open>source_route\<close>,
  \<open>make_ping_reply\<close> and \<open>handle_routed\<close>. The lemmas show that the three roles of a node are safe
  on arbitrary packets, what the source writes into a packet, that a reply retraces the request,
  and that a packet travels hop by hop along its route to its destination.
\<close>

subsection \<open>The code\<close>

definition PING_code :: u16 where [simp]: "PING_code = type_code PACKET_TYPE_PING"
definition DATA_code :: u16 where [simp]: "DATA_code = type_code PACKET_TYPE_DATA"

text \<open>\<open>ping_fields\<close>: the PING fields trail a route of \<open>n\<close> hops.\<close>

definition off_ping :: "nat \<Rightarrow> nat" where [simp]: "off_ping n = off_rh_route n"

definition routed_packet_is_well_formed :: "buf \<Rightarrow> bool \<Rightarrow> bool option" where
  "routed_packet_is_well_formed packet has_ping_fields = do {
     size \<leftarrow> get16 packet off_total_size;
     let needed = sizeof_mixnet_packet + sizeof_routing_header;
     if unat size < needed then Some False
     else do {
       len \<leftarrow> get16 packet off_rh_route_length;
       ty \<leftarrow> get16 packet off_type;
       Some (unat size \<ge> needed + sizeof_mixnet_address * unat len
         + (if ty = PING_code \<and> has_ping_fields then sizeof_mixnet_packet_ping else 0)) } }"

text \<open>The PING fields a source appends: a request, the pad byte, and the time.\<close>

definition put_ping :: "env \<Rightarrow> buf \<Rightarrow> nat \<Rightarrow> buf option" where
  "put_ping e b n = do {
     b1 \<leftarrow> write_at b (off_ping n) [1];
     b2 \<leftarrow> write_at b1 (off_ping n + 1) [0];
     put64 b2 (off_ping n + 2) (now e) }"

text \<open>
  The packet a source sends along \<open>hops\<close>: \<open>Some None\<close> when it does not fit. Sizes are size_t, so
  the tail of a DATA packet whose declared size ends inside its header would wrap around.
\<close>

definition insert_route :: "env \<Rightarrow> buf \<Rightarrow> mixnet_address list \<Rightarrow> buf option option" where
  "insert_route e packet hops = do {
     old_len \<leftarrow> get16 packet off_rh_route_length;
     ty \<leftarrow> get16 packet off_type;
     size \<leftarrow> get16 packet off_total_size;
     let old_tail = off_rh_route (unat old_len);
     let new_tail = off_rh_route (length hops);
     let tail_size = (if ty = DATA_code then of_nat (unat size) - of_nat old_tail
                      else of_nat sizeof_mixnet_packet_ping :: u64);
     let total_size = of_nat new_tail + tail_size;
     if unat total_size > MAX_MIXNET_PACKET_SIZE then Some None
     else do {
       b1 \<leftarrow> (if ty = DATA_code then do {
                tail \<leftarrow> read_at packet old_tail (unat tail_size);
                write_at packet new_tail tail }
              else Some packet);
       b2 \<leftarrow> (if length hops > 0 then write_at b1 (off_rh_route 0) (enc_route hops) else Some b1);
       b3 \<leftarrow> put16 b2 off_rh_route_length (of_nat (length hops));
       b4 \<leftarrow> put16 b3 off_rh_hop_index 0;
       b5 \<leftarrow> put16 b4 off_total_size (ucast total_size);
       b6 \<leftarrow> (if ty = PING_code then put_ping e b5 (length hops) else Some b5);
       Some (Some b6) } }"

text \<open>The route a source chooses: a detour if it randomizes and one can be built.\<close>

definition choose_route ::
  "env \<Rightarrow> mixnet_node_config \<Rightarrow> node_state \<Rightarrow> mixnet_address \<Rightarrow> fib_entry \<Rightarrow>
   mixnet_address list" where
  "choose_route e c s dst path =
     (if do_random_routing c then
        (case random_route e c s dst of None \<Rightarrow> route path | Some detour \<Rightarrow> detour)
      else route path)"

definition source_route ::
  "env \<Rightarrow> mixnet_node_config \<Rightarrow> node_state \<Rightarrow> buf \<Rightarrow> (node_state \<times> ev list) option" where
  "source_route e c s packet = do {
     dst \<leftarrow> get16 packet off_rh_dst;
     (case fib_lookup s dst of
        None \<Rightarrow> Some (s, [Free packet])
      | Some path \<Rightarrow> do {
          routed \<leftarrow> insert_route e packet (choose_route e c s dst path);
          (case routed of
             None \<Rightarrow> Some (s, [Free packet])
           | Some packet1 \<Rightarrow> send_to_next_hop c s packet1) }) }"

text \<open>The loop that reverses a route of \<open>n\<close> hops in place, over the indices \<open>i\<close> that remain.\<close>

fun reverse_route :: "buf \<Rightarrow> nat \<Rightarrow> nat list \<Rightarrow> buf option" where
  "reverse_route b n [] = Some b"
| "reverse_route b n (i # is) = do {
     let j = n - 1 - i;
     hop \<leftarrow> get16 b (off_rh_route i);
     other \<leftarrow> get16 b (off_rh_route j);
     b1 \<leftarrow> put16 b (off_rh_route i) other;
     b2 \<leftarrow> put16 b1 (off_rh_route j) hop;
     reverse_route b2 n is }"

text \<open>\<open>Some None\<close> is NULL.\<close>

definition make_ping_reply :: "bool \<Rightarrow> buf \<Rightarrow> buf option option" where
  "make_ping_reply ok request = do {
     copy \<leftarrow> clone_packet ok request;
     (case copy of
        None \<Rightarrow> Some None
      | Some reply \<Rightarrow> do {
          src \<leftarrow> get16 reply off_rh_src;
          dst \<leftarrow> get16 reply off_rh_dst;
          b1 \<leftarrow> put16 reply off_rh_src dst;
          b2 \<leftarrow> put16 b1 off_rh_dst src;
          len \<leftarrow> get16 b2 off_rh_route_length;
          b3 \<leftarrow> reverse_route b2 (unat len) [0..<unat len div 2];
          b4 \<leftarrow> put16 b3 off_rh_hop_index 0;
          b5 \<leftarrow> write_at b4 (off_ping (unat len)) [0];
          Some (Some b5) }) }"

definition handle_routed ::
  "env \<Rightarrow> mixnet_node_config \<Rightarrow> node_state \<Rightarrow> byte \<Rightarrow> buf \<Rightarrow> (node_state \<times> ev list) option" where
  "handle_routed e c s port packet = do {
     let from_user = (port = user_port c);
     ok \<leftarrow> routed_packet_is_well_formed packet (\<not> from_user);
     if \<not> ok then Some (s, [Free packet])
     else if from_user then source_route e c s packet
     else do {
       dst \<leftarrow> get16 packet off_rh_dst;
       len \<leftarrow> get16 packet off_rh_route_length;
       hop \<leftarrow> get16 packet off_rh_hop_index;
       ty \<leftarrow> get16 packet off_type;
       if dst = node_addr c then do {
         is_request \<leftarrow> (if ty = PING_code then get8 packet (off_ping (unat len)) else Some 0);
         (s1, evs) \<leftarrow>
           (if ty = PING_code \<and> is_request \<noteq> 0 then do {
              answer \<leftarrow> make_ping_reply (alloc e Ping_Reply) packet;
              (case answer of
                 None \<Rightarrow> Some (s, [])
               | Some reply \<Rightarrow> do {
                   (s1, evs) \<leftarrow> send_to_next_hop c s reply;
                   Some (s1, Alloc reply # evs) }) }
            else Some (s, []));
         Some (s1, evs @ send_packet (unat (user_port c)) packet) }
       else if hop \<ge> len then Some (s, [Free packet])
       else do {
         here \<leftarrow> get16 packet (off_rh_route (unat hop));
         if here \<noteq> node_addr c then Some (s, [Free packet])
         else do {
           packet1 \<leftarrow> put16 packet off_rh_hop_index (hop + 1);
           send_to_next_hop c s packet1 } } } }"

subsection \<open>Safety\<close>

text \<open>What a packet that passed the check covers.\<close>

lemma well_formed_total:
  assumes "pkt_block b"
  shows "routed_packet_is_well_formed b flag = Some
    (20 \<le> unat (pkt_total_size b) \<and>
     20 + 2 * unat (rd16 b off_rh_route_length)
       + (if rd16 b off_type = PING_code \<and> flag then 10 else 0) \<le> unat (pkt_total_size b))"
  using assms
  by (auto simp: routed_packet_is_well_formed_def pkt_block_def pkt_total_size_def get16_iff
      add.commute mult.commute)

lemma rh_next_hop_defined:
  assumes "20 + 2 * unat (rd16 b off_rh_route_length) \<le> length b"
  shows "rh_next_hop b = Some
    (if rd16 b off_rh_hop_index < rd16 b off_rh_route_length
     then rd16 b (off_rh_route (unat (rd16 b off_rh_hop_index))) else rd16 b off_rh_dst)"
proof -
  have "rd16 b 18 < rd16 b 16 \<Longrightarrow> 22 + 2 * unat (rd16 b 18) \<le> length b"
    using assms by (simp add: word_less_nat_alt)
  then show ?thesis using assms by (auto simp: rh_next_hop_def get16_iff)
qed

lemma put_ping_defined:
  assumes "off_ping n + 10 \<le> length b"
  shows "put_ping e b n = Some
    (splice (splice (splice b (off_ping n) [1]) (off_ping n + 1) [0]) (off_ping n + 2)
       (le_bytes 8 (now e)))"
  using assms by (simp add: put_ping_def put64_def write_at_def)

lemma put_ping_effect:
  assumes "off_ping n + 10 \<le> length b" and "put_ping e b n = Some x"
  shows "length x = length b" and "x ! off_ping n = 1" and "rd64 x (off_ping n + 2) = now e"
    and "off + k \<le> off_ping n \<Longrightarrow> slice x off k = slice b off k"
proof -
  have x: "x = splice (splice (splice b (off_ping n) [1]) (off_ping n + 1) [0]) (off_ping n + 2)
       (le_bytes 8 (now e))"
    using assms put_ping_defined by simp
  show "length x = length b" "x ! off_ping n = 1"
    using assms(1) by (simp_all add: x nth_splice)
  show "rd64 x (off_ping n + 2) = now e"
    using assms(1) by (simp add: x rd64_def slice_splice_same le_word_le_bytes)
  show "off + k \<le> off_ping n \<Longrightarrow> slice x off k = slice b off k"
    using assms(1) by (simp add: x slice_splice_other)
qed

subsection \<open>What the source writes\<close>

definition stamp :: "buf \<Rightarrow> mixnet_address list \<Rightarrow> u16 \<Rightarrow> buf" where
  "stamp b hops tot =
     wr16 (wr16 (wr16 (splice b (off_rh_route 0) (enc_route hops)) off_rh_route_length
       (of_nat (length hops))) off_rh_hop_index 0) off_total_size tot"

lemma stamp_effect:
  assumes "off_rh_route (length hops) \<le> length b" and "length hops \<le> 256"
  shows "length (stamp b hops tot) = length b"
    and "pkt_total_size (stamp b hops tot) = tot"
    and "rd16 (stamp b hops tot) off_type = rd16 b off_type"
    and "rd16 (stamp b hops tot) off_rh_src = rd16 b off_rh_src"
    and "rd16 (stamp b hops tot) off_rh_dst = rd16 b off_rh_dst"
    and "rd16 (stamp b hops tot) off_rh_hop_index = 0"
    and "rd16 (stamp b hops tot) off_rh_route_length = of_nat (length hops)"
    and "rh_route (stamp b hops tot) = hops"
    and "off_rh_route (length hops) \<le> off \<Longrightarrow> off + k \<le> length b \<Longrightarrow>
      slice (stamp b hops tot) off k = slice b off k"
proof -
  have len: "20 + 2 * length hops \<le> length b" using assms(1) by simp
  show "length (stamp b hops tot) = length b"
    "pkt_total_size (stamp b hops tot) = tot"
    "rd16 (stamp b hops tot) off_type = rd16 b off_type"
    "rd16 (stamp b hops tot) off_rh_src = rd16 b off_rh_src"
    "rd16 (stamp b hops tot) off_rh_dst = rd16 b off_rh_dst"
    "rd16 (stamp b hops tot) off_rh_hop_index = 0"
    and n: "rd16 (stamp b hops tot) off_rh_route_length = of_nat (length hops)"
    using len by (simp_all add: stamp_def pkt_total_size_def rd16_splice_other)
  have hop: "rd16 (stamp b hops tot) (20 + 2 * i) = hops ! i" if "i < length hops" for i
  proof -
    have "rd16 (stamp b hops tot) (20 + 2 * i) = rd16 (splice b 20 (enc_route hops)) (20 + 2 * i)"
      using len that by (simp add: stamp_def)
    also have "\<dots> = rd16 (enc_route hops) (2 * i)"
      using len that by (simp add: rd16_def slice_splice_within)
    finally show ?thesis using that by simp
  qed
  have "unat (rd16 (stamp b hops tot) off_rh_route_length) = length hops"
    unfolding n using assms(2) by (intro unat_of_nat_u16) simp
  then have "rh_route (stamp b hops tot) =
      map (\<lambda>i. rd16 (stamp b hops tot) (20 + 2 * i)) [0..<length hops]"
    by (simp add: rh_route_def add.commute)
  also have "\<dots> = map ((!) hops) [0..<length hops]" by (rule map_cong) (simp_all add: hop)
  finally show "rh_route (stamp b hops tot) = hops" by (simp add: map_nth)
  show "slice (stamp b hops tot) off k = slice b off k"
    if "off_rh_route (length hops) \<le> off" "off + k \<le> length b"
    using that len by (simp add: stamp_def slice_wr16_other slice_splice_other)
qed

text \<open>The steps every kind of packet shares.\<close>

lemma stamp_steps:
  assumes "off_rh_route (length hops) \<le> length b"
  shows "do {
       b2 \<leftarrow> (if length hops > 0 then write_at b (off_rh_route 0) (enc_route hops) else Some b);
       b3 \<leftarrow> put16 b2 off_rh_route_length (of_nat (length hops));
       b4 \<leftarrow> put16 b3 off_rh_hop_index 0;
       b5 \<leftarrow> put16 b4 off_total_size tot;
       f b5 } = f (stamp b hops tot)"
proof -
  have len: "20 + 2 * length hops \<le> length b" using assms by simp
  have "(if length hops > 0 then write_at b (off_rh_route 0) (enc_route hops) else Some b) =
      Some (splice b (off_rh_route 0) (enc_route hops))"
    using len by (cases hops) (simp_all add: write_at_def splice_def)
  moreover have "length (splice b (off_rh_route 0) (enc_route hops)) = length b" using len by simp
  ultimately show ?thesis using len by (simp add: stamp_def put16_Some)
qed

lemma tail_size:
  assumes "m \<le> n" and "n < 65536"
  shows "of_nat n - of_nat m = (of_nat (n - m) :: u64)"
  using assms by (simp add: of_nat_diff)

lemma ucast_of_nat_size: "(ucast (of_nat n :: u64) :: u16) = of_nat n"
  by (simp add: unsigned_of_nat word_of_nat_eq_iff take_bit_take_bit)

text \<open>The bytes of user data behind the route of a DATA packet.\<close>

definition user_data :: "buf \<Rightarrow> buf" where
  "user_data b =
     slice b (off_rh_route (unat (rd16 b off_rh_route_length)))
       (unat (pkt_total_size b) - off_rh_route (unat (rd16 b off_rh_route_length)))"

lemma insert_route_data:
  assumes block: "pkt_block b" "MAX_MIXNET_PACKET_SIZE \<le> length b"
    and ty: "rd16 b off_type = DATA_code"
    and old: "off_rh_route (unat (rd16 b off_rh_route_length)) \<le> unat (pkt_total_size b)"
    and n: "n = off_rh_route (length hops) + length (user_data b)" and hops: "length hops \<le> 256"
  shows "insert_route e b hops = Some (if n > MAX_MIXNET_PACKET_SIZE then None
    else Some (stamp (splice b (off_rh_route (length hops)) (user_data b)) hops (of_nat n)))"
proof -
  let ?old = "off_rh_route (unat (rd16 b off_rh_route_length))" and ?size = "unat (pkt_total_size b)"
  have len: "20 \<le> length b" "?size \<le> length b" "4096 \<le> length b"
    using block by (simp_all add: pkt_block_def)
  have tail: "length (user_data b) = ?size - ?old" using len old by (simp add: user_data_def)
  have reads: "get16 b off_rh_route_length = Some (rd16 b off_rh_route_length)"
    "get16 b off_type = Some DATA_code" "get16 b off_total_size = Some (pkt_total_size b)"
    using len ty by (simp_all add: get16_iff pkt_total_size_def)
  have w1: "(of_nat ?size :: u64) - of_nat ?old = of_nat (length (user_data b))"
    unfolding tail by (rule tail_size [OF old]) (rule unat_u16_less)
  have small: "length (user_data b) < 65536" unfolding tail using unat_u16_less [of "pkt_total_size b"] by simp
  have w2: "(of_nat (off_rh_route (length hops)) :: u64) + of_nat (length (user_data b)) = of_nat n"
    by (simp add: n)
  have n64: "unat (of_nat n :: u64) = n"
    using small hops by (intro unat_of_nat_u64) (simp add: n)
  have data64: "unat (of_nat (length (user_data b)) :: u64) = length (user_data b)"
    using small by (intro unat_of_nat_u64) simp
  have rd: "read_at b ?old (length (user_data b)) = Some (user_data b)"
    unfolding tail using len old by (simp add: read_at_def user_data_def)
  have wr: "write_at b (off_rh_route (length hops)) (user_data b) =
      Some (splice b (off_rh_route (length hops)) (user_data b))" if "n \<le> 4096"
    using that len by (simp add: write_at_def n)
  have block1: "off_rh_route (length hops) \<le>
      length (splice b (off_rh_route (length hops)) (user_data b))" if "n \<le> 4096"
    using that len by (simp add: n)
  show ?thesis
  proof (cases "n \<le> MAX_MIXNET_PACKET_SIZE")
    case False
    then show ?thesis
      unfolding insert_route_def reads bind.bind_lunit Let_def w1 w2 n64 if_P [OF refl] by simp
  next
    case True
    then have le: "n \<le> 4096" by simp
    note steps = stamp_steps [OF block1 [OF le], of "of_nat n" "\<lambda>b5. Some (Some b5)"]
    show ?thesis
      unfolding insert_route_def reads bind.bind_lunit Let_def w1 w2 n64 if_P [OF refl]
        data64 rd wr [OF le] ucast_of_nat_size
      using True steps by simp
  qed
qed

lemma insert_route_ping:
  assumes block: "pkt_block b" "MAX_MIXNET_PACKET_SIZE \<le> length b"
    and ty: "rd16 b off_type = PING_code" and hops: "length hops \<le> 256"
    and n: "n = off_rh_route (length hops) + sizeof_mixnet_packet_ping"
  shows "insert_route e b hops =
    Some (put_ping e (stamp b hops (of_nat n)) (length hops))"
proof -
  have len: "20 \<le> length b" "4096 \<le> length b" using block by (simp_all add: pkt_block_def)
  have reads: "get16 b off_rh_route_length = Some (rd16 b off_rh_route_length)"
    "get16 b off_type = Some PING_code" "get16 b off_total_size = Some (pkt_total_size b)"
    using len ty by (simp_all add: get16_iff pkt_total_size_def)
  have w2: "(of_nat (off_rh_route (length hops)) :: u64) + of_nat sizeof_mixnet_packet_ping = of_nat n"
    by (simp add: n)
  have n64: "unat (of_nat n :: u64) = n"
    using hops by (intro unat_of_nat_u64) (simp add: n)
  have le: "\<not> n > MAX_MIXNET_PACKET_SIZE" using hops by (simp add: n)
  have ne: "PING_code \<noteq> DATA_code" by simp
  have block1: "off_rh_route (length hops) \<le> length b" using len hops by simp
  have "off_ping (length hops) + 10 \<le> length (stamp b hops (of_nat n))"
    using stamp_effect(1) [OF block1 hops] len hops by simp
  from put_ping_defined [OF this, of e] obtain x
    where x: "put_ping e (stamp b hops (of_nat n)) (length hops) = Some x" by blast
  note steps = stamp_steps [OF block1, of "of_nat n"
      "\<lambda>b5. do { b6 \<leftarrow> put_ping e b5 (length hops); Some (Some b6) }"]
  show ?thesis
    unfolding insert_route_def reads bind.bind_lunit Let_def if_not_P [OF ne] if_P [OF refl]
      w2 n64 if_not_P [OF le] ucast_of_nat_size steps x by simp
qed

text \<open>
  The packet that leaves the source: our route from its start, the addresses as the user set
  them, and the user's data behind it, or fresh PING fields.
\<close>

definition sourced :: "env \<Rightarrow> buf \<Rightarrow> mixnet_address list \<Rightarrow> buf \<Rightarrow> bool" where
  "sourced e b hops x \<longleftrightarrow>
     pkt_block x \<and> rh_route x = hops \<and> rd16 x off_rh_hop_index = 0
     \<and> rd16 x off_rh_src = rd16 b off_rh_src \<and> rd16 x off_rh_dst = rd16 b off_rh_dst
     \<and> rd16 x off_type = rd16 b off_type
     \<and> (if rd16 b off_type = DATA_code then
          user_data x = user_data b
          \<and> unat (pkt_total_size x) = off_rh_route (length hops) + length (user_data b)
        else
          unat (pkt_total_size x) = off_rh_route (length hops) + sizeof_mixnet_packet_ping
          \<and> x ! off_ping (length hops) = 1 \<and> rd64 x (off_ping (length hops) + 2) = now e)"

lemma insert_route_sources:
  assumes block: "pkt_block b" "MAX_MIXNET_PACKET_SIZE \<le> length b"
    and ty: "rd16 b off_type = DATA_code \<or> rd16 b off_type = PING_code"
    and old: "off_rh_route (unat (rd16 b off_rh_route_length)) \<le> unat (pkt_total_size b)"
    and hops: "length hops \<le> 256"
  shows "if rd16 b off_type = DATA_code
      \<and> off_rh_route (length hops) + length (user_data b) > MAX_MIXNET_PACKET_SIZE
    then insert_route e b hops = Some None
    else \<exists>x. insert_route e b hops = Some (Some x) \<and> sourced e b hops x"
proof (cases "rd16 b off_type = DATA_code")
  case data: True
  let ?new = "off_rh_route (length hops)"
  define n where n: "n = ?new + length (user_data b)"
  note ins = insert_route_data [OF block data old n hops, of e]
  show ?thesis
  proof (cases "n > MAX_MIXNET_PACKET_SIZE")
    case True
    then show ?thesis using ins data by (simp add: n)
  next
    case False
    let ?b1 = "splice b ?new (user_data b)" and ?x = "stamp (splice b ?new (user_data b)) hops (of_nat n)"
    have fit: "?new + length (user_data b) \<le> length b" "n \<le> 4096" using False block(2) n by auto
    then have len1: "length ?b1 = length b" by simp
    have new1: "?new \<le> length ?b1" using fit unfolding len1 by simp
    note e = stamp_effect [OF new1 hops, where tot = "of_nat n"]
    have head: "rd16 ?b1 off = rd16 b off" if "off + 2 \<le> 20" for off
      using that fit by (intro rd16_splice_other) simp_all
    have un: "unat (of_nat n :: u16) = n" using fit(2) by (intro unat_of_nat_u16) simp
    have rl: "unat (rd16 ?x off_rh_route_length) = length hops"
      unfolding e(7) using hops by (intro unat_of_nat_u16) simp
    have "user_data ?x = slice ?x ?new (n - ?new)"
      unfolding user_data_def [of ?x] rl e(2) un ..
    also have "\<dots> = slice ?b1 ?new (length (user_data b))"
    proof -
      have d: "n - ?new = length (user_data b)" by (simp add: n)
      have "?new + length (user_data b) \<le> length ?b1" unfolding len1 by (rule fit(1))
      from e(9) [OF order_refl this] show ?thesis unfolding d .
    qed
    also have "\<dots> = user_data b" using fit by (intro slice_splice_same) simp_all
    finally have "user_data ?x = user_data b" .
    moreover have "pkt_block ?x" using e(1,2) len1 un fit block(2) by (simp add: pkt_block_def n)
    ultimately have "sourced e b hops ?x"
      using data e un head by (simp add: sourced_def n)
    then show ?thesis using ins data False by (simp add: n)
  qed
next
  case False
  then have ping: "rd16 b off_type = PING_code" using ty by simp
  let ?new = "off_rh_route (length hops)"
  define n where n: "n = ?new + sizeof_mixnet_packet_ping"
  let ?y = "stamp b hops (of_nat n)"
  have new: "?new \<le> length b" and small: "n \<le> 4096" using hops block(2) n by auto
  note e = stamp_effect [OF new hops, where tot = "of_nat n"]
  have room: "off_ping (length hops) + 10 \<le> length ?y"
    using e(1) hops block(2) by simp
  obtain x where x: "put_ping e ?y (length hops) = Some x" using put_ping_defined [OF room] by blast
  note p = put_ping_effect [OF room x]
  have same: "rd16 x off = rd16 ?y off" if "off + 2 \<le> off_ping (length hops)" for off
    using p(4) [OF that] by (simp add: rd16_def)
  have rl: "unat (rd16 ?y off_rh_route_length) = length hops"
    unfolding e(7) using hops by (intro unat_of_nat_u16) simp
  have un: "unat (of_nat n :: u16) = n" using small by (intro unat_of_nat_u16) simp
  have "rh_route x = rh_route ?y"
    unfolding rh_route_def using rl same by simp
  then have "sourced e b hops x"
    using False e p same un small block(2)
    by (simp add: sourced_def pkt_block_def pkt_total_size_def n)
  then show ?thesis
    using insert_route_ping [OF block ping hops n, of e] x False by simp
qed

lemma choose_route_linked:
  assumes "wf_graph (topology s)" and "fib_valid c s" and "fib_lookup s dst = Some path"
  shows "linked (rows (topology s)) (node_addr c) (choose_route e c s dst path @ [dst])
    \<and> length (choose_route e c s dst path) \<le> MAX_MIXNET_ROUTE_LENGTH"
  using fib_validD [OF assms(2,3)] random_route_linked [OF assms(1,2)] best_net_route_linked
  by (auto simp: choose_route_def split: option.split)

text \<open>A packet from the user, in the framework's full-size block, that passed the check.\<close>

definition user_request :: "buf \<Rightarrow> bool" where
  "user_request b \<longleftrightarrow>
     pkt_block b \<and> MAX_MIXNET_PACKET_SIZE \<le> length b
     \<and> (rd16 b off_type = DATA_code \<or> rd16 b off_type = PING_code)
     \<and> off_rh_route (unat (rd16 b off_rh_route_length)) \<le> unat (pkt_total_size b)"

lemma sourced_next_hop:
  assumes "sourced e b hops x" and "length hops \<le> 256"
  shows "rh_next_hop x = Some (hd (hops @ [rd16 b off_rh_dst]))"
proof -
  have "length (rh_route x) = length hops" using assms(1) by (simp add: sourced_def)
  then have rl: "unat (rd16 x off_rh_route_length) = length hops" by (simp add: rh_route_def)
  have "off_rh_route (length hops) \<le> unat (pkt_total_size x)"
    using assms(1) by (auto simp: sourced_def split: if_splits)
  then have len: "20 + 2 * unat (rd16 x off_rh_route_length) \<le> length x"
    using assms(1) rl by (simp add: sourced_def pkt_block_def)
  have hop: "rd16 x off_rh_hop_index = 0" "rd16 x off_rh_dst = rd16 b off_rh_dst" "rh_route x = hops"
    using assms(1) by (simp_all add: sourced_def)
  show ?thesis
  proof (cases hops)
    case Nil
    then have "rd16 x off_rh_route_length = 0" using rl by (simp add: unsigned_eq_0_iff)
    then show ?thesis using rh_next_hop_defined [OF len] hop Nil by simp
  next
    case (Cons a as)
    then have "0 < rd16 x off_rh_route_length" using rl by (simp add: word_less_nat_alt)
    moreover have "rd16 x (off_rh_route 0) = rh_route x ! 0"
      using rl Cons by (simp add: rh_route_def del: upt_Suc)
    ultimately show ?thesis using rh_next_hop_defined [OF len] hop Cons by simp
  qed
qed

text \<open>Everything \<open>source_route\<close> can do with such a packet.\<close>

lemma source_route_cases:
  assumes wf: "wf_state c s" and fv: "fib_valid c s" and b: "user_request b"
  obtains (drop) "source_route e c s b = Some (s, [Free b])"
      "fib_lookup s (rd16 b off_rh_dst) = None \<or>
       (\<exists>path. fib_lookup s (rd16 b off_rh_dst) = Some path \<and> rd16 b off_type = DATA_code
          \<and> off_rh_route (length (choose_route e c s (rd16 b off_rh_dst) path))
              + length (user_data b) > MAX_MIXNET_PACKET_SIZE)"
  | (send) path x where "fib_lookup s (rd16 b off_rh_dst) = Some path"
      "sourced e b (choose_route e c s (rd16 b off_rh_dst) path) x"
      "rh_next_hop x \<noteq> None" "source_route e c s b = send_to_next_hop c s x"
proof -
  let ?d = "rd16 b off_rh_dst"
  have dst: "get16 b off_rh_dst = Some ?d" using b by (simp add: user_request_def get16_iff)
  show thesis
  proof (cases "fib_lookup s ?d")
    case None
    then show thesis using drop dst by (simp add: source_route_def)
  next
    case (Some path)
    let ?r = "choose_route e c s ?d path"
    have len: "length ?r \<le> 256"
      using choose_route_linked [OF wf_stateD(3) [OF wf] fv Some] by simp
    have ins: "if rd16 b off_type = DATA_code
        \<and> off_rh_route (length ?r) + length (user_data b) > MAX_MIXNET_PACKET_SIZE
      then insert_route e b ?r = Some None
      else \<exists>x. insert_route e b ?r = Some (Some x) \<and> sourced e b ?r x"
      using b unfolding user_request_def by (intro insert_route_sources len) blast+
    show thesis
    proof (cases "insert_route e b ?r = Some None")
      case True
      then have "source_route e c s b = Some (s, [Free b])"
        using dst Some by (simp add: source_route_def)
      with drop ins True Some show thesis by (auto split: if_splits)
    next
      case False
      then obtain x where x: "insert_route e b ?r = Some (Some x)" "sourced e b ?r x"
        using ins by (auto split: if_splits)
      then have "source_route e c s b = send_to_next_hop c s x"
        using dst Some by (simp add: source_route_def)
      with send Some x sourced_next_hop [OF x(2) len] show thesis by blast
    qed
  qed
qed

text \<open>
  C21. The source role. If the table knows the destination, the node chooses a route of at most
  256 hops along advertised links from itself to the destination and writes it into the packet:
  afterwards the header holds exactly that route with the hop index at its start, source,
  destination and type are the user's, a DATA packet carries the user's bytes unchanged behind
  the longer header and a PING carries a request stamped with the time, the declared size covers
  exactly that; the packet goes to its first hop. Only a DATA packet that would exceed the
  maximum size, or an unknown destination, is dropped.
\<close>

theorem source_route_writes_route:
  assumes "wf_state c s" and "fib_valid c s" and "user_request b"
  shows "case fib_lookup s (rd16 b off_rh_dst) of
      None \<Rightarrow> source_route e c s b = Some (s, [Free b])
    | Some path \<Rightarrow>
        (let hops = choose_route e c s (rd16 b off_rh_dst) path in
         linked (rows (topology s)) (node_addr c) (hops @ [rd16 b off_rh_dst])
         \<and> length hops \<le> MAX_MIXNET_ROUTE_LENGTH
         \<and> (if rd16 b off_type = DATA_code
                \<and> off_rh_route (length hops) + length (user_data b) > MAX_MIXNET_PACKET_SIZE
            then source_route e c s b = Some (s, [Free b])
            else \<exists>x. sourced e b hops x
                  \<and> rh_next_hop x = Some (hd (hops @ [rd16 b off_rh_dst]))
                  \<and> source_route e c s b = send_to_next_hop c s x))"
proof (cases "fib_lookup s (rd16 b off_rh_dst)")
  case None
  then show ?thesis using assms(3) by (simp add: source_route_def user_request_def get16_iff)
next
  case (Some path)
  let ?r = "choose_route e c s (rd16 b off_rh_dst) path"
  have dst: "get16 b off_rh_dst = Some (rd16 b off_rh_dst)"
    using assms(3) by (simp add: user_request_def get16_iff)
  have r: "linked (rows (topology s)) (node_addr c) (?r @ [rd16 b off_rh_dst]) \<and> length ?r \<le> 256"
    using choose_route_linked [OF wf_stateD(3) [OF assms(1)] assms(2) Some] by simp
  have ins: "if rd16 b off_type = DATA_code
      \<and> off_rh_route (length ?r) + length (user_data b) > MAX_MIXNET_PACKET_SIZE
    then insert_route e b ?r = Some None
    else \<exists>x. insert_route e b ?r = Some (Some x) \<and> sourced e b ?r x"
    using assms(3) r unfolding user_request_def by (intro insert_route_sources) blast+
  show ?thesis
  proof (cases "rd16 b off_type = DATA_code
      \<and> off_rh_route (length ?r) + length (user_data b) > MAX_MIXNET_PACKET_SIZE")
    case True
    then show ?thesis using ins r dst Some by (simp add: source_route_def Let_def)
  next
    case False
    then obtain x where x: "insert_route e b ?r = Some (Some x)" "sourced e b ?r x"
      using ins by auto
    have "source_route e c s b = send_to_next_hop c s x"
      using dst Some x by (simp add: source_route_def)
    then show ?thesis
      using sourced_next_hop [OF x(2)] r x(2) False Some by (auto simp: Let_def)
  qed
qed

subsection \<open>Replies\<close>

lemma reverse_route_loop:
  assumes "20 + 2 * n \<le> length b" and "m \<le> n div 2"
  shows "\<exists>x. reverse_route b n [m..<n div 2] = Some x \<and> length x = length b
    \<and> (\<forall>off k. off + k \<le> length b \<longrightarrow> off + k \<le> 20 \<or> 20 + 2 * n \<le> off \<longrightarrow>
         slice x off k = slice b off k)
    \<and> (\<forall>i < n. rd16 x (20 + 2 * i) =
         (if m \<le> i \<and> i < n - m then rd16 b (20 + 2 * (n - 1 - i)) else rd16 b (20 + 2 * i)))"
  using assms
proof (induction "n div 2 - m" arbitrary: m b)
  case 0
  then have "rd16 b (20 + 2 * i) = rd16 b (20 + 2 * (n - 1 - i))" if "m \<le> i" "i < n - m" for i
    using that by (intro arg_cong [where f = "rd16 b"]) linarith
  with 0 show ?case by auto
next
  case (Suc d)
  let ?j = "n - 1 - m"
  let ?b1 = "wr16 b (20 + 2 * m) (rd16 b (20 + 2 * ?j))"
  let ?b2 = "wr16 ?b1 (20 + 2 * ?j) (rd16 b (20 + 2 * m))"
  have m: "m < n div 2" "m < ?j" "?j < n" using Suc.hyps(2) by linarith+
  have in_m: "20 + 2 * m + 2 \<le> length b" and in_j: "20 + 2 * ?j + 2 \<le> length b"
    using m Suc.prems(1) by linarith+
  have l1: "length ?b1 = length b" using in_m by simp
  have l2: "length ?b2 = length b" using in_j l1 by simp
  have step: "reverse_route b n [m..<n div 2] = reverse_route ?b2 n [Suc m..<n div 2]"
    using m in_m in_j l1 by (simp add: upt_conv_Cons get16_Some put16_Some Let_def)
  have prem: "d = n div 2 - Suc m" "20 + 2 * n \<le> length ?b2" "Suc m \<le> n div 2"
    using Suc.hyps(2) Suc.prems(1) m(1) l2 by linarith+
  from Suc.hyps(1) [OF prem, unfolded l2]
  obtain x where x: "reverse_route ?b2 n [Suc m..<n div 2] = Some x" "length x = length b"
    "\<And>off k. off + k \<le> length b \<Longrightarrow> off + k \<le> 20 \<or> 20 + 2 * n \<le> off \<Longrightarrow>
       slice x off k = slice ?b2 off k"
    "\<And>i. i < n \<Longrightarrow> rd16 x (20 + 2 * i) = (if Suc m \<le> i \<and> i < n - Suc m
       then rd16 ?b2 (20 + 2 * (n - 1 - i)) else rd16 ?b2 (20 + 2 * i))"
    by blast
  have "slice ?b2 off k = slice b off k"
    if "off + k \<le> length b" "off + k \<le> 20 \<or> 20 + 2 * n \<le> off" for off k
  proof -
    have "slice ?b2 off k = slice ?b1 off k"
      using that m in_j l1 by (intro slice_wr16_other) linarith+
    also have "\<dots> = slice b off k"
      using that m in_m in_j by (intro slice_wr16_other) linarith+
    finally show ?thesis .
  qed
  moreover
  have b2: "rd16 ?b2 (20 + 2 * i) = (if i = m then rd16 b (20 + 2 * ?j)
      else if i = ?j then rd16 b (20 + 2 * m) else rd16 b (20 + 2 * i))" if "i < n" for i
  proof -
    have in_i: "20 + 2 * i + 2 \<le> length b" using that Suc.prems(1) by linarith
    consider "i = m" | "i = ?j" | "i \<noteq> m" "i \<noteq> ?j" by blast
    then show ?thesis
    proof cases
      case 1
      have "rd16 ?b2 (20 + 2 * m) = rd16 ?b1 (20 + 2 * m)"
        using m in_m in_j l1 by (intro rd16_wr16_other) linarith+
      with 1 in_m show ?thesis by simp
    next
      case 2
      have "rd16 ?b2 (20 + 2 * ?j) = rd16 b (20 + 2 * m)"
        using in_j l1 by (intro rd16_wr16_same) linarith
      with 2 m show ?thesis by simp
    next
      case 3
      have "rd16 ?b2 (20 + 2 * i) = rd16 ?b1 (20 + 2 * i)"
        using 3 in_i in_j l1 by (intro rd16_wr16_other) linarith+
      also have "\<dots> = rd16 b (20 + 2 * i)"
        using 3 in_i in_m by (intro rd16_wr16_other) linarith+
      finally show ?thesis using 3 by simp
    qed
  qed
  have "rd16 x (20 + 2 * i) =
      (if m \<le> i \<and> i < n - m then rd16 b (20 + 2 * (n - 1 - i)) else rd16 b (20 + 2 * i))"
    if "i < n" for i
  proof -
    have flip: "n - 1 - ?j = m" and mid: "m < n - m" "?j < n - m" "m \<le> ?j"
      using m by linarith+
    have k: "n - 1 - i < n" using that by linarith
    consider "i = m" | "i = ?j" | "Suc m \<le> i" "i < n - Suc m" | "i < m" | "n - m \<le> i" using that by linarith
    then show ?thesis
    proof cases
      case 1
      with mid b2 [OF that] x(4) [OF that] show ?thesis by simp
    next
      case 2
      with m mid flip b2 [OF that] x(4) [OF that] show ?thesis by simp
    next
      case 3
      then have "n - 1 - i \<noteq> m" "n - 1 - i \<noteq> ?j" "i < n - m" using that by linarith+
      with 3 b2 [OF k] x(4) [OF that] show ?thesis by simp
    next
      case 4
      then have "i \<noteq> ?j" using m by linarith
      with 4 b2 [OF that] x(4) [OF that] show ?thesis by simp
    next
      case 5
      then have "i \<noteq> m" "i \<noteq> ?j" "\<not> i < n - Suc m" using m by linarith+
      with 5 b2 [OF that] x(4) [OF that] show ?thesis by simp
    qed
  qed
  ultimately show ?case unfolding step using x(1-3) by auto
qed

text \<open>A PING request with PING fields, in a block of its own.\<close>

definition ping_packet :: "buf \<Rightarrow> bool" where
  "ping_packet b \<longleftrightarrow>
     pkt_block b \<and> rd16 b off_type = PING_code
     \<and> off_ping (unat (rd16 b off_rh_route_length)) + sizeof_mixnet_packet_ping
         \<le> unat (pkt_total_size b)"

text \<open>The reply to a request \<open>b\<close>.\<close>

definition reply_to :: "buf \<Rightarrow> buf \<Rightarrow> bool" where
  "reply_to b x \<longleftrightarrow>
     ping_packet x \<and> pkt_total_size x = pkt_total_size b
     \<and> rd16 x off_rh_src = rd16 b off_rh_dst \<and> rd16 x off_rh_dst = rd16 b off_rh_src
     \<and> rh_route x = rev (rh_route b) \<and> rd16 x off_rh_hop_index = 0
     \<and> x ! off_ping (length (rh_route b)) = 0
     \<and> rd64 x (off_ping (length (rh_route b)) + 2) = rd64 b (off_ping (length (rh_route b)) + 2)"

lemma make_ping_reply_replies:
  assumes "ping_packet b"
  shows "if ok then \<exists>x. make_ping_reply ok b = Some (Some x) \<and> reply_to b x
    else make_ping_reply ok b = Some None"
proof -
  let ?n = "unat (rd16 b off_rh_route_length)" and ?size = "unat (pkt_total_size b)"
  have b: "pkt_block b" "rd16 b off_type = PING_code" "30 + 2 * ?n \<le> ?size" "?size \<le> length b"
    using assms by (simp_all add: ping_packet_def pkt_block_def)
  note clone = clone_packet_block [OF b(1)]
  let ?c = "take ?size b"
  have lc: "length ?c = ?size" using b(4) by simp
  define b2 where b2: "b2 = wr16 (wr16 ?c 12 (rd16 b 14)) 14 (rd16 b 12)"
  have l2: "length b2 = ?size" using lc b(3) by (simp add: b2)
  have n2: "rd16 b2 16 = rd16 b 16" using lc b(3) by (simp add: b2)
  have "20 + 2 * ?n \<le> length b2" using l2 b(3) by simp
  from reverse_route_loop [OF this, of 0] obtain b3 where
    b3: "reverse_route b2 ?n [0..<?n div 2] = Some b3" "length b3 = ?size"
    "\<And>off k. off + k \<le> ?size \<Longrightarrow> off + k \<le> 20 \<or> 20 + 2 * ?n \<le> off \<Longrightarrow> slice b3 off k = slice b2 off k"
    "\<And>i. i < ?n \<Longrightarrow> rd16 b3 (20 + 2 * i) = rd16 b2 (20 + 2 * (?n - 1 - i))"
    unfolding l2 by auto
  define b4 where b4: "b4 = wr16 b3 18 0"
  define b5 where b5: "b5 = splice b4 (20 + 2 * ?n) [0]"
  have l4: "length b4 = ?size" and l5: "length b5 = ?size" using b3(2) b(3) by (simp_all add: b4 b5)
  show ?thesis
  proof (cases ok)
    case False
    then show ?thesis by (simp add: make_ping_reply_def clone)
  next
    case True
    have run: "make_ping_reply True b = Some (Some b5)"
      using b(3) lc l2 l4 b3(1,2) n2
      by (simp add: make_ping_reply_def clone get16_Some put16_Some b2 [symmetric] b4 [symmetric]
          write_at_Some b5 add.commute)
    have head: "rd16 b5 off = rd16 b4 off" if "off + 2 \<le> 20 + 2 * ?n" for off
      using that l4 b(3) by (simp add: b5 rd16_splice_other)
    have head3: "rd16 b5 off = rd16 b2 off" if "off + 2 \<le> 20" "off + 2 \<le> 18" for off
    proof -
      have "rd16 b5 off = rd16 b3 off" using that head [of off] b3(2) b(3) by (simp add: b4)
      also have "\<dots> = rd16 b2 off" using that b3(3) [of off 2] b(3) by (simp add: rd16_def)
      finally show ?thesis .
    qed
    have src: "rd16 b5 12 = rd16 b 14" "rd16 b5 14 = rd16 b 12" "rd16 b5 16 = rd16 b 16"
      "rd16 b5 0 = rd16 b 0" "rd16 b5 2 = rd16 b 2"
      using head3 n2 lc b(3) by (simp_all add: b2)
    have hop: "rd16 b5 18 = 0" using head [of 18] b3(2) b(3) by (simp add: b4)
    have "rd16 b5 (20 + 2 * i) = rd16 b (20 + 2 * (?n - 1 - i))" if "i < ?n" for i
    proof -
      have "rd16 b5 (20 + 2 * i) = rd16 b3 (20 + 2 * i)"
        using that head b3(2) b(3) by (simp add: b4)
      also have "\<dots> = rd16 b2 (20 + 2 * (?n - 1 - i))" by (rule b3(4) [OF that])
      also have "\<dots> = rd16 b (20 + 2 * (?n - 1 - i))" using that lc b(3) by (simp add: b2)
      finally show ?thesis .
    qed
    then have route: "rh_route b5 = rev (rh_route b)"
      using src(3) by (intro nth_equalityI) (simp_all add: rh_route_def rev_nth add.commute)
    have "slice b5 (22 + 2 * ?n) 8 = slice b4 (22 + 2 * ?n) 8"
      using l4 b(3) by (simp add: b5 slice_splice_other)
    also have "\<dots> = slice b3 (22 + 2 * ?n) 8" using b3(2) b(3) by (simp add: b4 slice_wr16_other)
    also have "\<dots> = slice b2 (22 + 2 * ?n) 8" using b(3) by (intro b3(3)) simp_all
    also have "\<dots> = slice ?c (22 + 2 * ?n) 8" using lc b(3) by (simp add: b2 slice_wr16_other)
    also have "\<dots> = slice b (22 + 2 * ?n) 8" using b(3) by (simp add: slice_def drop_take min_absorb1)
    finally have time: "rd64 b5 (22 + 2 * ?n) = rd64 b (22 + 2 * ?n)" by (simp add: rd64_def)
    have "b5 ! (20 + 2 * ?n) = 0" using l4 b(3) by (simp add: b5 nth_splice)
    then have "reply_to b b5"
      using src hop route time b l5
      by (simp add: reply_to_def ping_packet_def pkt_block_def pkt_total_size_def rh_route_def
          add.commute)
    then show ?thesis using True run by simp
  qed
qed

subsection \<open>The three roles\<close>

text \<open>The check, as it decides about a packet of another node.\<close>

definition well_formed_routed :: "buf \<Rightarrow> bool" where
  "well_formed_routed b \<longleftrightarrow>
     off_rh_route (unat (rd16 b off_rh_route_length))
       + (if rd16 b off_type = PING_code then sizeof_mixnet_packet_ping else 0)
     \<le> unat (pkt_total_size b)"

definition wants_reply :: "buf \<Rightarrow> bool" where
  "wants_reply b \<longleftrightarrow>
     rd16 b off_type = PING_code \<and> b ! off_ping (unat (rd16 b off_rh_route_length)) \<noteq> 0"

text \<open>Whether the packet is on its route and we are the hop it points at.\<close>

definition my_hop :: "mixnet_node_config \<Rightarrow> buf \<Rightarrow> bool" where
  "my_hop c b \<longleftrightarrow>
     rd16 b off_rh_hop_index < rd16 b off_rh_route_length
     \<and> rd16 b (off_rh_route (unat (rd16 b off_rh_hop_index))) = node_addr c"

lemma handle_routed_from_neighbor:
  assumes b: "pkt_block b" and port: "port \<noteq> user_port c"
  shows "handle_routed e c s port b =
    (if \<not> well_formed_routed b then Some (s, [Free b])
     else if rd16 b off_rh_dst = node_addr c then
       (if wants_reply b then do {
          answer \<leftarrow> make_ping_reply (alloc e Ping_Reply) b;
          (case answer of
             None \<Rightarrow> Some (s, [Send (user_port c) b])
           | Some reply \<Rightarrow> do {
               (s1, evs) \<leftarrow> send_to_next_hop c s reply;
               Some (s1, Alloc reply # evs @ [Send (user_port c) b]) }) }
        else Some (s, [Send (user_port c) b]))
     else if my_hop c b then
       send_to_next_hop c s (wr16 b off_rh_hop_index (rd16 b off_rh_hop_index + 1))
     else Some (s, [Free b]))"
proof -
  have wf: "routed_packet_is_well_formed b True = Some (well_formed_routed b)"
    using well_formed_total [OF b, of True]
    by (auto simp: well_formed_routed_def)
  show ?thesis
  proof (cases "well_formed_routed b")
    case False
    then show ?thesis using port by (simp add: handle_routed_def wf)
  next
    case True
    then have len: "20 + 2 * unat (rd16 b off_rh_route_length)
        + (if rd16 b off_type = PING_code then 10 else 0) \<le> length b"
      using b by (auto simp: well_formed_routed_def pkt_block_def)
    have "20 \<le> length b" using len by simp
    then have reads: "get16 b off_rh_dst = Some (rd16 b off_rh_dst)"
      "get16 b off_rh_route_length = Some (rd16 b off_rh_route_length)"
      "get16 b off_rh_hop_index = Some (rd16 b off_rh_hop_index)"
      "get16 b off_type = Some (rd16 b off_type)"
      "\<And>v. put16 b off_rh_hop_index v = Some (wr16 b off_rh_hop_index v)"
      by (simp_all add: get16_iff put16_Some)
    have flag: "get8 b (off_ping (unat (rd16 b off_rh_route_length))) =
        Some (b ! off_ping (unat (rd16 b off_rh_route_length)))" if "rd16 b off_type = PING_code"
      using len that by (intro get8_Some) simp
    have hop: "get16 b (off_rh_route (unat (rd16 b off_rh_hop_index))) =
        Some (rd16 b (off_rh_route (unat (rd16 b off_rh_hop_index))))"
      if "rd16 b off_rh_hop_index < rd16 b off_rh_route_length"
      using len that by (simp add: get16_iff word_less_nat_alt split: if_splits)
    note defs = handle_routed_def wf Let_def reads bind.bind_lunit
    show ?thesis
    proof (cases "rd16 b off_rh_dst = node_addr c")
      case dst: True
      show ?thesis
        unfolding defs
        using True port dst flag
        by (cases "wants_reply b"; cases "make_ping_reply (alloc e Ping_Reply) b")
          (auto simp: wf wants_reply_def send_packet_def split_beta split: option.split bind_split)
    next
      case dst: False
      show ?thesis
        unfolding defs
        using True port dst hop by (auto simp: wf my_hop_def not_le not_less)
    qed
  qed
qed

lemma fib_lookup_mix [simp]: "fib_lookup (s\<lparr>mix := x\<rparr>) = fib_lookup s"
  by (simp add: fib_lookup_def fun_eq_iff split: option.split)

lemma fib_valid_mix [simp]: "fib_valid c (s\<lparr>mix := x\<rparr>) = fib_valid c s"
  by (simp add: fib_valid_def)

lemma send_kept:
  assumes "wf_state c s" and "fib_valid c s" and "rh_next_hop b \<noteq> None"
  shows "\<exists>s' evs. send_to_next_hop c s b = Some (s', evs) \<and> wf_state c s' \<and> fib_valid c s'
    \<and> s' = s\<lparr>mix := mix s'\<rparr> \<and> balance evs = int (held s') - int (held s) - 1"
proof -
  obtain s' evs where r: "send_to_next_hop c s b = Some (s', evs)" "wf_state c s'"
    "s' = s\<lparr>mix := mix s'\<rparr>" "balance evs = int (held s') - int (held s) - 1"
    using send_to_next_hop_keeps [OF assms(1,3)] by blast
  then have "fib_valid c s'" using assms(2) by (metis fib_valid_mix)
  with r show ?thesis by blast
qed

lemma reply_next_hop: "reply_to b x \<Longrightarrow> rh_next_hop x \<noteq> None"
  using rh_next_hop_defined [of x] by (simp add: reply_to_def ping_packet_def pkt_block_def)

lemma well_formed_routed_block:
  "pkt_block b \<Longrightarrow> well_formed_routed b \<Longrightarrow> 20 + 2 * unat (rd16 b off_rh_route_length) \<le> length b"
  by (simp add: well_formed_routed_def pkt_block_def)

lemma advanced_next_hop:
  assumes "pkt_block b" and "well_formed_routed b"
  shows "rh_next_hop (wr16 b off_rh_hop_index v) \<noteq> None"
  using well_formed_routed_block [OF assms] by (subst rh_next_hop_defined) simp_all

lemma handle_routed_from_user:
  assumes b: "pkt_block b" and port: "port = user_port c"
  shows "handle_routed e c s port b =
    (if off_rh_route (unat (rd16 b off_rh_route_length)) \<le> unat (pkt_total_size b)
     then source_route e c s b else Some (s, [Free b]))"
  using well_formed_total [OF b, of False] port by (auto simp: handle_routed_def)

lemma handle_routed_keeps:
  assumes wf: "wf_state c s" and fv: "fib_valid c s" and b: "pkt_block b"
    and ty: "rd16 b off_type = DATA_code \<or> rd16 b off_type = PING_code"
    and user: "port = user_port c \<longrightarrow> MAX_MIXNET_PACKET_SIZE \<le> length b"
  shows "\<exists>s' evs. handle_routed e c s port b = Some (s', evs) \<and> wf_state c s' \<and> fib_valid c s'
    \<and> s' = s\<lparr>mix := mix s'\<rparr> \<and> balance evs = int (held s') - int (held s) - 1"
proof (cases "port = user_port c")
  case port: True
  show ?thesis
  proof (cases "off_rh_route (unat (rd16 b off_rh_route_length)) \<le> unat (pkt_total_size b)")
    case False
    then show ?thesis using wf fv handle_routed_from_user [OF b port] by simp
  next
    case True
    then have run: "handle_routed e c s port b = source_route e c s b"
      using handle_routed_from_user [OF b port] by simp
    have req: "user_request b" using b ty user port True by (simp add: user_request_def)
    show ?thesis
      using wf fv req
    proof (cases rule: source_route_cases [where e = e])
      case drop
      then show ?thesis using run wf fv by simp
    next
      case (send path x)
      then show ?thesis using run send_kept [OF wf fv send(3)] by simp
    qed
  qed
next
  case port: False
  note run = handle_routed_from_neighbor [OF b port, of e s]
  consider "\<not> well_formed_routed b"
    | "well_formed_routed b" "rd16 b off_rh_dst = node_addr c" "wants_reply b"
    | "well_formed_routed b" "rd16 b off_rh_dst = node_addr c" "\<not> wants_reply b"
    | "well_formed_routed b" "rd16 b off_rh_dst \<noteq> node_addr c" "my_hop c b"
    | "well_formed_routed b" "rd16 b off_rh_dst \<noteq> node_addr c" "\<not> my_hop c b"
    by blast
  then show ?thesis
  proof cases
    case 2
    then have ping: "ping_packet b"
      using b by (simp add: ping_packet_def wants_reply_def well_formed_routed_def)
    show ?thesis
    proof (cases "alloc e Ping_Reply")
      case True
      then obtain x where x: "make_ping_reply True b = Some (Some x)" "reply_to b x"
        using make_ping_reply_replies [OF ping, of True] by auto
      obtain s' evs where "send_to_next_hop c s x = Some (s', evs)" "wf_state c s'" "fib_valid c s'"
        "s' = s\<lparr>mix := mix s'\<rparr>" "balance evs = int (held s') - int (held s) - 1"
        using send_kept [OF wf fv reply_next_hop [OF x(2)]] by blast
      with 2 True x(1) run show ?thesis by auto
    next
      case False
      then show ?thesis
        using make_ping_reply_replies [OF ping, of False] 2 run wf fv by simp
    qed
  next
    case 4
    then show ?thesis using run send_kept [OF wf fv advanced_next_hop [OF b 4(1)]] by simp
  qed (use run wf fv in simp_all)
qed

text \<open>
  \<open>handle_routed\<close> is safe against any DATA or PING packet: whatever lengths, indices and
  flags it carries, and whichever port it comes from, the node stays inside the packet and its
  own arrays, changes nothing but the mixing buffer, and every packet block is sent, freed or
  still in that buffer -- the incoming one and the reply to it included.
\<close>

theorem handle_routed_safe:
  assumes "wf_state c s" and "fib_valid c s" and "pkt_block b"
    and "rd16 b off_type = DATA_code \<or> rd16 b off_type = PING_code"
    and "port = user_port c \<longrightarrow> MAX_MIXNET_PACKET_SIZE \<le> length b"
  shows "\<exists>s' evs. handle_routed e c s port b = Some (s', evs) \<and> wf_state c s' \<and> fib_valid c s'
    \<and> s' = s\<lparr>mix := mix s'\<rparr> \<and> balance evs = int (held s') - int (held s) - 1"
  by (rule handle_routed_keeps [OF assms])

text \<open>
  C22. The destination role: a packet addressed to the node goes up to its user as it came, and a
  PING request is answered first, memory permitting, by a packet of the same size that swaps the
  addresses, carries the reversed route from its start and the sender's time stamp, and is no
  request, so that it is not answered again.
\<close>

theorem handle_routed_destination:
  assumes "pkt_block b" and "well_formed_routed b" and "port \<noteq> user_port c"
    and "rd16 b off_rh_dst = node_addr c" and "wf_state c s"
  shows "if wants_reply b \<and> alloc e Ping_Reply
    then \<exists>x s' evs. reply_to b x \<and> \<not> wants_reply x
      \<and> send_to_next_hop c s x = Some (s', evs)
      \<and> handle_routed e c s port b = Some (s', Alloc x # evs @ [Send (user_port c) b])
    else handle_routed e c s port b = Some (s, [Send (user_port c) b])"
proof -
  note run = handle_routed_from_neighbor [OF assms(1,3), of e s]
  show ?thesis
  proof (cases "wants_reply b")
    case True
    then have ping: "ping_packet b"
      using assms(1,2) by (simp add: ping_packet_def wants_reply_def well_formed_routed_def)
    have "\<not> wants_reply x" if "reply_to b x" for x
    proof -
      have "length (rh_route x) = length (rh_route b)" using that by (simp add: reply_to_def)
      then show ?thesis using that by (simp add: reply_to_def wants_reply_def rh_route_def)
    qed
    then show ?thesis
      using make_ping_reply_replies [OF ping, of "alloc e Ping_Reply"] run assms True
        send_to_next_hop_keeps [OF assms(5) reply_next_hop]
      by (cases "alloc e Ping_Reply") fastforce+
  next
    case False
    then show ?thesis using run assms by simp
  qed
qed

subsection \<open>Examples\<close>

text \<open>From the user of node 1, two bytes for node 4.\<close>

definition hello_packet :: buf where
  "hello_packet = [22, 0, 3, 0, 0, 0, 0, 0, 0, 0, 0, 0, 1, 0, 4, 0, 0, 0, 0, 0, 7, 9]
     @ replicate 4074 0"

lemma hello_packet_fields:
  "length hello_packet = 4096" "rd16 hello_packet 0 = 22" "rd16 hello_packet 2 = 3"
  "rd16 hello_packet 12 = 1" "rd16 hello_packet 14 = 4" "rd16 hello_packet 16 = 0"
proof -
  let ?h = "[22, 0, 3, 0, 0, 0, 0, 0, 0, 0, 0, 0, 1, 0, 4, 0, 0, 0, 0, 0, 7, 9] :: buf"
  have "rd16 ?h 0 = 22" "rd16 ?h 2 = 3" "rd16 ?h 12 = 1" "rd16 ?h 14 = 4" "rd16 ?h 16 = 0"
    by (code_simp, code_simp, code_simp, code_simp, code_simp)
  then show "rd16 hello_packet 0 = 22" "rd16 hello_packet 2 = 3"
    "rd16 hello_packet 12 = 1" "rd16 hello_packet 14 = 4" "rd16 hello_packet 16 = 0"
    unfolding hello_packet_def by (subst rd16_append, simp, simp)+
  show "length hello_packet = 4096" by (simp add: hello_packet_def)
qed

lemma routed_state_ok:
  "wf_state example_config routed_state" "mix routed_state = None"
  "neighbor_addr routed_state = [3, 2]"
proof -
  show "wf_state example_config routed_state"
    using square_state_ok(1) update_shortest_path_size [of "\<lambda>_. True" example_config square_state]
    by (simp add: routed_state_def wf_state_def wf_mix_def state_simps)
  show "mix routed_state = None" "neighbor_addr routed_state = [3, 2]"
    by (simp_all add: routed_state_def state_simps square_state_def)
qed

lemma hello_request: "user_request hello_packet" "length (user_data hello_packet) = 2"
  by (simp_all add: user_request_def pkt_block_def pkt_total_size_def user_data_def
      hello_packet_fields)

lemma routed_table:
  "fib_lookup routed_state 4 = Some \<lparr>reachable = True, route = [2]\<rparr>"
  using square_state_table by (simp add: routed_state_def)

text \<open>A PING request from node 3 to node 1 without intermediate hops.\<close>

definition ping_request :: buf where
  "ping_request = [30, 0, 4, 0, 0, 0, 0, 0, 0, 0, 0, 0, 3, 0, 1, 0, 0, 0, 0, 0,
     1, 0, 5, 0, 0, 0, 0, 0, 0, 0]"

lemma ping_request_facts:
  "pkt_block ping_request" "well_formed_routed ping_request" "wants_reply ping_request"
  "rd16 ping_request 14 = 1" "rd16 ping_request 2 = 4" "rd16 ping_request 12 = 3"
  by (code_simp, code_simp, code_simp, code_simp, code_simp, code_simp)

theorem source_route_writes_route_witness:
  "\<exists>x. sourced calm_env hello_packet [2] x
    \<and> source_route calm_env example_config routed_state hello_packet
        = send_to_next_hop example_config routed_state x"
proof -
  have "choose_route calm_env example_config routed_state 4 \<lparr>reachable = True, route = [2]\<rparr> = [2]"
    by (simp add: choose_route_def example_config_def)
  then show ?thesis
    using source_route_writes_route [OF routed_state_ok(1) routed_state_facts(2) hello_request(1),
        of calm_env]
    by (auto simp: hello_packet_fields routed_table hello_request(2) Let_def)
qed

theorem handle_routed_safe_witness:
  "\<exists>s' evs. handle_routed calm_env example_config routed_state 0 ping_request = Some (s', evs)
    \<and> balance evs = - 1"
proof -
  have "(0 :: byte) \<noteq> user_port example_config" by (simp add: user_port_def)
  then obtain s' evs where r:
    "handle_routed calm_env example_config routed_state 0 ping_request = Some (s', evs)"
    "wf_state example_config s'" "balance evs = int (held s') - int (held routed_state) - 1"
    using handle_routed_safe [OF routed_state_ok(1) routed_state_facts(2) ping_request_facts(1),
        of 0 calm_env] ping_request_facts
    by auto
  have "held s' = 0"
    using r(2) by (auto simp: wf_state_def wf_mix_def held_def split: option.splits)
  with r show ?thesis by (simp add: held_def routed_state_ok(2))
qed

theorem handle_routed_destination_witness:
  "\<exists>x s' evs. reply_to ping_request x
    \<and> handle_routed calm_env example_config routed_state 0 ping_request
        = Some (s', Alloc x # evs @ [Send 2 ping_request])"
proof -
  have "(0 :: byte) \<noteq> user_port example_config" "user_port example_config = 2"
    by (simp_all add: user_port_def)
  then show ?thesis
    using handle_routed_destination [OF ping_request_facts(1,2), of 0 example_config routed_state
        calm_env] ping_request_facts routed_state_ok(1)
    by auto
qed

end
