(* ===== verification/Testcase_Calls.thy ===== *)
theory Testcase_Calls
  imports Requests Forwarding
begin

text \<open>
  The calls of a running testcase and what they do at the fragments. For \<open>send_packet\<close>: the
  SEND_PACKET request, the packet the fragment builds from it, and its way into the queue of the
  user port. For \<open>change_link_state\<close>: the port each end of the link is told.
\<close>

subsection \<open>The request\<close>

lemma fill_send_packet_writes:
  assumes m: "length m = 65535" and n: "length bytes \<le> MAX_MIXNET_DATA_SIZE"
    and f: "fill_send_packet code src dst bytes m = Some m'"
  shows "length m' = 65535" "off + k \<le> 8 \<Longrightarrow> slice m' off k = slice m off k"
    "rd16 m' 8 = code" "rd16 m' 10 = src" "rd16 m' 12 = dst" "unat (rd16 m' 14) = length bytes"
    "slice m' 16 (length bytes) = bytes"
proof -
  let ?w = "wr16 (wr16 (wr16 m 8 code) 10 src) 12 dst"
  have n: "length bytes \<le> 3564" using n by simp
  have "fill_send_packet code src dst bytes m =
      Some (wr16 (splice ?w 16 bytes) 14 (of_nat (length bytes)))"
    using m n by (simp add: fill_send_packet_def access_simps)
  with f have m': "m' = wr16 (splice ?w 16 bytes) 14 (of_nat (length bytes))" by simp
  have u: "unat (of_nat (length bytes) :: u16) = length bytes" using n by (intro unat_of_nat_u16) simp
  show "length m' = 65535" using m n by (simp add: m')
  show "off + k \<le> 8 \<Longrightarrow> slice m' off k = slice m off k"
    using m n by (simp add: m' slice_splice_other slice_wr_other)
  show "rd16 m' 8 = code" "rd16 m' 10 = src" "rd16 m' 12 = dst" "unat (rd16 m' 14) = length bytes"
    using m n u by (simp_all add: m' rd16_splice_other)
  show "slice m' 16 (length bytes) = bytes"
    using m n by (simp add: m' slice_wr_other slice_splice_same)
qed

lemma good_fill_send_packet:
  assumes "length bytes \<le> MAX_MIXNET_DATA_SIZE"
  shows "good_fill SEND_PACKET (\<lambda>_. fill_send_packet code src dst bytes)"
  unfolding good_fill_def
proof (intro allI impI)
  fix m m' :: message
  assume m: "has_code True SEND_PACKET m" and f: "fill_send_packet code src dst bytes m = Some m'"
  have l: "length m = 65535" using m by (simp add: has_code_def is_message_def)
  note w = fill_send_packet_writes [OF l assms f]
  have "rd16 m' off = rd16 m off" if "off + 2 \<le> 8" for off using w(2) [OF that] by (simp add: rd16_def)
  then show "ready True SEND_PACKET m' \<and> rd16 m' 4 = rd16 m 4 \<and> rd16 m' 6 = rd16 m 6"
    using m w(1,6) assms by (simp add: ready_def has_code_def is_message_def payload_size_def)
qed

subsection \<open>The packet\<close>

text \<open>The packet of one call of \<open>send_packet\<close>, in a block of the maximum packet size.\<close>

definition packet_for :: "u16 \<Rightarrow> u16 \<Rightarrow> u16 \<Rightarrow> buf \<Rightarrow> buf \<Rightarrow> bool" where
  "packet_for code src dst bytes x \<longleftrightarrow> length x = MAX_MIXNET_PACKET_SIZE \<and> rd16 x off_type = code \<and>
     (if code = DATA_code \<or> code = PING_code
      then user_request x \<and> rd16 x off_rh_src = src \<and> rd16 x off_rh_dst = dst \<and>
        rd16 x off_rh_route_length = 0 \<and> rd16 x off_rh_hop_index = 0 \<and>
        user_data x = (if code = DATA_code then bytes else [])
      else unat (pkt_total_size x) = sizeof_mixnet_packet)"

lemma build_user_packet_for:
  assumes R: "length R = 65535" and n: "length bytes \<le> MAX_MIXNET_DATA_SIZE" and b: "length b = MAX_MIXNET_PACKET_SIZE"
    and r: "rd16 R 8 = code" "rd16 R 10 = src" "rd16 R 12 = dst" "unat (rd16 R 14) = length bytes"
      "slice R 16 (length bytes) = bytes"
  shows "\<exists>x. build_user_packet b R = Some x \<and> packet_for code src dst bytes x"
proof -
  have n: "length bytes \<le> 3564" using n by simp
  have l: "length R = 65535" "length b = 4096" using R b by simp_all
  have sum: "unat (20 + rd16 R 14) = 20 + length bytes"
    using n r(4) by (simp add: unat_word_ariths)
  note [simp] = rd16_splice_other slice_wr_other slice_splice_same
  consider "code = 3" | "code = 4" | "code \<noteq> 3" "code \<noteq> 4" by blast
  then show ?thesis
  proof cases
    case 1
    then show ?thesis
      using l n r sum
      by (simp add: build_user_packet_def access_simps Let_def packet_for_def user_request_def pkt_block_def
          pkt_total_size_def user_data_def)
  next
    case 2
    then show ?thesis
      using l n r
      by (simp add: build_user_packet_def access_simps Let_def packet_for_def user_request_def pkt_block_def
          pkt_total_size_def user_data_def slice_def)
  next
    case 3
    then show ?thesis
      using l n r by (simp add: build_user_packet_def access_simps Let_def packet_for_def pkt_total_size_def)
  qed
qed

subsection \<open>The fragment's turn\<close>

lemma packet_enqueued:
  assumes q: "itc_ok (queues f) q" "free_list q = p # ps"
    and b: "build_user_packet (map uninit [0..<MAX_MIXNET_PACKET_SIZE]) (msg_ctrl f) = Some x"
  shows "\<exists>mq. task_send_packet True uninit f = Some (NONE, f\<lparr>queues := (queues f)\<lparr>
       user_cells := (user_cells (queues f))(p := Some x), mq_user := mq\<rparr>\<rparr>) \<and>
     itc_ok ((queues f)\<lparr>user_cells := (user_cells (queues f))(p := Some x), mq_user := mq\<rparr>)
       (q\<lparr>free_list := ps, queued := queued q @ [p]\<rparr>)"
proof -
  have "implements (mq_user (queues f)) q" using q(1) by (simp add: itc_ok_def)
  from alloc_then_write(2) [OF this q(2)] obtain q1 q2 where
    "message_queue_message_alloc (mq_user (queues f)) = Some (Some p, q1)"
    "message_queue_write p q1 = Some q2" "implements q2 (q\<lparr>free_list := ps, queued := queued q @ [p]\<rparr>)" by blast
  then show ?thesis
    using q(1) b by (intro exI [of _ q2]) (auto simp: task_send_packet_def itc_ok_def Let_def)
qed

lemma send_packet_turn:
  assumes n: "length bytes \<le> MAX_MIXNET_DATA_SIZE"
    and m: "request_for SEND_PACKET (\<lambda>_. fill_send_packet code src dst bytes) (fid f) m"
    and f: "frag_ok up f" and q: "itc_ok (queues f) q" "free_list q = p # ps"
    and rx: "t_rx t = (Some nb, evs @ [(Arrive [], t1), (Arrive [], t2)])" "all_arrive evs"
      "ctrl_pending f @ stream evs = frame_of True SEND_PACKET m @ later"
    and tx: "fst (t_tx t) = Some nb'" "no_send_error (snd (t_tx t))" "progress (snd (t_tx t)) = 12"
    and t: "t_malloc t" "\<not> t_any_exited t"
  shows "\<exists>f' x a. run_loop (t # turns) f = run_loop turns f' \<and>
    itc_ok (queues f') (q\<lparr>free_list := ps, queued := queued q @ [p]\<rparr>) \<and>
    user_cells (queues f') = (user_cells (queues f))(p := Some x) \<and> packet_for code src dst bytes x \<and>
    ctrl_wire f' = ctrl_wire f @ frame_of False SEND_PACKET a \<and>
    (\<forall>R. received False SEND_PACKET a R \<longrightarrow> orc_check_header R True (fid f) SEND_PACKET = Some NONE)"
proof -
  note rdy = request_for_ready [OF good_fill_send_packet [OF n] m]
  obtain R left where R: "received True SEND_PACKET m R" and recv: "msg_recv_blocking (t_rx t) (ctrl_pending f)
      (msg_ctrl f) CTRL_CONNECTION_BROKEN = Some (NONE, R, left)"
    using recv_request_received [OF f rdy(1) rx(2) rx(3) [unfolded frame_of_def]] rx(1) by force
  let ?f = "f\<lparr>msg_ctrl := R, ctrl_pending := left\<rparr>"
  have "check_header ?f True False NOOP R = Some NONE"
    by (intro received_header [OF R rdy(2,3)]) simp_all
  then have req: "recv_request (t_rx t) True True False NOOP no_action f = Some (NONE, ?f)"
    using recv by (simp add: recv_request_def connection_error_def put_msg_def put_pending_def no_action_def Let_def)
  obtain m0 where "length m0 = 65535" "fill_send_packet code src dst bytes m0 = Some m"
    using m by (auto simp: request_for_def has_code_def is_message_def)
  note w = fill_send_packet_writes [OF this(1) n this(2)]
  have pay: "payload_size True SEND_PACKET m = 8 + length bytes" using w(6) by (simp add: payload_size_def)
  note r = received_reads [OF R, unfolded pay]
  have l: "length R = 65535" using R by (simp add: received_def is_message_def)
  have "rd16 R 8 = code" "rd16 R 10 = src" "rd16 R 12 = dst" "unat (rd16 R 14) = length bytes"
      "slice R 16 (length bytes) = bytes"
    using w(3-7) r(2) [of 8] r(2) [of 10] r(2) [of 12] r(2) [of 14] r(1) [of 16 "length bytes"] by simp_all
  from build_user_packet_for [OF l n _ this, of "map (t_uninit t) [0..<MAX_MIXNET_PACKET_SIZE]"]
  obtain x where "build_user_packet (map (t_uninit t) [0..<MAX_MIXNET_PACKET_SIZE]) (msg_ctrl ?f) = Some x"
    and x: "packet_for code src dst bytes x" by auto
  from packet_enqueued [OF _ q(2) this(1)] q(1) obtain mq where
    out: "task_send_packet True (t_uninit t) ?f = Some (NONE, ?f\<lparr>queues := (queues f)\<lparr>
       user_cells := (user_cells (queues f))(p := Some x), mq_user := mq\<rparr>\<rparr>)"
    "itc_ok ((queues f)\<lparr>user_cells := (user_cells (queues f))(p := Some x), mq_user := mq\<rparr>)
       (q\<lparr>free_list := ps, queued := queued q @ [p]\<rparr>)" by auto
  let ?g = "?f\<lparr>queues := (queues f)\<lparr>user_cells := (user_cells (queues f))(p := Some x), mq_user := mq\<rparr>\<rparr>"
  have "is_message (msg_ctrl ?g)" using R by (simp add: received_def)
  from response_sent [OF this _ _ _ tx, of SEND_PACKET] obtain a f' where
    resp: "send_response (t_tx t) True SEND_PACKET NONE no_payload ?g = Some (NONE, f')"
    "rd16 a 4 = fid ?g" "rd16 a 6 = 0"
    "f' = ?g\<lparr>msg_ctrl := sealed 0 a, ctrl_wire := ctrl_wire ?g @ frame_of False SEND_PACKET a\<rparr>"
    by (auto simp: payload_size_def)
  have "run_loop (t # turns) f = run_loop turns f'"
    using req r(8) out(1) resp(1) t by (simp add: run_task_def)
  then show ?thesis
    using out(2) x resp(2-4) answer_accepted by (intro exI [of _ f'] exI [of _ x] exI [of _ a]) simp
qed

text \<open>
  C14. A testcase's packet reaches the queue of the right node, whatever its type. If \<open>send_packet\<close>
  reports success, one request went to the source's fragment and nothing to the others; that
  fragment, reading the bytes in any pieces, spends one turn of its loop on it. Afterwards the
  queue of the user port ends with a packet of the given type: for DATA and PING it is a valid
  request of the user, from the source's to the destination's mixnet address with an empty route,
  and the bytes of DATA are the testcase's. The orchestrator accepts the one message the fragment
  answers with.
\<close>

theorem user_packet_is_queued:
  assumes "is_message (orc_msg_ctrl s)" and "orc_send_packet tx rx i j code bytes s = Some (NONE, s')"
    and "outbox s (fd_ctrl (fragments s ! unat i)) = []"
    and "frag_ok up f" and "fid f = i" and "itc_ok (queues f) q" and "free_list q = p # ps"
    and "t_rx t = (Some nb, evs @ [(Arrive [], t1), (Arrive [], t2)])" and "all_arrive evs"
    and "ctrl_pending f @ stream evs = outbox s' (fd_ctrl (fragments s ! unat i))"
    and "fst (t_tx t) = Some nb'" and "no_send_error (snd (t_tx t))" and "progress (snd (t_tx t)) = 12"
    and "t_malloc t" and "\<not> t_any_exited t"
  shows "(\<forall>fd. fd \<noteq> fd_ctrl (fragments s ! unat i) \<longrightarrow> outbox s' fd = outbox s fd) \<and>
    (\<exists>f' x a. run_loop (t # turns) f = run_loop turns f' \<and>
      itc_ok (queues f') (q\<lparr>free_list := ps, queued := queued q @ [p]\<rparr>) \<and>
      user_cells (queues f') = (user_cells (queues f))(p := Some x) \<and>
      packet_for code (g_mixaddr (nodes (tc_graph (testcase s)) ! unat i))
        (g_mixaddr (nodes (tc_graph (testcase s)) ! unat j)) bytes x \<and>
      ctrl_wire f' = ctrl_wire f @ frame_of False SEND_PACKET a \<and>
      (\<forall>R. received False SEND_PACKET a R \<longrightarrow> orc_check_header R True i SEND_PACKET = Some NONE))"
proof -
  let ?fill = "fill_send_packet code (g_mixaddr (nodes (tc_graph (testcase s)) ! unat i))
    (g_mixaddr (nodes (tc_graph (testcase s)) ! unat j)) bytes"
  have n: "length bytes \<le> MAX_MIXNET_DATA_SIZE"
    and r: "fragment_request_response tx rx i SEND_PACKET ?fill s = Some (NONE, s')"
    using assms(2) by (auto simp: orc_send_packet_def get_at_def bind_eq_Some_conv split: if_splits)
  from request_response_sends [OF good_fill_send_packet [OF n] assms(1) r] assms(3)
  obtain m where m: "request_for SEND_PACKET (\<lambda>_. ?fill) i m"
    "outbox s' = (outbox s)(fd_ctrl (fragments s ! unat i) := frame_of True SEND_PACKET m)"
    by (auto simp: Let_def)
  with assms(10) have "ctrl_pending f @ stream evs = frame_of True SEND_PACKET m @ []" by simp
  from send_packet_turn [OF n m(1) [folded assms(5)] assms(4,6-9) this assms(11-15), where turns = turns] m(2)
  show ?thesis by (simp add: assms(5))
qed

lemma rd16_zeros: "off + 2 \<le> n \<Longrightarrow> rd16 (replicate n 0) off = 0"
  by (simp add: rd16_def slice_def numeral_2_eq_2)

text \<open>A running testcase whose fragments have already sent an answer without payload.\<close>

definition answer :: "message_type \<Rightarrow> u16 \<Rightarrow> message" where
  "answer t i = wr16 (wr16 (replicate 65535 0) 2 (code_create False t)) 4 i"

definition testcase_runs :: "message_type \<Rightarrow> orchestrator" where
  "testcase_runs t = two_fragments\<lparr>orc_state := RUN_TESTCASE,
     inbox := (\<lambda>fd. frame_of False t (answer t (if fd = 8 then 1 else 0)))\<rparr>"

lemma answer_ok:
  assumes "t \<noteq> NOOP" "t \<noteq> PCAP_DATA" "\<And>m. payload_size False t m = 0"
  shows "ready False t (answer t i)" "rd16 (answer t i) 4 = i" "rd16 (answer t i) 6 = 0"
  using assms by (simp_all add: answer_def ready_def has_code_def is_message_def rd16_zeros)

lemma testcase_runs_ok:
  "is_message (orc_msg_ctrl (testcase_runs t))" "length (fragments (testcase_runs t)) = 2"
  "timeout_communication_ms (testcase_runs t) = 1000" "outbox (testcase_runs t) fd = []"
  "orc_state (testcase_runs t) = RUN_TESTCASE"
  "inbox (testcase_runs t) = (\<lambda>fd. frame_of False t (answer t (if fd = 8 then 1 else 0)))"
  "fd_ctrl (fragments (testcase_runs t) ! 0) = 7" "fd_ctrl (fragments (testcase_runs t) ! Suc 0) = 8"
  "testcase (testcase_runs t) = one_link"
  using two_fragments_ok
  by (simp_all add: testcase_runs_def)
     (simp_all add: two_fragments_def fragment_metadata_new_def orchestrator_new_def)

lemma user_packet_is_queued_witness:
  "\<exists>s' f t f' x. orc_send_packet (Some True, [(Sent 22, 0)]) (Some True, quiet) 0 1 DATA_code [104, 105] (testcase_runs SEND_PACKET) =
      Some (NONE, s') \<and> run_loop [t] f = run_loop [] f' \<and> user_cells (queues f') 0 = Some x \<and>
      user_data x = [104, 105] \<and> rd16 x off_rh_dst = 41"
proof -
  let ?s = "testcase_runs SEND_PACKET" and ?fill = "fill_send_packet DATA_code 40 41 [104, 105]"
  have tc: "nodes (tc_graph (testcase ?s)) = [(graph_node_new 40)\<lparr>g_link_costs := [7]\<rparr>, (graph_node_new 41)\<lparr>g_link_costs := [9]\<rparr>]"
    by (simp add: testcase_runs_ok one_link_def)
  note s = testcase_runs_ok [of SEND_PACKET]
  note a = answer_ok [of SEND_PACKET 0]
  have "\<exists>m'. ?fill m = Some m' \<and> payload_size True SEND_PACKET m' = 10" if "has_code True SEND_PACKET m" for m
  proof -
    have l: "length m = 65535" using that by (simp add: has_code_def is_message_def)
    then obtain m' where f: "?fill m = Some m'" by (simp add: fill_send_packet_def access_simps)
    then show ?thesis using fill_send_packet_writes(6) [OF l _ f] by (simp add: payload_size_def)
  qed
  from request_completes [OF good_fill_send_packet this s(1) _ _ a]
  have "\<exists>s'. fragment_request_response (Some True, [(Sent 22, 0)]) (Some True, quiet) 0 SEND_PACKET ?fill ?s = Some (NONE, s')"
    using s by (simp add: payload_size_def)
  then obtain s' where s': "orc_send_packet (Some True, [(Sent 22, 0)]) (Some True, quiet) 0 1 DATA_code [104, 105] ?s = Some (NONE, s')"
    using s(5) tc by (auto simp: orc_send_packet_def get_at_def graph_node_new_def)
  let ?w = "outbox s' (fd_ctrl (fragments ?s ! unat (0 :: u16)))"
  let ?t = "\<lparr>t_rx = (Some False, [(Arrive ?w, 0)] @ [(Arrive [], 0), (Arrive [], 0)]), t_tx = (Some False, [(Sent 12, 0)]),
    t_drain = [], t_malloc = True, t_uninit = (\<lambda>_. 0), t_both_exited = False, t_any_exited = False\<rparr>"
  let ?f = "example_fragment\<lparr>fid := 0\<rparr>"
  have f: "frag_ok False ?f" "itc_ok (queues ?f) idle_spec" "ctrl_pending ?f = []"
    using example_fragment_ok example_queue_idle
    by (simp_all add: frag_ok_frame) (simp_all add: example_fragment_def fragment_new_def itc_ok_def idle_spec_def)
  have free: "free_list idle_spec = 0 # [8, 16, 24]" by (simp add: idle_spec_def)
  have p: "fid ?f = 0" "t_rx ?t = (Some False, [(Arrive ?w, 0)] @ [(Arrive [], 0), (Arrive [], 0)])"
    "all_arrive [(Arrive ?w, 0)]" "ctrl_pending ?f @ stream [(Arrive ?w, 0 :: u64)] = ?w" "fst (t_tx ?t) = Some False"
    "no_send_error (snd (t_tx ?t))" "progress (snd (t_tx ?t)) = 12" "t_malloc ?t" "\<not> t_any_exited ?t"
    using f(3) by (simp_all add: all_arrive_def no_send_error_def stream_def arrived_def)
  obtain f' x where "run_loop [?t] ?f = run_loop [] f'" "user_cells (queues f') = (user_cells (queues ?f))(0 := Some x)"
    "packet_for DATA_code (g_mixaddr (nodes (tc_graph (testcase ?s)) ! unat (0 :: u16)))
      (g_mixaddr (nodes (tc_graph (testcase ?s)) ! unat (1 :: u16))) [104, 105] x"
    using user_packet_is_queued [OF s(1) s' s(4) f(1) p(1) f(2) free p(2-), of "[]"] by blast
  then show ?thesis
    using s' tc by (intro exI [of _ s'] exI [of _ ?f] exI [of _ ?t] exI [of _ f'] exI [of _ x])
      (simp add: packet_for_def graph_node_new_def)
qed

subsection \<open>Changing a link\<close>

lemma neighbor_position_nth: "neighbor_position b js = Some i \<Longrightarrow> i < length js \<and> js ! i = b"
  by (induction js arbitrary: i) (auto split: if_splits)

lemma neighbor_position_None: "neighbor_position b js = None \<longleftrightarrow> b \<notin> set js"
  by (induction js) auto

lemma fill_link_state_eq:
  "length m = 65535 \<Longrightarrow> fill_link_state i v m = Some (wr8 (wr16 m 8 (of_nat i)) 10 (if v then 1 else 0))"
  by (simp add: fill_link_state_def put_bool_def access_simps)

lemma good_fill_link_state: "good_fill CHANGE_LINK_STATE (\<lambda>_. fill_link_state i v)"
  by (auto simp: good_fill_def has_code_def is_message_def fill_link_state_eq ready_def payload_size_def
      rd16_def slice_wr_other)

text \<open>The request, as the fragment's loop reads it.\<close>

lemma link_state_task:
  assumes m: "request_for CHANGE_LINK_STATE (\<lambda>_. fill_link_state i v) k m"
    and R: "received True CHANGE_LINK_STATE m (msg_ctrl f)"
  shows "run_task t CHANGE_LINK_STATE f =
    map_option (\<lambda>(ec, f). (ec, False, True, f)) (task_update_link_state (t_drain t) (of_nat i) v f)"
proof -
  obtain m0 where l: "length m0 = 65535" and m: "m = wr8 (wr16 m0 8 (of_nat i)) 10 (if v then 1 else 0)"
    using m fill_link_state_eq by (auto simp: request_for_def has_code_def is_message_def)
  note r = received_reads(1) [OF R]
  have n: "payload_size True CHANGE_LINK_STATE m = 4" by (simp add: payload_size_def)
  have "slice (msg_ctrl f) 8 2 = le_bytes 2 (of_nat i :: u16)" "slice (msg_ctrl f) 10 1 = [if v then 1 else 0]"
    using r [of 8 2] r [of 10 1] n l slice_wr_same(1) [of 8 m0 "of_nat i"] slice_wr_same(3) [of 10 "wr16 m0 8 (of_nat i)"]
    by (simp_all add: m slice_wr_other del: One_nat_def)
  moreover have "length (msg_ctrl f) = 65535" using R by (simp add: received_def is_message_def)
  ultimately have "get16 (msg_ctrl f) 8 = Some (of_nat i)" "get_bool (msg_ctrl f) 10 = Some v"
    by (simp_all add: get_bool_def access_simps rd16_def f16.dec_enc nth_by_slice)
  then show ?thesis
    by (auto simp: run_task_def map_option_case split: option.splits)
qed

text \<open>
  The end \<open>a\<close> of a link is told: one request went to its fragment, and that fragment changes
  the state of the port that leads to \<open>b\<close>.
\<close>

definition told :: "u16 \<Rightarrow> u16 \<Rightarrow> bool \<Rightarrow> orchestrator \<Rightarrow> orchestrator \<Rightarrow> bool" where
  "told a b enabled s s' \<longleftrightarrow> (\<exists>i m. i < length (tc_topology s ! unat a) \<and> tc_topology s ! unat a ! i = b \<and>
     outbox s' (fd_ctrl (fragments s ! unat a)) =
       outbox s (fd_ctrl (fragments s ! unat a)) @ frame_of True CHANGE_LINK_STATE m \<and>
     rd16 m 4 = a \<and> (\<forall>t f. received True CHANGE_LINK_STATE m (msg_ctrl f) \<longrightarrow> run_task t CHANGE_LINK_STATE f =
       map_option (\<lambda>(ec, f). (ec, False, True, f)) (task_update_link_state (t_drain t) (of_nat i) enabled f)))"

lemma response_frame:
  assumes "fragment_request_response tx rx i t fill s = Some (ec, s')" and "is_message (orc_msg_ctrl s)"
    and "\<And>m m'. fill m = Some m' \<Longrightarrow> length m' = length m"
  shows "fragments s' = fragments s" "testcase s' = testcase s" "is_message (orc_msg_ctrl s')"
    "timeout_communication_ms s' = timeout_communication_ms s"
    "fd \<noteq> fd_ctrl (fragments s ! unat i) \<Longrightarrow> inbox s' fd = inbox s fd"
proof -
  show "fragments s' = fragments s" "testcase s' = testcase s"
    "timeout_communication_ms s' = timeout_communication_ms s"
    "fd \<noteq> fd_ctrl (fragments s ! unat i) \<Longrightarrow> inbox s' fd = inbox s fd"
    using assms(1)
    by (auto simp: fragment_request_response_def die_on_error_def bind_eq_Some_conv recv_with_timeout_def
        send_with_timeout_def get_at_def Let_def split: if_splits)
  show "is_message (orc_msg_ctrl s')"
    using assms
    by (auto simp: fragment_request_response_def die_on_error_def bind_eq_Some_conv recv_with_timeout_def
        send_with_timeout_def is_message_def orc_prepare_header_def set_fragment_id_def set_code_def
        set_error_code_def Let_def dest!: recv_generic_keeps finalize_keeps kept_lengths split: if_splits)
qed

lemma told_after:
  assumes "is_message (orc_msg_ctrl s)"
    and "neighbor_position b (tc_topology s ! unat a) = Some i"
    and "fragment_request_response tx rx a CHANGE_LINK_STATE (fill_link_state i v) s = Some (NONE, s')"
  shows "told a b v s s' \<and> (\<forall>fd. fd \<noteq> fd_ctrl (fragments s ! unat a) \<longrightarrow> outbox s' fd = outbox s fd)"
proof -
  obtain m where m: "request_for CHANGE_LINK_STATE (\<lambda>_. fill_link_state i v) a m"
    "outbox s' = (outbox s)(fd_ctrl (fragments s ! unat a) := outbox s (fd_ctrl (fragments s ! unat a)) @
       frame_of True CHANGE_LINK_STATE m)"
    using request_response_sends [OF good_fill_link_state assms(1,3)] by (auto simp: Let_def)
  then show ?thesis
    using neighbor_position_nth [OF assms(2)] link_state_task [OF m(1)] request_for_ready(2) [OF good_fill_link_state m(1)]
    unfolding told_def by (intro conjI exI [of _ i] exI [of _ m]) auto
qed

text \<open>
  C15. Changing a link concerns exactly its two ends. For nodes the graph does not link,
  \<open>change_link_state\<close> is an error and nothing is sent. For linked nodes, once it reports success,
  either end's fragment has been told to change the port on which the other end is its
  neighbour, and no other fragment has been told anything.
\<close>

theorem link_change_reaches_ends:
  assumes "orc_state s = RUN_TESTCASE" and "graph_ok (tc_graph (testcase s))"
    and "a < num_nodes (tc_graph (testcase s))" and "b < num_nodes (tc_graph (testcase s))"
    and "is_message (orc_msg_ctrl s)"
    and "a \<noteq> b \<Longrightarrow> fd_ctrl (fragments s ! unat a) \<noteq> fd_ctrl (fragments s ! unat b)"
  shows "if linked_to (tc_graph (testcase s)) a b
    then \<forall>s'. change_link_state io_a io_b a b enabled s = Some (NONE, s') \<longrightarrow>
      told a b enabled s s' \<and> told b a enabled s s' \<and>
      (\<forall>fd. fd \<notin> {fd_ctrl (fragments s ! unat a), fd_ctrl (fragments s ! unat b)} \<longrightarrow> outbox s' fd = outbox s fd)
    else change_link_state io_a io_b a b enabled s = Some (BAD_TESTCASE, s)"
proof -
  let ?A = "tc_topology s ! unat a" and ?B = "tc_topology s ! unat b"
  have get: "get_at (tc_topology s) (unat a) = Some ?A" "get_at (tc_topology s) (unat b) = Some ?B"
    using assms(2-4) by (auto simp: get_at_def graph_ok_def tc_topology_def word_less_nat_alt)
  have link: "linked_to (tc_graph (testcase s)) a b \<longleftrightarrow> b \<in> set ?A" "linked_to (tc_graph (testcase s)) b a \<longleftrightarrow> a \<in> set ?B"
    using assms(3,4) by (simp_all add: linked_to_def tc_topology_def)
  have sym: "linked_to (tc_graph (testcase s)) a b \<Longrightarrow> linked_to (tc_graph (testcase s)) b a \<and> a \<noteq> b"
    using assms(2) by (auto simp: graph_ok_def)
  show ?thesis
  proof (cases "linked_to (tc_graph (testcase s)) a b")
    case False
    then have "neighbor_position b ?A = None" using link neighbor_position_None by metis
    then show ?thesis using False get assms(1) by (simp add: change_link_state_def)
  next
    case True
    then obtain i j where ij: "neighbor_position b ?A = Some i" "neighbor_position a ?B = Some j"
      using link sym neighbor_position_None by (metis not_None_eq)
    have fds: "fd_ctrl (fragments s ! unat a) \<noteq> fd_ctrl (fragments s ! unat b)" using sym True assms(6) by blast
    have "told a b enabled s s' \<and> told b a enabled s s' \<and>
        (\<forall>fd. fd \<notin> {fd_ctrl (fragments s ! unat a), fd_ctrl (fragments s ! unat b)} \<longrightarrow> outbox s' fd = outbox s fd)"
      if run: "change_link_state io_a io_b a b enabled s = Some (NONE, s')" for s'
    proof -
      obtain s1 where 1: "fragment_request_response (fst io_a) (snd io_a) a CHANGE_LINK_STATE (fill_link_state i enabled) s = Some (NONE, s1)"
        and 2: "fragment_request_response (fst io_b) (snd io_b) b CHANGE_LINK_STATE (fill_link_state j enabled) s1 = Some (NONE, s')"
        using run get ij assms(1)
        by (auto simp: change_link_state_def die_on_error_def bind_eq_Some_conv split: if_splits)
      have "length m' = length m" if "fill_link_state i enabled m = Some m'" for m m'
        using that by (auto simp: fill_link_state_def put_bool_def bind_eq_Some_conv dest!: kept_lengths)
      note kept = response_frame [OF 1 assms(5) this]
      have top: "tc_topology s1 = tc_topology s" using kept(2) by (simp add: tc_topology_def)
      note first = told_after [OF assms(5) ij(1) 1]
      have "neighbor_position a (tc_topology s1 ! unat b) = Some j" using ij(2) top by simp
      from told_after [OF kept(3) this 2]
      have second: "told b a enabled s1 s'" "\<forall>fd. fd \<noteq> fd_ctrl (fragments s ! unat b) \<longrightarrow> outbox s' fd = outbox s1 fd"
        using kept(1) by simp_all
      have "told a b enabled s s'"
        using first second(2) fds by (simp add: told_def)
      moreover have "told b a enabled s s'"
        using second(1) first fds kept(1) top by (simp add: told_def)
      ultimately show ?thesis using first second(2) by simp
    qed
    then show ?thesis using True by simp
  qed
qed

lemma link_change_reaches_ends_witness:
  "\<exists>s'. change_link_state ((Some True, [(Sent 16, 0)]), (Some True, quiet)) ((Some True, [(Sent 16, 0)]), (Some True, quiet))
      0 1 False (testcase_runs CHANGE_LINK_STATE) = Some (NONE, s') \<and>
    told 1 0 False (testcase_runs CHANGE_LINK_STATE) s' \<and> outbox s' 9 = []"
proof -
  let ?s = "testcase_runs CHANGE_LINK_STATE" and ?io = "((Some True, [(Sent 16, 0)]), (Some True, quiet)) :: tx_io \<times> rx_io"
  note s = testcase_runs_ok [of CHANGE_LINK_STATE]
  note a = answer_ok [of CHANGE_LINK_STATE, simplified payload_size_def, simplified]
  have fill: "\<exists>m'. fill_link_state 0 False m = Some m' \<and> payload_size True CHANGE_LINK_STATE m' = 4"
    if "has_code True CHANGE_LINK_STATE m" for m
    using that fill_link_state_eq [of m] by (simp add: has_code_def is_message_def payload_size_def)
  note go = request_completes [OF good_fill_link_state fill _ _ _ a]
  obtain s1 where 1: "fragment_request_response (fst ?io) (snd ?io) 0 CHANGE_LINK_STATE (fill_link_state 0 False) ?s = Some (NONE, s1)"
    using go [of ?s 0] s by auto
  have "length m' = length m" if "fill_link_state 0 False m = Some m'" for m m'
    using that by (auto simp: fill_link_state_def put_bool_def bind_eq_Some_conv dest!: kept_lengths)
  note kept = response_frame [OF 1 s(1) this]
  have "inbox s1 8 = inbox ?s 8" using kept(5) s(7) by simp
  then obtain s' where 2: "fragment_request_response (fst ?io) (snd ?io) 1 CHANGE_LINK_STATE (fill_link_state 0 False) s1 = Some (NONE, s')"
    using go [of s1 1] s kept by auto
  have top: "tc_topology ?s = [[1], [0]]" "num_nodes (tc_graph (testcase ?s)) = 2"
    by (simp_all add: tc_topology_def s one_link_def)
  have run: "change_link_state ?io ?io 0 1 False ?s = Some (NONE, s')"
    using 1 2 top s(5) by (simp add: change_link_state_def get_at_def die_on_error_def)
  have "linked_to (tc_graph (testcase ?s)) 0 1" using top by (simp add: linked_to_def tc_topology_def)
  then have "told 1 0 False ?s s' \<and> (\<forall>fd. fd \<notin> {7, 8} \<longrightarrow> outbox s' fd = outbox ?s fd)"
    using link_change_reaches_ends [OF s(5), of 0 1 ?io ?io False] run one_link_ok(1) top s by auto
  then show ?thesis using run s(4) by auto
qed

end
