(* ===== verification/Routing_Testcase.thy ===== *)
theory Routing_Testcase
  imports Testcase_Calls
begin

text \<open>
  The oracle of the source-routing tests: \<open>testing/common/routing_testcase.h\<close> with the helpers it
  takes from \<open>testing/common/testcase.cpp\<close>. A test is a table of flows; the lemmas show that its
  verdict says exactly that every flow was delivered once, as the table says, and nothing else was.
\<close>

subsection \<open>The code\<close>

record flow =
  flow_src :: u16
  flow_dst :: u16
  flow_route :: "u16 list"
  flow_data :: buf

record routing_testcase =
  rt_case :: testcase
  flows :: "flow list"
  deliveries :: "u64 list"
  pass_pcap :: bool
  pass_teardown :: bool
  pcap_count :: u64

definition routing_testcase_new :: "testcase \<Rightarrow> flow list \<Rightarrow> routing_testcase" where
  "routing_testcase_new tc fs = \<lparr>rt_case = tc, flows = fs, deliveries = replicate (length fs) 0,
     pass_pcap = True, pass_teardown = False, pcap_count = 0\<rparr>"

definition check_data :: "buf \<Rightarrow> buf \<Rightarrow> bool option" where
  "check_data p expected = do {
     n \<leftarrow> get16 p off_rh_route_length;
     let rh_size = (of_nat (sizeof_routing_header + sizeof_mixnet_address * unat n) :: u16);
     let expected_size = (of_nat (sizeof_mixnet_packet + unat rh_size + length expected) :: u16);
     total \<leftarrow> get16 p off_total_size;
     if total \<noteq> expected_size then Some False
     else do {
       data \<leftarrow> read_at p (off_payload + unat rh_size) (length expected);
       Some (data = expected)
     }
   }"

fun check_hops :: "buf \<Rightarrow> nat \<Rightarrow> u16 list \<Rightarrow> bool option" where
  "check_hops p i [] = Some True"
| "check_hops p i (x # xs) = do {
     v \<leftarrow> get16 p (off_rh_route i);
     if v \<noteq> x then Some False else check_hops p (Suc i) xs
   }"

definition check_route :: "buf \<Rightarrow> u16 list \<Rightarrow> bool option" where
  "check_route p expected = do {
     n \<leftarrow> get16 p off_rh_route_length;
     if unat n \<noteq> length expected then Some False else check_hops p 0 expected
   }"

text \<open>\<open>None\<close> inside is the -1 of the code.\<close>

fun find_flow :: "test_graph \<Rightarrow> u16 \<Rightarrow> u16 \<Rightarrow> nat \<Rightarrow> flow list \<Rightarrow> nat option option" where
  "find_flow g a b i [] = Some None"
| "find_flow g a b i (f # fs) = do {
     src \<leftarrow> get_at (nodes g) (unat (flow_src f));
     dst \<leftarrow> get_at (nodes g) (unat (flow_dst f));
     if g_mixaddr src = a \<and> g_mixaddr dst = b then Some (Some i) else find_flow g a b (Suc i) fs
   }"

text \<open>\<open>routing_testcase::pcap\<close>: fragment \<open>k\<close> has delivered the packet \<open>p\<close>.\<close>

definition routing_pcap :: "u16 \<Rightarrow> buf \<Rightarrow> routing_testcase \<Rightarrow> routing_testcase option" where
  "routing_pcap k p t = do {
     ty \<leftarrow> get16 p off_type;
     if ty \<noteq> type_code PACKET_TYPE_DATA then Some (t\<lparr>pass_pcap := False\<rparr>)
     else do {
       a \<leftarrow> get16 p off_rh_src;
       b \<leftarrow> get16 p off_rh_dst;
       idx \<leftarrow> find_flow (tc_graph (rt_case t)) a b 0 (flows t);
       case idx of
         None \<Rightarrow> Some (t\<lparr>pass_pcap := False\<rparr>)
       | Some i \<Rightarrow> do {
           f \<leftarrow> get_at (flows t) i;
           ok \<leftarrow> (if k = flow_dst f then check_route p (flow_route f) else Some False);
           ok \<leftarrow> (if ok then check_data p (flow_data f) else Some False);
           n \<leftarrow> get_at (deliveries t) i;
           Some (t\<lparr>pass_pcap := pass_pcap t \<and> ok, deliveries := (deliveries t)[i := n + 1],
             pcap_count := pcap_count t + 1\<rparr>)
         }
     }
   }"

fun pcap_calls :: "(u16 \<times> buf) list \<Rightarrow> routing_testcase \<Rightarrow> routing_testcase option" where
  "pcap_calls [] t = Some t"
| "pcap_calls ((k, p) # ds) t = routing_pcap k p t \<bind> pcap_calls ds"

fun subscribe_all ::
  "(nat \<Rightarrow> tx_io \<times> rx_io) \<Rightarrow> nat \<Rightarrow> nat \<Rightarrow> orchestrator \<Rightarrow> (error_code \<times> orchestrator) option" where
  "subscribe_all io i 0 s = Some (NONE, s)"
| "subscribe_all io i (Suc n) s =
     die_on_error (pcap_change_subscription (fst (io i)) (snd (io i)) (of_nat i) True s) (subscribe_all io (Suc i) n)"

fun send_flows ::
  "(nat \<Rightarrow> tx_io \<times> rx_io) \<Rightarrow> nat \<Rightarrow> flow list \<Rightarrow> orchestrator \<Rightarrow> (error_code \<times> orchestrator) option" where
  "send_flows io i [] s = Some (NONE, s)"
| "send_flows io i (f # fs) s =
     die_on_error (orc_send_packet (fst (io i)) (snd (io i)) (flow_src f) (flow_dst f)
         (type_code PACKET_TYPE_DATA) (flow_data f) s)
       (send_flows io (Suc i) fs)"

text \<open>\<open>routing_testcase::run\<close>, with the outcomes of the calls for subscriptions and for flows.\<close>

definition routing_run ::
  "(nat \<Rightarrow> tx_io \<times> rx_io) \<Rightarrow> (nat \<Rightarrow> tx_io \<times> rx_io) \<Rightarrow> routing_testcase \<Rightarrow> orchestrator \<Rightarrow>
   (error_code \<times> orchestrator) option"
where
  "routing_run subs sends t s =
     die_on_error (subscribe_all subs 0 (unat (num_nodes (tc_graph (rt_case t)))) s) (send_flows sends 0 (flows t))"

definition routing_teardown :: "routing_testcase \<Rightarrow> routing_testcase" where
  "routing_teardown t = t\<lparr>pass_teardown := (\<forall>n \<in> set (deliveries t). n = 1)\<rparr>"

definition is_pass :: "routing_testcase \<Rightarrow> bool" where
  "is_pass t \<longleftrightarrow> pass_pcap t \<and> pass_teardown t"

text \<open>
  \<open>testcase::run_testcase\<close> behind the command line: the verdict, and how the orchestrator's run
  ended. The callback runs in its own thread and shares no field with \<open>run\<close>. \<open>t\<close> is the testcase as
  its \<open>setup\<close> has left it; that handler reads neither timer interval, so that the intervals of the
  autotest mode, which the code sets before it, are set here.
\<close>

definition run_testcase ::
  "bool \<Rightarrow> routing_testcase \<Rightarrow> message \<Rightarrow> message \<Rightarrow> (nat \<Rightarrow> tx_io \<times> rx_io) \<Rightarrow> (nat \<Rightarrow> tx_io \<times> rx_io) \<Rightarrow>
   run_env list \<Rightarrow> (bool \<times> error_code \<times> orchestrator) option"
where
  "run_testcase autotest t mc mp subs sends xs = do {
     let tc = (if autotest then (rt_case t)\<lparr>tc_root_hello_interval_ms := 10, tc_reelection_interval_ms := 100\<rparr>
               else rt_case t);
     let t = t\<lparr>rt_case := tc\<rparr>;
     (ec, s) \<leftarrow> orchestrator_run tc (map (\<lambda>x. x\<lparr>r_testcase := routing_run subs sends t\<rparr>) xs)
        (configure autotest (orchestrator_new mc mp tc));
     t \<leftarrow> pcap_calls (pcap_log s) t;
     Some (is_pass (routing_teardown t) \<and> ec = NONE, ec, s)
   }"

subsection \<open>The checks\<close>

text \<open>The packet \<open>p\<close> that fragment \<open>k\<close> has delivered belongs to the flow, and is as the flow says.\<close>

definition hits :: "test_graph \<Rightarrow> flow \<Rightarrow> u16 \<times> buf \<Rightarrow> bool" where
  "hits g f d \<longleftrightarrow> rd16 (snd d) off_type = DATA_code \<and>
     rd16 (snd d) off_rh_src = g_mixaddr (nodes g ! unat (flow_src f)) \<and>
     rd16 (snd d) off_rh_dst = g_mixaddr (nodes g ! unat (flow_dst f))"

definition as_expected :: "test_graph \<Rightarrow> flow \<Rightarrow> u16 \<times> buf \<Rightarrow> bool" where
  "as_expected g f d \<longleftrightarrow> hits g f d \<and> fst d = flow_dst f \<and> rh_route (snd d) = flow_route f \<and>
     unat (pkt_total_size (snd d)) = off_rh_route (length (flow_route f)) + length (flow_data f) \<and>
     user_data (snd d) = flow_data f"

text \<open>A table of flows: existing nodes, sizes that fit a packet, and no two flows with the same ends.\<close>

definition flows_ok :: "test_graph \<Rightarrow> flow list \<Rightarrow> bool" where
  "flows_ok g fs \<longleftrightarrow>
     (\<forall>f \<in> set fs. unat (flow_src f) < length (nodes g) \<and> unat (flow_dst f) < length (nodes g) \<and>
        length (flow_route f) \<le> MAX_MIXNET_ROUTE_LENGTH \<and> length (flow_data f) \<le> MAX_MIXNET_DATA_SIZE) \<and>
     distinct (map (\<lambda>f. (g_mixaddr (nodes g ! unat (flow_src f)), g_mixaddr (nodes g ! unat (flow_dst f)))) fs)"

lemma check_hops_eq:
  "off_rh_route (i + length xs) \<le> length p \<Longrightarrow>
   check_hops p i xs = Some (map (\<lambda>j. rd16 p (off_rh_route j)) [i..<i + length xs] = xs)"
proof (induction xs arbitrary: i)
  case (Cons x xs)
  have "check_hops p (Suc i) xs = Some (map (\<lambda>j. rd16 p (off_rh_route j)) [Suc i..<Suc i + length xs] = xs)"
    using Cons.prems by (intro Cons.IH) simp
  then show ?case
    using Cons.prems by (simp add: access_simps upt_conv_Cons del: upt_Suc)
qed simp

lemma check_route_eq:
  assumes "MAX_MIXNET_PACKET_SIZE \<le> length p" and "length xs \<le> MAX_MIXNET_ROUTE_LENGTH"
  shows "check_route p xs = Some (rh_route p = xs)"
proof -
  have "length (rh_route p) = unat (rd16 p off_rh_route_length)" by (simp add: rh_route_def)
  then show ?thesis
    using assms check_hops_eq [of 0 xs p]
    by (auto simp: check_route_def access_simps rh_route_def)
qed

lemma check_data_eq:
  assumes "MAX_MIXNET_PACKET_SIZE \<le> length p" and "rh_route p = xs"
    and "length xs \<le> MAX_MIXNET_ROUTE_LENGTH" and "length d \<le> MAX_MIXNET_DATA_SIZE"
  shows "check_data p d =
    Some (unat (pkt_total_size p) = off_rh_route (length xs) + length d \<and> user_data p = d)"
proof -
  have n: "unat (rd16 p off_rh_route_length) = length xs" using assms(2) by (auto simp: rh_route_def)
  have l: "length xs \<le> 256" "length d \<le> 3564" "4096 \<le> length p" using assms by simp_all
  have rh: "unat (8 + 2 * of_nat (length xs) :: u16) = 8 + 2 * length xs"
    using l unat_of_nat_u16 [of "8 + 2 * length xs"] by simp
  have total: "unat (20 + 2 * of_nat (length xs) + of_nat (length d) :: u16) = 20 + 2 * length xs + length d"
    using l unat_of_nat_u16 [of "20 + 2 * length xs + length d"] by simp
  have n': "rd16 p 16 = of_nat (length xs)" using n l unat_of_nat_u16 [of "length xs"] by (simp add: word_unat_eq_iff)
  have "check_data p d =
      (if rd16 p 0 = 20 + 2 * of_nat (length xs) + of_nat (length d) then Some (slice p (20 + 2 * length xs) (length d) = d)
       else Some False)"
    using l unfolding check_data_def Let_def
    by (simp add: access_simps rh n')
  moreover have "rd16 p 0 = 20 + 2 * of_nat (length xs) + of_nat (length d) \<longleftrightarrow>
      unat (rd16 p 0) = 20 + 2 * length xs + length d"
    unfolding word_unat_eq_iff total by (rule refl)
  ultimately show ?thesis
    using n by (simp add: pkt_total_size_def user_data_def)
qed

lemma find_flow_eq:
  assumes "\<forall>f \<in> set fs. unat (flow_src f) < length (nodes g) \<and> unat (flow_dst f) < length (nodes g)"
    and "rd16 p off_type = DATA_code"
  shows "\<exists>r. find_flow g (rd16 p off_rh_src) (rd16 p off_rh_dst) i fs = Some r \<and>
    (case r of None \<Rightarrow> \<forall>f \<in> set fs. \<not> hits g f (k, p)
     | Some j \<Rightarrow> i \<le> j \<and> j < i + length fs \<and> hits g (fs ! (j - i)) (k, p))"
  using assms(1)
proof (induction fs arbitrary: i)
  case (Cons f fs)
  have n: "get_at (nodes g) (unat (flow_src f)) = Some (nodes g ! unat (flow_src f))"
    "get_at (nodes g) (unat (flow_dst f)) = Some (nodes g ! unat (flow_dst f))"
    using Cons.prems by (simp_all add: get_at_def)
  show ?case
  proof (cases "hits g f (k, p)")
    case True
    then show ?thesis using n by (auto simp: hits_def)
  next
    case False
    obtain r where r: "find_flow g (rd16 p off_rh_src) (rd16 p off_rh_dst) (Suc i) fs = Some r"
      "case r of None \<Rightarrow> \<forall>f \<in> set fs. \<not> hits g f (k, p)
       | Some j \<Rightarrow> Suc i \<le> j \<and> j < Suc i + length fs \<and> hits g (fs ! (j - Suc i)) (k, p)"
      using Cons.IH [of "Suc i"] Cons.prems by auto
    have "find_flow g (rd16 p off_rh_src) (rd16 p off_rh_dst) i (f # fs) = Some r"
      using n False r(1) assms(2) by (auto simp: hits_def)
    then show ?thesis using r(2) False by (auto split: option.splits simp: nth_Cons')
  qed
qed simp

lemma hits_unique:
  assumes "flows_ok g fs" and "i < length fs" and "j < length fs" and "hits g (fs ! i) d" and "hits g (fs ! j) d"
  shows "i = j"
  using assms nth_eq_iff_index_eq [of "map (\<lambda>f. (g_mixaddr (nodes g ! unat (flow_src f)), g_mixaddr (nodes g ! unat (flow_dst f)))) fs" i j]
  by (simp add: flows_ok_def hits_def)

subsection \<open>The verdict\<close>

text \<open>The test after some deliveries.\<close>

definition has_seen :: "(u16 \<times> buf) list \<Rightarrow> routing_testcase \<Rightarrow> bool" where
  "has_seen ds t \<longleftrightarrow> length (deliveries t) = length (flows t) \<and>
     (pass_pcap t \<longleftrightarrow> (\<forall>d \<in> set ds. \<exists>f \<in> set (flows t). as_expected (tc_graph (rt_case t)) f d)) \<and>
     (\<forall>i < length (flows t). deliveries t ! i = of_nat (length (filter (hits (tc_graph (rt_case t)) (flows t ! i)) ds)))"

lemma routing_pcap_seen:
  assumes t: "has_seen ds t" and ok: "flows_ok (tc_graph (rt_case t)) (flows t)" and p: "MAX_MIXNET_PACKET_SIZE \<le> length p"
  shows "\<exists>t'. routing_pcap k p t = Some t' \<and> has_seen (ds @ [(k, p)]) t' \<and> flows t' = flows t \<and> rt_case t' = rt_case t"
proof (cases "\<exists>i < length (flows t). hits (tc_graph (rt_case t)) (flows t ! i) (k, p)")
  case False
  let ?g = "tc_graph (rt_case t)"
  have none: "\<forall>f \<in> set (flows t). \<not> hits ?g f (k, p)" using False by (auto simp: in_set_conv_nth)
  have l: "4096 \<le> length p" using p by simp
  have "routing_pcap k p t = Some (t\<lparr>pass_pcap := False\<rparr>)"
  proof (cases "rd16 p off_type = DATA_code")
    case True
    obtain r where r: "find_flow ?g (rd16 p off_rh_src) (rd16 p off_rh_dst) 0 (flows t) = Some r"
      "case r of None \<Rightarrow> True | Some j \<Rightarrow> j < length (flows t) \<and> hits ?g (flows t ! j) (k, p)"
      using find_flow_eq [of "flows t" ?g p 0 k] ok True by (fastforce simp: flows_ok_def split: option.splits)
    then have "r = None" using False by (cases r) auto
    then show ?thesis using r(1) l True by (simp add: routing_pcap_def access_simps)
  next
    case False
    then show ?thesis using l by (simp add: routing_pcap_def access_simps)
  qed
  then show ?thesis
    using t none by (auto simp: has_seen_def as_expected_def)
next
  case True
  let ?g = "tc_graph (rt_case t)"
  obtain i where i: "i < length (flows t)" "hits ?g (flows t ! i) (k, p)" using True by blast
  let ?f = "flows t ! i"
  have data: "rd16 p off_type = DATA_code" using i(2) by (simp add: hits_def)
  have l: "4096 \<le> length p" using p by simp
  obtain r where r: "find_flow ?g (rd16 p off_rh_src) (rd16 p off_rh_dst) 0 (flows t) = Some r"
    "case r of None \<Rightarrow> \<forall>f \<in> set (flows t). \<not> hits ?g f (k, p)
     | Some j \<Rightarrow> j < length (flows t) \<and> hits ?g (flows t ! j) (k, p)"
    using find_flow_eq [of "flows t" ?g p 0 k] ok data by (fastforce simp: flows_ok_def split: option.splits)
  obtain j where j: "r = Some j" using r(2) i(2) nth_mem [OF i(1)] by (cases r) auto
  then have "j = i" using r(2) hits_unique [OF ok _ i(1) _ i(2)] by simp
  then have r: "find_flow ?g (rd16 p off_rh_src) (rd16 p off_rh_dst) 0 (flows t) = Some (Some i)"
    using r(1) j by simp
  have f: "length (flow_route ?f) \<le> MAX_MIXNET_ROUTE_LENGTH" "length (flow_data ?f) \<le> MAX_MIXNET_DATA_SIZE"
    using ok nth_mem [OF i(1)] by (auto simp: flows_ok_def)
  have get: "get_at (flows t) i = Some ?f" "get_at (deliveries t) i = Some (deliveries t ! i)"
    using i(1) t by (simp_all add: get_at_def has_seen_def)
  let ?ok = "as_expected ?g ?f (k, p)"
  have "routing_pcap k p t = Some (t\<lparr>pass_pcap := pass_pcap t \<and> ?ok,
      deliveries := (deliveries t)[i := deliveries t ! i + 1], pcap_count := pcap_count t + 1\<rparr>)"
    using l data r get check_route_eq [OF p f(1)] check_data_eq [OF p _ f] i(2)
    by (cases "k = flow_dst ?f \<and> rh_route p = flow_route ?f")
       (auto simp: routing_pcap_def access_simps as_expected_def)
  moreover have "as_expected ?g (flows t ! j) (k, p) \<Longrightarrow> j < length (flows t) \<Longrightarrow> ?ok" for j
    using hits_unique [OF ok _ i(1) _ i(2), of j] unfolding as_expected_def by blast
  then have "(\<exists>f \<in> set (flows t). as_expected ?g f (k, p)) \<longleftrightarrow> ?ok"
    using nth_mem [OF i(1)] by (metis in_set_conv_nth)
  moreover have "hits ?g (flows t ! j) (k, p) \<longleftrightarrow> j = i" if "j < length (flows t)" for j
    using i(2) hits_unique [OF ok that i(1) _ i(2)] by blast
  ultimately show ?thesis
    using t i(1) by (auto simp: has_seen_def nth_list_update)
qed

lemma pcap_calls_seen:
  "has_seen ds t \<Longrightarrow> flows_ok (tc_graph (rt_case t)) (flows t) \<Longrightarrow>
   \<forall>(k, p) \<in> set log. MAX_MIXNET_PACKET_SIZE \<le> length p \<Longrightarrow>
   \<exists>t'. pcap_calls log t = Some t' \<and> has_seen (ds @ log) t' \<and> flows t' = flows t \<and> rt_case t' = rt_case t"
proof (induction log arbitrary: ds t)
  case (Cons d log)
  obtain k p where d: "d = (k, p)" by force
  with Cons.prems routing_pcap_seen [OF Cons.prems(1,2), of p k] obtain t1 where
    t1: "routing_pcap k p t = Some t1" "has_seen (ds @ [(k, p)]) t1" "flows t1 = flows t" "rt_case t1 = rt_case t" by auto
  with Cons.IH [of "ds @ [(k, p)]" t1] Cons.prems d show ?case by auto
qed simp

lemma once_each:
  assumes "has_seen log t" and "flows_ok (tc_graph (rt_case t)) (flows t)" and "length log < 2 ^ 64"
  shows "is_pass (routing_teardown t) \<longleftrightarrow>
    (\<forall>d \<in> set log. \<exists>f \<in> set (flows t). as_expected (tc_graph (rt_case t)) f d) \<and>
    (\<forall>f \<in> set (flows t). length (filter (as_expected (tc_graph (rt_case t)) f) log) = 1)"
proof (cases "pass_pcap t")
  case False
  then show ?thesis using assms(1) by (simp add: is_pass_def routing_teardown_def has_seen_def)
next
  case True
  let ?g = "tc_graph (rt_case t)"
  have all: "\<forall>d \<in> set log. \<exists>f \<in> set (flows t). as_expected ?g f d" using True assms(1) by (simp add: has_seen_def)
  have same: "filter (hits ?g (flows t ! i)) log = filter (as_expected ?g (flows t ! i)) log"
    if i: "i < length (flows t)" for i
  proof (rule filter_cong [OF refl])
    fix d assume "d \<in> set log"
    then obtain j where j: "j < length (flows t)" "as_expected ?g (flows t ! j) d"
      using all by (metis in_set_conv_nth)
    then show "hits ?g (flows t ! i) d = as_expected ?g (flows t ! i) d"
      using hits_unique [OF assms(2) i j(1)] unfolding as_expected_def by blast
  qed
  have small: "(of_nat (length (filter P log)) :: u64) = 1 \<longleftrightarrow> length (filter P log) = 1" for P
  proof -
    have "length (filter P log) < 2 ^ 64" using length_filter_le [of P log] assms(3) by linarith
    then show ?thesis using unat_of_nat_u64 [of "length (filter P log)"] by (auto simp: word_unat_eq_iff)
  qed
  have "(\<forall>n \<in> set (deliveries t). n = 1) \<longleftrightarrow>
      (\<forall>i < length (flows t). length (filter (as_expected ?g (flows t ! i)) log) = 1)"
    using assms(1) by (auto simp: has_seen_def all_set_conv_all_nth small same)
  then show ?thesis
    using True all by (simp add: is_pass_def routing_teardown_def all_set_conv_all_nth)
qed

lemma subscription_fragments:
  "pcap_change_subscription tx rx i v s = Some (ec, s') \<Longrightarrow> length (fragments s') = length (fragments s)"
  by (auto simp: pcap_change_subscription_def fragment_request_response_def die_on_error_def bind_eq_Some_conv
      recv_with_timeout_def send_with_timeout_def Let_def split: if_splits)

lemma subscribe_all_fragments:
  "subscribe_all io i n s = Some (ec, s') \<Longrightarrow> length (fragments s') = length (fragments s)"
  by (induction n arbitrary: i s)
     (auto simp: die_on_error_def bind_eq_Some_conv dest!: subscription_fragments split: if_splits)

lemma send_packet_fragments:
  "orc_send_packet tx rx i j code b s = Some (ec, s') \<Longrightarrow> length (fragments s') = length (fragments s)"
  by (auto simp: orc_send_packet_def fragment_request_response_def die_on_error_def bind_eq_Some_conv
      recv_with_timeout_def send_with_timeout_def Let_def split: if_splits)

lemma send_flows_fragments:
  "send_flows io i fs s = Some (ec, s') \<Longrightarrow> length (fragments s') = length (fragments s)"
  by (induction fs arbitrary: i s)
     (auto simp: die_on_error_def bind_eq_Some_conv dest!: send_packet_fragments split: if_splits)

text \<open>What the orchestrator asks of a testcase.\<close>

lemma routing_run_ok: "testcase_ok (x\<lparr>r_testcase := routing_run subs sends t\<rparr>)"
  by (auto simp: testcase_ok_def routing_run_def die_on_error_def bind_eq_Some_conv
      dest!: subscribe_all_fragments send_flows_fragments split: if_splits)

text \<open>
  C16. The verdict of a source-routing test. A test with a proper table passes exactly if the
  run reported no error, every packet the orchestrator captured is a DATA packet of one of the
  flows, delivered at the flow's destination with the flow's route and data, and every flow was
  delivered exactly once.
\<close>

theorem routing_testcase_verdict:
  assumes "flows_ok (tc_graph tc) fs"
    and "run_testcase autotest (routing_testcase_new tc fs) mc mp subs sends xs = Some (pass, ec, s')"
    and "\<forall>(k, p) \<in> set (pcap_log s'). MAX_MIXNET_PACKET_SIZE \<le> length p" and "length (pcap_log s') < 2 ^ 64"
  shows "pass \<longleftrightarrow> ec = NONE \<and> (\<forall>d \<in> set (pcap_log s'). \<exists>f \<in> set fs. as_expected (tc_graph tc) f d) \<and>
    (\<forall>f \<in> set fs. length (filter (as_expected (tc_graph tc) f) (pcap_log s')) = 1)"
proof -
  let ?t = "(routing_testcase_new tc fs)\<lparr>rt_case := if autotest
    then tc\<lparr>tc_root_hello_interval_ms := 10, tc_reelection_interval_ms := 100\<rparr> else tc\<rparr>"
  have t: "tc_graph (rt_case ?t) = tc_graph tc" "flows ?t = fs" "has_seen [] ?t"
    by (simp_all add: routing_testcase_new_def has_seen_def)
  have "flows_ok (tc_graph (rt_case ?t)) (flows ?t)" unfolding t by (rule assms(1))
  from pcap_calls_seen [OF t(3) this assms(3)] t obtain t' where
    t': "pcap_calls (pcap_log s') ?t = Some t'" "has_seen (pcap_log s') t'" "flows t' = fs" "tc_graph (rt_case t') = tc_graph tc"
    by (metis append_Nil)
  have "pass \<longleftrightarrow> is_pass (routing_teardown t') \<and> ec = NONE"
    using assms(2) t'(1)
    by (cases autotest) (auto simp: run_testcase_def Let_def bind_eq_Some_conv routing_testcase_new_def)
  with once_each [OF t'(2) _ assms(4)] t' assms(1) show ?thesis by auto
qed

subsection \<open>A test without nodes\<close>

definition no_nodes :: testcase where
  "no_nodes = \<lparr>tc_graph = graph_new 0, tc_root_hello_interval_ms = 100, tc_reelection_interval_ms = 1000\<rparr>"

definition silent_env :: run_env where
  "silent_env = no_server_env\<lparr>r_pcap := [\<lparr>k_run = False, k_rc = 0, k_ready = (\<lambda>_. False),
     k_subscribed = (\<lambda>_. False), k_rx = (\<lambda>_. (None, []))\<rparr>]\<rparr>"

definition idle :: "message \<Rightarrow> bool \<Rightarrow> orc_state \<Rightarrow> orchestrator" where
  "idle m r st = (configure False (orchestrator_new m [] no_nodes))\<lparr>pcap_thread_run := r, orc_state := st\<rparr>"

lemma idle_fields:
  "fragments (idle m r st) = []" "orc_state (idle m r st) = st" "orc_msg_ctrl (idle m r st) = m"
  "idle m r st\<lparr>orc_msg_ctrl := m'\<rparr> = idle m' r st" "idle m r st\<lparr>orc_state := st'\<rparr> = idle m r st'"
  "idle m r st\<lparr>pcap_thread_run := r'\<rparr> = idle m r' st" "pcap_log (idle m r st) = []"
  "listen_fd_ctrl (idle m r st) = -1" "listen_fd_pcap (idle m r st) = -1" "tc_num_nodes (idle m r st) = 0"
  "idle m r st\<lparr>fragments := []\<rparr> = idle m r st" "idle m r st\<lparr>listen_fd_ctrl := -1\<rparr> = idle m r st"
  "idle m r st\<lparr>listen_fd_pcap := -1\<rparr> = idle m r st" "orc_autotest_mode (idle m r st) = False"
  by (simp_all add: idle_def configure_def orchestrator_new_def tc_num_nodes_def no_nodes_def graph_new_def)

lemma idle_rounds:
  assumes "is_message m"
  shows "\<exists>m'. is_message m' \<and> foreach_fragment_send_ctrl turn t fill (idle m r st) = Some (NONE, idle m' r st)"
    and "\<exists>m'. is_message m' \<and> foreach_fragment_send_generic turn [] t fill e (idle m r st) = Some (NONE, idle m' r st)"
    and "foreach_fragment_recv_generic rounds c [] t h e (idle m r st) = Some (NONE, idle m r st)"
    and "foreach_fragment_recv_ctrl rounds t h (idle m r st) = Some (NONE, idle m r st)"
proof -
  obtain m' where "orc_prepare_header 0 t m = Some m'" "has_code True t m'" using prepared_header [OF assms] by blast
  then show send: "\<exists>m'. is_message m' \<and> foreach_fragment_send_generic turn [] t fill e (idle m r st) = Some (NONE, idle m' r st)" for e
    by (auto simp: foreach_fragment_send_generic_def idle_fields has_code_def)
  then show "\<exists>m'. is_message m' \<and> foreach_fragment_send_ctrl turn t fill (idle m r st) = Some (NONE, idle m' r st)"
    by (simp add: foreach_fragment_send_ctrl_def idle_fields)
  show recv: "foreach_fragment_recv_generic rounds c [] t h e (idle m r st) = Some (NONE, idle m r st)" for c e
    by (simp add: foreach_fragment_recv_generic_def foreach_recv_loop.simps)
  show "foreach_fragment_recv_ctrl rounds t h (idle m r st) = Some (NONE, idle m r st)"
    using recv by (simp add: foreach_fragment_recv_ctrl_def idle_fields)
qed

lemma idle_exchange:
  assumes "is_message m"
  shows "\<exists>m'. is_message m' \<and> die_on_error (foreach_fragment_send_ctrl turn t fill (idle m r st))
    (foreach_fragment_recv_ctrl rounds t h) = Some (NONE, idle m' r st)"
  using idle_rounds(1) [OF assms, of turn t fill r st] idle_rounds(4) by (auto simp: die_on_error_def)

fun good_next :: "orc_state \<Rightarrow> orc_state" where
  "good_next INIT = SETUP_CTRL_PLANE" | "good_next SETUP_CTRL_PLANE = SETUP_PCAP_PLANE"
| "good_next SETUP_PCAP_PLANE = CREATE_MIXNET_TOPOLOGY" | "good_next CREATE_MIXNET_TOPOLOGY = START_ALL_MIXNET_SERVERS"
| "good_next START_ALL_MIXNET_SERVERS = START_ALL_MIXNET_CLIENTS"
| "good_next START_ALL_MIXNET_CLIENTS = RESOLVE_MIXNET_CONNECTIONS"
| "good_next RESOLVE_MIXNET_CONNECTIONS = BEGIN_TESTCASE" | "good_next BEGIN_TESTCASE = RUN_TESTCASE"
| "good_next RUN_TESTCASE = FINISH_TESTCASE" | "good_next FINISH_TESTCASE = GRACEFUL_SHUTDOWN"
| "good_next _ = RESET"

abbreviation idle_env :: run_env where
  "idle_env \<equiv> silent_env\<lparr>r_testcase := routing_run (\<lambda>_. ((None, []), (None, []))) (\<lambda>_. ((None, []), (None, [])))
     (routing_testcase_new no_nodes [])\<rparr>"

lemma idle_setup:
  assumes "is_message m"
  shows "\<exists>m'. is_message m' \<and> run_state_setup_ctrl_plane (r_env idle_env) (idle m r SETUP_CTRL_PLANE) =
      Some (NONE, idle m' r SETUP_CTRL_PLANE)"
    and "\<exists>m'. is_message m' \<and> run_state_setup_pcap_plane (r_env idle_env) (idle m r SETUP_PCAP_PLANE) =
      Some (NONE, idle m' r SETUP_PCAP_PLANE)"
proof -
  have accept: "\<exists>args. server_accept [] (accept_args_new fd b tm 0) = Some args \<and> rc args = 0 \<and> num_accepted args = 0" for fd b tm
    by (simp add: server_accept_def accept_args_new_def accept_loop.simps)
  obtain m1 where m1: "is_message m1"
    "foreach_fragment_send_ctrl (o_send (r_env idle_env) 0) SETUP_CTRL (\<lambda>i m. put_bool m off_msg False) (idle m r SETUP_CTRL_PLANE) =
      Some (NONE, idle m1 r SETUP_CTRL_PLANE)"
    using idle_rounds(1) [OF assms] by blast
  obtain args where "server_accept [] (accept_args_new (-1) True (timeout_connect_ms (idle m r SETUP_CTRL_PLANE)) 0) = Some args"
    "rc args = 0" "num_accepted args = 0" using accept by blast
  then show "\<exists>m'. is_message m' \<and> run_state_setup_ctrl_plane (r_env idle_env) (idle m r SETUP_CTRL_PLANE) =
      Some (NONE, idle m' r SETUP_CTRL_PLANE)"
    using m1 idle_rounds(3) [OF assms]
    by (intro exI [of _ m1]) (simp add: run_state_setup_ctrl_plane_def idle_fields server_setup_def silent_env_def no_server_env_def
        Let_def die_on_error_def)
  let ?s = "\<lambda>m. idle m r SETUP_PCAP_PLANE"
  obtain a where a: "server_accept [] (accept_args_new (-1) True (timeout_connect_ms (?s m)) 0) = Some a"
    "rc a = 0" "num_accepted a = 0" using accept by blast
  let ?f = "\<lambda>i m. write_at m off_msg (enc_sockaddr (any_address (htons PORT_LISTEN_PCAP)))"
  obtain m2 where m2: "is_message m2" "foreach_fragment_send_ctrl (o_send (r_env idle_env) 0) SETUP_PCAP ?f (?s m) = Some (NONE, ?s m2)"
    using idle_rounds(1) [OF assms] by blast
  obtain m3 where m3: "is_message m3" "foreach_fragment_send_generic (o_send (r_env idle_env) 1) [] SETUP_PCAP orc_no_payload
      PCAP_CONNECTION_BROKEN (?s m2) = Some (NONE, ?s m3)"
    using idle_rounds(2) [OF m2(1)] by blast
  show "\<exists>m'. is_message m' \<and> run_state_setup_pcap_plane (r_env idle_env) (?s m) = Some (NONE, ?s m')"
    using a m2 m3 idle_rounds(3,4) [OF m2(1)]
    by (intro exI [of _ m3]) (simp add: run_state_setup_pcap_plane_def idle_fields server_setup_def silent_env_def no_server_env_def
        Let_def die_on_error_def die_while_accepting_def)
qed

lemma idle_step:
  assumes m: "is_message m"
  shows "\<exists>m' r'. is_message m' \<and> orc_step idle_env (idle m r st) = Some (NONE, good_next st, idle m' r' st)"
proof -
  have go: ?thesis if "is_message m'" "orc_step idle_env (idle m r st) = Some (NONE, good_next st, idle m' r' st)" for m' r'
    using that by blast
  note calls = run_state_create_mixnet_topology_def run_state_start_all_mixnet_servers_def
    run_state_start_all_mixnet_clients_def run_state_resolve_connections_def run_state_begin_testcase_def
    run_state_finish_testcase_def run_state_graceful_shutdown_def run_state_init_def
  note simple = orc_step_def idle_fields next_if_def calls
  note exchange = idle_exchange [OF m, of _ _ _ r st]
  show ?thesis
  proof (cases st)
    case INIT
    then show ?thesis using m by (intro go [of m r]) (simp_all add: simple)
  next
    case SETUP_CTRL_PLANE
    then show ?thesis using idle_setup(1) [OF m, of r] by (elim exE conjE) (rule go, assumption, simp add: simple)
  next
    case SETUP_PCAP_PLANE
    then show ?thesis using idle_setup(2) [OF m, of r] by (elim exE conjE) (rule go, assumption, simp add: simple)
  next
    case CREATE_MIXNET_TOPOLOGY
    then show ?thesis
      using exchange [of "o_send (r_env idle_env) 0" TOPOLOGY "fill_topology (testcase (idle m r st))"
          "o_recv (r_env idle_env) 0" acknowledged]
      by (elim exE conjE) (rule go, assumption, simp add: simple)
  next
    case START_ALL_MIXNET_SERVERS
    then show ?thesis
      using exchange [of "o_send (r_env idle_env) 0" START_MIXNET_SERVER orc_no_payload
          "o_recv (r_env idle_env) 0" "handle_server_started (o_peername (r_env idle_env))"]
      by (elim exE conjE) (rule go, assumption, simp add: simple)
  next
    case START_ALL_MIXNET_CLIENTS
    then show ?thesis
      using exchange [of "o_send (r_env idle_env) 0" START_MIXNET_CLIENTS "fill_start_clients (idle m r st)"
          "o_recv (r_env idle_env) 0" handle_clients_started]
      by (elim exE conjE) (rule go, assumption, simp add: simple)
  next
    case RESOLVE_MIXNET_CONNECTIONS
    then show ?thesis
      using exchange [of "o_send (r_env idle_env) 0" RESOLVE_MIXNET_CONNS "fill_resolve (idle m r st)"
          "o_recv (r_env idle_env) 0" acknowledged]
      by (elim exE conjE) (rule go, assumption, simp add: simple)
  next
    case BEGIN_TESTCASE
    then show ?thesis
      using exchange [of "o_send (r_env idle_env) 0" START_TESTCASE orc_no_payload "o_recv (r_env idle_env) 0" acknowledged]
      by (elim exE conjE) (rule go, assumption, simp add: simple)
  next
    case RUN_TESTCASE
    then show ?thesis
      using m by (intro go [of m False]) (simp_all add: simple silent_env_def routing_run_def routing_testcase_new_def
          no_nodes_def graph_new_def die_on_error_def)
  next
    case FINISH_TESTCASE
    then show ?thesis
      using exchange [of "o_send (r_env idle_env) 0" END_TESTCASE orc_no_payload "o_recv (r_env idle_env) 0" acknowledged]
      by (elim exE conjE) (rule go, assumption, simp add: simple)
  next
    case GRACEFUL_SHUTDOWN
    then show ?thesis
      using idle_rounds(1) [OF m, of "o_send (r_env idle_env) 0" SHUTDOWN orc_no_payload r st] idle_rounds(4)
      by (elim exE conjE) (rule go, assumption, simp add: simple)
  next
    case FORCEFUL_SHUTDOWN
    have "run_state_forceful_shutdown (idle m r FORCEFUL_SHUTDOWN) = Some (idle m r FORCEFUL_SHUTDOWN)"
      by (simp add: run_state_forceful_shutdown_def idle_def configure_def orchestrator_new_def destroy_fragments_def)
    then show ?thesis using m FORCEFUL_SHUTDOWN by (intro go [of m r]) (simp_all add: simple)
  next
    case RESET
    have "run_state_reset (idle m r RESET) = Some (idle m True RESET)"
      by (simp add: run_state_reset_def idle_def configure_def orchestrator_new_def destroy_sockets_def)
    then show ?thesis using m RESET by (intro go [of m True]) (simp_all add: simple)
  qed
qed

lemma idle_loop:
  assumes "is_message m" and "(good_next ^^ n) st = RESET" and "\<forall>k < n. (good_next ^^ k) st \<noteq> RESET"
  shows "\<exists>m' r'. orc_loop (replicate (Suc n) idle_env) True NONE (idle m r st) = Some (NONE, idle m' r' RESET)"
  using assms
proof (induction n arbitrary: m r st)
  case 0
  then obtain m' r' where "orc_step idle_env (idle m r st) = Some (NONE, good_next st, idle m' r' st)" "st = RESET"
    using idle_step [OF 0(1), of r st] by auto
  then show ?case by (intro exI [of _ m'] exI [of _ r']) (simp add: idle_fields Let_def)
next
  case (Suc n)
  obtain m1 r1 where 1: "is_message m1" "orc_step idle_env (idle m r st) = Some (NONE, good_next st, idle m1 r1 st)"
    using idle_step [OF Suc.prems(1), of r st] by blast
  have "st \<noteq> RESET" using Suc.prems(3) by (metis funpow_0 zero_less_Suc)
  moreover have "\<forall>k < n. (good_next ^^ k) (good_next st) \<noteq> RESET"
    using Suc.prems(3) by (metis Suc_less_eq comp_apply funpow_Suc_right)
  moreover have "(good_next ^^ n) (good_next st) = RESET"
    using Suc.prems(2) by (metis comp_apply funpow_Suc_right)
  ultimately obtain m' r' where
    "orc_loop (replicate (Suc n) idle_env) True NONE (idle m1 r1 (good_next st)) = Some (NONE, idle m' r' RESET)"
    using Suc.IH [OF 1(1), of "good_next st" r1] by blast
  moreover have "orc_loop (idle_env # replicate (Suc n) idle_env) True NONE (idle m r st) =
      orc_loop (replicate (Suc n) idle_env) True NONE (idle m1 r1 (good_next st))"
    using 1(2) \<open>st \<noteq> RESET\<close> by (simp add: idle_fields Let_def del: replicate_Suc)
  ultimately show ?case unfolding replicate_Suc [of "Suc n"] by (metis (no_types))
qed

lemma routing_testcase_verdict_witness:
  "\<exists>pass s'. run_testcase False (routing_testcase_new no_nodes []) (replicate 65535 0) []
     (\<lambda>_. ((None, []), (None, []))) (\<lambda>_. ((None, []), (None, []))) (replicate 12 silent_env) = Some (pass, NONE, s') \<and> pass"
proof -
  let ?m = "replicate 65535 0 :: message" and ?io = "\<lambda>_ :: nat. ((None, []), (None, [])) :: tx_io \<times> rx_io"
  have "(good_next ^^ 11) INIT = RESET" "\<forall>k < 11. (good_next ^^ k) INIT \<noteq> RESET"
    by (simp_all add: numeral_eq_Suc less_Suc_eq)
  from idle_loop [OF _ this, of ?m True] obtain m' r' where
    loop: "orc_loop (replicate 12 idle_env) True NONE (idle ?m True INIT) = Some (NONE, idle m' r' RESET)"
    by (auto simp: is_message_def)
  have "(configure False (orchestrator_new ?m [] no_nodes))\<lparr>testcase := no_nodes, orc_state := INIT\<rparr> = idle ?m True INIT"
    by (simp add: idle_def configure_def orchestrator_new_def)
  moreover have "is_configured (configure False (orchestrator_new ?m [] no_nodes))" by (simp add: configure_def)
  ultimately have "orchestrator_run no_nodes (replicate 12 idle_env) (configure False (orchestrator_new ?m [] no_nodes)) =
      Some (NONE, idle m' r' RESET)"
    using loop by (simp add: orchestrator_run_def)
  moreover have "rt_case (routing_testcase_new no_nodes []) = no_nodes" by (simp add: routing_testcase_new_def)
  moreover have same: "(routing_testcase_new no_nodes [])\<lparr>rt_case := rt_case (routing_testcase_new no_nodes [])\<rparr> =
      routing_testcase_new no_nodes []" by (simp add: routing_testcase_new_def)
  ultimately have "\<exists>pass. run_testcase False (routing_testcase_new no_nodes []) ?m [] ?io ?io (replicate 12 silent_env) =
      Some (pass, NONE, idle m' r' RESET)"
    unfolding run_testcase_def Let_def if_False same by (simp add: idle_fields)
  then obtain pass where run: "run_testcase False (routing_testcase_new no_nodes []) ?m [] ?io ?io (replicate 12 silent_env) =
      Some (pass, NONE, idle m' r' RESET)" ..
  have "flows_ok (tc_graph no_nodes) []" by (simp add: flows_ok_def)
  from routing_testcase_verdict [OF this run] have pass by (simp add: idle_fields)
  with run show ?thesis by blast
qed

end
