(* ===== verification/Stp.thy ===== *)
theory Stp
  imports Node_State "HOL-Library.Product_Lexorder"
begin

text \<open>
  The spanning tree protocol of \<open>mixnet/node.c\<close>: \<open>handle_stp\<close>. A node ranks what it believes as
  a bid (root, distance, parent); the lemmas show that a packet moves the bid exactly as the
  protocol's ordering of bids says, that the branches of the handler exclude each other, that the
  port of the parent stays open, and which packets go out.
\<close>

subsection \<open>The code\<close>

definition set_blocked :: "node_state \<Rightarrow> nat \<Rightarrow> bool \<Rightarrow> node_state option" where
  "set_blocked s p v = map_option (\<lambda>bs. s\<lparr>blocked := bs\<rparr>) (set_at (blocked s) p v)"

text \<open>The arms of the branch chain. The C comparisons are on int, so nothing wraps there.\<close>

definition better_root :: "node_state \<Rightarrow> u16 \<Rightarrow> bool" where
  "better_root s pkt_root \<longleftrightarrow> root s > pkt_root"

definition parent_hello :: "node_state \<Rightarrow> u16 \<Rightarrow> u16 \<Rightarrow> bool" where
  "parent_hello s pkt_root pkt_addr \<longleftrightarrow> pkt_root = root s \<and> pkt_addr = next_hop s"

definition better_path :: "node_state \<Rightarrow> u16 \<Rightarrow> u16 \<Rightarrow> u16 \<Rightarrow> bool" where
  "better_path s pkt_root pkt_path_len pkt_addr \<longleftrightarrow>
     pkt_root = root s \<and>
     (unat (path_len s) > unat pkt_path_len + 1
      \<or> (path_len s > pkt_path_len \<and> next_hop s > pkt_addr))"

definition not_tree_edge :: "node_state \<Rightarrow> u16 \<Rightarrow> u16 \<Rightarrow> bool" where
  "not_tree_edge s pkt_root pkt_path_len \<longleftrightarrow> pkt_root = root s \<and> pkt_path_len \<le> path_len s"

definition child_claim :: "node_state \<Rightarrow> u16 \<Rightarrow> u16 \<Rightarrow> bool" where
  "child_claim s pkt_root pkt_path_len \<longleftrightarrow>
     pkt_root = root s \<and> unat pkt_path_len = unat (path_len s) + 1"

definition block_old_parent :: "mixnet_node_config \<Rightarrow> node_state \<Rightarrow> node_state" where
  "block_old_parent c s =
     (case port_of c s (next_hop s) of
        None \<Rightarrow> s
      | Some p \<Rightarrow> s\<lparr>blocked := (blocked s)[p := True]\<rparr>)"

text \<open>The branch chain, after the sender's address was recorded.\<close>

definition stp_chain ::
  "env \<Rightarrow> mixnet_node_config \<Rightarrow> node_state \<Rightarrow> nat \<Rightarrow> u16 \<Rightarrow> u16 \<Rightarrow> u16 \<Rightarrow>
   (node_state \<times> ev list) option" where
  "stp_chain e c s port pkt_root pkt_path_len pkt_addr =
     (if better_root s pkt_root then
        (let s1 = unblock_all c
               (s\<lparr>root := pkt_root, path_len := pkt_path_len + 1, next_hop := pkt_addr\<rparr>)
         in Some (s1, broadcast_stp e c s1 (- 1)))
      else if parent_hello s pkt_root pkt_addr then
        (let s1 = s\<lparr>path_len := pkt_path_len + 1\<rparr>
         in Some (s1, broadcast_stp e c s1 (int port)))
      else if better_path s pkt_root pkt_path_len pkt_addr then
        do {
          s1 \<leftarrow> set_blocked ((block_old_parent c s)\<lparr>path_len := pkt_path_len + 1\<rparr>) port False;
          let s2 = s1\<lparr>next_hop := pkt_addr\<rparr>;
          Some (s2, broadcast_stp e c s2 (- 1)) }
      else if not_tree_edge s pkt_root pkt_path_len then
        do { s1 \<leftarrow> set_blocked s port True; Some (s1, []) }
      else Some (s, []))"

definition child_rule ::
  "node_state \<Rightarrow> nat \<Rightarrow> u16 \<Rightarrow> u16 \<Rightarrow> node_state option" where
  "child_rule s port pkt_root pkt_path_len =
     (if child_claim s pkt_root pkt_path_len then set_blocked s port False else Some s)"

definition timer_rule :: "env \<Rightarrow> node_state \<Rightarrow> u16 \<Rightarrow> u16 \<Rightarrow> node_state" where
  "timer_rule e s pkt_root pkt_addr =
     (if pkt_addr = next_hop s \<and> pkt_root = root s then s\<lparr>reelection_start_ms := now e\<rparr> else s)"

text \<open>
  The handler checks neither the port nor the size of the packet: an access outside the arrays
  of the node or outside the block is the result \<open>None\<close>.
\<close>

definition handle_stp ::
  "env \<Rightarrow> mixnet_node_config \<Rightarrow> node_state \<Rightarrow> byte \<Rightarrow> buf \<Rightarrow> (node_state \<times> ev list) option" where
  "handle_stp e c s port packet = do {
     pkt_root \<leftarrow> get16 packet off_stp_root;
     pkt_path_len \<leftarrow> get16 packet off_stp_path_length;
     pkt_addr \<leftarrow> get16 packet off_stp_node;
     addrs \<leftarrow> set_at (neighbor_addr s) (unat port) pkt_addr;
     (s1, evs) \<leftarrow> stp_chain e c (s\<lparr>neighbor_addr := addrs\<rparr>) (unat port)
                    pkt_root pkt_path_len pkt_addr;
     s2 \<leftarrow> child_rule s1 (unat port) pkt_root pkt_path_len;
     Some (timer_rule e s2 pkt_root pkt_addr, evs @ [Free packet]) }"

subsection \<open>The handler on every branch\<close>

lemma unat_plus_one:
  assumes "n \<noteq> (65535 :: u16)"
  shows "unat (n + 1) = unat n + 1"
proof -
  have "unat n \<noteq> unat (65535 :: u16)" using assms unsigned_word_eqI by blast
  then have "unat n \<noteq> 65535" by simp
  then show ?thesis using unat_u16_less [of n] by (simp add: unat_word_ariths)
qed

lemma set_blocked_Some [access_simps]:
  "p < length (blocked s) \<Longrightarrow> set_blocked s p v = Some (s\<lparr>blocked := (blocked s)[p := v]\<rparr>)"
  by (simp add: set_blocked_def access_simps)

lemma block_old_parent_frame [state_simps]:
  "root (block_old_parent c s) = root s" "path_len (block_old_parent c s) = path_len s"
  "next_hop (block_old_parent c s) = next_hop s"
  "neighbor_addr (block_old_parent c s) = neighbor_addr s"
  "length (blocked (block_old_parent c s)) = length (blocked s)"
  "topology (block_old_parent c s) = topology s" "fib (block_old_parent c s) = fib s"
  "mix (block_old_parent c s) = mix s"
  "hello_start_ms (block_old_parent c s) = hello_start_ms s"
  "reelection_start_ms (block_old_parent c s) = reelection_start_ms s"
  "lsa_start_ms (block_old_parent c s) = lsa_start_ms s"
  by (simp_all add: block_old_parent_def split: option.split)

lemma blocked_old_parent:
  "q < length (blocked s) \<Longrightarrow>
   blocked (block_old_parent c s) ! q \<longleftrightarrow> port_of c s (next_hop s) = Some q \<or> blocked s ! q"
  by (auto simp: block_old_parent_def nth_update_if split: option.split)

text \<open>The chain as a case distinction, with the result of every arm written out.\<close>

lemma stp_chain_arms:
  assumes "port < length (blocked s)"
  shows "stp_chain e c s port r l a = Some
    (if better_root s r then
       (let s1 = s\<lparr>root := r, path_len := l + 1, next_hop := a,
                   blocked := replicate (ports c) False\<rparr> in (s1, broadcast_stp e c s1 (- 1)))
     else if parent_hello s r a then
       (let s1 = s\<lparr>path_len := l + 1\<rparr> in (s1, broadcast_stp e c s1 (int port)))
     else if better_path s r l a then
       (let s1 = s\<lparr>blocked := (blocked (block_old_parent c s))[port := False],
                   path_len := l + 1, next_hop := a\<rparr>
        in (s1, broadcast_stp e c s1 (- 1)))
     else if not_tree_edge s r l then (s\<lparr>blocked := (blocked s)[port := True]\<rparr>, [])
     else (s, []))"
proof -
  have "block_old_parent c s = s\<lparr>blocked := blocked (block_old_parent c s)\<rparr>"
    by (simp add: block_old_parent_def split: option.split)
  then have "set_blocked ((block_old_parent c s)\<lparr>path_len := l + 1\<rparr>) port False =
      Some (s\<lparr>blocked := (blocked (block_old_parent c s))[port := False], path_len := l + 1\<rparr>)"
    using assms by (simp add: access_simps state_simps)
  then show ?thesis
    using assms by (simp add: stp_chain_def unblock_all_def access_simps Let_def)
qed

text \<open>What the packet offers, and the post-state of the chain.\<close>

definition heard :: "node_state \<Rightarrow> nat \<Rightarrow> buf \<Rightarrow> node_state" where
  "heard s port b = s\<lparr>neighbor_addr := (neighbor_addr s)[port := rd16 b off_stp_node]\<rparr>"

lemma heard_frame [state_simps]:
  "root (heard s p b) = root s" "path_len (heard s p b) = path_len s"
  "next_hop (heard s p b) = next_hop s" "blocked (heard s p b) = blocked s"
  "neighbor_addr (heard s p b) = (neighbor_addr s)[p := rd16 b off_stp_node]"
  "topology (heard s p b) = topology s" "fib (heard s p b) = fib s" "mix (heard s p b) = mix s"
  by (simp_all add: heard_def)

lemma heard_tests [state_simps]:
  "better_root (heard s p b) r = better_root s r"
  "parent_hello (heard s p b) r a = parent_hello s r a"
  "better_path (heard s p b) r l a = better_path s r l a"
  "not_tree_edge (heard s p b) r l = not_tree_edge s r l"
  by (simp_all add: better_root_def parent_hello_def better_path_def not_tree_edge_def state_simps)

text \<open>The handler returns unless it leaves an array, and that is when it leaves one.\<close>

lemma handle_stp_run:
  assumes "wf_state c s"
  shows "handle_stp e c s port b =
    (if unat port < ports c \<and> STP_PACKET_SIZE \<le> length b then
       (case stp_chain e c (heard s (unat port) b) (unat port) (rd16 b off_stp_root)
               (rd16 b off_stp_path_length) (rd16 b off_stp_node) of
          None \<Rightarrow> None
        | Some (s1, evs) \<Rightarrow>
            (case child_rule s1 (unat port) (rd16 b off_stp_root) (rd16 b off_stp_path_length) of
               None \<Rightarrow> None
             | Some s2 \<Rightarrow>
                 Some (timer_rule e s2 (rd16 b off_stp_root) (rd16 b off_stp_node),
                       evs @ [Free b])))
     else None)"
  using wf_stateD(1) [OF assms]
  by (auto simp: handle_stp_def get16_iff set_at_def heard_def split: option.split)

lemma stp_chain_length:
  "stp_chain e c s p r l a = Some (s1, evs) \<Longrightarrow> p < length (blocked s) \<Longrightarrow>
   length (blocked s) = ports c \<Longrightarrow> length (blocked s1) = ports c"
  by (auto simp: stp_chain_arms Let_def state_simps split: if_splits)

text \<open>The parts of the state the tree protocol does not touch.\<close>

lemma stp_chain_frame:
  assumes "stp_chain e c s p r l a = Some (s1, evs)" and "p < length (blocked s)"
  shows "topology s1 = topology s \<and> fib s1 = fib s \<and> mix s1 = mix s
    \<and> neighbor_addr s1 = neighbor_addr s \<and> hello_start_ms s1 = hello_start_ms s
    \<and> lsa_start_ms s1 = lsa_start_ms s \<and> reelection_start_ms s1 = reelection_start_ms s
    \<and> balance evs = 0"
  using assms by (auto simp: stp_chain_arms Let_def split: if_splits)

lemma handle_stp_cases:
  assumes wf: "wf_state c s" and run: "handle_stp e c s port b = Some (s', evs)"
  obtains s1 evs1 where "unat port < ports c" "STP_PACKET_SIZE \<le> length b"
    "stp_chain e c (heard s (unat port) b) (unat port) (rd16 b off_stp_root)
       (rd16 b off_stp_path_length) (rd16 b off_stp_node) = Some (s1, evs1)"
    "evs = evs1 @ [Free b]"
    "s' = timer_rule e
       (if child_claim s1 (rd16 b off_stp_root) (rd16 b off_stp_path_length)
        then s1\<lparr>blocked := (blocked s1)[unat port := False]\<rparr> else s1)
       (rd16 b off_stp_root) (rd16 b off_stp_node)"
proof -
  have p: "unat port < ports c" and len: "STP_PACKET_SIZE \<le> length b"
    using run by (auto simp: handle_stp_run [OF wf] split: if_splits)
  obtain s1 evs1 where chain: "stp_chain e c (heard s (unat port) b) (unat port)
      (rd16 b off_stp_root) (rd16 b off_stp_path_length) (rd16 b off_stp_node) = Some (s1, evs1)"
    using run p len by (auto simp: handle_stp_run [OF wf] split: option.splits)
  have "length (blocked s1) = ports c"
    using stp_chain_length [OF chain] wf_stateD(2) [OF wf] p by (simp add: state_simps)
  then have "child_rule s1 (unat port) (rd16 b off_stp_root) (rd16 b off_stp_path_length) =
      Some (if child_claim s1 (rd16 b off_stp_root) (rd16 b off_stp_path_length)
        then s1\<lparr>blocked := (blocked s1)[unat port := False]\<rparr> else s1)"
    using p by (simp add: child_rule_def access_simps)
  with run p len chain that show thesis by (simp add: handle_stp_run [OF wf])
qed

lemma timer_rule_frame [state_simps]:
  "root (timer_rule e s r a) = root s" "path_len (timer_rule e s r a) = path_len s"
  "next_hop (timer_rule e s r a) = next_hop s" "blocked (timer_rule e s r a) = blocked s"
  "neighbor_addr (timer_rule e s r a) = neighbor_addr s"
  "topology (timer_rule e s r a) = topology s" "fib (timer_rule e s r a) = fib s"
  "mix (timer_rule e s r a) = mix s" "hello_start_ms (timer_rule e s r a) = hello_start_ms s"
  "lsa_start_ms (timer_rule e s r a) = lsa_start_ms s"
  by (simp_all add: timer_rule_def)

lemma handle_stp_defined:
  assumes wf: "wf_state c s" and "unat port < ports c" and "STP_PACKET_SIZE \<le> length b"
  shows "\<exists>s' evs. handle_stp e c s port b = Some (s', evs)"
proof -
  have p: "unat port < length (blocked (heard s (unat port) b))"
    using assms wf_stateD(2) [OF wf] by (simp add: state_simps)
  obtain s1 evs where chain: "stp_chain e c (heard s (unat port) b) (unat port)
      (rd16 b off_stp_root) (rd16 b off_stp_path_length) (rd16 b off_stp_node) = Some (s1, evs)"
    using stp_chain_arms [OF p] by (metis surj_pair)
  have "unat port < length (blocked s1)"
    using stp_chain_length [OF chain p] assms wf_stateD(2) [OF wf] by (simp add: state_simps)
  then show ?thesis
    using assms chain by (simp add: handle_stp_run [OF wf] child_rule_def access_simps)
qed

lemma handle_stp_frame:
  assumes wf: "wf_state c s" and run: "handle_stp e c s port b = Some (s', evs)"
  shows "topology s' = topology s \<and> fib s' = fib s \<and> mix s' = mix s
    \<and> neighbor_addr s' = (neighbor_addr s)[unat port := rd16 b off_stp_node]
    \<and> hello_start_ms s' = hello_start_ms s \<and> lsa_start_ms s' = lsa_start_ms s
    \<and> length (blocked s') = ports c \<and> balance evs = - 1"
proof -
  obtain s1 evs1 where h: "unat port < ports c"
    "stp_chain e c (heard s (unat port) b) (unat port) (rd16 b off_stp_root)
       (rd16 b off_stp_path_length) (rd16 b off_stp_node) = Some (s1, evs1)"
    "evs = evs1 @ [Free b]"
    "s' = timer_rule e
       (if child_claim s1 (rd16 b off_stp_root) (rd16 b off_stp_path_length)
        then s1\<lparr>blocked := (blocked s1)[unat port := False]\<rparr> else s1)
       (rd16 b off_stp_root) (rd16 b off_stp_node)"
    using handle_stp_cases [OF wf run] by metis
  have p: "unat port < length (blocked (heard s (unat port) b))"
    "length (blocked (heard s (unat port) b)) = ports c"
    using h(1) wf_stateD(2) [OF wf] by (simp_all add: state_simps)
  from stp_chain_frame [OF h(2) p(1)] stp_chain_length [OF h(2) p] show ?thesis
    unfolding h(3,4) by (simp add: state_simps heard_def)
qed

lemma handle_stp_wf:
  assumes wf: "wf_state c s" and run: "handle_stp e c s port b = Some (s', evs)"
  shows "wf_state c s'"
  using handle_stp_frame [OF assms] wf by (simp add: wf_state_def wf_mix_def)

text \<open>
  \<open>handle_stp\<close> is safe exactly on a neighbour port with a full-size packet: it returns if and
  only if the port is below \<open>num_neighbors\<close> and the block reaches the end of the STP payload;
  otherwise it writes past \<open>neighbor_addr\<close> or reads past the packet, for it tests neither.
\<close>

theorem handle_stp_safe_iff:
  assumes "wf_state c s"
  shows "handle_stp e c s port b \<noteq> None \<longleftrightarrow> unat port < ports c \<and> STP_PACKET_SIZE \<le> length b"
proof (cases "unat port < ports c \<and> STP_PACKET_SIZE \<le> length b")
  case True
  then show ?thesis using handle_stp_defined [OF assms, of port b e] by blast
next
  case False
  then show ?thesis unfolding handle_stp_run [OF assms] if_not_P [OF False] by simp
qed

subsection \<open>The bid\<close>

text \<open>
  A bid ranks by root, then distance, then the address it was heard from; smaller is better. The
  protocol in one line: adopt the least bid heard, except that the parent's word is always taken.
\<close>

definition bid :: "node_state \<Rightarrow> u16 \<times> u16 \<times> u16" where
  "bid s = (root s, path_len s, next_hop s)"

definition next_bid :: "u16 \<times> u16 \<times> u16 \<Rightarrow> u16 \<times> u16 \<times> u16 \<Rightarrow> u16 \<times> u16 \<times> u16" where
  "next_bid old offer =
     (if fst offer = fst old \<and> snd (snd offer) = snd (snd old) then offer else min old offer)"

lemma better_path_alt:
  assumes "l \<noteq> 65535"
  shows "better_path s r l a \<longleftrightarrow>
    r = root s \<and> (l + 1 < path_len s \<or> l + 1 \<le> path_len s \<and> a < next_hop s)"
  by (auto simp: better_path_def word_less_nat_alt word_le_nat_alt unat_plus_one [OF assms])

lemma stp_chain_bid:
  assumes "stp_chain e c s p r l a = Some (s1, evs)" and p: "p < length (blocked s)"
    and "l \<noteq> 65535"
  shows "bid s1 = next_bid (bid s) (r, l + 1, a)"
proof -
  note l = better_path_alt [OF assms(3)]
  consider "better_root s r" | "\<not> better_root s r" "parent_hello s r a"
    | "\<not> better_root s r" "\<not> parent_hello s r a" "better_path s r l a"
    | "\<not> better_root s r" "\<not> parent_hello s r a" "\<not> better_path s r l a" by blast
  then show ?thesis
  proof cases
    case 1
    then have "bid s1 = (r, l + 1, a)"
      using assms(1) by (auto simp: stp_chain_arms [OF p] Let_def bid_def)
    with 1 show ?thesis by (auto simp: next_bid_def better_root_def bid_def min_def)
  next
    case 2
    then have "bid s1 = (r, l + 1, a)"
      using assms(1) by (auto simp: stp_chain_arms [OF p] Let_def bid_def parent_hello_def)
    with 2 show ?thesis by (simp add: next_bid_def parent_hello_def bid_def)
  next
    case 3
    then have "bid s1 = (r, l + 1, a)"
      using assms(1) by (auto simp: stp_chain_arms [OF p] Let_def bid_def better_path_def)
    with 3 l show ?thesis
      by (auto simp: next_bid_def parent_hello_def bid_def min_def)
  next
    case 4
    then have "bid s1 = bid s"
      using assms(1) by (auto simp: stp_chain_arms [OF p] Let_def bid_def split: if_splits)
    with 4 l show ?thesis
      by (auto simp: next_bid_def parent_hello_def bid_def better_root_def min_def)
  qed
qed

lemma handle_stp_bid:
  assumes wf: "wf_state c s" and run: "handle_stp e c s port b = Some (s', evs)"
    and len: "rd16 b off_stp_path_length \<noteq> 65535"
  shows "bid s' = next_bid (bid s)
    (rd16 b off_stp_root, rd16 b off_stp_path_length + 1, rd16 b off_stp_node)"
proof -
  obtain s1 evs1 where h: "unat port < ports c"
    "stp_chain e c (heard s (unat port) b) (unat port) (rd16 b off_stp_root)
       (rd16 b off_stp_path_length) (rd16 b off_stp_node) = Some (s1, evs1)"
    "s' = timer_rule e
       (if child_claim s1 (rd16 b off_stp_root) (rd16 b off_stp_path_length)
        then s1\<lparr>blocked := (blocked s1)[unat port := False]\<rparr> else s1)
       (rd16 b off_stp_root) (rd16 b off_stp_node)"
    using handle_stp_cases [OF wf run] by metis
  have p: "unat port < length (blocked (heard s (unat port) b))"
    using h(1) wf_stateD(2) [OF wf] by (simp add: state_simps)
  have "bid s' = bid s1" unfolding h(3) by (simp add: bid_def state_simps)
  also have "\<dots> = next_bid (bid (heard s (unat port) b))
    (rd16 b off_stp_root, rd16 b off_stp_path_length + 1, rd16 b off_stp_node)"
    by (rule stp_chain_bid [OF h(2) p len])
  finally show ?thesis by (simp add: bid_def state_simps)
qed

text \<open>
  C18. A node's (root, distance, parent) follows the protocol's ordering: a bid from its parent for
  its root is adopted, be it better or worse; from anyone else the node takes the offered
  (root, distance + 1, sender) exactly when that is lexicographically smaller than what it has.
\<close>

theorem handle_stp_adopts_least_bid:
  assumes "wf_state c s" and "handle_stp e c s port b = Some (s', evs)"
    and "rd16 b off_stp_path_length \<noteq> 65535"
  shows "bid s' =
    (let offer = (rd16 b off_stp_root, rd16 b off_stp_path_length + 1, rd16 b off_stp_node) in
     if rd16 b off_stp_root = root s \<and> rd16 b off_stp_node = next_hop s then offer
     else min (bid s) offer)"
  using handle_stp_bid [OF assms] by (simp add: next_bid_def bid_def Let_def)

subsection \<open>Blocked ports\<close>

lemma handle_stp_blocked:
  assumes wf: "wf_state c s" and run: "handle_stp e c s port b = Some (s', evs)"
    and q: "q < ports c"
  shows "blocked s' ! q \<longleftrightarrow>
    (if better_root s (rd16 b off_stp_root) then False
     else if parent_hello s (rd16 b off_stp_root) (rd16 b off_stp_node) then blocked s ! q
     else if better_path s (rd16 b off_stp_root) (rd16 b off_stp_path_length) (rd16 b off_stp_node)
     then q \<noteq> unat port \<and>
       (port_of c (heard s (unat port) b) (next_hop s) = Some q \<or> blocked s ! q)
     else if not_tree_edge s (rd16 b off_stp_root) (rd16 b off_stp_path_length)
     then q = unat port \<or> blocked s ! q
     else if child_claim s (rd16 b off_stp_root) (rd16 b off_stp_path_length)
     then q \<noteq> unat port \<and> blocked s ! q
     else blocked s ! q)"
proof -
  let ?r = "rd16 b off_stp_root" and ?l = "rd16 b off_stp_path_length"
    and ?a = "rd16 b off_stp_node" and ?h = "heard s (unat port) b"
  obtain s1 evs1 where h: "unat port < ports c"
    "stp_chain e c ?h (unat port) ?r ?l ?a = Some (s1, evs1)"
    "s' = timer_rule e (if child_claim s1 ?r ?l
        then s1\<lparr>blocked := (blocked s1)[unat port := False]\<rparr> else s1) ?r ?a"
    using handle_stp_cases [OF wf run] by metis
  have p: "unat port < length (blocked ?h)" and b: "length (blocked ?h) = ports c"
    using h(1) wf_stateD(2) [OF wf] by (simp_all add: state_simps)
  have b1: "length (blocked s1) = ports c" by (rule stp_chain_length [OF h(2) p b])
  have "unat (?l + 1) \<le> unat ?l + 1" by (cases "?l = 65535") (simp_all add: unat_plus_one)
  then have no_child: "unat ?l \<noteq> unat (?l + 1) + 1" by (cases "?l = 65535") (simp_all add: unat_plus_one)
  have bs': "blocked s' ! q \<longleftrightarrow> (if child_claim s1 ?r ?l \<and> q = unat port then False else blocked s1 ! q)"
    unfolding h(3) using q b1 by (simp add: state_simps nth_update_if)
  note chain = h(2) [unfolded stp_chain_arms [OF p]]
  consider "better_root s ?r" | "\<not> better_root s ?r" "parent_hello s ?r ?a"
    | "\<not> better_root s ?r" "\<not> parent_hello s ?r ?a" "better_path s ?r ?l ?a"
    | "\<not> better_root s ?r" "\<not> parent_hello s ?r ?a" "\<not> better_path s ?r ?l ?a" by blast
  then show ?thesis
  proof cases
    case 1
    then have "s1 = ?h\<lparr>root := ?r, path_len := ?l + 1, next_hop := ?a,
                   blocked := replicate (ports c) False\<rparr>"
      using chain by (simp add: state_simps Let_def)
    then show ?thesis using 1 q by (simp add: bs')
  next
    case 2
    then have "s1 = ?h\<lparr>path_len := ?l + 1\<rparr>"
      using chain by (simp add: state_simps Let_def)
    then show ?thesis using 2 no_child by (simp add: bs' child_claim_def state_simps)
  next
    case 3
    then have "s1 = ?h\<lparr>blocked := (blocked (block_old_parent c ?h))[unat port := False],
                   path_len := ?l + 1, next_hop := ?a\<rparr>"
      using chain by (simp add: state_simps Let_def)
    then show ?thesis
      using 3 no_child q b p
      by (simp add: bs' child_claim_def state_simps nth_update_if blocked_old_parent)
  next
    case 4
    then have "s1 = (if not_tree_edge s ?r ?l then ?h\<lparr>blocked := (blocked s)[unat port := True]\<rparr>
        else ?h)"
      using chain by (simp add: state_simps split: if_splits)
    then show ?thesis
      using 4 q b p
      by (auto simp: bs' child_claim_def not_tree_edge_def state_simps nth_update_if word_le_nat_alt)
  qed
qed

text \<open>
  C20. Every arm of the handler and its effect on the ports: a better root opens all of them; a
  hello from the parent changes none; a better path closes the old parent's port and opens the
  new one's; a neighbour that is not further from the root than we are, and not taken as parent,
  is closed; one that is exactly one further, a child, is opened. The conditions are those of the
  state before the packet: the rule for children, which the code tests on the updated state,
  never fires together with another arm.
\<close>

theorem handle_stp_ports:
  assumes wf: "wf_state c s" and run: "handle_stp e c s port b = Some (s', evs)"
    and q: "q < ports c"
  shows "blocked s' ! q \<longleftrightarrow>
    (let r = rd16 b off_stp_root; l = rd16 b off_stp_path_length; a = rd16 b off_stp_node in
     if r < root s then False
     else if r > root s then blocked s ! q
     else if a = next_hop s then blocked s ! q
     else if better_path s r l a then
       q \<noteq> unat port \<and>
       (port_of c (heard s (unat port) b) (next_hop s) = Some q \<or> blocked s ! q)
     else if l \<le> path_len s then q = unat port \<or> blocked s ! q
     else if unat l = unat (path_len s) + 1 then q \<noteq> unat port \<and> blocked s ! q
     else blocked s ! q)"
  unfolding handle_stp_blocked [OF assms] Let_def
  by (auto simp: better_root_def parent_hello_def not_tree_edge_def child_claim_def better_path_def)

subsection \<open>The tree invariant\<close>

text \<open>
  The network around a node: \<open>nbr p\<close> is the address of the node on port \<open>p\<close>, one per port.
\<close>

definition neighbors :: "mixnet_node_config \<Rightarrow> (nat \<Rightarrow> mixnet_address) \<Rightarrow> bool" where
  "neighbors c nbr \<longleftrightarrow>
     (\<forall>p < ports c. nbr p \<noteq> INVALID_MIXADDR \<and> (\<forall>q < ports c. nbr p = nbr q \<longrightarrow> p = q))"

definition stp_inv :: "(nat \<Rightarrow> mixnet_address) \<Rightarrow> mixnet_node_config \<Rightarrow> node_state \<Rightarrow> bool" where
  "stp_inv nbr c s \<longleftrightarrow>
     root s \<le> node_addr c
     \<and> (root s = node_addr c \<longrightarrow> path_len s = 0 \<and> next_hop s = INVALID_MIXADDR)
     \<and> (root s \<noteq> node_addr c \<longrightarrow> path_len s \<noteq> 0 \<and>
          (\<exists>p < ports c. nbr p = next_hop s \<and> neighbor_addr s ! p = nbr p \<and> \<not> blocked s ! p))
     \<and> (\<forall>p < ports c. neighbor_addr s ! p = INVALID_MIXADDR \<or> neighbor_addr s ! p = nbr p)"

text \<open>The arms that change the bid.\<close>

definition adopts :: "node_state \<Rightarrow> buf \<Rightarrow> bool" where
  "adopts s b \<longleftrightarrow>
     (let r = rd16 b off_stp_root; l = rd16 b off_stp_path_length; a = rd16 b off_stp_node in
      better_root s r \<or> parent_hello s r a \<or> better_path s r l a)"

lemma handle_stp_adopts:
  assumes "wf_state c s" and "handle_stp e c s port b = Some (s', evs)"
    and len: "rd16 b off_stp_path_length \<noteq> 65535"
  shows "bid s' = (if adopts s b
    then (rd16 b off_stp_root, rd16 b off_stp_path_length + 1, rd16 b off_stp_node) else bid s)"
  using handle_stp_bid [OF assms] better_path_alt [OF len]
  by (auto simp: next_bid_def bid_def adopts_def better_root_def parent_hello_def min_def Let_def)

text \<open>What the arms leave of the port of the parent.\<close>

lemma stp_parent_port:
  assumes wf: "wf_state c s" and run: "handle_stp e c s port b = Some (s', evs)"
    and nbr: "rd16 b off_stp_node = nbr (unat port)" and net: "neighbors c nbr"
    and inv: "stp_inv nbr c s"
  shows "if adopts s b then \<not> blocked s' ! unat port
    else \<forall>q < ports c. nbr q = next_hop s \<longrightarrow> \<not> blocked s ! q \<longrightarrow> \<not> blocked s' ! q"
proof -
  let ?r = "rd16 b off_stp_root" and ?l = "rd16 b off_stp_path_length"
    and ?a = "rd16 b off_stp_node"
  have p: "unat port < ports c"
    using run by (auto simp: handle_stp_run [OF wf] split: if_splits)
  note blk = handle_stp_blocked [OF wf run]
  have parent: "\<not> blocked s ! unat port" if "parent_hello s ?r ?a"
  proof -
    have "next_hop s = nbr (unat port)" using that nbr by (simp add: parent_hello_def)
    moreover from this have "next_hop s \<noteq> INVALID_MIXADDR" using net p by (simp add: neighbors_def)
    ultimately show ?thesis using inv net p by (auto simp: stp_inv_def neighbors_def)
  qed
  show ?thesis
  proof (cases "adopts s b")
    case True
    then show ?thesis using parent blk [OF p] by (auto simp: adopts_def Let_def)
  next
    case False
    have "\<not> (not_tree_edge s ?r ?l \<and> nbr (unat port) = next_hop s)"
      using False nbr by (auto simp: adopts_def not_tree_edge_def parent_hello_def Let_def)
    with False show ?thesis by (auto simp: adopts_def Let_def blk)
  qed
qed

lemma stp_inv_step:
  assumes wf: "wf_state c s" and inv: "stp_inv nbr c s" and net: "neighbors c nbr"
    and run: "handle_stp e c s port b = Some (s', evs)"
    and nbr: "rd16 b off_stp_node = nbr (unat port)"
    and len: "rd16 b off_stp_path_length \<noteq> 65535"
  shows "stp_inv nbr c s'"
proof -
  let ?r = "rd16 b off_stp_root" and ?l = "rd16 b off_stp_path_length"
    and ?a = "rd16 b off_stp_node"
  have p: "unat port < ports c"
    using run by (auto simp: handle_stp_run [OF wf] split: if_splits)
  have "nbr (unat port) \<noteq> INVALID_MIXADDR" using net p by (simp add: neighbors_def)
  have addrs: "neighbor_addr s' = (neighbor_addr s)[unat port := nbr (unat port)]"
    using handle_stp_frame [OF wf run] nbr by simp
  have known: "q < ports c \<Longrightarrow> neighbor_addr s' ! q =
      (if q = unat port then nbr q else neighbor_addr s ! q)" for q
    using wf_stateD(1) [OF wf] by (auto simp: addrs nth_update_if)
  note b = handle_stp_adopts [OF wf run len]
  note port = stp_parent_port [where nbr = nbr, OF wf run nbr net inv]
  show ?thesis
  proof (cases "adopts s b")
    case True
    then have s': "root s' = ?r" "path_len s' = ?l + 1" "next_hop s' = nbr (unat port)"
      using b nbr by (simp_all add: bid_def)
    have "?l + 1 \<noteq> 0" using unat_plus_one [OF len] by auto
    moreover have "?r < node_addr c"
    proof (cases "?r < root s")
      case True
      then show ?thesis using inv by (auto simp: stp_inv_def)
    next
      case False
      with True have "?r = root s" "next_hop s = nbr (unat port) \<or> path_len s \<noteq> 0"
        using nbr by (auto simp: adopts_def better_root_def parent_hello_def better_path_def Let_def)
      then show ?thesis
        using inv \<open>nbr (unat port) \<noteq> INVALID_MIXADDR\<close> by (auto simp: stp_inv_def)
    qed
    ultimately show ?thesis
      using True port p known inv by (auto simp: stp_inv_def s')
  next
    case False
    then have s': "root s' = root s" "path_len s' = path_len s" "next_hop s' = next_hop s"
      using b by (simp_all add: bid_def)
    show ?thesis
      using False port known inv by (fastforce simp: stp_inv_def s')
  qed
qed

text \<open>
  C19. With one distinct neighbour per port, each naming itself in its packets, a node's place in
  the tree stays sound: its root is at most its own address; it is the root exactly with distance
  0 and no parent; otherwise its distance is positive and its parent is the neighbour of one of
  its ports, known there by address, and that port is open. So no packet ever blocks the way to
  the parent. (A claimed distance of 65535 is excluded: one more wraps to 0.)
\<close>

theorem handle_stp_keeps_tree:
  assumes wf: "wf_state c s" and inv: "stp_inv nbr c s" and net: "neighbors c nbr"
    and run: "handle_stp e c s port b = Some (s', evs)"
    and nbr: "rd16 b off_stp_node = nbr (unat port)"
    and len: "rd16 b off_stp_path_length \<noteq> 65535"
  shows "stp_inv nbr c s'"
  by (rule stp_inv_step [OF assms])

subsection \<open>Announcements\<close>

lemma sent_broadcast_ports:
  assumes "\<And>p. alloc e (Stp_Packet p)"
  shows "map fst (sent (broadcast_stp e c s ex)) =
    map of_nat (filter (\<lambda>p. int p \<noteq> ex) [0..<ports c])"
proof -
  obtain x where x: "\<And>p. make_stp_packet e (alloc e (Stp_Packet p)) c s = Some x"
    using assms by (simp add: make_stp_packet_def Let_def)
  have "map fst (sent (concat (map (\<lambda>p. if int p = ex then []
      else (case make_stp_packet e (alloc e (Stp_Packet p)) c s of
              None \<Rightarrow> [] | Some b \<Rightarrow> Alloc b # send_packet p b)) ps))) =
      map of_nat (filter (\<lambda>p. int p \<noteq> ex) ps)" for ps
    by (induction ps) (simp_all add: x send_packet_def)
  then show ?thesis by (simp add: broadcast_stp_def)
qed

text \<open>Whether a packet is one of our bids.\<close>

definition announces :: "mixnet_node_config \<Rightarrow> node_state \<Rightarrow> buf \<Rightarrow> bool" where
  "announces c s x \<longleftrightarrow>
     pkt_type x = type_code PACKET_TYPE_STP \<and> pkt_total_size x = of_nat STP_PACKET_SIZE
     \<and> rd16 x off_stp_root = root s \<and> rd16 x off_stp_path_length = path_len s
     \<and> rd16 x off_stp_node = node_addr c"

lemma broadcast_stp_announces:
  "(q, x) \<in> set (sent (broadcast_stp e c s ex)) \<Longrightarrow> announces c s x"
proof (drule sent_broadcast_stp)
  assume "\<exists>p < ports c. q = of_nat p \<and> int p \<noteq> ex \<and> make_stp_packet e True c s = Some x"
  then have "make_stp_packet e True c s = Some x" by blast
  from make_stp_packet_fields [OF this] show "announces c s x" by (simp add: announces_def)
qed

text \<open>
  A node that changes its bid tells its neighbours at once: everything it then sends is its
  new bid under its own address, on every port -- on every port but the one it came from, when it
  was the parent's hello. A packet that changes nothing causes no traffic. The same packets, and
  no others, count as evidence that the path to the root is alive and restart the timer.
\<close>

theorem handle_stp_announces:
  assumes wf: "wf_state c s" and run: "handle_stp e c s port b = Some (s', evs)"
    and len: "rd16 b off_stp_path_length \<noteq> 65535" and mem: "\<And>p. alloc e (Stp_Packet p)"
  shows "map fst (sent evs) =
      (if adopts s b
       then map of_nat (filter (\<lambda>p. \<not> (rd16 b off_stp_root = root s
              \<and> rd16 b off_stp_node = next_hop s \<and> p = unat port)) [0..<ports c])
       else [])
    \<and> (\<forall>(q, x) \<in> set (sent evs). announces c s' x)
    \<and> reelection_start_ms s' = (if adopts s b then now e else reelection_start_ms s)"
proof -
  let ?r = "rd16 b off_stp_root" and ?l = "rd16 b off_stp_path_length"
    and ?a = "rd16 b off_stp_node" and ?h = "heard s (unat port) b"
  obtain s1 evs1 where h: "unat port < ports c"
    "stp_chain e c ?h (unat port) ?r ?l ?a = Some (s1, evs1)" "evs = evs1 @ [Free b]"
    "s' = timer_rule e (if child_claim s1 ?r ?l
        then s1\<lparr>blocked := (blocked s1)[unat port := False]\<rparr> else s1) ?r ?a"
    using handle_stp_cases [OF wf run] by metis
  have p: "unat port < length (blocked ?h)"
    using h(1) wf_stateD(2) [OF wf] by (simp add: state_simps)
  have same: "bid s' = bid s1" unfolding h(4) by (simp add: bid_def state_simps)
  then have bid': "bid s1 = (if adopts s b then (?r, ?l + 1, ?a) else bid s)"
    using handle_stp_adopts [OF wf run len] by simp
  have time: "reelection_start_ms s' = (if adopts s b then now e else reelection_start_ms s)"
    using bid' stp_chain_frame [OF h(2) p] unfolding h(4)
    by (auto simp: timer_rule_def heard_def bid_def adopts_def parent_hello_def Let_def
        split: if_splits)
  have "announces c s' x = announces c s1 x" for x
    using same by (simp add: announces_def bid_def)
  moreover have "evs1 = (if adopts s b then broadcast_stp e c s1
      (if ?r = root s \<and> ?a = next_hop s then int (unat port) else - 1) else [])"
    using h(2) unfolding stp_chain_arms [OF p]
    by (auto simp: state_simps adopts_def parent_hello_def better_path_def better_root_def Let_def
        split: if_splits)
  ultimately show ?thesis
    using time broadcast_stp_announces sent_broadcast_ports [OF mem] unfolding h(3)
    by (auto intro!: arg_cong [where f = "map of_nat"] filter_cong
        dest: arg_cong [where f = nat])
qed

lemma stp_inv_init: "state_init ok t1 t2 t3 c = Some s \<Longrightarrow> stp_inv nbr c s"
  by (auto simp: state_init_def stp_inv_def split: if_splits)

subsection \<open>An example\<close>

text \<open>Node 3, on port 0, offers root 0 at distance 1.\<close>

definition example_bid :: buf where
  "example_bid = [18, 0, 0, 0, 0, 0, 0, 0, 0, 0, 0, 0, 0, 0, 1, 0, 3, 0]"

lemma example_bid_fields:
  "rd16 example_bid 12 = 0" "rd16 example_bid 14 = 1" "rd16 example_bid 16 = 3" "length example_bid = 18"
  by (code_simp, code_simp, code_simp, code_simp)

lemma example_bid_runs:
  "\<exists>s' evs. handle_stp calm_env example_config idle_state 0 example_bid = Some (s', evs)"
  by (rule handle_stp_defined [OF wf_idle_state]) (simp_all add: example_bid_fields)

lemma idle_state_sel [simp]:
  "root idle_state = 1" "path_len idle_state = 0" "next_hop idle_state = INVALID_MIXADDR"
  "blocked idle_state = [False, False]"
  by (simp_all add: idle_state_def)

definition example_nbr :: "nat \<Rightarrow> mixnet_address" where
  "example_nbr p = (if p = 0 then 3 else 2)"

lemma example_neighbors:
  "neighbors example_config example_nbr" "stp_inv example_nbr example_config idle_state"
  using stp_inv_init [OF idle_state_init]
  by (auto simp: neighbors_def example_nbr_def INVALID_MIXADDR_def)

theorem handle_stp_safe_iff_witness:
  "handle_stp calm_env example_config idle_state 2 example_bid = None"
  using handle_stp_safe_iff [OF wf_idle_state, of calm_env 2 example_bid]
  by (simp del: not_None_eq)

theorem handle_stp_adopts_least_bid_witness:
  "\<exists>s' evs. handle_stp calm_env example_config idle_state 0 example_bid = Some (s', evs)
    \<and> bid s' = (0, 2, 3)"
proof -
  obtain s' evs where run:
    "handle_stp calm_env example_config idle_state 0 example_bid = Some (s', evs)"
    using example_bid_runs by blast
  moreover have "bid s' = (0, 2, 3)"
    using handle_stp_adopts_least_bid [OF wf_idle_state run]
    by (simp add: example_bid_fields bid_def min_def INVALID_MIXADDR_def)
  ultimately show ?thesis by blast
qed

theorem handle_stp_ports_witness:
  "\<exists>s' evs. handle_stp calm_env example_config idle_state 0 example_bid = Some (s', evs)
    \<and> \<not> blocked s' ! 1"
proof -
  obtain s' evs where run:
    "handle_stp calm_env example_config idle_state 0 example_bid = Some (s', evs)"
    using example_bid_runs by blast
  moreover have "\<not> blocked s' ! 1"
    using handle_stp_ports [OF wf_idle_state run, of 1] by (simp add: example_bid_fields)
  ultimately show ?thesis by blast
qed

theorem handle_stp_keeps_tree_witness:
  "\<exists>s' evs. handle_stp calm_env example_config idle_state 0 example_bid = Some (s', evs)
    \<and> stp_inv example_nbr example_config s'"
proof -
  obtain s' evs where run:
    "handle_stp calm_env example_config idle_state 0 example_bid = Some (s', evs)"
    using example_bid_runs by blast
  moreover have "stp_inv example_nbr example_config s'"
    using handle_stp_keeps_tree [OF wf_idle_state example_neighbors(2,1) run]
    by (simp add: example_bid_fields example_nbr_def)
  ultimately show ?thesis by blast
qed

theorem handle_stp_announces_witness:
  "\<exists>s' evs. handle_stp calm_env example_config idle_state 0 example_bid = Some (s', evs)
    \<and> map fst (sent evs) = [0, 1]"
proof -
  obtain s' evs where run:
    "handle_stp calm_env example_config idle_state 0 example_bid = Some (s', evs)"
    using example_bid_runs by blast
  moreover have "map fst (sent evs) = [0, 1]"
    using handle_stp_announces [OF wf_idle_state run]
    by (simp add: example_bid_fields calm_env_def adopts_def better_root_def upt_rec)
  ultimately show ?thesis by auto
qed

end
