(* ===== verification/Node.thy ===== *)
theory Node
  imports Forwarding Stp
begin

text \<open>
  The main loop of \<open>mixnet/node.c\<close>: \<open>check_timers\<close> and \<open>run_node\<close>. The lemmas show that a node
  keeps all the invariants of its parts whatever packets arrive in whatever order, that it
  never leaves its arrays, and that over its whole life every packet block is sent or freed
  exactly once.
\<close>

subsection \<open>The code\<close>

text \<open>Whether a timer started at \<open>t\<close> has run for \<open>interval\<close> milliseconds; the difference wraps.\<close>

definition elapsed :: "u64 \<Rightarrow> u64 \<Rightarrow> u32 \<Rightarrow> bool" where
  "elapsed n t interval \<longleftrightarrow> n - t \<ge> ucast interval"

definition tree_timers :: "env \<Rightarrow> mixnet_node_config \<Rightarrow> node_state \<Rightarrow> node_state \<times> ev list" where
  "tree_timers e c s =
     (if root s = node_addr c then
        (if elapsed (now e) (hello_start_ms s) (root_hello_interval_ms c)
         then (s\<lparr>hello_start_ms := now e\<rparr>, broadcast_stp e c s (- 1))
         else (s, []))
      else if elapsed (now e) (reelection_start_ms s) (reelection_interval_ms c) then
        (let s1 = unblock_all c (become_root c s)
         in (s1\<lparr>hello_start_ms := now e, reelection_start_ms := now e\<rparr>,
             broadcast_stp e c s1 (- 1)))
      else (s, []))"

definition check_timers ::
  "env \<Rightarrow> mixnet_node_config \<Rightarrow> node_state \<Rightarrow> (node_state \<times> ev list) option" where
  "check_timers e c s =
     (let (s1, evs) = tree_timers e c s in
      if elapsed (now e) (lsa_start_ms s1) (root_hello_interval_ms c) then do {
        (s2, evs2) \<leftarrow> originate_lsa e c s1;
        Some (s2\<lparr>lsa_start_ms := now e\<rparr>, evs @ evs2) }
      else Some (s1, evs))"

text \<open>The switch on the type of a received packet.\<close>

definition dispatch ::
  "env \<Rightarrow> mixnet_node_config \<Rightarrow> node_state \<Rightarrow> byte \<Rightarrow> buf \<Rightarrow> (node_state \<times> ev list) option" where
  "dispatch e c s port packet = do {
     ty \<leftarrow> get16 packet off_type;
     (case type_of_code ty of
        Some PACKET_TYPE_STP \<Rightarrow> handle_stp e c s port packet
      | Some PACKET_TYPE_FLOOD \<Rightarrow> handle_flood e c s port packet
      | Some PACKET_TYPE_LSA \<Rightarrow> handle_lsa e c s port packet
      | Some PACKET_TYPE_DATA \<Rightarrow> handle_routed e c s port packet
      | Some PACKET_TYPE_PING \<Rightarrow> handle_routed e c s port packet
      | None \<Rightarrow> Some (s, [Free packet])) }"

text \<open>
  One iteration of the loop: what \<open>mixnet_recv\<close> delivered, if anything, and the world during the
  handler and during the timers.
\<close>

record iteration =
  received :: "(byte \<times> buf) option"
  handler_env :: env
  timer_env :: env

definition loop_body ::
  "mixnet_node_config \<Rightarrow> node_state \<Rightarrow> iteration \<Rightarrow> (node_state \<times> ev list) option" where
  "loop_body c s it = do {
     (s1, evs1) \<leftarrow>
       (case received it of
          None \<Rightarrow> Some (s, [])
        | Some (port, packet) \<Rightarrow> dispatch (handler_env it) c s port packet);
     (s2, evs2) \<leftarrow> check_timers (timer_env it) c s1;
     Some (s2, evs1 @ evs2) }"

text \<open>The iterations until \<open>keep_running\<close> becomes false.\<close>

fun main_loop ::
  "mixnet_node_config \<Rightarrow> node_state \<Rightarrow> iteration list \<Rightarrow> (node_state \<times> ev list) option" where
  "main_loop c s [] = Some (s, [])"
| "main_loop c s (it # its) = do {
     (s1, evs1) \<leftarrow> loop_body c s it;
     (s2, evs2) \<leftarrow> main_loop c s1 its;
     Some (s2, evs1 @ evs2) }"

text \<open>A whole run; \<open>t\<close> gives the clock readings of \<open>state_init\<close>.\<close>

definition run_node ::
  "env \<Rightarrow> u64 \<times> u64 \<times> u64 \<Rightarrow> mixnet_node_config \<Rightarrow> iteration list \<Rightarrow> ev list option" where
  "run_node e t c its =
     (case state_init (alloc e) (fst t) (fst (snd t)) (snd (snd t)) c of
        None \<Rightarrow> Some []
      | Some s \<Rightarrow> do {
          let hello = broadcast_stp e c s (- 1);
          (s1, evs) \<leftarrow> main_loop c s its;
          Some (hello @ evs @ snd (state_free s1)) })"

subsection \<open>What a node keeps\<close>

definition node_inv ::
  "(nat \<Rightarrow> mixnet_address) \<Rightarrow> mixnet_node_config \<Rightarrow> node_state \<Rightarrow> bool" where
  "node_inv nbr c s \<longleftrightarrow> wf_state c s \<and> fib_valid c s \<and> stp_inv nbr c s"

text \<open>
  What a node may rely on about a packet: it comes in a proper block, from a port that exists,
  the user's in a block of the maximum size; an STP packet comes from a neighbour, has its full
  size, names that neighbour and claims no distance of 65535.
\<close>

definition legal_packet ::
  "(nat \<Rightarrow> mixnet_address) \<Rightarrow> mixnet_node_config \<Rightarrow> byte \<Rightarrow> buf \<Rightarrow> bool" where
  "legal_packet nbr c port b \<longleftrightarrow>
     pkt_block b \<and> (port = user_port c \<or> unat port < ports c)
     \<and> (port = user_port c \<longrightarrow> MAX_MIXNET_PACKET_SIZE \<le> length b)
     \<and> (rd16 b off_type = type_code PACKET_TYPE_STP \<longrightarrow>
          unat port < ports c \<and> STP_PACKET_SIZE \<le> length b
          \<and> rd16 b off_stp_node = nbr (unat port) \<and> rd16 b off_stp_path_length \<noteq> 65535)"

definition legal_iteration ::
  "(nat \<Rightarrow> mixnet_address) \<Rightarrow> mixnet_node_config \<Rightarrow> iteration \<Rightarrow> bool" where
  "legal_iteration nbr c it \<longleftrightarrow>
     (case received it of None \<Rightarrow> True | Some (port, b) \<Rightarrow> legal_packet nbr c port b)"

text \<open>The outcome every handler has: it returns, keeps the invariant, and accounts for \<open>k\<close> blocks.\<close>

definition handles ::
  "(nat \<Rightarrow> mixnet_address) \<Rightarrow> mixnet_node_config \<Rightarrow> node_state \<Rightarrow> int \<Rightarrow>
   (node_state \<times> ev list) option \<Rightarrow> bool" where
  "handles nbr c s k r \<longleftrightarrow>
     (\<exists>s' evs. r = Some (s', evs) \<and> node_inv nbr c s' \<and> balance evs = int (held s') - int (held s) - k)"

lemma handlesI:
  "r = Some (s', evs) \<Longrightarrow> node_inv nbr c s' \<Longrightarrow>
   balance evs = int (held s') - int (held s) - k \<Longrightarrow> handles nbr c s k r"
  by (auto simp: handles_def)

lemma handlesE:
  assumes "handles nbr c s k r"
  obtains s' evs where "r = Some (s', evs)" "node_inv nbr c s'"
    "balance evs = int (held s') - int (held s) - k"
  using assms by (auto simp: handles_def)

lemma stp_inv_frame:
  assumes "root s' = root s" "path_len s' = path_len s" "next_hop s' = next_hop s"
    "neighbor_addr s' = neighbor_addr s" "blocked s' = blocked s"
  shows "stp_inv nbr c s' = stp_inv nbr c s"
  by (simp add: stp_inv_def assms)

lemma stp_inv_learn_row: "stp_inv nbr c (learn_row ok d s a ls) = stp_inv nbr c s"
  by (rule stp_inv_frame) (simp_all add: state_simps)

lemma held_learn_row [simp]: "held (learn_row ok c s a ls) = held s"
  by (simp add: held_def state_simps)

lemma learn_row_inv: "node_inv nbr c s \<Longrightarrow> node_inv nbr c (learn_row ok c s a ls)"
  using learn_row_keeps by (simp add: node_inv_def stp_inv_learn_row)

lemma fib_valid_frame:
  assumes "topology s' = topology s" "fib s' = fib s"
  shows "fib_valid c s' = fib_valid c s"
proof -
  have "fib_lookup s' = fib_lookup s"
    by (simp add: fib_lookup_def assms fun_eq_iff split: option.split)
  then show ?thesis by (simp add: fib_valid_def assms)
qed

lemma handle_stp_sound:
  assumes inv: "node_inv nbr c s" and net: "neighbors c nbr" and b: "legal_packet nbr c port b"
    and ty: "rd16 b off_type = type_code PACKET_TYPE_STP"
  shows "handles nbr c s 1 (handle_stp e c s port b)"
proof -
  have wf: "wf_state c s" and si: "stp_inv nbr c s" and fv: "fib_valid c s"
    using inv by (simp_all add: node_inv_def)
  have p: "unat port < ports c" "STP_PACKET_SIZE \<le> length b"
    and src: "rd16 b off_stp_node = nbr (unat port)" "rd16 b off_stp_path_length \<noteq> 65535"
    using b ty by (simp_all add: legal_packet_def)
  obtain s' evs where run: "handle_stp e c s port b = Some (s', evs)"
    using handle_stp_defined [OF wf p] by blast
  note f = handle_stp_frame [OF wf run]
  have "held s' = held s" using f by (simp add: held_def)
  moreover have "fib_valid c s'" using f fv fib_valid_frame by metis
  ultimately show ?thesis
    using stp_inv_step [OF wf si net run src] handle_stp_wf [OF wf run] f
    by (intro handlesI [OF run]) (simp_all add: node_inv_def)
qed

lemma handle_flood_sound:
  assumes "node_inv nbr c s" and "legal_packet nbr c port b"
  shows "handles nbr c s 1 (handle_flood e c s port b)"
proof -
  have run: "handle_flood e c s port b = Some (s,
    if port \<noteq> user_port c \<and> blocked s ! unat port then [Free b]
    else concat (map (copy_evs e (wire_copy b)) (tree_ports c s (int (unat port))))
      @ (if port = user_port c then [Free b] else [Send (user_port c) b]))"
    using assms handle_flood_eq by (simp add: node_inv_def legal_packet_def)
  show ?thesis unfolding run using assms(1) by (auto simp: handles_def)
qed

lemma handle_lsa_sound:
  assumes "node_inv nbr c s" and "legal_packet nbr c port b"
  shows "handles nbr c s 1 (handle_lsa e c s port b)"
proof -
  have run: "handle_lsa e c s port b = Some
    (if lsa_accepted c s port b then
       (learn_row (alloc e) c s (rd16 b off_lsa_node) (lsa_links b (unat (rd16 b off_lsa_count))),
        concat (map (copy_evs e (wire_copy b)) (tree_ports c s (int (unat port)))) @ [Free b])
     else (s, [Free b]))"
    using assms handle_lsa_eq by (simp add: node_inv_def legal_packet_def)
  show ?thesis
    unfolding run using assms(1) learn_row_inv by (auto simp: handles_def)
qed

lemma handle_routed_sound:
  assumes inv: "node_inv nbr c s" and b: "legal_packet nbr c port b"
    and ty: "rd16 b off_type = type_code PACKET_TYPE_DATA \<or> rd16 b off_type = type_code PACKET_TYPE_PING"
  shows "handles nbr c s 1 (handle_routed e c s port b)"
proof -
  have pre: "wf_state c s" "fib_valid c s" "pkt_block b"
    "rd16 b off_type = DATA_code \<or> rd16 b off_type = PING_code"
    "port = user_port c \<longrightarrow> MAX_MIXNET_PACKET_SIZE \<le> length b"
    using inv b ty by (simp_all add: node_inv_def legal_packet_def)
  obtain s' evs where run: "handle_routed e c s port b = Some (s', evs)" "wf_state c s'"
    "fib_valid c s'" "s' = s\<lparr>mix := mix s'\<rparr>" "balance evs = int (held s') - int (held s) - 1"
    using handle_routed_keeps [OF pre] by blast
  have "root s' = root s" "path_len s' = path_len s" "next_hop s' = next_hop s"
    "neighbor_addr s' = neighbor_addr s" "blocked s' = blocked s"
    using arg_cong [OF run(4), of root] arg_cong [OF run(4), of path_len]
      arg_cong [OF run(4), of next_hop] arg_cong [OF run(4), of neighbor_addr]
      arg_cong [OF run(4), of blocked]
    by simp_all
  from stp_inv_frame [OF this] have "stp_inv nbr c s'" using inv by (simp add: node_inv_def)
  then have "node_inv nbr c s'" using run(2,3) by (simp add: node_inv_def)
  from handlesI [OF run(1) this run(5)] show ?thesis .
qed

lemma dispatch_sound:
  assumes inv: "node_inv nbr c s" and net: "neighbors c nbr" and b: "legal_packet nbr c port b"
  shows "handles nbr c s 1 (dispatch e c s port b)"
proof -
  have ty: "get16 b off_type = Some (rd16 b off_type)"
    using b by (simp add: legal_packet_def pkt_block_def get16_iff)
  show ?thesis
  proof (cases "type_of_code (rd16 b off_type)")
    case None
    then show ?thesis
      using inv unfolding dispatch_def ty by (simp add: handles_def)
  next
    case (Some k)
    then have k: "rd16 b off_type = type_code k" using type_of_code_Some_iff by blast
    show ?thesis
      unfolding dispatch_def ty bind.bind_lunit Some option.case
      using handle_stp_sound [OF inv net b] handle_flood_sound [OF inv b] handle_lsa_sound [OF inv b]
        handle_routed_sound [OF inv b] k
      by (cases k) simp_all
  qed
qed

subsection \<open>Timers\<close>

lemma tree_timers_sound:
  assumes inv: "node_inv nbr c s" and t: "tree_timers e c s = (s', evs)"
  shows "node_inv nbr c s' \<and> held s' = held s \<and> balance evs = 0"
proof -
  have "stp_inv nbr c s'"
    using inv t
    by (auto simp: node_inv_def tree_timers_def become_root_def unblock_all_def stp_inv_def Let_def
        split: if_splits)
  moreover have "topology s' = topology s" "fib s' = fib s" "mix s' = mix s"
    "neighbor_addr s' = neighbor_addr s" "length (blocked s') = ports c" "balance evs = 0"
    using inv t
    by (auto simp: tree_timers_def become_root_def unblock_all_def Let_def node_inv_def wf_state_def
        split: if_splits)
  ultimately show ?thesis
    using inv fib_valid_frame [of s' s]
    by (auto simp: node_inv_def wf_state_def wf_mix_def held_def)
qed

lemma originate_lsa_sound:
  assumes "node_inv nbr c s"
  shows "handles nbr c s 0 (originate_lsa e c s)"
  unfolding originate_lsa_eq using assms learn_row_inv by (auto simp: handles_def Let_def)

lemma node_inv_lsa_timer: "node_inv nbr c (s\<lparr>lsa_start_ms := t\<rparr>) = node_inv nbr c s"
proof -
  have "stp_inv nbr c (s\<lparr>lsa_start_ms := t\<rparr>) = stp_inv nbr c s" by (rule stp_inv_frame) simp_all
  moreover have "fib_valid c (s\<lparr>lsa_start_ms := t\<rparr>) = fib_valid c s"
    by (rule fib_valid_frame) simp_all
  ultimately show ?thesis by (simp add: node_inv_def wf_state_def wf_mix_def)
qed

lemma check_timers_sound:
  assumes inv: "node_inv nbr c s"
  shows "handles nbr c s 0 (check_timers e c s)"
proof -
  obtain s1 evs where t: "tree_timers e c s = (s1, evs)" by fastforce
  note k = tree_timers_sound [OF inv t]
  show ?thesis
  proof (cases "elapsed (now e) (lsa_start_ms s1) (root_hello_interval_ms c)")
    case False
    with k t show ?thesis by (simp add: handles_def check_timers_def)
  next
    case True
    obtain s2 evs2 where o: "originate_lsa e c s1 = Some (s2, evs2)" "node_inv nbr c s2"
      "balance evs2 = int (held s2) - int (held s1) - 0"
      using originate_lsa_sound [of nbr c s1 e] k by (auto elim: handlesE)
    have "held (s2\<lparr>lsa_start_ms := now e\<rparr>) = held s2" by (simp add: held_def)
    with True k t o show ?thesis
      by (simp add: handles_def check_timers_def node_inv_lsa_timer)
  qed
qed

lemma tree_timers_effect:
  assumes run: "tree_timers e c s = (s', evs)" and mem: "\<And>p. alloc e (Stp_Packet p)"
  shows "let hello = (root s = node_addr c
             \<and> elapsed (now e) (hello_start_ms s) (root_hello_interval_ms c));
           lost = (root s \<noteq> node_addr c
             \<and> elapsed (now e) (reelection_start_ms s) (reelection_interval_ms c))
    in bid s' = (if lost then (node_addr c, 0, INVALID_MIXADDR) else bid s)
       \<and> blocked s' = (if lost then replicate (ports c) False else blocked s)
       \<and> map fst (sent evs) = (if hello \<or> lost then map of_nat [0..<ports c] else [])
       \<and> (\<forall>(q, x) \<in> set (sent evs). announces c s' x)
       \<and> hello_start_ms s' = (if hello \<or> lost then now e else hello_start_ms s)
       \<and> reelection_start_ms s' = (if lost then now e else reelection_start_ms s)
       \<and> neighbor_addr s' = neighbor_addr s \<and> lsa_start_ms s' = lsa_start_ms s
       \<and> topology s' = topology s \<and> fib s' = fib s \<and> mix s' = mix s"
proof -
  have all: "filter (\<lambda>p. int p \<noteq> - 1) [0..<ports c] = [0..<ports c]" by (simp add: filter_id_conv)
  have ann: "announces c s' x" if "(q, x) \<in> set (sent evs)" for q x
  proof -
    have "\<exists>s1. announces c s1 x \<and> root s1 = root s' \<and> path_len s1 = path_len s'"
      using run that broadcast_stp_announces
      by (fastforce simp: tree_timers_def become_root_def unblock_all_def Let_def split: if_splits)
    then show ?thesis by (auto simp: announces_def)
  qed
  consider "root s = node_addr c" | "root s \<noteq> node_addr c" by blast
  then show ?thesis
    using run ann sent_broadcast_ports [where c = c and ex = "- 1", OF mem, unfolded all]
    by cases (auto simp: tree_timers_def become_root_def unblock_all_def bid_def Let_def
        split: if_splits)
qed

text \<open>
  C40. The timers, whichever of them have run out. A root that has been silent for the hello
  interval announces itself on every port; a node that is not the root and has had no sign of
  life of its root for the re-election interval becomes the root of a tree of depth 0, reopens
  every port and announces that. When the hello interval has passed since its last
  advertisement, a node that knows all its neighbours then puts its own links in its own row and
  sends them on every port open by then, one that does not neither changes nor sends anything;
  either way that timer starts again. Each timer restarts only when it fired, nothing else is
  sent, nothing else changes. (Allocations succeed, the advertisement fits a packet and the
  network has at most 32768 addresses.)
\<close>

theorem check_timers_effect:
  assumes inv: "node_inv nbr c s" and mem: "\<And>x. alloc e x" and size: "ports c \<le> 1020"
    and room: "card (set (addrs (topology s)) \<union> set (neighbor_addr s) \<union> {node_addr c}) \<le> 32768"
  shows "\<exists>s' tree lsa. check_timers e c s = Some (s', tree @ lsa) \<and>
    (let hello = (root s = node_addr c
             \<and> elapsed (now e) (hello_start_ms s) (root_hello_interval_ms c));
         lost = (root s \<noteq> node_addr c
             \<and> elapsed (now e) (reelection_start_ms s) (reelection_interval_ms c));
         due = elapsed (now e) (lsa_start_ms s) (root_hello_interval_ms c);
         tells = (due \<and> neighbors_known c s)
     in bid s' = (if lost then (node_addr c, 0, INVALID_MIXADDR) else bid s)
       \<and> blocked s' = (if lost then replicate (ports c) False else blocked s)
       \<and> map fst (sent tree) = (if hello \<or> lost then map of_nat [0..<ports c] else [])
       \<and> (\<forall>(q, x) \<in> set (sent tree). announces c s' x)
       \<and> hello_start_ms s' = (if hello \<or> lost then now e else hello_start_ms s)
       \<and> reelection_start_ms s' = (if lost then now e else reelection_start_ms s)
       \<and> rows (topology s') = (if tells then (rows (topology s))(node_addr c \<mapsto> own_links c s)
           else rows (topology s))
       \<and> map fst (sent lsa) = (if tells then map of_nat (filter (\<lambda>p. \<not> blocked s' ! p) [0..<ports c]) else [])
       \<and> (\<forall>(q, x) \<in> set (sent lsa). pkt_type x = type_code PACKET_TYPE_LSA
           \<and> length x = LSA_PACKET_SIZE (ports c) \<and> rd16 x off_lsa_node = node_addr c
           \<and> rd16 x off_lsa_count = num_neighbors c \<and> lsa_links x (ports c) = own_links c s)
       \<and> lsa_start_ms s' = (if due then now e else lsa_start_ms s)
       \<and> (\<not> tells \<longrightarrow> topology s' = topology s \<and> fib s' = fib s)
       \<and> neighbor_addr s' = neighbor_addr s \<and> mix s' = mix s)"
proof -
  obtain s1 tree where t: "tree_timers e c s = (s1, tree)" by fastforce
  note eff = tree_timers_effect [OF t mem]
  have f: "neighbor_addr s1 = neighbor_addr s" "lsa_start_ms s1 = lsa_start_ms s" "topology s1 = topology s"
    "fib s1 = fib s" "mix s1 = mix s"
    using eff by (simp_all add: Let_def)
  have known: "neighbors_known c s1 = neighbors_known c s" "own_links c s1 = own_links c s"
    by (simp_all add: neighbors_known_def own_links_def f)
  have "node_inv nbr c s1" using tree_timers_sound [OF inv t] by simp
  then have i: "wf_state c s1" "fib_valid c s1" by (simp_all add: node_inv_def)
  obtain s2 lsa where o: "originate_lsa e c s1 = Some (s2, lsa)"
    and l: "rows (topology s2) = (if neighbors_known c s then (rows (topology s))(node_addr c \<mapsto> own_links c s)
        else rows (topology s))"
      "map fst (sent lsa) = (if neighbors_known c s
        then map of_nat (filter (\<lambda>p. \<not> blocked s1 ! p) [0..<ports c]) else [])"
      "\<forall>(q, x) \<in> set (sent lsa). pkt_type x = type_code PACKET_TYPE_LSA
        \<and> length x = LSA_PACKET_SIZE (ports c) \<and> rd16 x off_lsa_node = node_addr c
        \<and> rd16 x off_lsa_count = num_neighbors c \<and> lsa_links x (ports c) = own_links c s"
    using originate_lsa_effect [OF i size mem] room unfolding f known by blast
  note s2 = originate_lsa_frame [OF o]
  have g: "root s2 = root s1" "path_len s2 = path_len s1" "next_hop s2 = next_hop s1"
    "neighbor_addr s2 = neighbor_addr s1" "blocked s2 = blocked s1" "hello_start_ms s2 = hello_start_ms s1"
    "reelection_start_ms s2 = reelection_start_ms s1" "mix s2 = mix s1"
    by (subst s2, simp)+
  have same: "s2 = s1" if "\<not> neighbors_known c s" using o that by (simp add: originate_lsa_eq known)
  show ?thesis
  proof (cases "elapsed (now e) (lsa_start_ms s) (root_hello_interval_ms c)")
    case False
    then have "check_timers e c s = Some (s1, tree @ [])" using t f(2) by (simp add: check_timers_def)
    then show ?thesis
      using eff False by (intro exI [of _ s1] exI [of _ tree] exI [of _ "[]"]) (simp add: Let_def)
  next
    case True
    then have run: "check_timers e c s = Some (s2\<lparr>lsa_start_ms := now e\<rparr>, tree @ lsa)"
      using t f(2) o by (simp add: check_timers_def)
    have "bid (s2\<lparr>lsa_start_ms := now e\<rparr>) = bid s1" "announces c (s2\<lparr>lsa_start_ms := now e\<rparr>) = announces c s1"
      by (simp_all add: bid_def announces_def fun_eq_iff g)
    then show ?thesis
      using eff True l same f
      by (intro exI [of _ "s2\<lparr>lsa_start_ms := now e\<rparr>"] exI [of _ tree] exI [of _ lsa]) (simp add: Let_def g run)
  qed
qed

subsection \<open>The life of a node\<close>

lemma state_init_inv:
  assumes "state_init ok t1 t2 t3 c = Some s"
  shows "node_inv nbr c s \<and> held s = 0"
proof -
  have "fib s = []" using assms by (auto simp: state_init_def split: if_splits)
  then have "fib_lookup s dst = None" for dst by (intro nothing_reachable) simp
  moreover have "held s = 0" using assms by (auto simp: state_init_def held_def split: if_splits)
  ultimately show ?thesis
    using wf_state_init [OF assms] stp_inv_init [OF assms]
    by (simp add: node_inv_def fib_valid_def)
qed

definition arrivals :: "iteration list \<Rightarrow> nat" where
  "arrivals its = length (filter (\<lambda>it. received it \<noteq> None) its)"

lemma loop_body_sound:
  assumes inv: "node_inv nbr c s" and net: "neighbors c nbr" and it: "legal_iteration nbr c it"
  shows "handles nbr c s (int (arrivals [it])) (loop_body c s it)"
proof -
  define r where "r = (case received it of None \<Rightarrow> Some (s, [])
      | Some (port, packet) \<Rightarrow> dispatch (handler_env it) c s port packet)"
  have "handles nbr c s (int (arrivals [it])) r"
  proof (cases "received it")
    case None
    then show ?thesis using inv by (simp add: r_def arrivals_def handles_def)
  next
    case (Some pb)
    then show ?thesis
      using dispatch_sound [OF inv net, of "fst pb" "snd pb"] it
      by (cases pb) (simp add: r_def arrivals_def legal_iteration_def)
  qed
  then obtain s1 evs1 where 1: "r = Some (s1, evs1)" "node_inv nbr c s1"
    "balance evs1 = int (held s1) - int (held s) - int (arrivals [it])" by (elim handlesE)
  obtain s2 evs2 where 2: "check_timers (timer_env it) c s1 = Some (s2, evs2)" "node_inv nbr c s2"
    "balance evs2 = int (held s2) - int (held s1) - 0"
    using check_timers_sound [OF 1(2), of "timer_env it"] by (elim handlesE)
  have "loop_body c s it = Some (s2, evs1 @ evs2)"
    using 1(1) 2(1) unfolding loop_body_def r_def by simp
  from handlesI [OF this 2(2)] 1(3) 2(3) show ?thesis by simp
qed

lemma main_loop_sound:
  assumes "node_inv nbr c s" and "neighbors c nbr" and "\<forall>it \<in> set its. legal_iteration nbr c it"
  shows "handles nbr c s (int (arrivals its)) (main_loop c s its)"
  using assms
proof (induction its arbitrary: s)
  case Nil
  then show ?case by (simp add: handles_def arrivals_def)
next
  case (Cons it its)
  have "legal_iteration nbr c it" "\<forall>it \<in> set its. legal_iteration nbr c it"
    using Cons.prems(3) by simp_all
  note legal = this
  obtain s1 evs1 where 1: "loop_body c s it = Some (s1, evs1)" "node_inv nbr c s1"
    "balance evs1 = int (held s1) - int (held s) - int (arrivals [it])"
    using loop_body_sound [OF Cons.prems(1,2) legal(1)] by (elim handlesE)
  obtain s2 evs2 where 2: "main_loop c s1 its = Some (s2, evs2)" "node_inv nbr c s2"
    "balance evs2 = int (held s2) - int (held s1) - int (arrivals its)"
    using Cons.IH [OF 1(2) Cons.prems(2) legal(2)] by (elim handlesE)
  have "arrivals (it # its) = arrivals [it] + arrivals its" by (simp add: arrivals_def)
  then show ?case using 1 2 by (simp add: handles_def)
qed

text \<open>The states a node can be in between two iterations.\<close>

inductive reachable_state ::
  "(nat \<Rightarrow> mixnet_address) \<Rightarrow> mixnet_node_config \<Rightarrow> node_state \<Rightarrow> bool"
  for nbr :: "nat \<Rightarrow> mixnet_address" and c :: mixnet_node_config where
  start: "state_init ok t1 t2 t3 c = Some s \<Longrightarrow> reachable_state nbr c s"
| iterate: "reachable_state nbr c s \<Longrightarrow> legal_iteration nbr c it \<Longrightarrow>
    loop_body c s it = Some (s', evs) \<Longrightarrow> reachable_state nbr c s'"

lemma reachable_inv:
  assumes net: "neighbors c nbr" and "reachable_state nbr c s"
  shows "node_inv nbr c s"
  using assms(2)
proof (induction rule: reachable_state.induct)
  case start
  then show ?case using state_init_inv by blast
next
  case (iterate s it s' evs)
  then show ?case using loop_body_sound [OF _ net] by (metis option.inject prod.inject handlesE)
qed

text \<open>
  C8. In every state a node can reach, in whatever order packets arrive, timers fire and
  allocations fail: its arrays, topology, table and mixing buffer are well formed; every table
  entry is a least route of its topology; its root is at most its own address, its parent is a
  neighbour behind an open port unless it is the root itself; and its next iteration, whatever
  legal packet it meets, returns without leaving an array.
\<close>

theorem reachable_state_sound:
  assumes "neighbors c nbr" and "reachable_state nbr c s"
  shows "wf_state c s \<and> fib_valid c s \<and> stp_inv nbr c s
    \<and> (\<forall>it. legal_iteration nbr c it \<longrightarrow> loop_body c s it \<noteq> None)"
  using reachable_inv [OF assms] loop_body_sound [OF reachable_inv [OF assms] assms(1)]
  by (fastforce simp: node_inv_def elim: handlesE)

subsection \<open>An example\<close>

text \<open>The node hears the bid of node 3, a second after its start.\<close>

definition later_env :: env where
  "later_env = calm_env\<lparr>now := 2000\<rparr>"

definition bid_iteration :: iteration where
  "bid_iteration = \<lparr>received = Some (0, example_bid), handler_env = calm_env, timer_env = later_env\<rparr>"

lemma bid_iteration_legal:
  "legal_iteration example_nbr example_config bid_iteration" "arrivals [bid_iteration] = 1"
proof -
  have "pkt_block example_bid" "rd16 example_bid 2 = 0" by (code_simp, code_simp)
  then show "legal_iteration example_nbr example_config bid_iteration"
    "arrivals [bid_iteration] = 1"
    by (simp_all add: legal_iteration_def legal_packet_def bid_iteration_def example_bid_fields
        example_nbr_def user_port_def arrivals_def)
qed

text \<open>A root that knows its neighbours.\<close>

definition eager_state :: node_state where
  "eager_state = idle_state\<lparr>neighbor_addr := [3, 2]\<rparr>"

lemma eager_facts:
  "neighbor_addr eager_state = [3, 2]" "blocked eager_state = [False, False]" "root eager_state = 1"
  "hello_start_ms eager_state = 0" "lsa_start_ms eager_state = 0" "now later_env = 2000"
  "root_hello_interval_ms example_config = 2000" "elapsed 2000 0 2000" "topology eager_state = empty_graph"
  "neighbors_known example_config eager_state" "alloc later_env x"
proof -
  show "elapsed 2000 0 2000" "neighbors_known example_config eager_state" by (code_simp, code_simp)
qed (simp_all add: eager_state_def idle_state_def later_env_def example_config_def)

lemma eager_inv: "node_inv example_nbr example_config eager_state"
  using state_init_inv [OF idle_state_init, of example_nbr] fib_valid_frame [of eager_state idle_state]
  by (auto simp: node_inv_def wf_state_def wf_mix_def stp_inv_def idle_state_def eager_state_def example_nbr_def
      less_Suc_eq numeral_2_eq_2)

theorem check_timers_effect_witness:
  "\<exists>s' tree lsa. check_timers later_env example_config eager_state = Some (s', tree @ lsa)
    \<and> map fst (sent tree) = [0, 1] \<and> map fst (sent lsa) = [0, 1] \<and> hello_start_ms s' = 2000 \<and> lsa_start_ms s' = 2000"
proof -
  have size: "ports example_config \<le> 1020" by simp
  have room: "card (set (addrs (topology eager_state)) \<union> set (neighbor_addr eager_state) \<union> {node_addr example_config}) \<le> 32768"
    by (simp add: eager_facts empty_graph_def addrs_def card_insert_if)
  from check_timers_effect [OF eager_inv eager_facts(11) size room] show ?thesis
    unfolding Let_def by (elim ex_forward) (auto simp: eager_facts upt_rec)
qed

theorem reachable_state_sound_witness:
  "loop_body example_config idle_state bid_iteration \<noteq> None"
  using reachable_state_sound [OF example_neighbors(1) reachable_state.start [OF idle_state_init]]
    bid_iteration_legal(1)
  by blast

end
