(* ===== verification/Conduct.thy ===== *)
theory Conduct
  imports Node Node_Context
begin

text \<open>
  What a node says. The handlers of \<open>mixnet/node.c\<close> seen from their neighbours: every packet a node
  sends has a shape the framework can check and, where it speaks about the network, tells the
  truth -- an STP packet names its sender, an advertisement lists links that \<open>L\<close> vouches for -- as
  long as the packets it receives do. Nothing here models code of its own.
\<close>

subsection \<open>Proper packets\<close>

text \<open>\<open>L a ls\<close>: the node with address \<open>a\<close> may be said to have the links \<open>ls\<close>.\<close>

type_synonym claims = "mixnet_address \<Rightarrow> mixnet_lsa_link_params list \<Rightarrow> bool"

definition covers_links :: "buf \<Rightarrow> bool" where
  "covers_links b \<longleftrightarrow> LSA_PACKET_SIZE (unat (rd16 b off_lsa_count)) \<le> length b"

definition proper :: "claims \<Rightarrow> mixnet_address \<Rightarrow> buf \<Rightarrow> bool" where
  "proper L me b \<longleftrightarrow> readable b \<and>
     (pkt_type b = type_code PACKET_TYPE_STP \<longrightarrow> STP_PACKET_SIZE \<le> length b \<and> rd16 b off_stp_node = me) \<and>
     (pkt_type b = type_code PACKET_TYPE_LSA \<and> covers_links b \<longrightarrow>
        L (rd16 b off_lsa_node) (lsa_links b (unat (rd16 b off_lsa_count))))"

definition in_transit :: "buf \<Rightarrow> bool" where
  "in_transit b \<longleftrightarrow> readable b \<and> (pkt_type b = DATA_code \<or> pkt_type b = PING_code)"

lemma in_transit_proper: "in_transit b \<Longrightarrow> proper L me b"
  by (auto simp: in_transit_def proper_def)

definition slots :: "node_state \<Rightarrow> mix_slot list" where
  "slots s = (case mix s of None \<Rightarrow> [] | Some q \<Rightarrow> q)"

text \<open>
  A node that is well formed, holds back only packets in transit, has its neighbours' addresses
  right as far as it knows them, and believes only rows that are vouched for.
\<close>

definition honest_state ::
  "claims \<Rightarrow> (nat \<Rightarrow> mixnet_address) \<Rightarrow> mixnet_node_config \<Rightarrow> node_state \<Rightarrow> bool" where
  "honest_state L nbr c s \<longleftrightarrow> wf_state c s \<and> fib_valid c s \<and>
     (\<forall>m \<in> set (slots s). in_transit (slot_packet m)) \<and>
     (\<forall>p < ports c. neighbor_addr s ! p = INVALID_MIXADDR \<or> neighbor_addr s ! p = nbr p) \<and>
     (\<forall>a ls. rows (topology s) a = Some ls \<longrightarrow> L a ls)"

text \<open>What the framework delivers: from the user, or from a neighbour that is proper itself.\<close>

definition acceptable ::
  "claims \<Rightarrow> (nat \<Rightarrow> mixnet_address) \<Rightarrow> mixnet_node_config \<Rightarrow> byte \<Rightarrow> buf \<Rightarrow> bool" where
  "acceptable L nbr c port b \<longleftrightarrow> MIN_MIXNET_PACKET_SIZE \<le> frame_len b \<and>
     (if port = user_port c
      then pkt_block b \<and> MAX_MIXNET_PACKET_SIZE \<le> length b \<and> pkt_type b \<noteq> type_code PACKET_TYPE_STP
      else unat port < ports c \<and> proper L (nbr (unat port)) b)"

definition all_sent :: "(buf \<Rightarrow> bool) \<Rightarrow> ev list \<Rightarrow> bool" where
  "all_sent P evs \<longleftrightarrow> (\<forall>x \<in> set (sent evs). P (snd x))"

definition conducts ::
  "claims \<Rightarrow> (nat \<Rightarrow> mixnet_address) \<Rightarrow> mixnet_node_config \<Rightarrow> node_state \<Rightarrow>
   (node_state \<times> ev list) option \<Rightarrow> bool" where
  "conducts L nbr c s r \<longleftrightarrow> (\<exists>s' evs. r = Some (s', evs) \<and> honest_state L nbr c s' \<and>
     (neighbors_known c s \<longrightarrow> neighbors_known c s') \<and> all_sent (proper L (node_addr c)) evs)"

lemma conductsI:
  "r = Some (s', evs) \<Longrightarrow> honest_state L nbr c s' \<Longrightarrow> (neighbors_known c s \<Longrightarrow> neighbors_known c s') \<Longrightarrow>
   all_sent (proper L (node_addr c)) evs \<Longrightarrow> conducts L nbr c s r"
  by (auto simp: conducts_def)

lemma conductsE:
  assumes "conducts L nbr c s r"
  obtains s' evs where "r = Some (s', evs)" "honest_state L nbr c s'"
    "neighbors_known c s \<longrightarrow> neighbors_known c s'" "all_sent (proper L (node_addr c)) evs"
  using assms by (auto simp: conducts_def)

lemma all_sent_simps [simp]:
  "all_sent P []" "all_sent P (Alloc b # evs) = all_sent P evs" "all_sent P (Free b # evs) = all_sent P evs"
  "all_sent P (Send p b # evs) \<longleftrightarrow> P b \<and> all_sent P evs"
  "all_sent P (xs @ ys) \<longleftrightarrow> all_sent P xs \<and> all_sent P ys"
  by (auto simp: all_sent_def)

lemma all_sent_copies: "P x \<Longrightarrow> all_sent P (concat (map (copy_evs e x) ps))"
  using sent_copy_evs_subset [of e x ps] by (auto simp: all_sent_def)

lemma proper_mono:
  "proper L me b \<Longrightarrow> (\<And>a ls. L a ls \<Longrightarrow> L' a ls) \<Longrightarrow> proper L' me b"
  by (auto simp: proper_def)

lemma honest_state_mono:
  "honest_state L nbr c s \<Longrightarrow> (\<And>a ls. L a ls \<Longrightarrow> L' a ls) \<Longrightarrow> honest_state L' nbr c s"
  by (auto simp: honest_state_def)

lemma acceptable_mono:
  "acceptable L nbr c port b \<Longrightarrow> (\<And>a ls. L a ls \<Longrightarrow> L' a ls) \<Longrightarrow> acceptable L' nbr c port b"
  using proper_mono by (auto simp: acceptable_def)

lemma acceptable_block:
  assumes "acceptable L nbr c port b"
  shows "pkt_block b" "readable b" "port = user_port c \<or> unat port < ports c"
    "12 \<le> unat (pkt_total_size b)"
proof -
  have "pkt_block b \<and> readable b \<and> (port = user_port c \<or> unat port < ports c)"
    using assms by (auto simp: acceptable_def proper_def readable_def split: if_splits)
  then show "pkt_block b" "readable b" "port = user_port c \<or> unat port < ports c" by auto
  show "12 \<le> unat (pkt_total_size b)"
    using assms by (simp add: acceptable_def frame_len_def pkt_total_size_def)
qed

text \<open>A copy of the declared bytes is as proper as the packet, if they cover what it speaks about.\<close>

lemma wire_copy_reads:
  assumes "pkt_block b"
  shows "length (wire_copy b) = unat (pkt_total_size b)"
    and "off + 2 \<le> unat (pkt_total_size b) \<Longrightarrow> rd16 (wire_copy b) off = rd16 b off"
  using assms by (simp_all add: wire_copy_def pkt_block_def)

subsection \<open>The handlers\<close>

lemma honest_frame:
  assumes "honest_state L nbr c s" and "wf_state c s'" and "fib_valid c s'"
    and "mix s' = mix s" "neighbor_addr s' = neighbor_addr s" "topology s' = topology s"
  shows "honest_state L nbr c s'"
  using assms by (simp add: honest_state_def slots_def)

lemma known_frame: "neighbor_addr s' = neighbor_addr s \<Longrightarrow> neighbors_known c s' = neighbors_known c s"
  by (simp add: neighbors_known_def)

lemma stp_packet_proper: "make_stp_packet e ok c s = Some b \<Longrightarrow> proper L (node_addr c) b"
  using make_stp_packet_fields [of e ok c s b]
  by (simp add: proper_def readable_def pkt_block_def)

lemma broadcast_stp_proper: "all_sent (proper L (node_addr c)) (broadcast_stp e c s ex)"
  using sent_broadcast_stp [of _ _ e c s ex] stp_packet_proper by (fastforce simp: all_sent_def)

lemma learn_row_honest:
  assumes h: "honest_state L nbr c s" and l: "L a ls"
  shows "honest_state L nbr c (learn_row ok c s a ls)"
proof -
  have wf: "wf_state c s" "fib_valid c s" using h by (simp_all add: honest_state_def)
  obtain g ch where upd: "graph_update ok (topology s) a ls = (g, ch)" by fastforce
  have "rows g = rows (topology s) \<or> rows g = (rows (topology s))(a \<mapsto> ls)"
    using wf_stateD(3) [OF wf(1)] upd by (auto elim: graph_update_cases)
  then show ?thesis
    using h l learn_row_keeps [OF wf, of ok a ls] upd
    by (auto simp: honest_state_def slots_def state_simps split: if_splits)
qed

lemma handle_stp_sends:
  assumes "handle_stp e c s port b = Some (s', evs)"
  shows "all_sent (proper L (node_addr c)) evs"
  using assms broadcast_stp_proper
  by (auto simp: handle_stp_def stp_chain_def Let_def bind_eq_Some_conv split: if_splits)

lemma handle_stp_conducts:
  assumes h: "honest_state L nbr c s" and b: "acceptable L nbr c port b" and net: "neighbors c nbr"
    and ty: "pkt_type b = type_code PACKET_TYPE_STP"
  shows "conducts L nbr c s (handle_stp e c s port b)"
proof -
  have wf: "wf_state c s" "fib_valid c s" using h by (simp_all add: honest_state_def)
  have p: "unat port < ports c" "STP_PACKET_SIZE \<le> length b" "rd16 b off_stp_node = nbr (unat port)"
    using b ty by (auto simp: acceptable_def proper_def split: if_splits)
  obtain s' evs where run: "handle_stp e c s port b = Some (s', evs)"
    using handle_stp_defined [OF wf(1) p(1,2)] by blast
  note f = handle_stp_frame [OF wf(1) run]
  have addrs: "neighbor_addr s' = (neighbor_addr s)[unat port := nbr (unat port)]" using f p(3) by simp
  have same: "mix s' = mix s" "topology s' = topology s" "fib s' = fib s" using f by simp_all
  have l: "length (neighbor_addr s) = ports c" by (rule wf_stateD(1) [OF wf(1)])
  have "nbr (unat port) \<noteq> INVALID_MIXADDR" using net p(1) by (simp add: neighbors_def)
  moreover have at: "neighbor_addr s' ! q = (if unat port = q then nbr q else neighbor_addr s ! q)" for q
    using l p(1) by (simp add: addrs nth_list_update)
  ultimately have "neighbors_known c s \<Longrightarrow> neighbors_known c s'"
    by (simp add: neighbors_known_def)
  moreover have "honest_state L nbr c s'"
    using h same handle_stp_wf [OF wf(1) run] fib_valid_frame [of s' s c]
    by (simp add: honest_state_def slots_def at)
  ultimately show ?thesis using conductsI [OF run] handle_stp_sends [OF run] by blast
qed

lemma handle_flood_conducts:
  assumes h: "honest_state L nbr c s" and b: "acceptable L nbr c port b"
    and ty: "pkt_type b = type_code PACKET_TYPE_FLOOD"
  shows "conducts L nbr c s (handle_flood e c s port b)"
proof -
  have wf: "wf_state c s" using h by (simp add: honest_state_def)
  note blk = acceptable_block [OF b]
  have own: "proper L (node_addr c) b" using blk(2) ty by (simp add: proper_def)
  note w = wire_copy_reads [OF blk(1)]
  have "pkt_type (wire_copy b) = type_code PACKET_TYPE_FLOOD" "pkt_total_size (wire_copy b) = pkt_total_size b"
    using blk(4) w ty by (simp_all add: pkt_type_def pkt_total_size_def)
  then have "proper L (node_addr c) (wire_copy b)"
    using blk(4) w(1) by (simp add: proper_def readable_def pkt_block_def)
  then have "all_sent (proper L (node_addr c)) (concat (map (copy_evs e (wire_copy b)) ps))" for ps
    by (rule all_sent_copies)
  then show ?thesis
    using handle_flood_eq [OF wf blk(1,3), of e] h own by (intro conductsI) auto
qed

lemma lsa_links_copy:
  assumes "pkt_block b" and "LSA_PACKET_SIZE n \<le> unat (pkt_total_size b)"
  shows "lsa_links (wire_copy b) n = lsa_links b n"
  using assms unfolding wire_copy_def by (intro lsa_links_take)

lemma lsa_copy_proper:
  assumes b: "pkt_block b" and n: "LSA_PACKET_SIZE (unat (rd16 b off_lsa_count)) \<le> unat (pkt_total_size b)"
    and ty: "pkt_type b = type_code PACKET_TYPE_LSA"
    and l: "L (rd16 b off_lsa_node) (lsa_links b (unat (rd16 b off_lsa_count)))"
  shows "proper L me (wire_copy b)"
proof -
  note w = wire_copy_reads [OF b]
  have "pkt_type (wire_copy b) = type_code PACKET_TYPE_LSA" "pkt_total_size (wire_copy b) = pkt_total_size b"
    "rd16 (wire_copy b) off_lsa_node = rd16 b off_lsa_node" "rd16 (wire_copy b) off_lsa_count = rd16 b off_lsa_count"
    using n w ty by (simp_all add: pkt_type_def pkt_total_size_def)
  then show ?thesis
    using n w(1) l lsa_links_copy [OF b n] by (simp add: proper_def readable_def pkt_block_def)
qed

lemma handle_lsa_conducts:
  assumes h: "honest_state L nbr c s" and b: "acceptable L nbr c port b"
    and ty: "pkt_type b = type_code PACKET_TYPE_LSA"
  shows "conducts L nbr c s (handle_lsa e c s port b)"
proof -
  have wf: "wf_state c s" using h by (simp add: honest_state_def)
  note blk = acceptable_block [OF b]
  note run = handle_lsa_eq [OF wf blk(1,3), of e]
  show ?thesis
  proof (cases "lsa_accepted c s port b")
    case False
    then have "handle_lsa e c s port b = Some (s, [Free b])" using run by simp
    then show ?thesis using h by (intro conductsI) auto
  next
    case True
    let ?n = "unat (rd16 b off_lsa_count)"
    have n: "LSA_PACKET_SIZE ?n \<le> unat (pkt_total_size b)" and "port \<noteq> user_port c"
      using True by (simp_all add: lsa_accepted_def)
    then have "proper L (nbr (unat port)) b" "covers_links b"
      using b blk(1) by (simp_all add: acceptable_def pkt_block_def covers_links_def)
    then have l: "L (rd16 b off_lsa_node) (lsa_links b ?n)" using ty by (simp add: proper_def)
    then have "proper L (node_addr c) (wire_copy b)" using lsa_copy_proper [OF blk(1) n ty] by blast
    then have "all_sent (proper L (node_addr c)) (concat (map (copy_evs e (wire_copy b)) ps))" for ps
      by (rule all_sent_copies)
    moreover have taken: "handle_lsa e c s port b = Some (learn_row (alloc e) c s (rd16 b off_lsa_node) (lsa_links b ?n),
        concat (map (copy_evs e (wire_copy b)) (tree_ports c s (int (unat port)))) @ [Free b])"
      using True run by simp
    ultimately show ?thesis
      using learn_row_honest [OF h l]
      by (intro conductsI [OF taken]) (simp_all add: neighbors_known_def state_simps)
  qed
qed

subsection \<open>Routed packets\<close>

lemma sent_from_slots:
  "all_sent P (concat (map (\<lambda>m. send_packet (unat (slot_port m)) (slot_packet m)) ms)) \<longleftrightarrow>
    (\<forall>m \<in> set ms. P (slot_packet m))" for ms :: "mix_slot list"
  unfolding all_sent_def sent_batch by (simp add: slot_send_def)

lemma send_to_next_hop_conducts:
  assumes h: "honest_state L nbr c s" and x: "in_transit x" and hop: "rh_next_hop x \<noteq> None"
  shows "conducts L nbr c s (send_to_next_hop c s x)"
proof -
  have wf: "wf_state c s" "fib_valid c s" "wf_mix c s" using h by (simp_all add: honest_state_def wf_state_def)
  obtain s' evs where run: "send_to_next_hop c s x = Some (s', evs)" "wf_state c s'" "fib_valid c s'"
    "s' = s\<lparr>mix := mix s'\<rparr>"
    using send_kept [OF wf(1,2) hop] by blast
  have same: "neighbor_addr s' = neighbor_addr s" "topology s' = topology s"
    using arg_cong [OF run(4), of neighbor_addr] arg_cong [OF run(4), of topology] by simp_all
  have held: "m \<in> set (slots s) \<Longrightarrow> in_transit (slot_packet m)" for m
    using h by (simp add: honest_state_def)
  have slot: "in_transit (slot_packet m)" if "hop_slot c s x = Some m" for m
    using that x by (auto simp: hop_slot_def bind_eq_Some_conv)
  have put: "y \<in> set (fst (mix_put c q m)) \<Longrightarrow> y = m \<or> y \<in> set q"
    "y \<in> set (snd (mix_put c q m)) \<Longrightarrow> y = m \<or> y \<in> set q" for q m y
    by (auto simp: mix_put_def Let_def split: if_splits)
  have "(\<forall>m \<in> set (slots s'). in_transit (slot_packet m)) \<and> all_sent in_transit evs"
    using run(1) held slot x unfolding send_to_next_hop_eq [OF wf(3) hop]
    by (auto simp: slots_def sent_from_slots split: option.splits dest!: put)
  moreover have "all_sent in_transit evs \<Longrightarrow> all_sent (proper L (node_addr c)) evs"
    using in_transit_proper by (auto simp: all_sent_def)
  ultimately show ?thesis
    using h run(2,3) same by (intro conductsI [OF run(1)]) (auto simp: honest_state_def neighbors_known_def)
qed

lemma in_transitI:
  "pkt_block x \<Longrightarrow> rd16 x off_type = DATA_code \<or> rd16 x off_type = PING_code \<Longrightarrow> 18 \<le> length x \<Longrightarrow> in_transit x"
  by (auto simp: in_transit_def readable_def pkt_type_def)

lemma sourced_in_transit:
  assumes "sourced e b hops x" and "rd16 b off_type = DATA_code \<or> rd16 b off_type = PING_code"
  shows "in_transit x"
proof (rule in_transitI)
  show "pkt_block x" "rd16 x off_type = DATA_code \<or> rd16 x off_type = PING_code"
    using assms by (simp_all add: sourced_def)
  have "20 \<le> unat (pkt_total_size x)" using assms(1) by (simp add: sourced_def split: if_splits)
  with \<open>pkt_block x\<close> show "18 \<le> length x" by (simp add: pkt_block_def)
qed

lemma conducts_more:
  assumes "conducts L nbr c s (Some (s', evs))" and "all_sent (proper L (node_addr c)) pre"
    and "all_sent (proper L (node_addr c)) post"
  shows "conducts L nbr c s (Some (s', pre @ evs @ post))"
  using assms by (auto simp: conducts_def)

lemma handle_routed_conducts:
  assumes h: "honest_state L nbr c s" and b: "acceptable L nbr c port b"
    and ty: "rd16 b off_type = DATA_code \<or> rd16 b off_type = PING_code"
  shows "conducts L nbr c s (handle_routed e c s port b)"
proof -
  have wf: "wf_state c s" "fib_valid c s" using h by (simp_all add: honest_state_def)
  note blk = acceptable_block [OF b]
  have drop: "conducts L nbr c s (Some (s, [Free b]))" using h by (auto simp: conducts_def)
  show ?thesis
  proof (cases "port = user_port c")
    case port: True
    note run = handle_routed_from_user [OF blk(1) port, of e s]
    show ?thesis
    proof (cases "off_rh_route (unat (rd16 b off_rh_route_length)) \<le> unat (pkt_total_size b)")
      case False
      then show ?thesis using run drop by simp
    next
      case True
      then have req: "user_request b" using b blk(1) ty port by (simp add: acceptable_def user_request_def)
      from wf req show ?thesis
      proof (cases rule: source_route_cases [where e = e])
        case drop
        then show ?thesis using run True \<open>conducts L nbr c s (Some (s, [Free b]))\<close> by simp
      next
        case (send path x)
        then show ?thesis
          using run True send_to_next_hop_conducts [OF h sourced_in_transit [OF send(2) ty] send(3)] by simp
      qed
    qed
  next
    case port: False
    note run = handle_routed_from_neighbor [OF blk(1) port, of e s]
    show ?thesis
    proof (cases "well_formed_routed b")
      case False
      then show ?thesis using run drop by simp
    next
      case True
      then have len: "20 + 2 * unat (rd16 b off_rh_route_length) \<le> length b"
        by (rule well_formed_routed_block [OF blk(1)])
      then have it: "in_transit b" using blk(1) ty by (intro in_transitI) auto
      note up = in_transit_proper [OF it, of L "node_addr c"]
      show ?thesis
      proof (cases "rd16 b off_rh_dst = node_addr c")
        case here: True
        show ?thesis
        proof (cases "wants_reply b \<and> alloc e Ping_Reply")
          case reply: True
          then have "ping_packet b" using blk(1) True by (simp add: ping_packet_def wants_reply_def well_formed_routed_def)
          then obtain x where x: "make_ping_reply True b = Some (Some x)" "reply_to b x"
            using make_ping_reply_replies [of b True] by auto
          then have "in_transit x" by (intro in_transitI) (auto simp: reply_to_def ping_packet_def pkt_block_def)
          from send_to_next_hop_conducts [OF h this reply_next_hop [OF x(2)]]
          have con: "conducts L nbr c s (send_to_next_hop c s x)" .
          then obtain s' evs where sent: "send_to_next_hop c s x = Some (s', evs)" by (elim conductsE)
          then have "handle_routed e c s port b = Some (s', [Alloc x] @ evs @ [Send (user_port c) b])"
            using run True here reply x(1) by simp
          then show ?thesis
            using conducts_more [OF con [unfolded sent], of "[Alloc x]" "[Send (user_port c) b]"] up by simp
        next
          case False
          have "make_ping_reply (alloc e Ping_Reply) b = Some None" if "wants_reply b"
          proof -
            have "ping_packet b" using blk(1) True that by (simp add: ping_packet_def wants_reply_def well_formed_routed_def)
            with that False show ?thesis using make_ping_reply_replies [of b False] by simp
          qed
          then have "handle_routed e c s port b = Some (s, [Send (user_port c) b])" using run True here by simp
          then show ?thesis using h up by (auto simp: conducts_def)
        qed
      next
        case other: False
        show ?thesis
        proof (cases "my_hop c b")
          case False
          then show ?thesis using run True other drop by simp
        next
          case hop: True
          let ?x = "wr16 b off_rh_hop_index (rd16 b off_rh_hop_index + 1)"
          have "pkt_block ?x" "rd16 ?x off_type = rd16 b off_type" "length ?x = length b"
            using blk(1) len by (simp_all add: pkt_block_def pkt_total_size_def)
          then have "in_transit ?x" using ty len by (intro in_transitI) auto
          then show ?thesis
            using run True other hop send_to_next_hop_conducts [OF h _ advanced_next_hop [OF blk(1) True]] by simp
        qed
      qed
    qed
  qed
qed

lemma dispatch_conducts:
  assumes h: "honest_state L nbr c s" and net: "neighbors c nbr" and b: "acceptable L nbr c port b"
  shows "conducts L nbr c s (dispatch e c s port b)"
proof -
  have ty: "get16 b off_type = Some (pkt_type b)"
    using acceptable_block(1) [OF b] by (simp add: pkt_block_def get16_iff pkt_type_def)
  show ?thesis
  proof (cases "type_of_code (pkt_type b)")
    case None
    then show ?thesis using h unfolding dispatch_def ty by (auto simp: conducts_def)
  next
    case (Some k)
    then have k: "pkt_type b = type_code k" using type_of_code_Some_iff by blast
    then have "rd16 b off_type = type_code k" by (simp add: pkt_type_def)
    then show ?thesis
      unfolding dispatch_def ty bind.bind_lunit Some option.case
      using handle_stp_conducts [OF h b net] handle_flood_conducts [OF h b] handle_lsa_conducts [OF h b]
        handle_routed_conducts [OF h b] k
      by (cases k) simp_all
  qed
qed

subsection \<open>What it says by itself\<close>

text \<open>The links a node has once it knows all its neighbours.\<close>

definition true_links :: "(nat \<Rightarrow> mixnet_address) \<Rightarrow> mixnet_node_config \<Rightarrow> mixnet_lsa_link_params list" where
  "true_links nbr c = map (\<lambda>p. \<lparr>neighbor_mixaddr = nbr p, cost = link_costs c ! p\<rparr>) [0..<ports c]"

definition vouched :: "claims \<Rightarrow> (nat \<Rightarrow> mixnet_address) \<Rightarrow> mixnet_node_config \<Rightarrow> node_state \<Rightarrow> bool" where
  "vouched L nbr c s \<longleftrightarrow> (neighbors_known c s \<longrightarrow> L (node_addr c) (true_links nbr c))"

lemma own_links_true:
  "honest_state L nbr c s \<Longrightarrow> neighbors_known c s \<Longrightarrow> own_links c s = true_links nbr c"
  by (auto simp: honest_state_def neighbors_known_def own_links_def true_links_def)

lemma own_lsa_proper:
  assumes h: "honest_state L nbr c s" and known: "neighbors_known c s" and v: "vouched L nbr c s"
    and small: "ports c < 256" and b: "make_lsa_packet e ok c s = Some b"
  shows "proper L (node_addr c) b" and "wire_copy b = b"
proof -
  note f = make_lsa_packet_fields [OF b]
  have l: "length b = 16 + 4 * ports c" using f(1) by simp
  show "wire_copy b = b" using f(1,2) small by (intro wire_copy_full) simp_all
  have "L (node_addr c) (own_links c s)" using v known own_links_true [OF h known] by (simp add: vouched_def)
  then show "proper L (node_addr c) b"
    using f l make_lsa_packet_block [OF b] by (simp add: proper_def readable_def)
qed

lemma originate_lsa_conducts:
  assumes h: "honest_state L nbr c s" and v: "vouched L nbr c s" and small: "ports c < 256"
  shows "\<exists>s' evs. originate_lsa e c s = Some (s', evs) \<and> honest_state L nbr c s' \<and>
    neighbor_addr s' = neighbor_addr s \<and> all_sent (proper L (node_addr c)) evs"
proof (cases "neighbors_known c s \<and> alloc e Lsa_Packet")
  case False
  then show ?thesis using h by (simp add: originate_lsa_eq)
next
  case True
  obtain b where b: "make_lsa_packet e True c s = Some b" by (simp add: make_lsa_packet_def Let_def)
  note own = own_lsa_proper [OF h conjunct1 [OF True] v small b]
  have "L (node_addr c) (own_links c s)"
    using v True own_links_true [OF h] by (simp add: vouched_def)
  from learn_row_honest [OF h this]
  show ?thesis
    using True b own by (simp add: originate_lsa_eq Let_def state_simps all_sent_copies)
qed

lemma tree_timers_conducts:
  assumes h: "honest_state L nbr c s" and t: "tree_timers e c s = (s', evs)"
  shows "honest_state L nbr c s'" and "neighbor_addr s' = neighbor_addr s"
    and "all_sent (proper L (node_addr c)) evs"
proof -
  have f: "topology s' = topology s" "fib s' = fib s" "mix s' = mix s"
    "neighbor_addr s' = neighbor_addr s" "blocked s' = blocked s \<or> length (blocked s') = ports c"
    using t by (auto simp: tree_timers_def become_root_def unblock_all_def Let_def split: if_splits)
  then show "neighbor_addr s' = neighbor_addr s" by simp
  show "honest_state L nbr c s'"
  proof (rule honest_frame [OF h])
    show "wf_state c s'" using h f by (auto simp: honest_state_def wf_state_def wf_mix_def)
    show "fib_valid c s'" using h f fib_valid_frame [of s' s c] by (simp add: honest_state_def)
  qed (use f in simp_all)
  show "all_sent (proper L (node_addr c)) evs"
    using t broadcast_stp_proper by (auto simp: tree_timers_def Let_def split: if_splits)
qed

lemma check_timers_conducts:
  assumes h: "honest_state L nbr c s" and v: "vouched L nbr c s" and small: "ports c < 256"
  shows "\<exists>s' evs. check_timers e c s = Some (s', evs) \<and> honest_state L nbr c s' \<and>
    neighbor_addr s' = neighbor_addr s \<and> all_sent (proper L (node_addr c)) evs"
proof -
  obtain s1 evs1 where t: "tree_timers e c s = (s1, evs1)" by fastforce
  note k = tree_timers_conducts [OF h t]
  have "vouched L nbr c s1" using v k(2) by (simp add: vouched_def neighbors_known_def)
  from originate_lsa_conducts [OF k(1) this small, of e] obtain s2 evs2 where
    o2: "originate_lsa e c s1 = Some (s2, evs2)" "honest_state L nbr c s2"
    "neighbor_addr s2 = neighbor_addr s1" "all_sent (proper L (node_addr c)) evs2" by blast
  have "honest_state L nbr c (s2\<lparr>lsa_start_ms := now e\<rparr>)"
    by (rule honest_frame [OF o2(2)])
      (use o2(2) fib_valid_frame [of "s2\<lparr>lsa_start_ms := now e\<rparr>" s2 c] in
        \<open>simp_all add: honest_state_def wf_state_def wf_mix_def\<close>)
  then show ?thesis using t k o2 by (auto simp: check_timers_def)
qed

subsection \<open>An iteration\<close>

definition acceptable_iteration ::
  "claims \<Rightarrow> (nat \<Rightarrow> mixnet_address) \<Rightarrow> mixnet_node_config \<Rightarrow> iteration \<Rightarrow> bool" where
  "acceptable_iteration L nbr c it \<longleftrightarrow>
     (case received it of None \<Rightarrow> True | Some (port, b) \<Rightarrow> acceptable L nbr c port b)"

text \<open>
  An iteration keeps a node honest and makes it send only proper packets, provided \<open>L\<close> vouches for
  the node's own links as soon as it knows its neighbours.
\<close>

lemma loop_body_conducts:
  assumes h: "honest_state L nbr c s" and net: "neighbors c nbr" and small: "ports c < 256"
    and it: "acceptable_iteration L nbr c it"
    and v: "\<And>s' evs. loop_body c s it = Some (s', evs) \<Longrightarrow> vouched L nbr c s'"
  shows "conducts L nbr c s (loop_body c s it)"
proof -
  define r where "r = (case received it of None \<Rightarrow> Some (s, [])
      | Some (port, packet) \<Rightarrow> dispatch (handler_env it) c s port packet)"
  have "conducts L nbr c s r"
  proof (cases "received it")
    case None
    then show ?thesis using h by (simp add: r_def conducts_def)
  next
    case (Some pb)
    then show ?thesis
      using dispatch_conducts [OF h net, of "fst pb" "snd pb"] it
      by (cases pb) (simp add: r_def acceptable_iteration_def)
  qed
  then obtain s1 evs1 where 1: "r = Some (s1, evs1)" "honest_state L nbr c s1"
    "neighbors_known c s \<longrightarrow> neighbors_known c s1" "all_sent (proper L (node_addr c)) evs1"
    by (elim conductsE)
  have body: "loop_body c s it = map_option (\<lambda>(s2, evs2). (s2, evs1 @ evs2)) (check_timers (timer_env it) c s1)"
    using 1(1) unfolding loop_body_def r_def
    by (cases "check_timers (timer_env it) c s1") auto
  have top: "honest_state (\<lambda>_ _. True) nbr c s1" by (rule honest_state_mono [OF 1(2)]) simp
  obtain s2 evs2 where t: "check_timers (timer_env it) c s1 = Some (s2, evs2)" "neighbor_addr s2 = neighbor_addr s1"
    using check_timers_conducts [OF top _ small, of "timer_env it"] by (auto simp: vouched_def)
  have "vouched L nbr c s1"
    using v [of s2 "evs1 @ evs2"] body t by (simp add: vouched_def neighbors_known_def)
  from check_timers_conducts [OF 1(2) this small, of "timer_env it"] t(1)
  have "honest_state L nbr c s2" "all_sent (proper L (node_addr c)) evs2" by auto
  moreover have "loop_body c s it = Some (s2, evs1 @ evs2)" using body t(1) by simp
  moreover have "neighbors_known c s2 = neighbors_known c s1" using t(2) by (rule known_frame)
  ultimately show ?thesis using 1(3,4) by (simp add: conducts_def)
qed

text \<open>The start of a node.\<close>

lemma state_init_honest:
  assumes "state_init ok t1 t2 t3 c = Some s"
  shows "honest_state L nbr c s"
proof -
  have s: "wf_state c s" "fib_valid c s" using state_init_inv [OF assms] by (simp_all add: node_inv_def)
  have "rows (topology s) a = None" for a
    using assms by (auto simp: state_init_def rows_def id_find_def empty_graph_def count_def split: if_splits)
  moreover have "slots s = []" "\<And>p. p < ports c \<Longrightarrow> neighbor_addr s ! p = INVALID_MIXADDR"
    using assms by (auto simp: state_init_def slots_def split: if_splits)
  ultimately show ?thesis using s by (simp add: honest_state_def)
qed

end
