(* ===== verification/Node_Thread.thy ===== *)
theory Node_Thread
  imports Conduct Fragment_Run
begin

text \<open>
  The thread of a fragment that runs the node: \<open>worker_node\<close> of \<open>framework/fragment.cpp\<close>, the
  bridges \<open>mixnet_send\<close> and \<open>mixnet_recv\<close>, and \<open>run_node\<close> of \<open>mixnet/node.c\<close> on top of the
  fragment's node context. The lemmas show what a turn of the node's loop relies on and what it
  promises to the other ends of its links.
\<close>

subsection \<open>The code\<close>

text \<open>The C/C++ bridge.\<close>

definition mixnet_recv ::
  "(nat \<Rightarrow> rx_io) \<Rightarrow> node_context \<Rightarrow> itc \<Rightarrow> (recv_result \<times> node_context \<times> itc) option" where
  "mixnet_recv io c q = node_recv io c q"

definition mixnet_send ::
  "tx_io \<Rightarrow> byte \<Rightarrow> buf \<Rightarrow> node_context \<Rightarrow> itc \<Rightarrow> (send_result \<times> node_context \<times> itc) option" where
  "mixnet_send io port packet c q = node_send io port packet c q"

text \<open>
  The calls of \<open>mixnet_send\<close> a handler makes, in order; the handlers look at nothing the calls
  change, so that their events can be replayed. \<open>io k n\<close> is the kernel's answer to the k-th of
  them, for a packet of n bytes. A refused packet is freed by \<open>send_packet\<close> of \<open>mixnet/node.c\<close>; an
  exception ends the thread, and the result is \<open>False\<close>.
\<close>

fun send_events ::
  "(nat \<Rightarrow> nat \<Rightarrow> tx_io) \<Rightarrow> ev list \<Rightarrow> node_context \<Rightarrow> itc \<Rightarrow> (bool \<times> node_context \<times> itc) option" where
  "send_events io [] c q = Some (True, c, q)"
| "send_events io (Send port packet # evs) c q = do {
     (r, c, q) \<leftarrow> mixnet_send (io 0 (frame_len packet)) port packet c q;
     if r = Send_thrown then Some (False, c, q) else send_events (\<lambda>k. io (Suc k)) evs c q
   }"
| "send_events io (Alloc packet # evs) c q = send_events io evs c q"
| "send_events io (Free packet # evs) c q = send_events io evs c q"

text \<open>
  A turn of the loop of \<open>run_node\<close>: what the other threads have done to the shared state since the
  last one, and the outside world during its calls.
\<close>

record node_turn =
  n_others :: "node_context \<times> itc \<Rightarrow> node_context \<times> itc"
  n_rx :: "nat \<Rightarrow> rx_io"
  n_tx :: "nat \<Rightarrow> nat \<Rightarrow> tx_io"
  n_handler :: env
  n_timers :: env

definition turn_iteration :: "node_turn \<Rightarrow> recv_result \<Rightarrow> iteration" where
  "turn_iteration t r =
     \<lparr>received = (case r of Packet port packet \<Rightarrow> Some (port, packet) | _ \<Rightarrow> None),
      handler_env = n_handler t, timer_env = n_timers t\<rparr>"

text \<open>The body of the loop; the state is \<open>None\<close> when an exception has ended the thread.\<close>

definition worker_turn ::
  "node_turn \<Rightarrow> node_state \<Rightarrow> node_context \<Rightarrow> itc \<Rightarrow> (node_state option \<times> node_context \<times> itc) option" where
  "worker_turn t s c q = do {
     (r, c, q) \<leftarrow> mixnet_recv (n_rx t) c q;
     if r = Recv_thrown then Some (None, c, q)
     else do {
       (s, evs) \<leftarrow> loop_body (node_config c) s (turn_iteration t r);
       (ok, c, q) \<leftarrow> send_events (n_tx t) evs c q;
       Some (if ok then Some s else None, c, q)
     }
   }"

text \<open>The loop, and the \<open>state_free\<close> after it; an exception leaves both behind.\<close>

fun worker_loop ::
  "node_turn list \<Rightarrow> node_state \<Rightarrow> node_context \<Rightarrow> itc \<Rightarrow> (node_context \<times> itc) option" where
  "worker_loop [] s c q = None"
| "worker_loop (t # turns) s c q =
     (let (c, q) = n_others t (c, q) in
      if \<not> thread_keep_running (ts c) then do {
        (_, c, q) \<leftarrow> send_events (n_tx t) (snd (state_free s)) c q;
        Some (c, q)
      }
      else do {
        (s, c, q) \<leftarrow> worker_turn t s c q;
        case s of None \<Rightarrow> Some (c, q) | Some s \<Rightarrow> worker_loop turns s c q
      })"

text \<open>
  The start of \<open>run_node\<close>: the state, or none if memory or an exception ends the thread. \<open>t\<close> gives
  the clock readings of \<open>state_init\<close>.
\<close>

definition worker_start ::
  "env \<Rightarrow> u64 \<times> u64 \<times> u64 \<Rightarrow> (nat \<Rightarrow> nat \<Rightarrow> tx_io) \<Rightarrow> node_context \<Rightarrow> itc \<Rightarrow>
   (node_state option \<times> node_context \<times> itc) option" where
  "worker_start e t io c q =
     (case state_init (alloc e) (fst t) (fst (snd t)) (snd (snd t)) (node_config c) of
        None \<Rightarrow> Some (None, c, q)
      | Some s \<Rightarrow> do {
          (ok, c, q) \<leftarrow> send_events io (broadcast_stp e (node_config c) s (- 1)) c q;
          Some (if ok then Some s else None, c, q)
        })"

text \<open>The thread; \<open>None\<close> means that it still runs when the turns are used up, or that a call has no
  defined result.\<close>

definition worker_node ::
  "env \<Rightarrow> u64 \<times> u64 \<times> u64 \<Rightarrow> (nat \<Rightarrow> nat \<Rightarrow> tx_io) \<Rightarrow> node_turn list \<Rightarrow> node_context \<Rightarrow> itc \<Rightarrow>
   (node_context \<times> itc) option" where
  "worker_node e t io turns c q = do {
     let c = c\<lparr>ts := (ts c)\<lparr>thread_started := True\<rparr>\<rparr>;
     (s, c, q) \<leftarrow> worker_start e t io c q;
     (c, q) \<leftarrow> (case s of None \<Rightarrow> Some (c, q) | Some s \<Rightarrow> worker_loop turns s c q);
     Some (c\<lparr>ts := (ts c)\<lparr>exited := True\<rparr>\<rparr>, q)
   }"

subsection \<open>Sending\<close>

text \<open>A kernel that takes every packet, in any pieces.\<close>

definition healthy :: "(nat \<Rightarrow> nat \<Rightarrow> tx_io) \<Rightarrow> bool" where
  "healthy io \<longleftrightarrow> (\<forall>k n. fst (io k n) \<noteq> None \<and> no_send_error (snd (io k n)) \<and> progress (snd (io k n)) = n)"

text \<open>What a link carries: the bytes of whole packets whose size fits their type.\<close>

definition valid_frame :: "buf \<Rightarrow> bool" where
  "valid_frame f \<longleftrightarrow> packet_fits f \<and> frame_len f = length f"

definition wire_form :: "buf \<Rightarrow> buf" where
  "wire_form b = take (frame_len b) (bleach b)"

text \<open>The packets among \<open>evs\<close> that leave on the link of port \<open>i\<close>, as the link carries them.\<close>

definition outgoing :: "ev list \<Rightarrow> nat \<Rightarrow> buf list" where
  "outgoing evs i = map (\<lambda>x. wire_form (snd x)) (filter (\<lambda>x. unat (fst x) = i \<and> packet_fits (snd x)) (sent evs))"

lemma outgoing_simps [simp]:
  "outgoing [] i = []" "outgoing (Alloc b # evs) i = outgoing evs i" "outgoing (Free b # evs) i = outgoing evs i"
  "outgoing (Send p b # evs) i = (if unat p = i \<and> packet_fits b then wire_form b # outgoing evs i else outgoing evs i)"
  by (simp_all add: outgoing_def)

text \<open>
  What sending leaves behind: \<open>pre\<close> are the events that took effect, all of them unless the pool of
  the pcap queue was empty.
\<close>

definition send_frame :: "bool \<Rightarrow> node_context \<Rightarrow> itc \<Rightarrow> node_context \<Rightarrow> itc \<Rightarrow> bool" where
  "send_frame ok c q c' q' \<longleftrightarrow>
     ctx_ok c' \<and> node_config c' = node_config c \<and> rx_pending c' = rx_pending c \<and>
     link_states c' = link_states c \<and> is_pcap_subscribed c' = is_pcap_subscribed c \<and>
     mq_user q' = mq_user q \<and> user_cells q' = user_cells q \<and> (\<exists>s. implements (mq_pcap q') s) \<and>
     (if ok then ts c' = ts c
      else is_pcap_subscribed c \<and> ts c' = (ts c)\<lparr>exit_code := FRAGMENT_PCAP_MQ_FULL, exited := True\<rparr>)"

definition send_log :: "bool \<Rightarrow> ev list \<Rightarrow> node_context \<Rightarrow> node_context \<Rightarrow> bool" where
  "send_log ok evs c c' \<longleftrightarrow> (\<exists>pre post. evs = pre @ post \<and> (ok \<longrightarrow> post = []) \<and>
     (\<forall>i < nports c. tx_wire c' ! i = tx_wire c ! i @ concat (outgoing pre i)))"

definition sends_done ::
  "ev list \<Rightarrow> node_context \<Rightarrow> itc \<Rightarrow> bool \<times> node_context \<times> itc \<Rightarrow> bool" where
  "sends_done evs c q r \<longleftrightarrow>
     (case r of (ok, c', q') \<Rightarrow> send_frame ok c q c' q' \<and> send_log ok evs c c')"

lemma healthy_Suc: "healthy io \<Longrightarrow> healthy (\<lambda>k. io (Suc k))"
  by (simp add: healthy_def)

lemma outgoing_append: "outgoing (xs @ ys) i = outgoing xs i @ outgoing ys i"
  by (simp add: outgoing_def)

lemma send_frame_refl: "ctx_ok c \<Longrightarrow> implements (mq_pcap q) s \<Longrightarrow> send_frame True c q c q"
  by (auto simp: send_frame_def)

lemma send_log_none:
  assumes "\<And>i. i < nports c \<Longrightarrow> outgoing evs i = []" and "tx_wire c' = tx_wire c"
  shows "send_log ok evs c c'"
  unfolding send_log_def using assms by (intro exI [of _ evs] exI [of _ "[]"]) simp

lemma send_log_append:
  assumes "send_log True xs c c1" and "send_log ok ys c1 c2" and "nports c1 = nports c"
  shows "send_log ok (xs @ ys) c c2"
proof -
  obtain pre post where "ys = pre @ post" "ok \<longrightarrow> post = []"
    "\<forall>i < nports c1. tx_wire c2 ! i = tx_wire c1 ! i @ concat (outgoing pre i)"
    using assms(2) unfolding send_log_def by blast
  then show ?thesis
    using assms(1,3) unfolding send_log_def
    by (intro exI [of _ "xs @ pre"] exI [of _ post]) (simp add: outgoing_append)
qed

lemma sends_done_append:
  assumes "sends_done xs c q (True, c1, q1)" and "sends_done ys c1 q1 r"
  shows "sends_done (xs @ ys) c q r"
proof -
  obtain ok c2 q2 where r: "r = (ok, c2, q2)" by (cases r)
  have f: "send_frame True c q c1 q1" "send_frame ok c1 q1 c2 q2" "send_log True xs c c1" "send_log ok ys c1 c2"
    using assms by (simp_all add: sends_done_def r)
  have "is_pcap_subscribed c1 = is_pcap_subscribed c" using f(1) by (simp add: send_frame_def)
  then have "send_frame ok c q c2 q2" using f(1,2) by (cases ok) (simp_all add: send_frame_def)
  then show ?thesis using f send_log_append [OF f(3,4)] by (simp add: sends_done_def r send_frame_def)
qed

lemma sends_done_thrown: "sends_done xs c q (False, r) \<Longrightarrow> sends_done (xs @ ys) c q (False, r)"
  by (cases r) (fastforce simp: sends_done_def send_log_def)

lemma mixnet_send_queues:
  "mixnet_send io p b c q = Some (r, c', q') \<Longrightarrow> mq_user q' = mq_user q \<and> user_cells q' = user_cells q"
  by (auto simp: mixnet_send_def node_send_def send_to_user_def Let_def bind_eq_Some_conv
      split: if_splits option.splits)

lemma send_one:
  assumes c: "ctx_ok c" and q: "implements (mq_pcap q) s" and io: "healthy io" and b: "readable b"
  shows "\<exists>r c' q'. mixnet_send (io k (frame_len b)) p b c q = Some (r, c', q') \<and>
    sends_done [Send p b] c q (r \<noteq> Send_thrown, c', q')"
proof -
  have "fst (io k (frame_len b)) \<noteq> None" using io by (simp add: healthy_def)
  then obtain nb outs where ok: "io k (frame_len b) = (Some nb, outs)"
    by (cases "io k (frame_len b)") auto
  have outs: "no_send_error outs" "progress outs = frame_len b" using io ok by (metis healthy_def snd_conv)+
  note spec = node_send_spec [OF b c outs q, of p nb]
  note frame = send_frame_refl [OF c q]
  let ?stays = "nports c < unat p \<or> \<not> packet_fits b \<or> (unat p = nports c \<and> \<not> to_user b)"
  consider (stays) ?stays | (link) "\<not> ?stays" "unat p < nports c"
    | (plain) "\<not> ?stays" "unat p = nports c" "\<not> is_pcap_subscribed c"
    | (empty) "\<not> ?stays" "unat p = nports c" "is_pcap_subscribed c" "free_list s = []"
    | (up) "\<not> ?stays" "unat p = nports c" "is_pcap_subscribed c" "free_list s \<noteq> []" by linarith
  then show ?thesis
  proof cases
    case stays
    then have "send_log True [Send p b] c c" by (intro send_log_none) auto
    then show ?thesis using spec stays frame by (auto simp: mixnet_send_def ok sends_done_def)
  next
    case link
    let ?c = "c\<lparr>tx_wire := (tx_wire c)[unat p := tx_wire c ! unat p @ take (frame_len b) (bleach b)]\<rparr>"
    have "send_frame True c q ?c q" using c q by (auto simp: send_frame_def ctx_ok_def)
    moreover have "send_log True [Send p b] c ?c"
      unfolding send_log_def using link c
      by (intro exI [of _ "[Send p b]"] exI [of _ "[]"]) (auto simp: ctx_ok_def nth_list_update wire_form_def)
    ultimately show ?thesis using spec link by (simp add: mixnet_send_def ok sends_done_def)
  next
    case plain
    then have "send_log True [Send p b] c c" by (intro send_log_none) auto
    then show ?thesis using spec plain frame by (simp add: mixnet_send_def ok sends_done_def)
  next
    case empty
    let ?c = "fail_thread FRAGMENT_PCAP_MQ_FULL c"
    have "send_frame False c q ?c q" using empty c q by (auto simp: send_frame_def fail_thread_def ctx_ok_def)
    moreover have "send_log False [Send p b] c ?c" using empty by (intro send_log_none) (auto simp: fail_thread_def)
    ultimately show ?thesis using spec empty by (simp add: mixnet_send_def ok sends_done_def)
  next
    case up
    then obtain q' where r: "mixnet_send (io k (frame_len b)) p b c q = Some (Accepted_packet, c, q')"
      "implements (mq_pcap q') (s\<lparr>free_list := tl (free_list s), queued := queued s @ [hd (free_list s)]\<rparr>)"
      using spec by (auto simp: mixnet_send_def ok)
    then have "send_frame True c q c q'"
      using c mixnet_send_queues [OF r(1)] by (auto simp: send_frame_def)
    moreover have "send_log True [Send p b] c c" using up by (intro send_log_none) auto
    ultimately show ?thesis using r(1) by (simp add: sends_done_def)
  qed
qed

lemma send_events_done:
  "ctx_ok c \<Longrightarrow> implements (mq_pcap q) s \<Longrightarrow> healthy io \<Longrightarrow> all_sent readable evs \<Longrightarrow>
   \<exists>r. send_events io evs c q = Some r \<and> sends_done evs c q r"
proof (induction io evs c q arbitrary: s rule: send_events.induct)
  case (1 io c q)
  then show ?case using send_frame_refl send_log_none [of c "[]" c True] by (simp add: sends_done_def)
next
  case (2 io p b evs c q)
  have b: "readable b" "all_sent readable evs" using "2.prems"(4) by simp_all
  obtain r c1 q1 where s: "mixnet_send (io 0 (frame_len b)) p b c q = Some (r, c1, q1)"
    "sends_done [Send p b] c q (r \<noteq> Send_thrown, c1, q1)"
    using send_one [OF "2.prems"(1-3) b(1)] by blast
  show ?case
  proof (cases "r = Send_thrown")
    case True
    then show ?thesis using s sends_done_thrown [of "[Send p b]" c q "(c1, q1)" evs] by simp
  next
    case False
    then obtain s1 where "ctx_ok c1" "implements (mq_pcap q1) s1"
      using s(2) by (auto simp: sends_done_def send_frame_def)
    from "2.IH" [OF s(1) refl refl False this healthy_Suc [OF "2.prems"(3)] b(2)]
    show ?thesis using s False sends_done_append [of "[Send p b]" c q c1 q1 evs] by auto
  qed
next
  case (3 io b evs c q)
  from "3.IH" [OF "3.prems"(1-3)] "3.prems"(4) obtain r
    where "send_events io evs c q = Some r" "sends_done evs c q r" by auto
  moreover have "sends_done [Alloc b] c q (True, c, q)"
    using send_frame_refl [OF "3.prems"(1,2)] send_log_none [of c "[Alloc b]" c True] by (simp add: sends_done_def)
  ultimately show ?case using sends_done_append [of "[Alloc b]" c q c q evs] by auto
next
  case (4 io b evs c q)
  from "4.IH" [OF "4.prems"(1-3)] "4.prems"(4) obtain r
    where "send_events io evs c q = Some r" "sends_done evs c q r" by auto
  moreover have "sends_done [Free b] c q (True, c, q)"
    using send_frame_refl [OF "4.prems"(1,2)] send_log_none [of c "[Free b]" c True] by (simp add: sends_done_def)
  ultimately show ?case using sends_done_append [of "[Free b]" c q c q evs] by auto
qed

subsection \<open>Receiving\<close>

lemma wire_form_proper:
  assumes b: "proper L me b" and fits: "packet_fits b"
  shows "valid_frame (wire_form b)" and "proper L me (wire_form b)"
proof -
  have r: "12 \<le> length b" "frame_len b \<le> length b" using b readable_facts [of b] by (auto simp: proper_def)
  have n: "12 \<le> frame_len b" using fits by (simp add: packet_fits_def)
  note bl = bleach_reads [OF r(1)]
  let ?w = "wire_form b"
  have l: "length ?w = frame_len b" using r bl(1) by (simp add: wire_form_def)
  have head: "frame_len ?w = frame_len b" "pkt_type ?w = pkt_type b"
    using n r bl by (simp_all add: wire_form_def frame_len_def pkt_type_def)
  have rd: "rd16 ?w off = rd16 b off" if "12 \<le> off" "off + 2 \<le> frame_len b" for off
    using that r bl(4) by (simp add: wire_form_def)
  have lsa: "packet_fits b \<Longrightarrow> pkt_type b = 2 \<Longrightarrow> frame_len b = 16 + 4 * unat (rd16 b 14)"
    by (simp add: packet_fits_def type_of_code_def)
  have ping: "packet_fits b \<Longrightarrow> pkt_type b = 4 \<Longrightarrow> frame_len b = 30 + 2 * unat (rd16 b 16)"
    by (simp add: packet_fits_def type_of_code_def)
  have stp: "packet_fits b \<Longrightarrow> pkt_type b = 0 \<Longrightarrow> frame_len b = 18"
    by (simp add: packet_fits_def type_of_code_def)
  note fields = lsa [OF fits] ping [OF fits] stp [OF fits]
  have "packet_fits ?w"
    using fits rd head fields unfolding packet_fits_def by (cases "type_of_code (pkt_type b)") (auto simp: type_of_code_Some_iff split: mixnet_packet_type.splits)
  then show "valid_frame ?w" using l head by (simp add: valid_frame_def)
  have links: "lsa_links ?w m = lsa_links b m" if "16 + 4 * m \<le> frame_len b" for m
    using that rd by (auto simp: lsa_links_def)
  have "readable ?w" using l head n fields by (auto simp: readable_def pkt_block_def frame_len_def pkt_total_size_def)
  then show "proper L me ?w"
    using b l head fields rd links r by (auto simp: proper_def covers_links_def)
qed

text \<open>Frames of a proper sender, and what has arrived of a stream of them.\<close>

definition frames_of :: "claims \<Rightarrow> mixnet_address \<Rightarrow> buf list \<Rightarrow> bool" where
  "frames_of L me fs \<longleftrightarrow> (\<forall>f \<in> set fs. valid_frame f \<and> proper L me f)"

definition arriving :: "claims \<Rightarrow> mixnet_address \<Rightarrow> buf \<Rightarrow> bool" where
  "arriving L me P \<longleftrightarrow> (\<exists>later fs. P @ later = concat fs \<and> frames_of L me fs)"

lemma frames_of_simps [simp]:
  "frames_of L me []" "frames_of L me (f # fs) \<longleftrightarrow> valid_frame f \<and> proper L me f \<and> frames_of L me fs"
  "frames_of L me (fs @ gs) \<longleftrightarrow> frames_of L me fs \<and> frames_of L me gs"
  by (auto simp: frames_of_def)

lemma valid_frame_size: "valid_frame f \<Longrightarrow> frame_len f = length f \<and> 12 \<le> length f \<and> length f \<le> 4096"
  by (auto simp: valid_frame_def packet_fits_def)

lemma frame_head:
  assumes f: "valid_frame f" and s: "P @ later = f @ rest" and n: "2 \<le> length P"
  shows "frame_len P = length f"
proof -
  note v = valid_frame_size [OF f]
  have "frame_len P = frame_len (P @ later)" using frame_len_prefix [OF n] by simp
  also have "\<dots> = length f" unfolding s using frame_len_prefix [of f rest] v by simp
  finally show ?thesis .
qed

text \<open>
  The head of a stream of frames: either the next frame has arrived whole, or the receiver sees
  that it has to wait.
\<close>

lemma stream_head:
  assumes s: "P @ later = concat fs" and fs: "frames_of L me fs"
  shows "\<not> bad_stream P" and
    "complete_packet P \<Longrightarrow> \<exists>gs. fs = take (frame_len P) P # gs \<and> drop (frame_len P) P @ later = concat gs"
proof -
  have head: "\<exists>f gs. fs = f # gs \<and> valid_frame f \<and> frame_len P = length f" if "2 \<le> length P"
  proof (cases fs)
    case Nil
    then show ?thesis using s that by auto
  next
    case (Cons f gs)
    then show ?thesis using frame_head [of f P later "concat gs"] s fs that by auto
  qed
  then show "\<not> bad_stream P" using valid_frame_size by (fastforce simp: bad_stream_def frame_malformed_def)
  assume "complete_packet P"
  then have c: "2 \<le> length P" "frame_len P \<le> length P" by (simp_all add: complete_packet_def frame_complete_def)
  obtain f gs where f: "fs = f # gs" "frame_len P = length f" using head [OF c(1)] by blast
  have eq: "P @ later = f @ concat gs" using s f(1) by simp
  have "take (length f) P = take (length f) (P @ later)" using c(2) f(2) by simp
  then have "take (length f) P = f" unfolding eq by simp
  moreover have "drop (length f) P @ later = drop (length f) (P @ later)" using c(2) f(2) by simp
  then have "drop (length f) P @ later = concat gs" unfolding eq by simp
  ultimately show "\<exists>gs. fs = take (frame_len P) P # gs \<and> drop (frame_len P) P @ later = concat gs"
    using f by simp
qed

text \<open>A packet of the user, as \<open>task_send_packet\<close> queues it.\<close>

definition from_user :: "buf \<Rightarrow> bool" where
  "from_user b \<longleftrightarrow> length b = MAX_MIXNET_PACKET_SIZE \<and> pkt_block b \<and>
     MIN_MIXNET_PACKET_SIZE \<le> frame_len b \<and> pkt_type b \<noteq> type_code PACKET_TYPE_STP"

definition user_queue_ok :: "itc \<Rightarrow> bool" where
  "user_queue_ok q \<longleftrightarrow> (\<exists>s. itc_ok q s \<and> (\<forall>p \<in> set (queued s). from_user (the (user_cells q p))))"

text \<open>What a turn of the node relies on.\<close>

definition turn_ready :: "claims \<Rightarrow> (nat \<Rightarrow> mixnet_address) \<Rightarrow> node_context \<Rightarrow> itc \<Rightarrow> bool" where
  "turn_ready L nbr c q \<longleftrightarrow> ctx_ok c \<and> user_queue_ok q \<and> (\<exists>s. implements (mq_pcap q) s) \<and>
     (\<forall>i < nports c. arriving L (nbr i) (rx_pending c ! i))"

text \<open>What the receive of a turn has done: which packet it took from where.\<close>

definition received_from ::
  "claims \<Rightarrow> (nat \<Rightarrow> mixnet_address) \<Rightarrow> node_context \<Rightarrow> itc \<Rightarrow> recv_result \<Rightarrow> node_context \<Rightarrow> itc \<Rightarrow> bool" where
  "received_from L nbr c q r c' q' \<longleftrightarrow>
     ctx_ok c' \<and> same_links c c' \<and> is_pcap_subscribed c' = is_pcap_subscribed c \<and>
     mq_pcap q' = mq_pcap q \<and> user_queue_ok q' \<and>
     (case r of
        No_packet \<Rightarrow> rx_pending c' = rx_pending c
      | Packet port b \<Rightarrow> acceptable L nbr (node_config c) port b \<and>
          (if port = user_port (node_config c) then rx_pending c' = rx_pending c
           else (let i = unat port in
             i < nports c \<and> complete_packet (rx_pending c ! i) \<and>
             b = take (frame_len (rx_pending c ! i)) (rx_pending c ! i) \<and>
             rx_pending c' = (rx_pending c)[i := drop (frame_len (rx_pending c ! i)) (rx_pending c ! i)]))
      | Recv_thrown \<Rightarrow> False)"

lemma serve_port_frame:
  "serve_port io c q = Some (r, c', q') \<Longrightarrow> is_pcap_subscribed c' = is_pcap_subscribed c \<and> mq_pcap q' = mq_pcap q"
  by (auto simp: serve_port_def serve_user_def serve_neighbor_def fail_thread_def Let_def bind_eq_Some_conv
      split: if_splits option.splits)

lemma port_loop_frame:
  "port_loop k stop io c q = Some (r, c', q') \<Longrightarrow>
   is_pcap_subscribed c' = is_pcap_subscribed c \<and> mq_pcap q' = mq_pcap q"
proof (induction k stop io c q rule: port_loop.induct)
  case (2 k stop io c q)
  then obtain s c1 q1 where s: "serve_port io c q = Some (s, c1, q1)" by (auto simp: bind_eq_Some_conv)
  note f = serve_port_frame [OF s]
  show ?case
  proof (cases s)
    case Nothing_pending
    let ?c = "c1\<lparr>rx_port_idx := next_port c1\<rparr>"
    have "if rx_port_idx ?c \<noteq> stop then port_loop k stop io ?c q1 = Some (r, c', q')
        else (c', q') = (?c, q1)"
      using "2.prems" s Nothing_pending by (auto simp: Let_def split: if_splits)
    then show ?thesis
      using f "2.IH" [OF s refl refl refl Nothing_pending refl] by (auto split: if_splits)
  qed (use "2.prems" s f in auto)
qed simp

lemma mixnet_recv_frame:
  "mixnet_recv io c q = Some (r, c', q') \<Longrightarrow>
   is_pcap_subscribed c' = is_pcap_subscribed c \<and> mq_pcap q' = mq_pcap q"
  unfolding mixnet_recv_def node_recv_def by (rule port_loop_frame)

lemma ports_byte:
  "ports c < 256 \<Longrightarrow> unat (user_port c) = ports c"
  "ports c < 256 \<Longrightarrow> i \<le> ports c \<Longrightarrow> unat (of_nat i :: byte) = i"
  by (simp_all add: user_port_def unsigned_ucast_eq take_bit_nat_eq_self unat_of_nat_u8)

text \<open>A turn always receives, and never throws: the streams are made of frames.\<close>

lemma recv_ready:
  assumes rdy: "turn_ready L nbr c q" and small: "nports c < 256"
  shows "\<exists>r c' q'. mixnet_recv quiet_io c q = Some (r, c', q') \<and> received_from L nbr c q r c' q'"
proof -
  have c: "ctx_ok c" using rdy by (simp add: turn_ready_def)
  obtain s where s: "itc_ok q s" "\<forall>p \<in> set (queued s). from_user (the (user_cells q p))"
    using rdy by (auto simp: turn_ready_def user_queue_ok_def)
  have head: "\<not> bad_stream (rx_pending c ! i)" if "i < nports c" for i
    using rdy that stream_head(1) by (fastforce simp: turn_ready_def arriving_def)
  have clean: "clean_links c" using head by (simp add: clean_links_def)
  have spec: "recv_spec c q s (visit (nports c) (unat (rx_port_idx c)) (nports c + 1)) (mixnet_recv quiet_io c q)"
    using node_recv_spec [OF c s(1) clean] by (simp add: mixnet_recv_def)
  let ?order = "visit (nports c) (unat (rx_port_idx c)) (nports c + 1)"
  show ?thesis
  proof (cases "find (port_ready c s) ?order")
    case None
    then obtain c' where r: "mixnet_recv quiet_io c q = Some (No_packet, c', q)" "same_links c c'" "ctx_ok c'"
      "rx_pending c' = rx_pending c" using spec by (auto simp: recv_spec_def)
    then show ?thesis
      using mixnet_recv_frame [OF r(1)] rdy by (simp add: received_from_def turn_ready_def)
  next
    case (Some i)
    then have ready: "port_ready c s i" and "i \<in> set ?order" by (auto simp: find_Some_iff)
    then have i: "i \<le> nports c" by (auto simp: visit_def less_Suc_eq_le [symmetric])
    obtain c' q' where r: "mixnet_recv quiet_io c q = Some (Packet (of_nat i) (port_packet c q s i), c', q')"
      and used: "consumed c q s i c' q'" using spec Some by (auto simp: recv_spec_def)
    let ?b = "port_packet c q s i"
    have byte: "unat (of_nat i :: byte) = i" using ports_byte(2) small i by blast
    have up: "(of_nat i :: byte) = user_port (node_config c) \<longleftrightarrow> i = nports c"
      using ports_byte(1) [OF small] byte by (metis word_unat_eq_iff)
    show ?thesis
    proof (cases "i = nports c")
      case True
      then obtain p ps where q: "queued s = p # ps" using ready by (cases "queued s") (auto simp: port_ready_def)
      then have b: "from_user ?b" using s(2) True by (simp add: port_packet_def)
      have "user_queue_ok q'"
        using used s(2) True q by (fastforce simp: consumed_def user_queue_ok_def)
      then show ?thesis
        using r used b up True mixnet_recv_frame [OF r]
        by (auto simp: received_from_def consumed_def acceptable_def from_user_def)
    next
      case False
      then have i: "i < nports c" using i by simp
      have cp: "complete_packet (rx_pending c ! i)" using ready False by (simp add: port_ready_def)
      have b: "?b = take (frame_len (rx_pending c ! i)) (rx_pending c ! i)" using False by (simp add: port_packet_def)
      obtain later fs where str: "rx_pending c ! i @ later = concat fs" "frames_of L (nbr i) fs"
        using rdy i by (auto simp: turn_ready_def arriving_def)
      from stream_head(2) [OF str cp] str(2) b have f: "valid_frame ?b" "proper L (nbr i) ?b" by auto
      have "acceptable L nbr (node_config c) (of_nat i) ?b"
        using f up False byte i valid_frame_size [OF f(1)] by (simp add: acceptable_def)
      then show ?thesis
        using r used up False i cp b byte mixnet_recv_frame [OF r] rdy
        by (auto simp: received_from_def consumed_def turn_ready_def Let_def)
    qed
  qed
qed

subsection \<open>A turn\<close>

text \<open>
  How a turn runs: what it received, what the handlers did with it, what was sent. \<open>ok\<close> is false
  only when the pool of the pcap queue was empty.
\<close>

definition turn_runs ::
  "claims \<Rightarrow> (nat \<Rightarrow> mixnet_address) \<Rightarrow> node_turn \<Rightarrow> node_state \<Rightarrow> node_context \<Rightarrow> itc \<Rightarrow>
   bool \<Rightarrow> node_state \<Rightarrow> ev list \<Rightarrow> recv_result \<Rightarrow> node_context \<Rightarrow> itc \<Rightarrow> bool" where
  "turn_runs L nbr t s c q ok s' evs r c' q' \<longleftrightarrow>
     (\<exists>c1 q1. received_from L nbr c q r c1 q1 \<and>
        loop_body (node_config c) s (turn_iteration t r) = Some (s', evs) \<and>
        sends_done evs c1 q1 (ok, c', q')) \<and>
     (neighbors_known (node_config c) s \<longrightarrow> neighbors_known (node_config c) s')"

lemma turn_accepts:
  "received_from L nbr c q r c1 q1 \<Longrightarrow> acceptable_iteration L nbr (node_config c) (turn_iteration t r)"
  by (cases r) (auto simp: received_from_def acceptable_iteration_def turn_iteration_def)

lemma proper_readable: "all_sent (proper L me) evs \<Longrightarrow> all_sent readable evs"
  by (auto simp: all_sent_def proper_def)

lemma worker_turn_runs:
  assumes rdy: "turn_ready L nbr c q" and h: "honest_state L nbr (node_config c) s"
    and net: "neighbors (node_config c) nbr" and small: "nports c < 256"
    and io: "n_rx t = quiet_io" "healthy (n_tx t)"
  shows "\<exists>ok s' evs r c' q'. worker_turn t s c q = Some (if ok then Some s' else None, c', q') \<and>
    turn_runs L nbr t s c q ok s' evs r c' q'"
proof -
  obtain r c1 q1 where r: "mixnet_recv quiet_io c q = Some (r, c1, q1)" "received_from L nbr c q r c1 q1"
    using recv_ready [OF rdy small] by blast
  let ?it = "turn_iteration t r" and ?top = "\<lambda>(_ :: mixnet_address) (_ :: mixnet_lsa_link_params list). True"
  have "acceptable_iteration ?top nbr (node_config c) ?it" "honest_state ?top nbr (node_config c) s"
    using turn_accepts [OF r(2), of t] acceptable_mono [of L nbr _ _ _ ?top] honest_state_mono [OF h, of ?top]
    by (auto simp: acceptable_iteration_def split: option.splits)
  from loop_body_conducts [OF this(2) net small this(1)]
  obtain s' evs where b: "loop_body (node_config c) s ?it = Some (s', evs)"
    "neighbors_known (node_config c) s \<longrightarrow> neighbors_known (node_config c) s'"
    "all_sent (proper ?top (node_addr (node_config c))) evs"
    by (auto simp: vouched_def conducts_def)
  have c1: "ctx_ok c1" "node_config c1 = node_config c" and "mq_pcap q1 = mq_pcap q"
    using r(2) by (simp_all add: received_from_def same_links_def)
  then obtain sp where "implements (mq_pcap q1) sp" using rdy by (auto simp: turn_ready_def)
  from send_events_done [OF c1(1) this io(2) proper_readable [OF b(3)]] obtain ok c' q' where
    e: "send_events (n_tx t) evs c1 q1 = Some (ok, c', q')" "sends_done evs c1 q1 (ok, c', q')" by auto
  have "r \<noteq> Recv_thrown" using r(2) by (auto simp: received_from_def)
  then have "worker_turn t s c q = Some (if ok then Some s' else None, c', q')"
    using r(1) b(1) c1(2) e(1) by (simp add: worker_turn_def io(1))
  then show ?thesis using r(2) b e(2) unfolding turn_runs_def by blast
qed

lemma turn_runs_conducts:
  assumes run: "turn_runs L nbr t s c q ok s' evs r c' q'" and h: "honest_state L nbr (node_config c) s"
    and net: "neighbors (node_config c) nbr" and small: "nports c < 256"
    and v: "vouched L nbr (node_config c) s'"
  shows "honest_state L nbr (node_config c) s'" and "all_sent (proper L (node_addr (node_config c))) evs"
proof -
  obtain c1 q1 where b: "loop_body (node_config c) s (turn_iteration t r) = Some (s', evs)"
    "received_from L nbr c q r c1 q1" using run by (auto simp: turn_runs_def)
  have "conducts L nbr (node_config c) s (loop_body (node_config c) s (turn_iteration t r))"
    by (rule loop_body_conducts [OF h net small turn_accepts [OF b(2)]]) (use v b in auto)
  then show "honest_state L nbr (node_config c) s'" "all_sent (proper L (node_addr (node_config c))) evs"
    by (simp_all add: conducts_def b(1))
qed

lemma outgoing_frames:
  assumes "all_sent (proper L me) evs"
  shows "frames_of L me (outgoing evs i)"
  using assms wire_form_proper by (auto simp: frames_of_def outgoing_def all_sent_def)

lemma all_sent_append: "all_sent P (xs @ ys) \<Longrightarrow> all_sent P xs"
  by simp

text \<open>What a turn adds to the links, as frames.\<close>

lemma turn_frames:
  assumes run: "turn_runs L nbr t s c q ok s' evs r c' q'"
    and all: "all_sent (proper L' me) evs" and i: "i < nports c"
  shows "\<exists>fs. tx_wire c' ! i = tx_wire c ! i @ concat fs \<and> frames_of L' me fs"
proof -
  obtain c1 q1 where r: "received_from L nbr c q r c1 q1" and s: "sends_done evs c1 q1 (ok, c', q')"
    using run by (auto simp: turn_runs_def)
  obtain pre post where w: "evs = pre @ post"
    "\<forall>j < nports c1. tx_wire c' ! j = tx_wire c1 ! j @ concat (outgoing pre j)"
    using s by (auto simp: sends_done_def send_log_def)
  have "tx_wire c' ! i = tx_wire c ! i @ concat (outgoing pre i)"
    using w(2) r i by (simp add: received_from_def same_links_def)
  moreover have "frames_of L' me (outgoing pre i)"
    using all w(1) by (intro outgoing_frames) simp
  ultimately show ?thesis by blast
qed

text \<open>The rely of the next turn, but for what arrives in between.\<close>

lemma arriving_next:
  assumes "arriving L me P" and "complete_packet P"
  shows "arriving L me (drop (frame_len P) P)"
proof -
  obtain later fs where s: "P @ later = concat fs" "frames_of L me fs" using assms(1) by (auto simp: arriving_def)
  from stream_head(2) [OF s assms(2)] obtain gs where
    "fs = take (frame_len P) P # gs" "drop (frame_len P) P @ later = concat gs" by blast
  then show ?thesis using s(2) unfolding arriving_def by (intro exI [of _ later] exI [of _ gs]) simp
qed

lemma received_ready:
  assumes rdy: "turn_ready L nbr c q" and r: "received_from L nbr c q r c1 q1"
  shows "turn_ready L nbr c1 q1"
proof -
  have f: "ctx_ok c1" "node_config c1 = node_config c" "mq_pcap q1 = mq_pcap q" "user_queue_ok q1"
    using r by (simp_all add: received_from_def same_links_def)
  have l: "length (rx_pending c) = nports c" using rdy by (simp add: turn_ready_def ctx_ok_def)
  have "arriving L (nbr i) (rx_pending c1 ! i)" if "i < nports c" for i
    using r rdy that l arriving_next
    by (cases r) (auto simp: received_from_def turn_ready_def Let_def nth_list_update split: if_splits)
  then show ?thesis using f rdy by (simp add: turn_ready_def)
qed

lemma user_queue_frame:
  "mq_user q' = mq_user q \<Longrightarrow> user_cells q' = user_cells q \<Longrightarrow> user_queue_ok q' = user_queue_ok q"
  by (simp add: user_queue_ok_def itc_ok_def)

lemma sends_ready:
  assumes "turn_ready L nbr c q" and "sends_done evs c q (ok, c', q')"
  shows "turn_ready L nbr c' q'"
  using assms user_queue_frame [of q' q] by (simp add: turn_ready_def sends_done_def send_frame_def)

lemma turn_runs_ready:
  assumes "turn_ready L nbr c q" and "turn_runs L nbr t s c q ok s' evs r c' q'"
  shows "turn_ready L nbr c' q'"
  using assms received_ready sends_ready unfolding turn_runs_def by blast

text \<open>How the record of the thread changes.\<close>

definition thread_after :: "bool \<Rightarrow> node_context \<Rightarrow> node_context \<Rightarrow> bool" where
  "thread_after ok c c' \<longleftrightarrow> node_config c' = node_config c \<and> link_states c' = link_states c \<and>
     is_pcap_subscribed c' = is_pcap_subscribed c \<and>
     (if ok then ts c' = ts c
      else is_pcap_subscribed c \<and> ts c' = (ts c)\<lparr>exit_code := FRAGMENT_PCAP_MQ_FULL, exited := True\<rparr>)"

lemma turn_runs_thread:
  "turn_runs L nbr t s c q ok s' evs r c' q' \<Longrightarrow> thread_after ok c c'"
  by (cases ok) (auto simp: turn_runs_def received_from_def same_links_def sends_done_def send_frame_def thread_after_def)

text \<open>
  A turn of the node's thread, from both ends of its links. As long as every neighbour's
  stream so far is the beginning of a sequence of whole frames that fit their types, name their
  sender and advertise only what \<open>L\<close> vouches for, and the user's queue holds packets as the
  fragment builds them, a turn returns -- no access outside a block or array, no blocking, no
  exception for a bad stream; it leaves the same rely for the next turn and the node honest, and
  what it has put on each link is again a sequence of such frames. Only an empty pool of a
  subscribed pcap queue ends the thread.
\<close>

theorem worker_turn_guarantees:
  assumes "turn_ready L nbr c q" and "honest_state L nbr (node_config c) s"
    and "neighbors (node_config c) nbr" and "nports c < 256"
    and "L (node_addr (node_config c)) (true_links nbr (node_config c))"
    and "n_rx t = quiet_io" and "healthy (n_tx t)"
  shows "\<exists>r c' q'. worker_turn t s c q = Some (r, c', q') \<and> turn_ready L nbr c' q' \<and>
    thread_after (r \<noteq> None) c c' \<and>
    (\<forall>s'. r = Some s' \<longrightarrow> honest_state L nbr (node_config c) s') \<and>
    (\<forall>i < nports c. \<exists>fs. tx_wire c' ! i = tx_wire c ! i @ concat fs \<and>
       frames_of L (node_addr (node_config c)) fs)"
proof -
  obtain ok s' evs r c' q' where w: "worker_turn t s c q = Some (if ok then Some s' else None, c', q')"
    and run: "turn_runs L nbr t s c q ok s' evs r c' q'"
    using worker_turn_runs [OF assms(1-4,6,7)] by blast
  have "vouched L nbr (node_config c) s'" using assms(5) by (simp add: vouched_def)
  note con = turn_runs_conducts [OF run assms(2-4) this]
  show ?thesis
    using w con(1) turn_runs_ready [OF assms(1) run] turn_runs_thread [OF run] turn_frames [OF run con(2)]
    by (cases ok) auto
qed

subsection \<open>The life of the thread\<close>

definition others_keep :: "claims \<Rightarrow> (nat \<Rightarrow> mixnet_address) \<Rightarrow> mixnet_node_config \<Rightarrow> node_turn \<Rightarrow> bool" where
  "others_keep L nbr cfg t \<longleftrightarrow> (\<forall>c q. node_config c = cfg \<longrightarrow> turn_ready L nbr c q \<longrightarrow>
     (let (c', q') = n_others t (c, q) in node_config c' = cfg \<and> turn_ready L nbr c' q' \<and>
        exit_code (ts c') = exit_code (ts c)))"

definition told_to_stop :: "node_turn \<Rightarrow> bool" where
  "told_to_stop t \<longleftrightarrow> (\<forall>x. \<not> thread_keep_running (ts (fst (n_others t x))))"

lemma state_free_sends: "send_events io (snd (state_free s)) c q = Some (True, c, q)"
proof -
  have "send_events io (map (\<lambda>m. Free (slot_packet m)) ms) c q = Some (True, c, q)" for ms :: "mix_slot list"
    by (induction ms) simp_all
  then show ?thesis by (simp add: state_free_def)
qed

lemma worker_loop_ends:
  assumes net: "neighbors cfg nbr" and small: "ports cfg < 256"
    and own: "L (node_addr cfg) (true_links nbr cfg)"
  shows "turn_ready L nbr c q \<Longrightarrow> node_config c = cfg \<Longrightarrow> honest_state L nbr cfg s \<Longrightarrow>
    (\<forall>t \<in> set turns. others_keep L nbr cfg t \<and> n_rx t = quiet_io \<and> healthy (n_tx t)) \<Longrightarrow>
    turns \<noteq> [] \<Longrightarrow> told_to_stop (last turns) \<Longrightarrow> exit_code (ts c) = NONE \<Longrightarrow>
    \<exists>c' q'. worker_loop turns s c q = Some (c', q') \<and> turn_ready L nbr c' q' \<and>
      exit_code (ts c') \<in> {NONE, FRAGMENT_PCAP_MQ_FULL}"
proof (induction turns arbitrary: s c q)
  case Nil
  then show ?case by simp
next
  case (Cons t turns)
  obtain c1 q1 where others: "n_others t (c, q) = (c1, q1)" by fastforce
  have t: "others_keep L nbr cfg t" "n_rx t = quiet_io" "healthy (n_tx t)" using Cons.prems(4) by simp_all
  then have rdy: "turn_ready L nbr c1 q1" "node_config c1 = cfg" "exit_code (ts c1) = NONE"
    using Cons.prems(1,2,7) others unfolding others_keep_def by fastforce+
  show ?case
  proof (cases "thread_keep_running (ts c1)")
    case False
    then show ?thesis using rdy others by (simp add: state_free_sends)
  next
    case True
    have more: "turns \<noteq> []" "told_to_stop (last turns)"
    proof -
      have "\<not> told_to_stop t" using True others unfolding told_to_stop_def by (metis fst_conv)
      then show "turns \<noteq> []" using Cons.prems(6) by (cases turns) auto
      then show "told_to_stop (last turns)" using Cons.prems(6) by simp
    qed
    have h: "honest_state L nbr (node_config c1) s" "neighbors (node_config c1) nbr" "nports c1 < 256"
      using Cons.prems(3) net small by (simp_all add: rdy(2))
    obtain ok s' evs r c2 q2 where w: "worker_turn t s c1 q1 = Some (if ok then Some s' else None, c2, q2)"
      and run: "turn_runs L nbr t s c1 q1 ok s' evs r c2 q2"
      using worker_turn_runs [OF rdy(1) h t(2,3)] by blast
    have "vouched L nbr (node_config c1) s'" using own by (simp add: vouched_def rdy(2))
    from turn_runs_conducts(1) [OF run h this] have h': "honest_state L nbr cfg s'" by (simp add: rdy(2))
    note th = turn_runs_thread [OF run] and rdy2 = turn_runs_ready [OF rdy(1) run]
    show ?thesis
    proof (cases ok)
      case False
      then show ?thesis using w others True th rdy2 by (simp add: thread_after_def)
    next
      case True
      then have "node_config c2 = cfg" "exit_code (ts c2) = NONE" using th rdy by (simp_all add: thread_after_def)
      with Cons.IH [OF rdy2 _ h' _ more] Cons.prems(4) show ?thesis
        using w others True \<open>thread_keep_running (ts c1)\<close> by simp
    qed
  qed
qed

text \<open>
  C31. The life of the node's thread. It starts with the node's own announcement and takes any
  number of turns, between which the other threads of the fragment keep the rely; when one of
  them has cleared \<open>keep_running\<close>, as the end of a testcase does, the thread frees what the node
  holds and returns, marked as exited, without an error code unless the pool of the pcap queue
  was empty. It also returns when the node's memory cannot be allocated.
\<close>

theorem worker_node_ends:
  assumes "neighbors cfg nbr" and "ports cfg < 256" and "L (node_addr cfg) (true_links nbr cfg)"
    and "turn_ready L nbr c q" and "node_config c = cfg" and "exit_code (ts c) = NONE" and "healthy io"
    and "\<forall>t \<in> set turns. others_keep L nbr cfg t \<and> n_rx t = quiet_io \<and> healthy (n_tx t)"
    and "turns \<noteq> []" and "told_to_stop (last turns)"
  shows "\<exists>c' q'. worker_node e t0 io turns c q = Some (c', q') \<and> exited (ts c') \<and>
    exit_code (ts c') \<in> {NONE, FRAGMENT_PCAP_MQ_FULL}"
proof -
  let ?c = "c\<lparr>ts := (ts c)\<lparr>thread_started := True\<rparr>\<rparr>"
  have rdy: "turn_ready L nbr ?c q" using assms(4) by (simp add: turn_ready_def ctx_ok_def)
  show ?thesis
  proof (cases "state_init (alloc e) (fst t0) (fst (snd t0)) (snd (snd t0)) cfg")
    case None
    then show ?thesis using assms(5,6) by (simp add: worker_node_def worker_start_def Let_def)
  next
    case (Some s)
    have h: "honest_state L nbr cfg s" by (rule state_init_honest [OF Some])
    let ?evs = "broadcast_stp e cfg s (- 1)"
    obtain sp where "implements (mq_pcap q) sp" using rdy by (auto simp: turn_ready_def)
    moreover have "ctx_ok ?c" using rdy by (simp add: turn_ready_def)
    ultimately obtain ok c1 q1 where e: "send_events io ?evs ?c q = Some (ok, c1, q1)"
      "sends_done ?evs ?c q (ok, c1, q1)"
      using send_events_done [OF _ _ assms(7) proper_readable [OF broadcast_stp_proper [where L = L]]]
      by (metis prod_cases3)
    have rdy1: "turn_ready L nbr c1 q1" by (rule sends_ready [OF rdy e(2)])
    show ?thesis
    proof (cases ok)
      case False
      then show ?thesis
        using Some e assms(5) by (simp add: worker_node_def worker_start_def Let_def sends_done_def send_frame_def)
    next
      case True
      then have c1: "node_config c1 = cfg" "exit_code (ts c1) = NONE"
        using e(2) assms(5,6) by (simp_all add: sends_done_def send_frame_def)
      from worker_loop_ends [OF assms(1-3) rdy1 c1(1) h assms(8-10) c1(2)] show ?thesis
        using Some e(1) True assms(5) by (auto simp: worker_node_def worker_start_def Let_def)
    qed
  qed
qed

subsection \<open>An example\<close>

text \<open>A kernel that takes each packet in one piece; a turn in which nothing happens.\<close>

definition easy_io :: "nat \<Rightarrow> nat \<Rightarrow> tx_io" where
  "easy_io k n = (Some True, [(Sent n, 0)])"

lemma easy_io_healthy: "healthy easy_io"
  by (simp add: healthy_def easy_io_def no_send_error_def)

definition calm_turn :: node_turn where
  "calm_turn = \<lparr>n_others = (\<lambda>x. x), n_rx = quiet_io, n_tx = easy_io, n_handler = calm_env, n_timers = calm_env\<rparr>"

definition last_turn :: node_turn where
  "last_turn = calm_turn\<lparr>n_others := (\<lambda>(c, q). (c\<lparr>ts := (ts c)\<lparr>thread_keep_running := False\<rparr>\<rparr>, q))\<rparr>"

definition any_claim :: claims where
  "any_claim a ls = True"

text \<open>A STP packet of node 3 has arrived, and the first bytes of another one.\<close>

definition bid_ctx :: node_context where
  "bid_ctx = example_ctx\<lparr>rx_pending := [example_bid @ [18, 0, 0], []]\<rparr>"

lemma example_ctx_config: "node_config example_ctx = example_config"
  by (simp add: example_ctx_def init_node_context_def two_ports_def example_config_def Let_def)

lemma bid_frames: "frames_of L 3 [example_bid, example_bid]"
proof -
  have "valid_frame example_bid" "readable example_bid" "pkt_type example_bid = 0"
    "length example_bid = 18" "rd16 example_bid 16 = 3" by code_simp+
  then show ?thesis by (simp add: proper_def)
qed

lemma bid_ctx_ready: "turn_ready any_claim example_nbr bid_ctx example_itc"
proof -
  have "example_bid @ [18, 0, 0] @ drop 3 example_bid = concat [example_bid, example_bid]" by code_simp
  then have "arriving any_claim 3 (example_bid @ [18, 0, 0])"
    using bid_frames unfolding arriving_def by (metis append.assoc)
  moreover have "arriving any_claim 2 []"
    unfolding arriving_def by (intro exI [of _ "[]"]) simp
  moreover have "ctx_ok bid_ctx" using example_ctx_ok by (simp add: bid_ctx_def ctx_ok_def)
  moreover have "user_queue_ok example_itc"
    using example_itc_ok unfolding user_queue_ok_def by (intro exI [of _ idle_spec]) (simp add: idle_spec_def)
  moreover have "implements (mq_pcap example_itc) idle_spec"
    using example_queue_idle by (simp add: example_itc_def)
  ultimately show ?thesis
    by (auto simp: turn_ready_def bid_ctx_def example_nbr_def less_Suc_eq numeral_2_eq_2)
qed

lemma bid_ctx_sel: "node_config bid_ctx = example_config" "ts bid_ctx = thread_state_new"
  by (simp_all add: bid_ctx_def example_ctx_config) (simp add: example_ctx_def init_node_context_def Let_def)

lemma worker_turn_guarantees_witness:
  "\<exists>r c' q'. worker_turn calm_turn idle_state bid_ctx example_itc = Some (r, c', q') \<and>
     turn_ready any_claim example_nbr c' q'"
  using worker_turn_guarantees [of any_claim example_nbr bid_ctx example_itc idle_state calm_turn]
    bid_ctx_ready state_init_honest [OF idle_state_init, of any_claim example_nbr] example_neighbors(1) easy_io_healthy
  by (auto simp: bid_ctx_sel any_claim_def calm_turn_def)

lemma example_turns_keep:
  "others_keep any_claim example_nbr example_config calm_turn"
  "others_keep any_claim example_nbr example_config last_turn" "told_to_stop last_turn"
  by (auto simp: others_keep_def told_to_stop_def calm_turn_def last_turn_def turn_ready_def ctx_ok_def)

lemma worker_node_ends_witness:
  "\<exists>c' q'. worker_node calm_env (0, 0, 0) easy_io [calm_turn, calm_turn, last_turn] bid_ctx example_itc =
     Some (c', q') \<and> exited (ts c')"
proof -
  have "exit_code (ts bid_ctx) = NONE" by (simp add: bid_ctx_sel thread_state_new_def)
  moreover have "any_claim (node_addr example_config) (true_links example_nbr example_config)"
    by (simp add: any_claim_def)
  moreover have "\<forall>t \<in> set [calm_turn, calm_turn, last_turn].
      others_keep any_claim example_nbr example_config t \<and> n_rx t = quiet_io \<and> healthy (n_tx t)"
    using example_turns_keep easy_io_healthy by (simp add: calm_turn_def last_turn_def)
  ultimately show ?thesis
    using worker_node_ends [OF example_neighbors(1) _ _ bid_ctx_ready bid_ctx_sel(1) _ easy_io_healthy,
        of "[calm_turn, calm_turn, last_turn]" calm_env "(0, 0, 0)"] example_turns_keep(3)
    by auto
qed

end
