(* ===== verification/Delivery.thy ===== *)
theory Delivery
  imports Forwarding
begin

text \<open>
  A network of nodes that run \<open>handle_routed\<close>: the journey of a DATA packet from the user of one
  node to the user of another. Nothing here models code of its own; the theory composes the
  roles of \<open>mixnet/node.c\<close> over several nodes.
\<close>

subsection \<open>Journeys\<close>

text \<open>
  A network gives each address its configuration and state; \<open>q\<close> is the port on which a node
  receives the packet. A journey of at most \<open>n\<close> handler calls starts where the packet arrives;
  it ends at the node whose user gets the packet.
\<close>

type_synonym network = "mixnet_address \<Rightarrow> mixnet_node_config \<times> node_state"

fun travel ::
  "env \<Rightarrow> network \<Rightarrow> (mixnet_address \<Rightarrow> byte) \<Rightarrow> nat \<Rightarrow> mixnet_address \<Rightarrow> buf \<Rightarrow>
   (mixnet_address \<times> buf) option" where
  "travel e N q 0 a b = None"
| "travel e N q (Suc n) a b =
     (case handle_routed e (fst (N a)) (snd (N a)) (q a) b of
        None \<Rightarrow> None
      | Some (s, evs) \<Rightarrow>
          (case sent evs of
             [(p, x)] \<Rightarrow>
               if p = user_port (fst (N a)) then Some (a, x)
               else travel e N q n (neighbor_addr s ! unat p) x
           | _ \<Rightarrow> None))"

text \<open>Nodes that have started, do not mix, and have a user port of their own.\<close>

definition plain_network :: "network \<Rightarrow> (mixnet_address \<Rightarrow> byte) \<Rightarrow> bool" where
  "plain_network N q \<longleftrightarrow>
     (\<forall>a. node_addr (fst (N a)) = a \<and> wf_state (fst (N a)) (snd (N a)) \<and> mix (snd (N a)) = None
        \<and> ports (fst (N a)) < 256 \<and> q a \<noteq> user_port (fst (N a)))"

definition knows_port :: "network \<Rightarrow> mixnet_address \<Rightarrow> mixnet_address \<Rightarrow> bool" where
  "knows_port N a b \<longleftrightarrow> port_of (fst (N a)) (snd (N a)) b \<noteq> None"

lemma send_plain:
  assumes "mix s = None" and "ports c < 256" and "rh_next_hop b = Some a"
    and "port_of c s a = Some p"
  shows "send_to_next_hop c s b = Some (s, [Send (of_nat p) b])"
  using assms by (simp add: send_to_next_hop_def send_packet_def)

lemma linked_nth:
  "linked T a p \<Longrightarrow> i < length p \<Longrightarrow> adjacent T ((a # p) ! i) (p ! i)"
  by (induction p arbitrary: a i) (auto simp: less_Suc_eq_0_disj)

lemma port_byte:
  assumes "ports c < 256" and "port_of c s a = Some p"
  shows "(of_nat p :: byte) \<noteq> user_port c" and "neighbor_addr s ! unat (of_nat p :: byte) = a"
    and "unat (of_nat p :: byte) = p" and "p < ports c"
proof -
  have p: "p < ports c" "neighbor_addr s ! p = a" using port_of_SomeD [OF assms(2)] by auto
  then have u: "unat (of_nat p :: byte) = p" using assms(1) by (intro unat_of_nat_u8) simp
  have "unat (user_port c) = ports c"
    using assms(1) by (simp add: user_port_def unsigned_ucast_eq take_bit_nat_eq_self)
  then show "(of_nat p :: byte) \<noteq> user_port c" using u p(1) by auto
  show "neighbor_addr s ! unat (of_nat p :: byte) = a" "unat (of_nat p :: byte) = p" "p < ports c"
    using u p by simp_all
qed

text \<open>A DATA packet under way: at hop \<open>h\<close> of its route \<open>r\<close> to \<open>d\<close>.\<close>

definition under_way :: "mixnet_address list \<Rightarrow> mixnet_address \<Rightarrow> nat \<Rightarrow> buf \<Rightarrow> bool" where
  "under_way r d h b \<longleftrightarrow>
     pkt_block b \<and> rd16 b off_type = DATA_code \<and> well_formed_routed b
     \<and> rd16 b off_rh_dst = d \<and> rh_route b = r \<and> rd16 b off_rh_hop_index = of_nat h"

definition same_content :: "buf \<Rightarrow> buf \<Rightarrow> bool" where
  "same_content x y \<longleftrightarrow>
     rd16 y off_rh_src = rd16 x off_rh_src \<and> rd16 y off_rh_dst = rd16 x off_rh_dst
     \<and> pkt_total_size y = pkt_total_size x \<and> user_data y = user_data x"

lemma under_way_step:
  assumes b: "under_way r d h b" and h: "h < length r"
  shows "under_way r d (Suc h) (wr16 b off_rh_hop_index (rd16 b off_rh_hop_index + 1))"
    and "same_content b (wr16 b off_rh_hop_index (rd16 b off_rh_hop_index + 1))"
    and "rh_next_hop (wr16 b off_rh_hop_index (rd16 b off_rh_hop_index + 1)) = Some ((r @ [d]) ! Suc h)"
    and "rd16 b off_rh_hop_index < rd16 b off_rh_route_length"
    and "rd16 b (off_rh_route (unat (rd16 b off_rh_hop_index))) = r ! h"
proof -
  let ?x = "wr16 b off_rh_hop_index (rd16 b off_rh_hop_index + 1)"
    and ?n = "unat (rd16 b off_rh_route_length)"
  have u: "pkt_block b" "rd16 b off_type = DATA_code" "well_formed_routed b"
    "rd16 b off_rh_dst = d" "rh_route b = r" "rd16 b off_rh_hop_index = of_nat h"
    using b by (simp_all add: under_way_def)
  have n: "?n = length r" using u(5) by (auto simp: rh_route_def)
  have len: "20 + 2 * ?n \<le> length b" by (rule well_formed_routed_block [OF u(1,3)])
  have size: "20 + 2 * ?n \<le> unat (pkt_total_size b)" "unat (pkt_total_size b) \<le> length b"
    using u(1,3) by (simp_all add: well_formed_routed_def pkt_block_def)
  have lx: "length ?x = length b" using len by simp
  have head: "rd16 ?x off = rd16 b off" if "off + 2 \<le> 18 \<or> 20 \<le> off" "off + 2 \<le> length b" for off
    using that len by (intro rd16_wr16_other) auto
  have fields: "rd16 ?x 0 = rd16 b 0" "rd16 ?x 2 = rd16 b 2" "rd16 ?x 12 = rd16 b 12"
    "rd16 ?x 14 = rd16 b 14" "rd16 ?x 16 = rd16 b 16"
    using len by (simp_all add: head)
  have hop: "rd16 ?x 18 = of_nat (Suc h)" using len u(6) by simp
  have at: "rd16 ?x (20 + 2 * i) = rd16 b (20 + 2 * i)" if "i < ?n" for i
    using that len by (intro head) auto
  have "rh_route ?x = rh_route b"
    unfolding rh_route_def using fields(5) at by (auto intro!: map_cong)
  then have route: "rh_route ?x = r" using u(5) by simp
  have h16: "unat (of_nat h :: u16) = h" "unat (of_nat (Suc h) :: u16) = Suc h"
    using h n unat_u16_less [of "rd16 b off_rh_route_length"]
    by (auto intro!: unat_of_nat_u16 simp del: of_nat_Suc)
  have pt: "pkt_total_size ?x = pkt_total_size b" using fields(1) by (simp add: pkt_total_size_def)
  show "under_way r d (Suc h) ?x"
    using u fields hop route pt lx
    by (simp add: under_way_def pkt_block_def well_formed_routed_def)
  have "user_data ?x = user_data b"
    unfolding user_data_def off_rh_route_length_def
    using fields(5) pt size len by (simp add: slice_wr16_other)
  then show "same_content b ?x" using fields pt by (simp add: same_content_def)
  show "rd16 b off_rh_hop_index < rd16 b off_rh_route_length"
    using u(6) h h16(1) n by (simp add: word_less_nat_alt)
  have nth: "rd16 b (20 + 2 * i) = r ! i" if "i < ?n" for i
  proof -
    have "rh_route b ! i = rd16 b (20 + 2 * i)" using that by (simp add: rh_route_def)
    with u(5) show ?thesis by simp
  qed
  show "rd16 b (off_rh_route (unat (rd16 b off_rh_hop_index))) = r ! h"
    using u(6) h16(1) nth h n by simp
  have "20 + 2 * unat (rd16 ?x off_rh_route_length) \<le> length ?x" using fields(5) len lx by simp
  note nh = rh_next_hop_defined [OF this]
  show "rh_next_hop ?x = Some ((r @ [d]) ! Suc h)"
  proof (cases "Suc h < length r")
    case True
    then have "rd16 ?x 18 < rd16 ?x 16" unfolding hop fields(5)
      using h16(2) n by (simp add: word_less_nat_alt del: of_nat_Suc)
    moreover have "rd16 ?x (20 + 2 * Suc h) = r ! Suc h"
      using at [of "Suc h"] nth [of "Suc h"] True n by simp
    ultimately show ?thesis
      using nh True hop h16(2) by (simp add: nth_append del: of_nat_Suc)
  next
    case False
    then have "\<not> rd16 ?x 18 < rd16 ?x 16" unfolding hop fields(5)
      using h16(2) n h by (simp add: word_less_nat_alt del: of_nat_Suc)
    moreover have "Suc h = length r" using False h by simp
    ultimately show ?thesis using nh fields(4) u(4) by (simp add: nth_append)
  qed
qed

subsection \<open>Arrival\<close>

lemma hop_arrives:
  assumes "under_way r d h b" and "node_addr c = d" and "port \<noteq> user_port c"
  shows "handle_routed e c s port b = Some (s, [Send (user_port c) b])"
  using assms handle_routed_from_neighbor [of b port c e s] by (simp add: under_way_def wants_reply_def)

lemma hop_forwards:
  assumes b: "under_way r d h b" and h: "h < length r" and d: "d \<noteq> r ! h"
    and node: "node_addr c = r ! h" "port \<noteq> user_port c" "mix s = None" "ports c < 256"
    and p: "port_of c s ((r @ [d]) ! Suc h) = Some p"
  shows "\<exists>x. (\<forall>e. handle_routed e c s port b = Some (s, [Send (of_nat p) x])) \<and>
    under_way r d (Suc h) x \<and> same_content b x"
proof -
  note step = under_way_step [OF b h]
  have "handle_routed e c s port b =
      Some (s, [Send (of_nat p) (wr16 b off_rh_hop_index (rd16 b off_rh_hop_index + 1))])" for e
    using handle_routed_from_neighbor [OF _ node(2), of b e s] b d node(1) step(4,5)
      send_plain [OF node(3,4) step(3) p]
    by (simp add: under_way_def my_hop_def)
  then show ?thesis using step(1,2) by blast
qed

lemma arrived:
  assumes net: "plain_network N q" and b: "under_way r d (length r) b"
  shows "travel e N q (Suc n) d b = Some (d, b)"
proof -
  have "node_addr (fst (N d)) = d" "q d \<noteq> user_port (fst (N d))"
    using net by (simp_all add: plain_network_def)
  from hop_arrives [OF b this] show ?thesis by simp
qed

lemma forwarded:
  assumes net: "plain_network N q" and b: "under_way r d h b" and h: "h < length r"
    and d: "d \<noteq> r ! h" and port: "knows_port N (r ! h) ((r @ [d]) ! Suc h)"
  shows "\<exists>x. under_way r d (Suc h) x \<and> same_content b x
    \<and> travel e N q (Suc n) (r ! h) b = travel e N q n ((r @ [d]) ! Suc h) x"
proof -
  let ?a = "r ! h"
  have node: "node_addr (fst (N ?a)) = ?a" "q ?a \<noteq> user_port (fst (N ?a))"
    "mix (snd (N ?a)) = None" "ports (fst (N ?a)) < 256"
    using net by (simp_all add: plain_network_def)
  obtain p where p: "port_of (fst (N ?a)) (snd (N ?a)) ((r @ [d]) ! Suc h) = Some p"
    using port by (auto simp: knows_port_def)
  obtain x where x: "handle_routed e (fst (N ?a)) (snd (N ?a)) (q ?a) b = Some (snd (N ?a), [Send (of_nat p) x])"
    "under_way r d (Suc h) x" "same_content b x"
    using hop_forwards [OF b h d node p] by blast
  have "travel e N q (Suc n) ?a b = travel e N q n ((r @ [d]) ! Suc h) x"
    using x(1) port_byte [OF node(4) p] by simp
  with x(2,3) show ?thesis by blast
qed

lemma same_content_trans: "same_content x y \<Longrightarrow> same_content y z \<Longrightarrow> same_content x z"
  by (simp add: same_content_def)

lemma journey:
  assumes net: "plain_network N q" and d: "d \<notin> set r" and b: "under_way r d h b"
    and h: "h \<le> length r"
    and ports: "\<And>i. i < length r \<Longrightarrow> knows_port N (r ! i) ((r @ [d]) ! Suc i)"
  shows "\<exists>x. travel e N q (Suc (length r - h)) ((r @ [d]) ! h) b = Some (d, x) \<and> same_content b x"
  using b h
proof (induction "length r - h" arbitrary: h b)
  case 0
  then have "h = length r" by simp
  then show ?case using arrived [OF net] 0 by (simp add: same_content_def)
next
  case (Suc n)
  then have h: "h < length r" by simp
  then have "d \<noteq> r ! h" using d by auto
  from forwarded [OF net Suc.prems(1) h this ports [OF h]] obtain x
    where x: "under_way r d (Suc h) x" "same_content b x"
      "travel e N q (Suc (length r - h)) (r ! h) b = travel e N q (length r - h) ((r @ [d]) ! Suc h) x"
    by blast
  have n: "n = length r - Suc h" "length r - h = Suc (length r - Suc h)" using Suc.hyps(2) by simp_all
  from Suc.hyps(1) [OF n(1) x(1)] h obtain y where
    "travel e N q (Suc (length r - Suc h)) ((r @ [d]) ! Suc h) x = Some (d, y)" "same_content x y"
    by auto
  then show ?case
    using x(2,3) n(2) h same_content_trans by (auto simp: nth_append)
qed

subsection \<open>From user to user\<close>

lemma net_route_distinct: "net_route T me a c p \<Longrightarrow> distinct p \<and> me \<notin> set p"
  by (induction rule: net_route.induct) auto

lemma sourced_under_way:
  assumes x: "sourced e b r x" and r: "length r \<le> 256" and ty: "rd16 b off_type = DATA_code"
    and d: "rd16 b off_rh_dst = d"
  shows "under_way r d 0 x" and "user_data x = user_data b"
    and "rd16 x off_rh_src = rd16 b off_rh_src"
proof -
  have f: "pkt_block x" "rh_route x = r" "rd16 x off_rh_hop_index = 0"
    "rd16 x off_type = DATA_code" "rd16 x off_rh_dst = d" "rd16 x off_rh_src = rd16 b off_rh_src"
    "user_data x = user_data b"
    "unat (pkt_total_size x) = off_rh_route (length r) + length (user_data b)"
    using x ty d by (simp_all add: sourced_def)
  have "unat (rd16 x off_rh_route_length) = length r" using f(2) by (auto simp: rh_route_def)
  with f show "under_way r d 0 x" by (simp add: under_way_def well_formed_routed_def)
  show "user_data x = user_data b" "rd16 x off_rh_src = rd16 b off_rh_src" by (fact f)+
qed

text \<open>What the first node makes of its user's packet.\<close>

lemma source_sends:
  assumes wf: "wf_state c s" and node: "mix s = None" "ports c < 256" and fv: "fib_valid c s"
    and shortest: "\<not> do_random_routing c"
    and b: "user_request b" "rd16 b off_type = DATA_code"
    and path: "fib_lookup s (rd16 b off_rh_dst) = Some path"
    and fits: "off_rh_route (length (route path)) + length (user_data b) \<le> MAX_MIXNET_PACKET_SIZE"
    and p: "port_of c s ((route path @ [rd16 b off_rh_dst]) ! 0) = Some p"
  shows "\<exists>x. handle_routed e c s (user_port c) b = Some (s, [Send (of_nat p) x]) \<and>
    under_way (route path) (rd16 b off_rh_dst) 0 x \<and> user_data x = user_data b \<and>
    rd16 x off_rh_src = rd16 b off_rh_src \<and>
    unat (pkt_total_size x) = off_rh_route (length (route path)) + length (user_data b)"
proof -
  let ?d = "rd16 b off_rh_dst" and ?r = "route path"
  have r: "choose_route e c s ?d path = ?r" using shortest by (simp add: choose_route_def)
  have len: "length ?r \<le> 256" using fib_validD [OF fv path] by simp
  obtain x where x: "sourced e b ?r x" "source_route e c s b = send_to_next_hop c s x"
  proof (cases rule: source_route_cases [where e = e, OF wf fv b(1)])
    case 1
    then show ?thesis using path fits r by simp
  next
    case (2 path' x)
    then show ?thesis using that path r by simp
  qed
  have "rh_next_hop x = Some ((?r @ [?d]) ! 0)"
    using sourced_next_hop [OF x(1) len] by (cases ?r) simp_all
  then have "handle_routed e c s (user_port c) b = Some (s, [Send (of_nat p) x])"
    using handle_routed_from_user [OF _ refl, of b e c s] b(1) x(2) send_plain [OF node _ p]
    by (simp add: user_request_def)
  moreover have "unat (pkt_total_size x) = off_rh_route (length ?r) + length (user_data b)"
    using x(1) b(2) by (simp add: sourced_def)
  ultimately show ?thesis using sourced_under_way [OF x(1) len b(2) refl] by blast
qed

text \<open>The route leads over links of the topology, and does not pass its destination.\<close>

lemma table_route:
  assumes "wf_state c s" and "fib_valid c s" and path: "fib_lookup s d = Some path"
  shows "linked (rows (topology s)) (node_addr c) (route path @ [d])" and "d \<notin> set (route path)"
proof -
  obtain k where k: "net_route (rows (topology s)) (node_addr c) d k (route path @ [d])"
    using fib_validD [OF assms(2) path] by (auto simp: best_net_route_def)
  then show "linked (rows (topology s)) (node_addr c) (route path @ [d])" by (rule net_route_linked)
  show "d \<notin> set (route path)" using net_route_distinct [OF k] by simp
qed

text \<open>End-to-end delivery.\<close>

lemma delivery:
  assumes net: "plain_network N q" and c: "N a = (c, s)" and fv: "fib_valid c s"
    and shortest: "\<not> do_random_routing c"
    and b: "user_request b" "rd16 b off_type = DATA_code"
    and path: "fib_lookup s (rd16 b off_rh_dst) = Some path"
    and fits: "off_rh_route (length (route path)) + length (user_data b) \<le> MAX_MIXNET_PACKET_SIZE"
    and links: "\<And>x y. adjacent (rows (topology s)) x y \<Longrightarrow> knows_port N x y"
  shows "\<exists>p x y. handle_routed e c s (user_port c) b = Some (s, [Send p x])
    \<and> travel e N q (Suc (length (route path))) (neighbor_addr s ! unat p) x
        = Some (rd16 b off_rh_dst, y)
    \<and> user_data y = user_data b \<and> rd16 y off_rh_src = rd16 b off_rh_src"
proof -
  let ?d = "rd16 b off_rh_dst" and ?r = "route path"
  have node: "node_addr c = a" "wf_state c s" "mix s = None" "ports c < 256"
    using net c unfolding plain_network_def by (metis fst_conv snd_conv)+
  note route = table_route [OF node(2) fv path, unfolded node(1)]
  have hops: "knows_port N ((a # ?r @ [?d]) ! i) ((?r @ [?d]) ! i)" if "i \<le> length ?r" for i
    using links linked_nth [OF route(1), of i] that by simp
  have "knows_port N a ((?r @ [?d]) ! 0)" using hops [of 0] by simp
  then obtain p where p: "port_of c s ((?r @ [?d]) ! 0) = Some p"
    using c by (auto simp: knows_port_def)
  obtain x where x: "handle_routed e c s (user_port c) b = Some (s, [Send (of_nat p) x])"
    "under_way ?r ?d 0 x" "user_data x = user_data b" "rd16 x off_rh_src = rd16 b off_rh_src"
    using source_sends [OF node(2-4) fv shortest b path fits p] by blast
  have "knows_port N (?r ! i) ((?r @ [?d]) ! Suc i)" if "i < length ?r" for i
    using hops [of "Suc i"] that by (simp add: nth_append)
  from journey [OF net route(2) x(2) _ this, of e] obtain y where
    y: "travel e N q (Suc (length ?r)) ((?r @ [?d]) ! 0) x = Some (?d, y)" "same_content x y"
    by auto
  then have "travel e N q (Suc (length ?r)) (neighbor_addr s ! unat (of_nat p :: byte)) x = Some (?d, y)"
    using port_byte(2) [OF node(4) p] by simp
  with x y(2) show ?thesis by (auto simp: same_content_def)
qed

text \<open>
  C1. End-to-end delivery. Let every node hold the right ports for the links the source's
  topology advertises. If the user of a node hands it a DATA packet that fits, for a destination
  in its forwarding table, the node sends one packet, and that packet, handled by one node after
  the other, reaches the user of the destination after exactly as many hops as its route has --
  with the source address and the user's bytes as they were handed over.
\<close>

theorem data_is_delivered:
  assumes net: "plain_network N q" and c: "N a = (c, s)" and fv: "fib_valid c s"
    and shortest: "\<not> do_random_routing c"
    and b: "user_request b" "rd16 b off_type = DATA_code"
    and path: "fib_lookup s (rd16 b off_rh_dst) = Some path"
    and fits: "off_rh_route (length (route path)) + length (user_data b) \<le> MAX_MIXNET_PACKET_SIZE"
    and links: "\<And>x y. adjacent (rows (topology s)) x y \<Longrightarrow> knows_port N x y"
  shows "\<exists>p x y. handle_routed e c s (user_port c) b = Some (s, [Send p x])
    \<and> travel e N q (Suc (length (route path))) (neighbor_addr s ! unat p) x
        = Some (rd16 b off_rh_dst, y)
    \<and> user_data y = user_data b \<and> rd16 y off_rh_src = rd16 b off_rh_src"
  by (rule delivery [OF assms])

subsection \<open>An example\<close>

text \<open>The square network: node 1 reaches node 4 through node 2.\<close>

definition square_network :: network where
  "square_network a =
     (example_config\<lparr>node_addr := a\<rparr>,
      if a = 1 then routed_state else square_state\<lparr>neighbor_addr := [4, 1]\<rparr>)"

lemma example_config_same: "example_config\<lparr>node_addr := 1\<rparr> = example_config"
  by (simp add: example_config_def)

lemma wf_state_node_addr [simp]: "wf_state (c\<lparr>node_addr := a\<rparr>) s = wf_state c s"
  by (simp add: wf_state_def wf_mix_def split: option.split)

lemma square_network_plain: "plain_network square_network (\<lambda>_. 0)"
proof -
  have "wf_state (example_config\<lparr>node_addr := a\<rparr>) routed_state" for a
    by (simp add: routed_state_ok(1))
  moreover have "wf_state (example_config\<lparr>node_addr := a\<rparr>)
      (square_state\<lparr>neighbor_addr := [4, 1]\<rparr>)" for a
    using square_state_ok(1) by (simp add: wf_state_def wf_mix_def square_state_def)
  moreover have "mix square_state = None" by (simp add: square_state_def)
  ultimately show ?thesis
    by (simp add: plain_network_def square_network_def routed_state_ok user_port_def)
qed

lemma square_network_links:
  "adjacent (rows square_graph) x y \<Longrightarrow> knows_port square_network x y"
proof -
  assume adj: "adjacent (rows square_graph) x y"
  have "rows square_graph x =
      (if x = 1 then Some (links (verts square_graph ! 0))
       else if x = 3 then Some (links (verts square_graph ! 1))
       else if x = 2 then Some (links (verts square_graph ! 2))
       else if x = 4 then Some [] else None)"
    by (auto simp: rows_def id_find_def square_graph_def)
  with adj have "(x, y) \<in> {(1, 3), (1, 2), (3, 4), (2, 4)}"
    by (auto simp: adjacent_def square_graph_def split: if_splits)
  moreover have "knows_port square_network 3 4" "knows_port square_network 2 4"
    by (code_simp, code_simp)
  moreover have "port_of example_config routed_state 3 \<noteq> None"
    "port_of example_config routed_state 2 \<noteq> None"
  proof -
    have "port_of example_config routed_state = port_of example_config square_state"
      by (intro ext port_of_cong) (simp add: routed_state_ok square_state_ok)
    moreover have "port_of example_config square_state 3 \<noteq> None"
      "port_of example_config square_state 2 \<noteq> None"
      by (code_simp, code_simp)
    ultimately show "port_of example_config routed_state 3 \<noteq> None"
      "port_of example_config routed_state 2 \<noteq> None" by simp_all
  qed
  ultimately show ?thesis
    by (auto simp: knows_port_def square_network_def example_config_same)
qed

theorem data_is_delivered_witness:
  "\<exists>p x y. handle_routed calm_env example_config routed_state (user_port example_config) hello_packet
      = Some (routed_state, [Send p x])
    \<and> travel calm_env square_network (\<lambda>_. 0) 2 (neighbor_addr routed_state ! unat p) x = Some (4, y)
    \<and> user_data y = user_data hello_packet"
proof -
  have at: "square_network 1 = (example_config, routed_state)"
    by (simp add: square_network_def example_config_same)
  have req: "user_request hello_packet"
    by (simp add: user_request_def pkt_block_def pkt_total_size_def hello_packet_fields)
  have data: "length (user_data hello_packet) = 2"
    by (simp add: user_data_def pkt_total_size_def hello_packet_fields)
  have path: "fib_lookup routed_state (rd16 hello_packet off_rh_dst)
      = Some \<lparr>reachable = True, route = [2]\<rparr>"
    using square_state_table by (simp add: hello_packet_fields routed_state_def)
  have links: "adjacent (rows (topology routed_state)) x y \<Longrightarrow> knows_port square_network x y" for x y
    using square_network_links by (simp add: routed_state_facts(1))
  have "\<not> do_random_routing example_config" by (simp add: example_config_def)
  from data_is_delivered [OF square_network_plain at routed_state_facts(2) this req _ path _ links,
      of calm_env] data
  show ?thesis
    by (auto simp: hello_packet_fields simp del: travel.simps simp flip: numeral_2_eq_2)
qed

end
