(* ===== verification/Packet_Network.thy ===== *)
theory Packet_Network
  imports Node_Thread Delivery
begin

text \<open>
  A network of nodes as the routing protocol sees it: the handlers of \<open>mixnet/node.c\<close>, one call at
  a time, and links that are queues of packets. It is the specification the fragments of \<open>Mesh\<close>
  are shown to implement; the lemmas show that what the nodes tell each other is true, and that
  a network in which every node runs delivers. Nothing here models code of its own.
\<close>

subsection \<open>The network\<close>

text \<open>The node of a host: not started, in its loop, or ended.\<close>

datatype phase = Waiting | Running node_state | Ended

text \<open>
  How the hosts are connected: \<open>far W i p\<close> is the host and the port at the other end of port \<open>p\<close>
  of host \<open>i\<close>.
\<close>

record wiring =
  hosts :: nat
  cfg :: "nat \<Rightarrow> mixnet_node_config"
  far :: "nat \<Rightarrow> nat \<Rightarrow> nat \<times> nat"

definition nbr_of :: "wiring \<Rightarrow> nat \<Rightarrow> nat \<Rightarrow> mixnet_address" where
  "nbr_of W i p = node_addr (cfg W (fst (far W i p)))"

definition well_wired :: "wiring \<Rightarrow> bool" where
  "well_wired W \<longleftrightarrow> (\<forall>i < hosts W. ports (cfg W i) < 256 \<and> neighbors (cfg W i) (nbr_of W i) \<and>
     (\<forall>p < ports (cfg W i). case far W i p of (j, r) \<Rightarrow>
        j < hosts W \<and> j \<noteq> i \<and> r < ports (cfg W j) \<and> far W j r = (i, p))) \<and>
     inj_on (\<lambda>i. node_addr (cfg W i)) {..<hosts W}"

lemma far_props:
  assumes "well_wired W" and "i < hosts W" and "p < ports (cfg W i)" and "far W i p = (j, r)"
  shows "j < hosts W" "j \<noteq> i" "r < ports (cfg W j)" "far W j r = (i, p)" "nbr_of W j r = node_addr (cfg W i)"
proof -
  have "\<forall>p < ports (cfg W i). case far W i p of (j, r) \<Rightarrow>
      j < hosts W \<and> j \<noteq> i \<and> r < ports (cfg W j) \<and> far W j r = (i, p)"
    using assms(1,2) by (simp add: well_wired_def)
  note this [rule_format, OF assms(3)]
  then show "j < hosts W" "j \<noteq> i" "r < ports (cfg W j)" and f: "far W j r = (i, p)"
    by (simp_all add: assms(4))
  show "nbr_of W j r = node_addr (cfg W i)" by (simp add: nbr_of_def f)
qed

lemma wired_host:
  assumes "well_wired W" and "i < hosts W"
  shows "ports (cfg W i) < 256" "neighbors (cfg W i) (nbr_of W i)"
  using assms by (simp_all add: well_wired_def)

text \<open>\<open>A i p\<close> are the packets on their way from port \<open>p\<close> of host \<open>i\<close>, the oldest first.\<close>

type_synonym packets = "nat \<Rightarrow> nat \<Rightarrow> buf list"

text \<open>A packet as the framework hands it over for the user.\<close>

definition user_handed :: "buf \<Rightarrow> bool" where
  "user_handed b \<longleftrightarrow> pkt_block b \<and> MAX_MIXNET_PACKET_SIZE \<le> length b \<and>
     MIN_MIXNET_PACKET_SIZE \<le> frame_len b \<and> pkt_type b \<noteq> type_code PACKET_TYPE_STP"

text \<open>The packet an iteration starts with, if any: from the user, or the head of a link.\<close>

definition takes :: "wiring \<Rightarrow> nat \<Rightarrow> iteration \<Rightarrow> packets \<Rightarrow> packets \<Rightarrow> bool" where
  "takes W i it A A' \<longleftrightarrow> (case received it of
     None \<Rightarrow> A' = A
   | Some (port, b) \<Rightarrow>
       if port = user_port (cfg W i) then user_handed b \<and> A' = A
       else unat port < ports (cfg W i) \<and> (case far W i (unat port) of (j, q) \<Rightarrow>
         \<exists>fs. A j q = b # fs \<and> A' = A(j := (A j)(q := fs))))"

definition push :: "nat \<Rightarrow> ev list \<Rightarrow> packets \<Rightarrow> packets" where
  "push i evs A = A(i := (\<lambda>p. A i p @ outgoing evs p))"

definition lost :: "wiring \<Rightarrow> nat \<Rightarrow> (nat \<Rightarrow> nat) \<Rightarrow> packets \<Rightarrow> packets" where
  "lost W i k A = (\<lambda>a p. if fst (far W a p) = i then drop (k (snd (far W a p))) (A a p) else A a p)"

definition phase_if :: "bool \<Rightarrow> node_state \<Rightarrow> phase" where
  "phase_if ok s = (if ok then Running s else Ended)"

text \<open>
  A node may end in the middle of what a handler sends (\<open>pre\<close> of \<open>pre @ post\<close>), and a link that is
  taken down loses packets.
\<close>

inductive packet_step :: "wiring \<Rightarrow> (nat \<Rightarrow> phase) \<times> packets \<Rightarrow> (nat \<Rightarrow> phase) \<times> packets \<Rightarrow> bool"
  for W :: wiring where
  hello: "i < hosts W \<Longrightarrow> ph i = Waiting \<Longrightarrow> state_init mem t1 t2 t3 (cfg W i) = Some s \<Longrightarrow>
    broadcast_stp e (cfg W i) s (- 1) = pre @ post \<Longrightarrow> (ok \<Longrightarrow> post = []) \<Longrightarrow>
    packet_step W (ph, A) (ph(i := phase_if ok s), push i pre A)"
| no_memory: "i < hosts W \<Longrightarrow> ph i = Waiting \<Longrightarrow> packet_step W (ph, A) (ph(i := Ended), A)"
| handle: "i < hosts W \<Longrightarrow> ph i = Running s \<Longrightarrow> takes W i it A A' \<Longrightarrow>
    loop_body (cfg W i) s it = Some (s', pre @ post) \<Longrightarrow> (ok \<Longrightarrow> post = []) \<Longrightarrow>
    packet_step W (ph, A) (ph(i := phase_if ok s'), push i pre A')"
| finish: "i < hosts W \<Longrightarrow> ph i = Running s \<Longrightarrow> packet_step W (ph, A) (ph(i := Ended), A)"
| lose: "i < hosts W \<Longrightarrow> packet_step W (ph, A) (ph, lost W i k A)"

inductive reachable_packets :: "wiring \<Rightarrow> (nat \<Rightarrow> phase) \<times> packets \<Rightarrow> bool" for W :: wiring where
  quiet: "\<forall>i < hosts W. ph i = Waiting \<Longrightarrow> reachable_packets W (ph, \<lambda>_ _. [])"
| more: "reachable_packets W x \<Longrightarrow> packet_step W x y \<Longrightarrow> reachable_packets W y"

subsection \<open>The nodes tell the truth\<close>

text \<open>The links a node is said to have are its own, once it knows its neighbours.\<close>

definition has_spoken :: "wiring \<Rightarrow> (nat \<Rightarrow> phase) \<Rightarrow> nat \<Rightarrow> bool" where
  "has_spoken W ph i \<longleftrightarrow> (case ph i of
     Waiting \<Rightarrow> False | Running s \<Rightarrow> neighbors_known (cfg W i) s | Ended \<Rightarrow> True)"

definition truth :: "wiring \<Rightarrow> (nat \<Rightarrow> phase) \<Rightarrow> claims" where
  "truth W ph a ls \<longleftrightarrow> (\<exists>i < hosts W. has_spoken W ph i \<and> a = node_addr (cfg W i) \<and>
     ls = true_links (nbr_of W i) (cfg W i))"

lemma truth_mono:
  assumes "has_spoken W ph i \<Longrightarrow> has_spoken W (ph(i := x)) i"
  shows "truth W ph \<le> truth W (ph(i := x))"
proof -
  have "has_spoken W ph j \<Longrightarrow> has_spoken W (ph(i := x)) j" for j
    using assms by (cases "j = i") (simp_all add: has_spoken_def)
  then show ?thesis by (auto simp: truth_def le_fun_def)
qed

lemma truth_own:
  "i < hosts W \<Longrightarrow> has_spoken W ph i \<Longrightarrow>
   truth W ph (node_addr (cfg W i)) (true_links (nbr_of W i) (cfg W i))"
  by (auto simp: truth_def)

lemma frames_of_mono: "L \<le> L' \<Longrightarrow> frames_of L me fs \<Longrightarrow> frames_of L' me fs"
  using proper_mono [of L me _ L'] by (auto simp: frames_of_def le_fun_def)

lemma frames_of_drop: "frames_of L me fs \<Longrightarrow> frames_of L me (drop k fs)"
  by (auto simp: frames_of_def dest: in_set_dropD)

lemma honest_state_le: "L \<le> L' \<Longrightarrow> honest_state L nbr c s \<Longrightarrow> honest_state L' nbr c s"
  using honest_state_mono [of L nbr c s L'] by (auto simp: le_fun_def)

definition host_honest :: "claims \<Rightarrow> wiring \<Rightarrow> nat \<Rightarrow> phase \<Rightarrow> bool" where
  "host_honest L W i x \<longleftrightarrow> (\<forall>s. x = Running s \<longrightarrow> honest_state L (nbr_of W i) (cfg W i) s)"

definition links_proper :: "claims \<Rightarrow> wiring \<Rightarrow> packets \<Rightarrow> bool" where
  "links_proper L W A \<longleftrightarrow> (\<forall>i < hosts W. \<forall>p < ports (cfg W i). frames_of L (node_addr (cfg W i)) (A i p))"

definition packets_ok :: "wiring \<Rightarrow> (nat \<Rightarrow> phase) \<times> packets \<Rightarrow> bool" where
  "packets_ok W x \<longleftrightarrow> (case x of (ph, A) \<Rightarrow>
     (\<forall>i < hosts W. host_honest (truth W ph) W i (ph i)) \<and> links_proper (truth W ph) W A)"

text \<open>A step of one host.\<close>

lemma packets_ok_host:
  assumes ok: "packets_ok W (ph, A)" and said: "has_spoken W ph i \<Longrightarrow> has_spoken W (ph(i := x)) i"
    and x: "host_honest (truth W (ph(i := x))) W i x" and A: "links_proper (truth W (ph(i := x))) W A'"
  shows "packets_ok W (ph(i := x), A')"
proof -
  have "host_honest (truth W (ph(i := x))) W j (ph j)" if "j < hosts W" for j
    using ok that honest_state_le [OF truth_mono [OF said]] by (auto simp: packets_ok_def host_honest_def)
  then show ?thesis using x A by (simp add: packets_ok_def)
qed

lemma links_proper_mono: "L \<le> L' \<Longrightarrow> links_proper L W A \<Longrightarrow> links_proper L' W A"
  using frames_of_mono by (auto simp: links_proper_def)

lemma links_proper_push:
  assumes "links_proper L W A" and "all_sent (proper L (node_addr (cfg W i))) evs"
  shows "links_proper L W (push i evs A)"
  using assms outgoing_frames by (auto simp: links_proper_def push_def)

lemma takes_proper:
  assumes W: "well_wired W" and i: "i < hosts W" and t: "takes W i it A A'" and A: "links_proper L W A"
  shows "links_proper L W A'" and "acceptable_iteration L (nbr_of W i) (cfg W i) it"
proof -
  have "links_proper L W A' \<and> acceptable_iteration L (nbr_of W i) (cfg W i) it"
  proof (cases "received it")
    case None
    then show ?thesis using t A by (simp add: takes_def acceptable_iteration_def)
  next
    case (Some pb)
    obtain port b where pb: "pb = (port, b)" by fastforce
    show ?thesis
    proof (cases "port = user_port (cfg W i)")
      case True
      then show ?thesis
        using t A Some pb by (auto simp: takes_def acceptable_iteration_def acceptable_def user_handed_def)
    next
      case False
      obtain j q where far: "far W i (unat port) = (j, q)" by fastforce
      then obtain fs where h: "unat port < ports (cfg W i)" "A j q = b # fs" "A' = A(j := (A j)(q := fs))"
        using t Some pb False by (auto simp: takes_def)
      note f = far_props [OF W i h(1) far]
      have "frames_of L (node_addr (cfg W j)) (b # fs)"
        using A f(1,3) h(2) unfolding links_proper_def by metis
      then have b: "valid_frame b" "proper L (nbr_of W i (unat port)) b" "frames_of L (node_addr (cfg W j)) fs"
        by (simp_all add: nbr_of_def far)
      then have "acceptable L (nbr_of W i) (cfg W i) port b"
        using h(1) False valid_frame_size [OF b(1)] by (simp add: acceptable_def)
      moreover have "links_proper L W A'" using A b(3) h(3) by (auto simp: links_proper_def)
      ultimately show ?thesis using Some pb by (simp add: acceptable_iteration_def)
    qed
  qed
  then show "links_proper L W A'" "acceptable_iteration L (nbr_of W i) (cfg W i) it" by auto
qed

lemma handle_keeps:
  assumes W: "well_wired W" and ok: "packets_ok W (ph, A)" and i: "i < hosts W" and ph: "ph i = Running s"
    and t: "takes W i it A A'" and run: "loop_body (cfg W i) s it = Some (s', pre @ post)"
    and fin: "fin \<Longrightarrow> post = []"
  shows "packets_ok W (ph(i := phase_if fin s'), push i pre A')"
proof -
  let ?x = "phase_if fin s'" and ?L = "truth W (ph(i := phase_if fin s'))"
  have A: "links_proper (truth W ph) W A" and h: "honest_state (truth W ph) (nbr_of W i) (cfg W i) s"
    using ok i ph by (auto simp: packets_ok_def host_honest_def)
  note w = wired_host [OF W i]
  have top: "honest_state (\<lambda>_ _. True) (nbr_of W i) (cfg W i) s" "acceptable_iteration (\<lambda>_ _. True) (nbr_of W i) (cfg W i) it"
    using honest_state_mono [OF h, of "\<lambda>_ _. True"] takes_proper(2) [OF W i t A]
      acceptable_mono [of "truth W ph" "nbr_of W i" "cfg W i" _ _ "\<lambda>_ _. True"]
    by (auto simp: acceptable_iteration_def split: option.splits)
  have "conducts (\<lambda>_ _. True) (nbr_of W i) (cfg W i) s (loop_body (cfg W i) s it)"
    by (rule loop_body_conducts [OF top(1) w(2,1) top(2)]) (simp add: vouched_def)
  then have known: "neighbors_known (cfg W i) s \<longrightarrow> neighbors_known (cfg W i) s'"
    by (simp add: conducts_def run)
  have said: "has_spoken W ph i \<Longrightarrow> has_spoken W (ph(i := ?x)) i"
    using known ph by (simp add: has_spoken_def phase_if_def)
  note mono = truth_mono [OF said]
  have h': "honest_state ?L (nbr_of W i) (cfg W i) s" by (rule honest_state_le [OF mono h])
  note acc = takes_proper [OF W i t links_proper_mono [OF mono A]]
  have v: "vouched ?L (nbr_of W i) (cfg W i) s'"
    using truth_own [OF i, of "ph(i := ?x)"] by (cases fin) (simp_all add: vouched_def has_spoken_def phase_if_def)
  have "conducts ?L (nbr_of W i) (cfg W i) s (loop_body (cfg W i) s it)"
    by (rule loop_body_conducts [OF h' w(2,1) acc(2)]) (use v run in auto)
  then have c: "honest_state ?L (nbr_of W i) (cfg W i) s'" "all_sent (proper ?L (node_addr (cfg W i))) pre"
    by (simp_all add: conducts_def run)
  show ?thesis
  proof (rule packets_ok_host [OF ok said])
    show "host_honest ?L W i ?x" using c(1) by (cases fin) (simp_all add: host_honest_def phase_if_def)
    show "links_proper ?L W (push i pre A')" by (rule links_proper_push [OF acc(1) c(2)])
  qed
qed

lemma hello_keeps:
  assumes ok: "packets_ok W (ph, A)" and i: "i < hosts W" and ph: "ph i = Waiting"
    and s: "state_init mem t1 t2 t3 (cfg W i) = Some s" and b: "broadcast_stp e (cfg W i) s (- 1) = pre @ post"
  shows "packets_ok W (ph(i := phase_if fin s), push i pre A)"
proof -
  let ?L = "truth W (ph(i := phase_if fin s))"
  have said: "has_spoken W ph i \<Longrightarrow> has_spoken W (ph(i := phase_if fin s)) i" using ph by (simp add: has_spoken_def)
  have "all_sent (proper ?L (node_addr (cfg W i))) pre"
    using broadcast_stp_proper [where L = ?L and c = "cfg W i", of e s "- 1"] by (simp add: b)
  moreover have "links_proper ?L W A"
    using ok links_proper_mono [OF truth_mono [OF said]] by (simp add: packets_ok_def)
  ultimately show ?thesis
    using state_init_honest [OF s] links_proper_push
    by (intro packets_ok_host [OF ok said]) (simp_all add: host_honest_def phase_if_def)
qed

lemma end_keeps:
  assumes "packets_ok W (ph, A)"
  shows "packets_ok W (ph(i := Ended), A)"
proof -
  have said: "has_spoken W ph i \<Longrightarrow> has_spoken W (ph(i := Ended)) i" by (simp add: has_spoken_def)
  then show ?thesis
    using assms links_proper_mono [OF truth_mono [OF said]]
    by (intro packets_ok_host [OF assms said]) (simp_all add: host_honest_def packets_ok_def)
qed

lemma packet_step_keeps:
  assumes W: "well_wired W" and ok: "packets_ok W x" and st: "packet_step W x y"
  shows "packets_ok W y"
  using st ok
proof cases
  case (hello i ph mem t1 t2 t3 s e pre post fin A)
  then show ?thesis using hello_keeps ok by simp
next
  case (no_memory i ph A)
  then show ?thesis using end_keeps ok by simp
next
  case (handle i ph s it A A' s' pre post fin)
  then show ?thesis using handle_keeps [OF W] ok by simp
next
  case (finish i ph s A)
  then show ?thesis using end_keeps ok by simp
next
  case (lose i ph A k)
  have "links_proper L W (lost W i k A)" if "links_proper L W A" for L
    using that frames_of_drop by (auto simp: links_proper_def lost_def)
  then show ?thesis using ok lose by (simp add: packets_ok_def)
qed

lemma reachable_packets_ok:
  assumes "well_wired W" and "reachable_packets W x"
  shows "packets_ok W x"
  using assms(2)
proof (induction rule: reachable_packets.induct)
  case (quiet ph)
  then show ?case by (simp add: packets_ok_def host_honest_def links_proper_def)
next
  case (more x y)
  then show ?case using packet_step_keeps [OF assms(1)] by blast
qed

text \<open>
  C5. What the nodes believe is true. In every state a network can reach, with packets handled
  in any order, nodes ending and links losing packets at any time: a running node has the right
  address for each neighbour it has told from; and every row of its topology belongs to a node of
  the network and is exactly that node's list of links, with its neighbours' addresses and its own
  costs, and that node, as long as it runs, knows all its neighbours.
\<close>

theorem advertised_links_are_real:
  assumes "well_wired W" and "reachable_packets W (ph, A)" and "i < hosts W" and "ph i = Running s"
  shows "(\<forall>p < ports (cfg W i). neighbor_addr s ! p \<in> {INVALID_MIXADDR, nbr_of W i p}) \<and>
    (\<forall>a ls. rows (topology s) a = Some ls \<longrightarrow> (\<exists>j < hosts W. a = node_addr (cfg W j) \<and>
       ls = map (\<lambda>p. \<lparr>neighbor_mixaddr = nbr_of W j p, cost = link_costs (cfg W j) ! p\<rparr>) [0..<ports (cfg W j)] \<and>
       (\<forall>s'. ph j = Running s' \<longrightarrow> neighbors_known (cfg W j) s')))"
proof -
  have h: "honest_state (truth W ph) (nbr_of W i) (cfg W i) s"
    using reachable_packets_ok [OF assms(1,2)] assms(3,4) by (simp add: packets_ok_def host_honest_def)
  then have "truth W ph a ls" if "rows (topology s) a = Some ls" for a ls
    using that by (simp add: honest_state_def)
  then show ?thesis
    using h by (fastforce simp: honest_state_def truth_def true_links_def has_spoken_def)
qed

subsection \<open>A network that runs delivers\<close>

text \<open>Every node runs, none mixes, no timer is due at the time of \<open>e\<close>, and the links are empty.\<close>

definition all_run :: "wiring \<Rightarrow> (nat \<Rightarrow> phase) \<Rightarrow> bool" where
  "all_run W ph \<longleftrightarrow> (\<forall>i < hosts W. (\<exists>s. ph i = Running s) \<and> unat (mixing_factor (cfg W i)) \<le> 1)"

definition no_timer_due :: "wiring \<Rightarrow> (nat \<Rightarrow> phase) \<Rightarrow> env \<Rightarrow> bool" where
  "no_timer_due W ph e \<longleftrightarrow> (\<forall>i < hosts W. \<forall>s. ph i = Running s \<longrightarrow> (let c = cfg W i in
     (if root s = node_addr c then \<not> elapsed (now e) (hello_start_ms s) (root_hello_interval_ms c)
      else \<not> elapsed (now e) (reelection_start_ms s) (reelection_interval_ms c)) \<and>
     \<not> elapsed (now e) (lsa_start_ms s) (root_hello_interval_ms c)))"

definition links_empty :: "wiring \<Rightarrow> packets \<Rightarrow> bool" where
  "links_empty W A \<longleftrightarrow> (\<forall>i < hosts W. \<forall>p < ports (cfg W i). A i p = [])"

text \<open>What a network puts behind the last port of a node has gone to its user.\<close>

definition to_user_of :: "wiring \<Rightarrow> packets \<Rightarrow> nat \<Rightarrow> buf list" where
  "to_user_of W A i = A i (ports (cfg W i))"

lemma adjacent_real:
  assumes ok: "packets_ok W (ph, A)" and i: "i < hosts W" "ph i = Running s"
    and adj: "adjacent (rows (topology s)) x y"
  obtains j p where "j < hosts W" "has_spoken W ph j" "x = node_addr (cfg W j)" "p < ports (cfg W j)"
    "y = nbr_of W j p"
proof -
  have h: "honest_state (truth W ph) (nbr_of W i) (cfg W i) s"
    using ok i by (simp add: packets_ok_def host_honest_def)
  obtain ls l where "rows (topology s) x = Some ls" and l: "l \<in> set ls" "neighbor_mixaddr l = y"
    using adj by (auto simp: adjacent_def split: option.splits)
  then have "truth W ph x ls" using h by (simp add: honest_state_def)
  then show ?thesis using l that by (auto simp: truth_def true_links_def)
qed

text \<open>Node \<open>x\<close> has a port to \<open>y\<close>, and there it leads.\<close>

definition port_to :: "wiring \<Rightarrow> (nat \<Rightarrow> phase) \<Rightarrow> nat \<Rightarrow> mixnet_address \<Rightarrow> nat \<Rightarrow> bool" where
  "port_to W ph j y p \<longleftrightarrow> (\<exists>s. ph j = Running s \<and> port_of (cfg W j) s y = Some p \<and> nbr_of W j p = y)"

lemma adjacent_port:
  assumes W: "well_wired W" and ok: "packets_ok W (ph, A)" and i: "i < hosts W" "ph i = Running s"
    and run: "all_run W ph" and adj: "adjacent (rows (topology s)) x y"
  shows "\<exists>j < hosts W. node_addr (cfg W j) = x \<and> (\<exists>p. port_to W ph j y p)"
proof -
  obtain j p where j: "j < hosts W" "has_spoken W ph j" "x = node_addr (cfg W j)" "p < ports (cfg W j)"
    "y = nbr_of W j p" by (rule adjacent_real [OF ok i adj])
  obtain sj where sj: "ph j = Running sj" using run j(1) by (auto simp: all_run_def)
  have h: "honest_state (truth W ph) (nbr_of W j) (cfg W j) sj" "neighbors_known (cfg W j) sj"
    using ok j sj by (simp_all add: packets_ok_def host_honest_def has_spoken_def)
  then have "neighbor_addr sj ! p = y" "y \<noteq> INVALID_MIXADDR"
    using j(4,5) by (auto simp: honest_state_def neighbors_known_def)
  then obtain r where r: "port_of (cfg W j) sj y = Some r" using j(4) by (fastforce simp: port_of_None_iff)
  from port_of_SomeD [OF this] have "r < ports (cfg W j)" "neighbor_addr sj ! r = y" by auto
  then have "nbr_of W j r = y" using h(1) \<open>y \<noteq> INVALID_MIXADDR\<close> by (auto simp: honest_state_def)
  then show ?thesis using j(1,3) sj r by (auto simp: port_to_def)
qed

lemma running_node:
  assumes W: "well_wired W" and ok: "packets_ok W (ph, A)" and run: "all_run W ph"
    and i: "i < hosts W" "ph i = Running s"
  shows "wf_state (cfg W i) s" "fib_valid (cfg W i) s" "mix s = None" "ports (cfg W i) < 256"
proof -
  have "honest_state (truth W ph) (nbr_of W i) (cfg W i) s"
    using ok i by (simp add: packets_ok_def host_honest_def)
  then show wf: "wf_state (cfg W i) s" "fib_valid (cfg W i) s" by (simp_all add: honest_state_def)
  show "mix s = None" using wf(1) run i(1) by (auto simp: wf_state_def wf_mix_def all_run_def split: option.splits)
  show "ports (cfg W i) < 256" by (rule wired_host [OF W i(1)])
qed

text \<open>The frame that a packet under way is on a link.\<close>

lemma wire_form_under_way:
  assumes b: "under_way r d h b" and n: "unat (pkt_total_size b) \<le> MAX_MIXNET_PACKET_SIZE"
  shows "packet_fits b" "under_way r d h (wire_form b)" "same_content b (wire_form b)"
    "unat (pkt_total_size (wire_form b)) = unat (pkt_total_size b)"
proof -
  let ?w = "wire_form b" and ?T = "unat (pkt_total_size b)" and ?n = "unat (rd16 b off_rh_route_length)"
  have u: "pkt_block b" "rd16 b off_type = DATA_code" "well_formed_routed b"
    "rd16 b off_rh_dst = d" "rh_route b = r" "rd16 b off_rh_hop_index = of_nat h"
    using b by (simp_all add: under_way_def)
  have size: "20 + 2 * ?n \<le> ?T" "?T \<le> length b"
    using u(1,3) by (simp_all add: well_formed_routed_def pkt_block_def)
  have fl: "frame_len b = ?T" by (simp add: frame_len_def pkt_total_size_def)
  show "packet_fits b"
    using size n u(2) by (simp add: packet_fits_def fl type_of_code_def pkt_type_def)
  have bl: "12 \<le> off \<Longrightarrow> slice (bleach b) off k = slice b off k" "length (bleach b) = length b" for off k
    using size by (simp_all add: bleach_def slice_def splice_def)
  have lw: "length ?w = ?T" using size bl(2) by (simp add: wire_form_def fl)
  have sl: "slice ?w off k = slice b off k" if "12 \<le> off" "off + k \<le> ?T" for off k
  proof -
    have "slice ?w off k = slice (bleach b) off k"
      using that by (simp add: wire_form_def fl slice_def drop_take min_def)
    then show ?thesis using bl(1) that(1) by simp
  qed
  have head: "rd16 ?w 0 = rd16 b 0" "rd16 ?w 2 = rd16 b 2"
    using size bleach_reads [of b] by (simp_all add: wire_form_def fl)
  have fields: "rd16 ?w off = rd16 b off" if "12 \<le> off" "off + 2 \<le> ?T" for off
    using sl [OF that] by (simp add: rd16_def)
  have pt: "pkt_total_size ?w = pkt_total_size b" using head(1) by (simp add: pkt_total_size_def)
  then show "unat (pkt_total_size ?w) = ?T" by simp
  have f: "rd16 ?w 12 = rd16 b 12" "rd16 ?w 14 = rd16 b 14" "rd16 ?w 16 = rd16 b 16" "rd16 ?w 18 = rd16 b 18"
    using fields size by simp_all
  have "rh_route ?w = rh_route b"
    unfolding rh_route_def using f(3) fields size by (auto intro!: map_cong)
  then show "under_way r d h ?w"
    using u f head pt lw size
    by (simp add: under_way_def pkt_block_def well_formed_routed_def)
  have "user_data ?w = user_data b"
    unfolding user_data_def using f(3) pt size sl by simp
  then show "same_content b ?w" using f pt by (simp add: same_content_def)
qed

lemma address_unique:
  "well_wired W \<Longrightarrow> i < hosts W \<Longrightarrow> j < hosts W \<Longrightarrow> node_addr (cfg W i) = node_addr (cfg W j) \<Longrightarrow> i = j"
  by (auto simp: well_wired_def inj_on_def)

text \<open>A link carries \<open>f\<close>, the other links nothing.\<close>

definition sole_packet :: "wiring \<Rightarrow> packets \<Rightarrow> nat \<Rightarrow> nat \<Rightarrow> buf \<Rightarrow> bool" where
  "sole_packet W A a p f \<longleftrightarrow> A a p = [f] \<and>
     (\<forall>i < hosts W. \<forall>q < ports (cfg W i). (i, q) \<noteq> (a, p) \<longrightarrow> A i q = [])"

definition got :: "env \<Rightarrow> byte \<Rightarrow> buf \<Rightarrow> iteration" where
  "got e port b = \<lparr>received = Some (port, b), handler_env = e, timer_env = e\<rparr>"

text \<open>
  One turn of node \<open>i\<close>, after which it is still running; the clock shows no timer due. It is handed
  a packet by its user, or carries one on that a link has for it.
\<close>

definition turn_of :: "wiring \<Rightarrow> nat \<Rightarrow> iteration \<Rightarrow> (nat \<Rightarrow> phase) \<times> packets \<Rightarrow> (nat \<Rightarrow> phase) \<times> packets \<Rightarrow> bool" where
  "turn_of W i it x y \<longleftrightarrow> i < hosts W \<and> no_timer_due W (fst x) (timer_env it) \<and>
     (\<exists>s s' evs B. fst x i = Running s \<and> takes W i it (snd x) B \<and> loop_body (cfg W i) s it = Some (s', evs) \<and>
        y = ((fst x)(i := Running s'), push i evs B))"

definition hand_over :: "wiring \<Rightarrow> nat \<Rightarrow> buf \<Rightarrow> (nat \<Rightarrow> phase) \<times> packets \<Rightarrow> (nat \<Rightarrow> phase) \<times> packets \<Rightarrow> bool" where
  "hand_over W i b x y \<longleftrightarrow> (\<exists>it. received it = Some (user_port (cfg W i), b) \<and> turn_of W i it x y)"

definition carry :: "wiring \<Rightarrow> (nat \<Rightarrow> phase) \<times> packets \<Rightarrow> (nat \<Rightarrow> phase) \<times> packets \<Rightarrow> bool" where
  "carry W x y \<longleftrightarrow> (\<exists>i it port b. received it = Some (port, b) \<and> port \<noteq> user_port (cfg W i) \<and> turn_of W i it x y)"

lemma turn_step: "turn_of W i it x y \<Longrightarrow> packet_step W x y"
  using packet_step.handle [where W = W and ok = True and post = "[]" and i = i and it = it]
  by (cases x) (auto simp: turn_of_def phase_if_def)

lemma quiet_timers:
  assumes "i < hosts W" and "ph i = Running s" and "no_timer_due W ph e"
  shows "check_timers e (cfg W i) s = Some (s, [])"
  using assms by (auto simp: no_timer_due_def check_timers_def tree_timers_def Let_def split: if_splits)

text \<open>A turn without a packet changes nothing.\<close>

lemma idle_turn: "turn_of W i it x y \<Longrightarrow> received it = None \<Longrightarrow> y = x"
  using quiet_timers [of i W "fst x"]
  by (auto simp: turn_of_def loop_body_def takes_def push_def fun_eq_iff outgoing_def sent_def prod_eq_iff)

text \<open>A turn that sends its DATA packet on.\<close>

lemma routed_turn:
  assumes i: "i < hosts W" "ph i = Running s" and r: "received it = Some (port, b)"
    and b: "pkt_block b" "rd16 b off_type = DATA_code"
    and h: "handle_routed (handler_env it) (cfg W i) s port b = Some (s, [Send q x])" and x: "packet_fits x"
  shows "turn_of W i it (ph, A) z \<longleftrightarrow> no_timer_due W ph (timer_env it) \<and>
    (\<exists>B. takes W i it A B \<and> z = (ph, B(i := (B i)(unat q := B i (unat q) @ [wire_form x]))))"
proof -
  have "dispatch (handler_env it) (cfg W i) s port b = Some (s, [Send q x])"
    using b h by (simp add: dispatch_def pkt_block_def get16_iff type_of_code_def)
  then have body: "loop_body (cfg W i) s it = Some (s, [Send q x])" if "no_timer_due W ph (timer_env it)"
    using quiet_timers [where W = W and i = i, OF i that] r by (simp add: loop_body_def)
  have same: "ph(i := Running s) = ph" using i(2) by auto
  have push: "push i [Send q x] B = B(i := (B i)(unat q := B i (unat q) @ [wire_form x]))" for B
    using x by (auto simp: push_def fun_eq_iff)
  show ?thesis
  proof
    assume t: "turn_of W i it (ph, A) z"
    then have due: "no_timer_due W ph (timer_env it)" by (simp add: turn_of_def)
    obtain B where "takes W i it A B" "z = (ph(i := Running s), push i [Send q x] B)"
      using t i(2) body [OF due] by (auto simp: turn_of_def)
    then show "no_timer_due W ph (timer_env it) \<and>
        (\<exists>B. takes W i it A B \<and> z = (ph, B(i := (B i)(unat q := B i (unat q) @ [wire_form x]))))"
      using due unfolding same push by blast
  next
    assume "no_timer_due W ph (timer_env it) \<and>
        (\<exists>B. takes W i it A B \<and> z = (ph, B(i := (B i)(unat q := B i (unat q) @ [wire_form x]))))"
    then obtain B where B: "no_timer_due W ph (timer_env it)" "takes W i it A B"
      "z = (ph(i := Running s), push i [Send q x] B)"
      unfolding same push by blast
    then show "turn_of W i it (ph, A) z"
      using i body [OF B(1)] unfolding turn_of_def fst_conv snd_conv by blast
  qed
qed

text \<open>The node at the end of the link takes the only packet; no other node can.\<close>

lemma takes_sole:
  assumes W: "well_wired W" and a: "a < hosts W" "p < ports (cfg W a)" and far: "far W a p = (j, q)"
    and A: "sole_packet W A a p b"
  shows "takes W j (got e (of_nat q) b) A (A(a := (A a)(p := [])))" and "(of_nat q :: byte) \<noteq> user_port (cfg W j)"
    and "links_empty W (A(a := (A a)(p := [])))" and "to_user_of W (A(a := (A a)(p := []))) i = to_user_of W A i"
    and "received it = Some (port, b') \<Longrightarrow> port \<noteq> user_port (cfg W i) \<Longrightarrow> i < hosts W \<Longrightarrow> takes W i it A B \<Longrightarrow>
      i = j \<and> port = of_nat q \<and> b' = b \<and> B = A(a := (A a)(p := []))"
proof -
  note f = far_props [OF W a far]
  note small = wired_host(1) [OF W f(1)]
  have q: "unat (of_nat q :: byte) = q" using ports_byte(2) [OF small] f(3) by simp
  then show n: "(of_nat q :: byte) \<noteq> user_port (cfg W j)" using ports_byte(1) [OF small] f(3) by auto
  show "takes W j (got e (of_nat q) b) A (A(a := (A a)(p := [])))"
    using n q f(3,4) A by (simp add: takes_def got_def sole_packet_def)
  show "links_empty W (A(a := (A a)(p := [])))" using A by (auto simp: links_empty_def sole_packet_def)
  show "to_user_of W (A(a := (A a)(p := []))) i = to_user_of W A i" using a by (auto simp: to_user_of_def)
  assume r: "received it = Some (port, b')" "port \<noteq> user_port (cfg W i)" and i: "i < hosts W"
    and t: "takes W i it A B"
  obtain k r' where far': "far W i (unat port) = (k, r')" by fastforce
  with t r obtain fs where u: "unat port < ports (cfg W i)" "A k r' = b' # fs" "B = A(k := (A k)(r' := fs))"
    by (auto simp: takes_def)
  note g = far_props [OF W i u(1) far']
  have "(k, r') \<noteq> (a, p) \<Longrightarrow> A k r' = []" using A g(1,3) by (simp add: sole_packet_def)
  then have "(k, r') = (a, p)" using u(2) by fastforce
  then have k: "k = a" "r' = p" by simp_all
  then have "b' # fs = [b]" using A u(2) by (simp add: sole_packet_def)
  moreover have "(i, unat port) = (j, q)" using g(4) far k by simp
  moreover from this have "port = of_nat q" by auto
  ultimately show "i = j \<and> port = of_nat q \<and> b' = b \<and> B = A(a := (A a)(p := []))" using u(3) k by simp
qed

lemma puts_sole:
  assumes "links_empty W B" and "i < hosts W" and "p < ports (cfg W i)"
  shows "sole_packet W (B(i := (B i)(p := B i p @ [f]))) i p f"
    and "to_user_of W (B(i := (B i)(p := B i p @ [f]))) j = to_user_of W B j"
  using assms by (auto simp: links_empty_def sole_packet_def to_user_of_def)

lemma puts_user:
  assumes "links_empty W B" and "n = ports (cfg W i)"
  shows "links_empty W (B(i := (B i)(n := B i n @ [f])))"
    and "to_user_of W (B(i := (B i)(n := B i n @ [f]))) i = to_user_of W B i @ [f]"
  using assms by (auto simp: links_empty_def to_user_of_def)

lemma puts_other: "k \<noteq> i \<Longrightarrow> to_user_of W (B(i := g)) k = to_user_of W B k"
  by (simp add: to_user_of_def)

text \<open>The nodes of a route from one hop to the next, up to its destination.\<close>

definition road :: "wiring \<Rightarrow> (nat \<Rightarrow> phase) \<Rightarrow> mixnet_address list \<Rightarrow> mixnet_address \<Rightarrow> bool" where
  "road W ph r d \<longleftrightarrow> d \<notin> set r \<and> (\<forall>h < length r.
     \<exists>j < hosts W. node_addr (cfg W j) = r ! h \<and> (\<exists>p. port_to W ph j ((r @ [d]) ! Suc h) p))"

text \<open>The packet is the only one on the links and on the link to hop \<open>h\<close>; or it has arrived.\<close>

definition on_link ::
  "wiring \<Rightarrow> (nat \<Rightarrow> phase) \<Rightarrow> packets \<Rightarrow> mixnet_address list \<Rightarrow> mixnet_address \<Rightarrow> buf \<Rightarrow> nat \<Rightarrow>
   (nat \<Rightarrow> phase) \<times> packets \<Rightarrow> bool" where
  "on_link W ph A0 r d b0 h z \<longleftrightarrow> (\<exists>A a p b. z = (ph, A) \<and> a < hosts W \<and> p < ports (cfg W a) \<and>
     nbr_of W a p = (r @ [d]) ! h \<and> sole_packet W A a p b \<and> under_way r d h b \<and>
     unat (pkt_total_size b) \<le> MAX_MIXNET_PACKET_SIZE \<and> same_content b0 b \<and>
     (\<forall>k. to_user_of W A k = to_user_of W A0 k))"

definition handed_up ::
  "wiring \<Rightarrow> (nat \<Rightarrow> phase) \<Rightarrow> packets \<Rightarrow> mixnet_address \<Rightarrow> buf \<Rightarrow> (nat \<Rightarrow> phase) \<times> packets \<Rightarrow> bool" where
  "handed_up W ph A0 d b0 z \<longleftrightarrow> (\<exists>B j y. z = (ph, B) \<and> links_empty W B \<and> j < hosts W \<and>
     node_addr (cfg W j) = d \<and> same_content b0 y \<and>
     (\<forall>k. to_user_of W B k = to_user_of W A0 k @ (if k = j then [y] else [])))"

lemma got_sel [simp]:
  "received (got e port b) = Some (port, b)" "handler_env (got e port b) = e" "timer_env (got e port b) = e"
  by (simp_all add: got_def)

lemma handed_up_rests:
  assumes W: "well_wired W" and "handed_up W ph A0 d b0 z"
  shows "\<not> carry W z z'"
proof
  assume "carry W z z'"
  then obtain i it port b B where i: "i < hosts W" "received it = Some (port, b)" "port \<noteq> user_port (cfg W i)"
    and t: "takes W i it (snd z) B" by (auto simp: carry_def turn_of_def)
  obtain j q where far: "far W i (unat port) = (j, q)" by fastforce
  with t i have "unat port < ports (cfg W i)" "snd z j q \<noteq> []" by (auto simp: takes_def)
  then show False using far_props [OF W i(1) _ far] assms(2) by (auto simp: handed_up_def links_empty_def)
qed

text \<open>What the node at the end of the link does is all that can happen.\<close>

lemma sole_turn:
  assumes W: "well_wired W" and due: "no_timer_due W ph e" and z: "z = (ph, A)"
    and a: "a < hosts W" "p < ports (cfg W a)" and far: "far W a p = (j, q)" and A: "sole_packet W A a p b"
    and s: "ph j = Running s" and b: "pkt_block b" "rd16 b off_type = DATA_code" and x: "packet_fits x"
    and h: "\<And>e. handle_routed e (cfg W j) s (of_nat q) b = Some (s, [Send n x])"
    and B: "B = A(a := (A a)(p := []))"
  shows "carry W z z' \<longleftrightarrow> z' = (ph, B(j := (B j)(unat n := B j (unat n) @ [wire_form x])))"
proof
  note t = takes_sole [OF W a far A] and j = far_props(1) [OF W a far]
  note r = routed_turn [where it = it and W = W and ph = ph and i = j and s = s and b = b and q = n and x = x
      and port = "of_nat q" for it, OF j s _ b h x]
  have "turn_of W j (got e (of_nat q) b) z (ph, B(j := (B j)(unat n := B j (unat n) @ [wire_form x])))"
    unfolding z r [OF got_sel(1)] got_sel using t(1) due unfolding B by blast
  then show "carry W z z'" if "z' = (ph, B(j := (B j)(unat n := B j (unat n) @ [wire_form x])))"
    unfolding that carry_def using t(2) got_sel(1) by blast
  assume "carry W z z'"
  then obtain i it port b' where c: "received it = Some (port, b')" "port \<noteq> user_port (cfg W i)"
    "turn_of W i it (ph, A) z'" by (auto simp: carry_def z)
  then obtain B' where "i < hosts W" "takes W i it A B'" by (auto simp: turn_of_def)
  from t(5) [OF c(1,2) this] have i: "i = j" "port = of_nat q" "b' = b" by simp_all
  from c(3) obtain B'' where "takes W j it A B''" "z' = (ph, B''(j := (B'' j)(unat n := B'' j (unat n) @ [wire_form x])))"
    unfolding i(1) r [OF c(1) [unfolded i(2,3)]] by blast
  moreover from t(5) [OF c(1,2) _ this(1) [folded i(1)]] have "B'' = B" using i j by (simp add: B)
  ultimately show "z' = (ph, B(j := (B j)(unat n := B j (unat n) @ [wire_form x])))" by simp
qed

lemma carried_on:
  assumes W: "well_wired W" and ok: "packets_ok W (ph, A0)" and run: "all_run W ph" and due: "no_timer_due W ph e"
    and road: "road W ph r d" and z: "on_link W ph A0 r d b0 h z" and h: "h \<le> length r"
  shows "\<exists>z1. (\<forall>z'. carry W z z' \<longleftrightarrow> z' = z1) \<and>
    (if h < length r then on_link W ph A0 r d b0 (Suc h) z1 else handed_up W ph A0 d b0 z1)"
proof -
  obtain A a p b where A: "z = (ph, A)" "a < hosts W" "p < ports (cfg W a)" "nbr_of W a p = (r @ [d]) ! h"
    "sole_packet W A a p b" "under_way r d h b" "unat (pkt_total_size b) \<le> MAX_MIXNET_PACKET_SIZE"
    "same_content b0 b" "\<And>k. to_user_of W A k = to_user_of W A0 k"
    using z by (auto simp: on_link_def)
  obtain j q where far: "far W a p = (j, q)" by fastforce
  note f = far_props [OF W A(2,3) far] and t = takes_sole [OF W A(2,3) far A(5)]
  let ?B = "A(a := (A a)(p := []))"
  obtain s where s: "ph j = Running s" using run f(1) by (auto simp: all_run_def)
  have b: "pkt_block b" "rd16 b off_type = DATA_code" using A(6) by (simp_all add: under_way_def)
  have here: "node_addr (cfg W j) = (r @ [d]) ! h" using A(4) far by (simp add: nbr_of_def)
  show ?thesis
  proof (cases "h < length r")
    case False
    then have n: "h = length r" "node_addr (cfg W j) = d" using h here by simp_all
    note w = wire_form_under_way [OF A(6,7)]
    have u: "unat (user_port (cfg W j)) = ports (cfg W j)" by (rule ports_byte(1) [OF wired_host(1) [OF W f(1)]])
    let ?C = "?B(j := (?B j)(ports (cfg W j) := ?B j (ports (cfg W j)) @ [wire_form b]))"
    have c: "carry W z z' \<longleftrightarrow> z' = (ph, ?C)" for z'
      using sole_turn [OF W due A(1-3) far A(5) s b w(1) hop_arrives [OF A(6) [unfolded n(1)] n(2) t(2)] refl, of z']
      unfolding u n(1) .
    have "to_user_of W ?C k = to_user_of W A0 k @ (if k = j then [wire_form b] else [])" for k
    proof (cases "k = j")
      case True
      then show ?thesis
        using puts_user(2) [OF t(3), of "ports (cfg W j)" j "wire_form b"] t(4) [of j] A(9)
        by (simp del: fun_upd_apply)
    next
      case False
      then show ?thesis using puts_other t(4) A(9) by (simp del: fun_upd_apply)
    qed
    moreover have "links_empty W ?C" by (rule puts_user(1) [OF t(3) refl])
    moreover have "same_content b0 (wire_form b)" by (rule same_content_trans [OF A(8) w(3)])
    ultimately have "handed_up W ph A0 d b0 (ph, ?C)"
      unfolding handed_up_def using f(1) n(2)
      by (intro exI [of _ ?C] exI [of _ j] exI [of _ "wire_form b"] conjI allI) simp_all
    with c False show ?thesis by (intro exI [of _ "(ph, ?C)"]) simp
  next
    case True
    then have here_r: "node_addr (cfg W j) = r ! h" using here by (simp add: nth_append)
    obtain i p' where i: "i < hosts W" "node_addr (cfg W i) = r ! h" "port_to W ph i ((r @ [d]) ! Suc h) p'"
      using road True by (auto simp: road_def)
    then have "i = j" using address_unique [OF W i(1) f(1)] here_r by simp
    then have p: "port_of (cfg W j) s ((r @ [d]) ! Suc h) = Some p'" "nbr_of W j p' = (r @ [d]) ! Suc h"
      using i(3) s by (auto simp: port_to_def)
    note node = running_node [OF W ok run f(1) s]
    note pb = port_byte [OF node(4) p(1)]
    have off: "d \<noteq> r ! h" using road True by (auto simp: road_def)
    obtain x where x: "\<And>e. handle_routed e (cfg W j) s (of_nat q) b = Some (s, [Send (of_nat p') x])"
      "under_way r d (Suc h) x" "same_content b x"
      using hop_forwards [OF A(6) True off here_r t(2) node(3,4) p(1)] by blast
    then have size: "unat (pkt_total_size x) \<le> MAX_MIXNET_PACKET_SIZE" using A(7) by (simp add: same_content_def)
    note w = wire_form_under_way [OF x(2) size]
    let ?C = "?B(j := (?B j)(p' := ?B j p' @ [wire_form x]))"
    have c: "carry W z z' \<longleftrightarrow> z' = (ph, ?C)" for z'
      using sole_turn [OF W due A(1-3) far A(5) s b w(1) x(1) refl, of z'] unfolding pb(3) .
    note sole = puts_sole [OF t(3) f(1) pb(4), of "wire_form x"]
    have "same_content b0 (wire_form x)" by (intro same_content_trans [OF A(8)] same_content_trans [OF x(3) w(3)])
    moreover have "to_user_of W ?C k = to_user_of W A0 k" for k using sole(2) t(4) A(9) by simp
    ultimately have "on_link W ph A0 r d b0 (Suc h) (ph, ?C)"
      unfolding on_link_def
      using f(1) pb(4) p(2) sole(1) w(2,4) size
      by (intro exI [of _ ?C] exI [of _ j] exI [of _ p'] exI [of _ "wire_form x"] conjI allI refl) simp_all
    with c True show ?thesis by (intro exI [of _ "(ph, ?C)"]) simp
  qed
qed

lemma packet_journey:
  assumes W: "well_wired W" and ok: "packets_ok W (ph, A0)" and run: "all_run W ph" and due: "no_timer_due W ph e"
    and road: "road W ph r d" and x: "on_link W ph A0 r d b0 0 x"
  shows "(carry W ^^ k) x z \<Longrightarrow>
    k \<le> length r \<and> on_link W ph A0 r d b0 k z \<or> k = Suc (length r) \<and> handed_up W ph A0 d b0 z"
proof (induction k arbitrary: z)
  case 0
  then show ?case using x by simp
next
  case (Suc k)
  then obtain y where y: "(carry W ^^ k) x y" "carry W y z" by auto
  from Suc.IH [OF y(1)] handed_up_rests [OF W] y(2)
  have k: "k \<le> length r" "on_link W ph A0 r d b0 k y" by blast+
  obtain z1 where "\<And>z'. carry W y z' \<longleftrightarrow> z' = z1"
    and z1: "if k < length r then on_link W ph A0 r d b0 (Suc k) z1 else handed_up W ph A0 d b0 z1"
    using carried_on [OF W ok run due road k(2,1)] by blast
  then have "z = z1" using y(2) by blast
  then show ?case using z1 k(1) by (cases "k < length r") simp_all
qed

text \<open>The first node puts the packet of its user on the link to the first hop.\<close>

lemma handed_over:
  assumes W: "well_wired W" and ok: "packets_ok W (ph, A)" and run: "all_run W ph"
    and quiet: "links_empty W A" and i: "i < hosts W" "ph i = Running s" and shortest: "\<not> do_random_routing (cfg W i)"
    and b: "user_request b" "rd16 b off_type = DATA_code"
    and path: "fib_lookup s (rd16 b off_rh_dst) = Some path"
    and fits: "off_rh_route (length (route path)) + length (user_data b) \<le> MAX_MIXNET_PACKET_SIZE"
    and p: "port_of (cfg W i) s ((route path @ [rd16 b off_rh_dst]) ! 0) = Some p"
      "nbr_of W i p = (route path @ [rd16 b off_rh_dst]) ! 0"
    and z: "turn_of W i it (ph, A) z" and it: "received it = Some (user_port (cfg W i), b)"
  shows "\<exists>b0. on_link W ph A (route path) (rd16 b off_rh_dst) b0 0 z \<and>
    user_data b0 = user_data b \<and> rd16 b0 off_rh_src = rd16 b off_rh_src"
proof -
  let ?r = "route path" and ?d = "rd16 b off_rh_dst"
  note node = running_node [OF W ok run i]
  obtain x where x: "handle_routed (handler_env it) (cfg W i) s (user_port (cfg W i)) b = Some (s, [Send (of_nat p) x])"
    "under_way ?r ?d 0 x" "user_data x = user_data b" "rd16 x off_rh_src = rd16 b off_rh_src"
    "unat (pkt_total_size x) = off_rh_route (length ?r) + length (user_data b)"
    using source_sends [OF node(1,3,4,2) shortest b path fits p(1)] by blast
  have size: "unat (pkt_total_size x) \<le> MAX_MIXNET_PACKET_SIZE" using x(5) fits by simp
  note w = wire_form_under_way [OF x(2) size] and pb = port_byte [OF node(4) p(1)]
  have blk: "pkt_block b" using b(1) by (simp add: user_request_def)
  from z obtain B where B: "takes W i it A B" "z = (ph, B(i := (B i)(p := B i p @ [wire_form x])))"
    unfolding routed_turn [where W = W and ph = ph, OF i it blk b(2) x(1) w(1)] pb(3) by blast
  have "B = A" using B(1) it by (simp add: takes_def)
  note sole = puts_sole [OF quiet i(1) pb(4), of "wire_form x"]
  have "on_link W ph A ?r ?d x 0 z"
    unfolding on_link_def B(2) \<open>B = A\<close>
    using i(1) pb(4) p(2) sole w(2,3,4) size
    by (intro exI [of _ "A(i := (A i)(p := A i p @ [wire_form x]))"] exI [of _ i] exI [of _ p]
        exI [of _ "wire_form x"]) simp
  with x(3,4) show ?thesis by blast
qed

lemma hand_over_possible:
  assumes W: "well_wired W" and ok: "packets_ok W (ph, A)" and run: "all_run W ph" and due: "no_timer_due W ph e"
    and i: "i < hosts W" "ph i = Running s" and shortest: "\<not> do_random_routing (cfg W i)"
    and b: "user_request b" "rd16 b off_type = DATA_code"
    and path: "fib_lookup s (rd16 b off_rh_dst) = Some path"
    and fits: "off_rh_route (length (route path)) + length (user_data b) \<le> MAX_MIXNET_PACKET_SIZE"
    and p: "port_of (cfg W i) s ((route path @ [rd16 b off_rh_dst]) ! 0) = Some p"
  shows "\<exists>x. hand_over W i b (ph, A) x"
proof -
  note node = running_node [OF W ok run i]
  obtain x where x: "handle_routed e (cfg W i) s (user_port (cfg W i)) b = Some (s, [Send (of_nat p) x])"
    "under_way (route path) (rd16 b off_rh_dst) 0 x"
    "unat (pkt_total_size x) = off_rh_route (length (route path)) + length (user_data b)"
    using source_sends [OF node(1,3,4,2) shortest b path fits p] by blast
  then have fits: "packet_fits x" using fits by (intro wire_form_under_way(1) [OF x(2)]) simp
  have "user_handed b"
    using b by (auto simp: user_handed_def user_request_def frame_len_def pkt_total_size_def pkt_type_def)
  then have t: "takes W i (got e (user_port (cfg W i)) b) A A" by (simp add: takes_def)
  have "pkt_block b" using b(1) by (simp add: user_request_def)
  from routed_turn [where it = "got e (user_port (cfg W i)) b" and W = W and ph = ph and i = i and s = s and b = b
      and q = "of_nat p" and x = x and port = "user_port (cfg W i)", OF i got_sel(1) this b(2) _ fits] x(1) due t
  have "\<exists>z. turn_of W i (got e (user_port (cfg W i)) b) (ph, A) z" by auto
  then show ?thesis unfolding hand_over_def using got_sel(1) by blast
qed

lemma table_road:
  assumes W: "well_wired W" and ok: "packets_ok W (ph, A)" and run: "all_run W ph"
    and i: "i < hosts W" "ph i = Running s" and path: "fib_lookup s d = Some path"
  shows "road W ph (route path) d"
    and "\<exists>p. port_of (cfg W i) s ((route path @ [d]) ! 0) = Some p \<and> nbr_of W i p = (route path @ [d]) ! 0"
proof -
  let ?r = "route path"
  note node = running_node [OF W ok run i]
  note route = table_route [OF node(1,2) path]
  have hops: "\<exists>j < hosts W. node_addr (cfg W j) = (node_addr (cfg W i) # ?r @ [d]) ! k \<and>
      (\<exists>p. port_to W ph j ((?r @ [d]) ! k) p)" if "k \<le> length ?r" for k
    using adjacent_port [OF W ok i run] linked_nth [OF route(1), of k] that by simp
  have "\<exists>j < hosts W. node_addr (cfg W j) = ?r ! k \<and> (\<exists>p. port_to W ph j ((?r @ [d]) ! Suc k) p)"
    if "k < length ?r" for k
    using hops [of "Suc k"] that by (simp add: nth_append)
  then show "road W ph ?r d" using route(2) by (simp add: road_def)
  have "\<exists>j < hosts W. node_addr (cfg W j) = node_addr (cfg W i) \<and> (\<exists>p. port_to W ph j ((?r @ [d]) ! 0) p)"
    using hops [of 0] by simp
  then have "\<exists>p. port_to W ph i ((?r @ [d]) ! 0) p" using address_unique [OF W _ i(1)] by metis
  then show "\<exists>p. port_of (cfg W i) s ((?r @ [d]) ! 0) = Some p \<and> nbr_of W i p = (?r @ [d]) ! 0"
    using i(2) by (auto simp: port_to_def)
qed

text \<open>
  C2. A network that runs delivers, whichever way its turns fall. Take any state a network can
  reach in which every node runs, none mixes, no timer is due and the links are empty. The user
  of a node that does not route at random hands it a DATA packet for a destination in its
  forwarding table; its bytes fit a packet together with the route. From then on, while no node
  ends, no link goes down, no other user sends and no timer comes due, there is always a node
  that can carry the packet on, until after one turn more than the route has hops none can: then
  the links are empty again and the user of the destination -- a node of the network -- has got
  one packet, with the source address and the bytes of the one handed over, no other user
  anything, and no node has changed. Nothing is assumed of the nodes' tables. (Turns without a
  packet change nothing, by \<open>idle_turn\<close>; all turns are steps of the network, by \<open>turn_step\<close>.)
\<close>

theorem running_network_delivers:
  assumes "well_wired W" and "reachable_packets W (ph, A)" and "all_run W ph" and "no_timer_due W ph e"
    and "links_empty W A" and "i < hosts W" and "ph i = Running s" and "\<not> do_random_routing (cfg W i)"
    and "user_request b" and "rd16 b off_type = DATA_code"
    and "fib_lookup s (rd16 b off_rh_dst) = Some path"
    and "off_rh_route (length (route path)) + length (user_data b) \<le> MAX_MIXNET_PACKET_SIZE"
  shows "(\<exists>x. hand_over W i b (ph, A) x) \<and>
    (\<forall>x k z. hand_over W i b (ph, A) x \<longrightarrow> (carry W ^^ k) x z \<longrightarrow>
       k \<le> length (route path) + 1 \<and> ((\<exists>z'. carry W z z') \<longleftrightarrow> k < length (route path) + 1) \<and>
       (k = length (route path) + 1 \<longrightarrow> (\<exists>B j y. z = (ph, B) \<and> links_empty W B \<and> j < hosts W \<and>
          node_addr (cfg W j) = rd16 b off_rh_dst \<and> user_data y = user_data b \<and>
          rd16 y off_rh_src = rd16 b off_rh_src \<and>
          (\<forall>n. to_user_of W B n = to_user_of W A n @ (if n = j then [y] else [])))))"
proof -
  let ?r = "route path" and ?d = "rd16 b off_rh_dst"
  have ok: "packets_ok W (ph, A)" by (rule reachable_packets_ok [OF assms(1,2)])
  note road = table_road [OF assms(1) ok assms(3,6,7,11)]
  obtain p where p: "port_of (cfg W i) s ((?r @ [?d]) ! 0) = Some p" "nbr_of W i p = (?r @ [?d]) ! 0"
    using road(2) by blast
  have first: "\<exists>b0. on_link W ph A ?r ?d b0 0 x \<and> user_data b0 = user_data b \<and>
      rd16 b0 off_rh_src = rd16 b off_rh_src" if "hand_over W i b (ph, A) x" for x
    using that handed_over [OF assms(1) ok assms(3,5-12) p] unfolding hand_over_def by blast
  show ?thesis
  proof (intro conjI allI impI)
    show "\<exists>x. hand_over W i b (ph, A) x" by (rule hand_over_possible [OF assms(1) ok assms(3,4,6-12) p(1)])
  next
    fix x k z
    assume x: "hand_over W i b (ph, A) x" and k: "(carry W ^^ k) x z"
    obtain b0 where b0: "on_link W ph A ?r ?d b0 0 x" "user_data b0 = user_data b"
      "rd16 b0 off_rh_src = rd16 b off_rh_src" using first [OF x] by blast
    note j = packet_journey [OF assms(1) ok assms(3,4) road(1) b0(1) k]
    then show "k \<le> length ?r + 1" by auto
    show "(\<exists>z'. carry W z z') \<longleftrightarrow> k < length ?r + 1"
    proof (cases "k \<le> length ?r")
      case True
      then have "on_link W ph A ?r ?d b0 k z" using j by auto
      from carried_on [OF assms(1) ok assms(3,4) road(1) this True] True show ?thesis by auto
    next
      case False
      then have "handed_up W ph A ?d b0 z" using j by auto
      from handed_up_rests [OF assms(1) this] False show ?thesis by simp
    qed
    assume "k = length ?r + 1"
    then have "handed_up W ph A ?d b0 z" using j by auto
    then show "\<exists>B j y. z = (ph, B) \<and> links_empty W B \<and> j < hosts W \<and> node_addr (cfg W j) = ?d \<and>
        user_data y = user_data b \<and> rd16 y off_rh_src = rd16 b off_rh_src \<and>
        (\<forall>n. to_user_of W B n = to_user_of W A n @ (if n = j then [y] else []))"
      using b0(2,3) by (fastforce simp: handed_up_def same_content_def)
  qed
qed

subsection \<open>An example\<close>

text \<open>The bound on the size of the graph, evaluated in binary.\<close>

lemma id_lookup_code [code]:
  "id_lookup ok g a = (case id_find g a of
     Some i \<Rightarrow> (g, Some i)
   | None \<Rightarrow>
       if Topology.count g = capacity g then
         (let cap = (if capacity g = 0 then 8 else capacity g * 2) in
          if int cap > 65535 then (g, None)
          else if \<not> ok then (g, None)
          else (append_vertex (g\<lparr>capacity := cap\<rparr>) a, Some (Topology.count g)))
       else (append_vertex g a, Some (Topology.count g)))"
proof -
  have "(65535 < int n) = (65535 < n)" for n by linarith
  then show ?thesis unfolding id_lookup_def Let_def by (simp only:)
qed

text \<open>Two nodes, 1 and 2, joined by a link.\<close>

definition pair_cfg :: "nat \<Rightarrow> mixnet_node_config" where
  "pair_cfg i = example_config\<lparr>node_addr := if i = 0 then 1 else 2, num_neighbors := 1, link_costs := [1]\<rparr>"

definition pair_wiring :: wiring where
  "pair_wiring = \<lparr>hosts = 2, cfg = pair_cfg, far = (\<lambda>i p. (1 - i, 0))\<rparr>"

lemma pair_ports [simp]: "ports (pair_cfg i) = 1" "user_port (pair_cfg i) = 1"
  by (simp_all add: pair_cfg_def user_port_def)

lemma pair_wired: "well_wired pair_wiring"
proof -
  have "i < 2 \<Longrightarrow> i = 0 \<or> i = 1" for i :: nat by auto
  then show ?thesis
    by (auto simp: well_wired_def pair_wiring_def neighbors_def nbr_of_def pair_cfg_def inj_on_def INVALID_MIXADDR_def split: if_splits)
qed

definition pair_phases :: "phase \<Rightarrow> phase \<Rightarrow> nat \<Rightarrow> phase" where
  "pair_phases x y = (\<lambda>_. Waiting)(0 := x, 1 := y)"

definition pair_packets :: "buf list \<Rightarrow> buf list \<Rightarrow> packets" where
  "pair_packets f g = (\<lambda>_ _. [])(0 := (\<lambda>_. [])(0 := f), 1 := (\<lambda>_. [])(0 := g))"

definition pair_reaches :: "phase \<Rightarrow> phase \<Rightarrow> buf list \<Rightarrow> buf list \<Rightarrow> bool" where
  "pair_reaches x y f g = reachable_packets pair_wiring (pair_phases x y, pair_packets f g)"

definition at_port_0 :: "ev list \<Rightarrow> bool" where
  "at_port_0 evs = list_all (\<lambda>x. fst x = 0) (sent evs)"

lemma push_pair:
  assumes "at_port_0 evs"
  shows "push 0 evs (pair_packets f g) = pair_packets (f @ outgoing evs 0) g"
    and "push 1 evs (pair_packets f g) = pair_packets f (g @ outgoing evs 0)"
proof -
  have "outgoing evs p = []" if "p \<noteq> 0" for p
    using assms that by (auto simp: outgoing_def at_port_0_def list_all_iff filter_empty_conv)
  then show "push 0 evs (pair_packets f g) = pair_packets (f @ outgoing evs 0) g"
    "push 1 evs (pair_packets f g) = pair_packets f (g @ outgoing evs 0)"
    by (auto simp: push_def pair_packets_def fun_eq_iff)
qed

lemma pair_step:
  assumes "pair_reaches x y f g" and "packet_step pair_wiring (pair_phases x y, pair_packets f g) (pair_phases x' y', B)"
    and "B = pair_packets f' g'"
  shows "pair_reaches x' y' f' g'"
  using assms unfolding pair_reaches_def by (blast intro: reachable_packets.more)

lemma pair_simps:
  "cfg pair_wiring = pair_cfg" "hosts pair_wiring = 2" "far pair_wiring i p = (1 - i, 0)"
  "(pair_phases x y)(0 := z) = pair_phases z y" "(pair_phases x y)(Suc 0 := z) = pair_phases x z"
  "pair_phases x y 0 = x" "pair_phases x y (Suc 0) = y"
  "pair_packets f g 0 0 = f" "pair_packets f g (Suc 0) 0 = g"
  "(pair_packets f g)(0 := (pair_packets f g 0)(0 := f')) = pair_packets f' g"
  "(pair_packets f g)(Suc 0 := (pair_packets f g (Suc 0))(0 := g')) = pair_packets f g'"
  by (auto simp: pair_wiring_def pair_phases_def pair_packets_def fun_eq_iff)

lemma pair_hello:
  assumes "state_init (\<lambda>_. True) 0 0 0 (pair_cfg i) = Some s" and "at_port_0 (broadcast_stp calm_env (pair_cfg i) s (- 1))"
    and "pair_reaches x y f g"
  shows "i = 0 \<Longrightarrow> x = Waiting \<Longrightarrow> pair_reaches (Running s) y (f @ outgoing (broadcast_stp calm_env (pair_cfg i) s (- 1)) 0) g"
    and "i = 1 \<Longrightarrow> y = Waiting \<Longrightarrow> pair_reaches x (Running s) f (g @ outgoing (broadcast_stp calm_env (pair_cfg i) s (- 1)) 0)"
proof -
  note st = packet_step.hello [where W = pair_wiring and i = i and ok = True and post = "[]" and s = s and mem = "\<lambda>_. True"
      and ?t1.0 = 0 and ?t2.0 = 0 and ?t3.0 = 0 and e = calm_env and A = "pair_packets f g" and ph = "pair_phases x y",
      simplified phase_if_def if_True append_Nil2 pair_simps simp_thms, OF _ _ assms(1) refl]
  show "i = 0 \<Longrightarrow> x = Waiting \<Longrightarrow> pair_reaches (Running s) y (f @ outgoing (broadcast_stp calm_env (pair_cfg i) s (- 1)) 0) g"
    using st assms(2) by (intro pair_step [OF assms(3) _ push_pair(1)]) (auto simp: pair_simps)
  show "i = 1 \<Longrightarrow> y = Waiting \<Longrightarrow> pair_reaches x (Running s) f (g @ outgoing (broadcast_stp calm_env (pair_cfg i) s (- 1)) 0)"
    using st assms(2) by (intro pair_step [OF assms(3) _ push_pair(2)]) (auto simp: pair_simps)
qed

text \<open>Host \<open>i\<close> receives \<open>b\<close> when 5 s have passed, ends in state \<open>s'\<close> and sends \<open>fs\<close> on its link.\<close>

definition late :: "buf \<Rightarrow> iteration" where
  "late b = \<lparr>received = Some (0, b), handler_env = calm_env, timer_env = calm_env\<lparr>now := 5000\<rparr>\<rparr>"

definition leads :: "nat \<Rightarrow> node_state \<Rightarrow> buf \<Rightarrow> node_state \<Rightarrow> buf list \<Rightarrow> bool" where
  "leads i s b s' fs = (case loop_body (pair_cfg i) s (late b) of
     None \<Rightarrow> False | Some (t, evs) \<Rightarrow> t = s' \<and> at_port_0 evs \<and> outgoing evs 0 = fs)"

lemma pair_handle:
  assumes "pair_reaches x y f g" and "leads i s b s' fs"
  shows "i = 0 \<Longrightarrow> x = Running s \<Longrightarrow> g = b # g' \<Longrightarrow> pair_reaches (Running s') y (f @ fs) g'"
    and "i = 1 \<Longrightarrow> y = Running s \<Longrightarrow> f = b # f' \<Longrightarrow> pair_reaches x (Running s') f' (g @ fs)"
proof -
  obtain evs where evs: "loop_body (pair_cfg i) s (late b) = Some (s', evs)" "at_port_0 evs" "fs = outgoing evs 0"
    using assms(2) by (auto simp: leads_def split: option.splits)
  note st = packet_step.handle [where W = pair_wiring and i = i and ok = True and post = "[]" and s = s and it = "late b"
      and A = "pair_packets f g" and ph = "pair_phases x y",
      simplified phase_if_def if_True append_Nil2 pair_simps simp_thms, OF _ _ _ evs(1)]
  show "i = 0 \<Longrightarrow> x = Running s \<Longrightarrow> g = b # g' \<Longrightarrow> pair_reaches (Running s') y (f @ fs) g'"
    unfolding evs(3) using st [of "pair_packets f g'"] evs(2)
    by (intro pair_step [OF assms(1) _ push_pair(1)]) (auto simp: pair_simps takes_def late_def)
  show "i = 1 \<Longrightarrow> y = Running s \<Longrightarrow> f = b # f' \<Longrightarrow> pair_reaches x (Running s') f' (g @ fs)"
    unfolding evs(3) using st [of "pair_packets f' g"] evs(2)
    by (intro pair_step [OF assms(1) _ push_pair(2)]) (auto simp: pair_simps takes_def late_def)
qed

text \<open>Both learn their neighbour, then hear its advertisement.\<close>

definition pair_start :: "nat \<Rightarrow> node_state" where
  "pair_start i = the (state_init (\<lambda>_. True) 0 0 0 (pair_cfg i))"

definition pair_node :: "nat \<Rightarrow> bool \<Rightarrow> node_state" where
  "pair_node i told = (let me = if i = 0 then 1 else 2; other = if i = 0 then 2 else 1 in
     \<lparr>root = 1, path_len = of_nat i, next_hop = if i = 0 then INVALID_MIXADDR else 1, neighbor_addr = [other], blocked = [False],
      hello_start_ms = if i = 0 then 5000 else 0, reelection_start_ms = 0,
      topology = \<lparr>verts = [\<lparr>addr = other, advertised = told,
            links = if told then [\<lparr>neighbor_mixaddr = me, cost = 1\<rparr>] else []\<rparr>,
          \<lparr>addr = me, advertised = True, links = [\<lparr>neighbor_mixaddr = other, cost = 1\<rparr>]\<rparr>], capacity = 8\<rparr>,
      lsa_start_ms = 5000, fib = [\<lparr>reachable = True, route = []\<rparr>, \<lparr>reachable = False, route = []\<rparr>], mix = None\<rparr>)"

definition pair_stp :: "byte \<Rightarrow> byte \<Rightarrow> buf" where
  "pair_stp n a = [18, 0, 0, 0, 0, 0, 0, 0, 0, 0, 0, 0, if n = 0 then a else 1, 0, n, 0, a, 0]"

definition pair_lsa :: "byte \<Rightarrow> byte \<Rightarrow> buf" where
  "pair_lsa a b = [20, 0, 2, 0, 0, 0, 0, 0, 0, 0, 0, 0, a, 0, 1, 0, b, 0, 1, 0]"

lemma pair_hellos:
  "outgoing (broadcast_stp calm_env (pair_cfg 0) (pair_start 0) (- 1)) 0 = [pair_stp 0 1]"
  "outgoing (broadcast_stp calm_env (pair_cfg 1) (pair_start 1) (- 1)) 0 = [pair_stp 0 2]"
  "at_port_0 (broadcast_stp calm_env (pair_cfg 0) (pair_start 0) (- 1))"
  "at_port_0 (broadcast_stp calm_env (pair_cfg 1) (pair_start 1) (- 1))"
  by (code_simp, code_simp, code_simp, code_simp)

lemma pair_starts: "state_init (\<lambda>_. True) 0 0 0 (pair_cfg i) = Some (pair_start i)"
  by (simp add: pair_start_def state_init_def)

lemma pair_leads:
  "leads 0 (pair_start 0) (pair_stp 0 2) (pair_node 0 False) [pair_stp 0 1, pair_lsa 1 2]"
  "leads 1 (pair_start 1) (pair_stp 0 1) (pair_node 1 False) [pair_stp 1 2, pair_lsa 2 1]"
  "leads 1 (pair_node 1 False) (pair_stp 0 1) (pair_node 1 False) []"
  "leads 1 (pair_node 1 False) (pair_lsa 1 2) (pair_node 1 True) []"
  "leads 0 (pair_node 0 False) (pair_stp 1 2) (pair_node 0 False) []"
  "leads 0 (pair_node 0 False) (pair_lsa 2 1) (pair_node 0 True) []"
  by (code_simp, code_simp, code_simp, code_simp, code_simp, code_simp)

lemma pair_runs:
  "reachable_packets pair_wiring (pair_phases (Running (pair_node 0 True)) (Running (pair_node 1 True)), pair_packets [] [])"
proof -
  have "pair_reaches Waiting Waiting [] []"
  proof -
    have "pair_packets [] [] = (\<lambda>_ _. [])" by (auto simp: pair_packets_def fun_eq_iff)
    then show ?thesis by (simp add: pair_reaches_def pair_phases_def reachable_packets.quiet)
  qed
  from pair_hello(1) [OF pair_starts pair_hellos(3) this refl refl]
  have "pair_reaches (Running (pair_start 0)) Waiting [pair_stp 0 1] []" by (simp add: pair_hellos)
  from pair_hello(2) [OF pair_starts pair_hellos(4) this refl refl]
  have "pair_reaches (Running (pair_start 0)) (Running (pair_start 1)) [pair_stp 0 1] [pair_stp 0 2]"
    by (simp only: pair_hellos append.simps)
  from pair_handle(1) [OF this pair_leads(1) refl refl refl]
  have "pair_reaches (Running (pair_node 0 False)) (Running (pair_start 1)) [pair_stp 0 1, pair_stp 0 1, pair_lsa 1 2] []"
    by simp
  from pair_handle(2) [OF this pair_leads(2) refl refl refl]
  have "pair_reaches (Running (pair_node 0 False)) (Running (pair_node 1 False)) [pair_stp 0 1, pair_lsa 1 2] [pair_stp 1 2, pair_lsa 2 1]"
    by simp
  from pair_handle(2) [OF pair_handle(2) [OF this pair_leads(3) refl refl refl] pair_leads(4) refl refl refl]
  have "pair_reaches (Running (pair_node 0 False)) (Running (pair_node 1 True)) [] [pair_stp 1 2, pair_lsa 2 1]" by simp
  from pair_handle(1) [OF pair_handle(1) [OF this pair_leads(5) refl refl refl] pair_leads(6) refl refl refl]
  show ?thesis by (simp add: pair_reaches_def)
qed

lemma pair_facts:
  "pair_phases x y i = (if i = 0 then x else if i = 1 then y else Waiting)"
  "neighbors_known (pair_cfg 1) (pair_node 1 True)"
  "rows (topology (pair_node 0 True)) 2 = Some [\<lparr>neighbor_mixaddr = 1, cost = 1\<rparr>]"
  "fib_lookup (pair_node 0 True) 2 = Some \<lparr>reachable = True, route = []\<rparr>"
  "neighbor_addr (pair_node 0 True) = [2]"
proof -
  show "pair_phases x y i = (if i = 0 then x else if i = 1 then y else Waiting)" by (simp add: pair_phases_def)
qed (code_simp, code_simp, code_simp, code_simp)

theorem advertised_links_are_real_witness:
  "rows (topology (pair_node 0 True)) 2 = Some [\<lparr>neighbor_mixaddr = 1, cost = 1\<rparr>] \<and>
   (\<exists>j. j < hosts pair_wiring \<and> node_addr (cfg pair_wiring j) = 2) \<and>
   neighbor_addr (pair_node 0 True) ! 0 \<in> {INVALID_MIXADDR, nbr_of pair_wiring 0 0}"
proof -
  have "pair_phases (Running (pair_node 0 True)) (Running (pair_node 1 True)) 0 = Running (pair_node 0 True)"
    by (simp add: pair_facts)
  from advertised_links_are_real [OF pair_wired pair_runs _ this] pair_facts(3)
  show ?thesis by (fastforce simp: pair_simps)
qed

definition pair_packet :: buf where
  "pair_packet = [22, 0, 3, 0, 0, 0, 0, 0, 0, 0, 0, 0, 1, 0, 2, 0, 0, 0, 0, 0, 7, 9] @ replicate 4074 0"

lemma pair_packet_fields:
  "length pair_packet = 4096" "rd16 pair_packet 0 = 22" "rd16 pair_packet 2 = 3"
  "rd16 pair_packet 12 = 1" "rd16 pair_packet 14 = 2" "rd16 pair_packet 16 = 0"
proof -
  let ?h = "[22, 0, 3, 0, 0, 0, 0, 0, 0, 0, 0, 0, 1, 0, 2, 0, 0, 0, 0, 0, 7, 9] :: buf"
  have "rd16 ?h 0 = 22" "rd16 ?h 2 = 3" "rd16 ?h 12 = 1" "rd16 ?h 14 = 2" "rd16 ?h 16 = 0"
    by (code_simp, code_simp, code_simp, code_simp, code_simp)
  then show "rd16 pair_packet 0 = 22" "rd16 pair_packet 2 = 3"
    "rd16 pair_packet 12 = 1" "rd16 pair_packet 14 = 2" "rd16 pair_packet 16 = 0"
    unfolding pair_packet_def by (subst rd16_append, simp, simp)+
  show "length pair_packet = 4096" by (simp add: pair_packet_def)
qed

theorem running_network_delivers_witness:
  "\<exists>ph x z B y. hand_over pair_wiring 0 pair_packet (ph, pair_packets [] []) x \<and> carry pair_wiring x z \<and>
    z = (ph, B) \<and> links_empty pair_wiring B \<and>
    to_user_of pair_wiring B 1 = [y] \<and> user_data y = user_data pair_packet \<and> rd16 y off_rh_src = 1"
proof -
  let ?ph = "pair_phases (Running (pair_node 0 True)) (Running (pair_node 1 True))"
  let ?e = "calm_env\<lparr>now := 5000\<rparr>"
  have run: "all_run pair_wiring ?ph"
    by (auto simp: all_run_def pair_facts pair_simps less_2_cases_iff pair_cfg_def example_config_def)
  have due: "no_timer_due pair_wiring ?ph ?e"
    by (auto simp: no_timer_due_def pair_facts pair_simps less_2_cases_iff pair_node_def pair_cfg_def example_config_def
        elapsed_def Let_def)
  have quiet: "links_empty pair_wiring (pair_packets [] [])" "to_user_of pair_wiring (pair_packets [] []) j = []" for j
    by (auto simp: links_empty_def to_user_of_def pair_packets_def)
  have req: "user_request pair_packet" "rd16 pair_packet off_type = DATA_code" "length (user_data pair_packet) = 2"
    by (simp_all add: user_request_def pkt_block_def pkt_total_size_def user_data_def pair_packet_fields)
  have path: "fib_lookup (pair_node 0 True) (rd16 pair_packet off_rh_dst) = Some \<lparr>reachable = True, route = []\<rparr>"
    using pair_facts(4) by (simp add: pair_packet_fields)
  have i: "0 < hosts pair_wiring" "?ph 0 = Running (pair_node 0 True)" "\<not> do_random_routing (cfg pair_wiring 0)"
    by (simp_all add: pair_facts pair_simps pair_cfg_def example_config_def)
  have size: "off_rh_route (length (route \<lparr>reachable = True, route = []\<rparr>)) + length (user_data pair_packet) \<le> MAX_MIXNET_PACKET_SIZE"
    by (simp add: req)
  have ends: "rd16 pair_packet off_rh_src = 1" "rd16 pair_packet off_rh_dst = 2" by (simp_all add: pair_packet_fields)
  let ?n = "length (route \<lparr>reachable = True, route = []\<rparr>) + 1"
  note del = running_network_delivers [OF pair_wired pair_runs run due quiet(1) i req(1,2) path size]
  then obtain x where x: "hand_over pair_wiring 0 pair_packet (?ph, pair_packets [] []) x" by blast
  have "(carry pair_wiring ^^ 0) x x" by simp
  then obtain z where z: "carry pair_wiring x z"
    using del x by (metis add_gr_0 less_numeral_extra(1))
  have "?n = 1" by simp
  then have "(carry pair_wiring ^^ ?n) x z" using z by (simp only: relpowp_1)
  then obtain B j y where y: "z = (?ph, B)" "links_empty pair_wiring B" "j < hosts pair_wiring"
    "node_addr (cfg pair_wiring j) = rd16 pair_packet off_rh_dst" "user_data y = user_data pair_packet"
    "rd16 y off_rh_src = rd16 pair_packet off_rh_src"
    "\<forall>n. to_user_of pair_wiring B n = to_user_of pair_wiring (pair_packets [] []) n @ (if n = j then [y] else [])"
    using del x by blast
  have "j = 1" using y(3,4) ends by (auto simp: pair_simps pair_cfg_def less_2_cases_iff)
  then have "to_user_of pair_wiring B 1 = [y]" using y(7) quiet(2) by simp
  then show ?thesis using x z y(1,2,5,6) ends by metis
qed

end
