(* ===== verification/Mesh.thy ===== *)
theory Mesh
  imports Packet_Network Testcase_Calls
begin

text \<open>
  A testcase's network while it runs: one fragment per node, its node's thread, its main thread
  carrying out the orchestrator's tasks and its pcap thread interleaved step by step, and the
  links between them moving bytes in pieces of any size. It is shown to implement the network of
  packets of \<open>Packet_Network\<close>. Nothing here models code of its own; the steps are the calls of
  \<open>Fragment\<close> and \<open>Node_Thread\<close>.
\<close>

subsection \<open>The network\<close>

record host =
  frag :: fragment
  phase :: phase

type_synonym mesh = "nat \<Rightarrow> host"

definition ctx :: "host \<Rightarrow> node_context" where
  "ctx h = the (node_ctx (frag h))"

definition set_ctx :: "host \<Rightarrow> node_context \<Rightarrow> itc \<Rightarrow> phase \<Rightarrow> host" where
  "set_ctx h c q ph = h\<lparr>frag := (frag h)\<lparr>node_ctx := Some c, queues := q\<rparr>, phase := ph\<rparr>"

definition phase_after :: "node_state option \<Rightarrow> phase" where
  "phase_after r = (case r of None \<Rightarrow> Ended | Some s \<Rightarrow> Running s)"

subsection \<open>Steps\<close>

text \<open>
  What a request of the orchestrator may ask: a packet to send is one \<open>send_packet\<close> of the
  orchestrator accepts, and of no type the user port has no handler for.
\<close>

definition sendable :: "message \<Rightarrow> bool" where
  "sendable m \<longleftrightarrow> rd16 m off_msg \<noteq> type_code PACKET_TYPE_STP \<and>
     unat (rd16 m (off_msg + 6)) \<le> MAX_MIXNET_DATA_SIZE"

definition moved :: "wiring \<Rightarrow> nat \<Rightarrow> nat \<Rightarrow> nat \<Rightarrow> mesh \<Rightarrow> mesh" where
  "moved W i p k M =
     (let (j, r) = far W i p; c = ctx (M i); d = ctx (M j) in
      M(i := set_ctx (M i) (c\<lparr>tx_wire := (tx_wire c)[p := drop k (tx_wire c ! p)]\<rparr>)
             (queues (frag (M i))) (phase (M i)),
        j := set_ctx (M j) (d\<lparr>rx_pending := (rx_pending d)[r := rx_pending d ! r @ take k (tx_wire c ! p)]\<rparr>)
             (queues (frag (M j))) (phase (M j))))"

inductive mesh_step :: "wiring \<Rightarrow> mesh \<Rightarrow> mesh \<Rightarrow> bool" for W :: wiring where
  start: "i < hosts W \<Longrightarrow> phase (M i) = Waiting \<Longrightarrow> healthy io \<Longrightarrow>
    worker_start e t io ((ctx (M i))\<lparr>ts := (ts (ctx (M i)))\<lparr>thread_started := True\<rparr>\<rparr>) (queues (frag (M i))) =
      Some (r, c, q) \<Longrightarrow>
    mesh_step W M (M(i := set_ctx (M i) c q (phase_after r)))"
| turn: "i < hosts W \<Longrightarrow> phase (M i) = Running s \<Longrightarrow> thread_keep_running (ts (ctx (M i))) \<Longrightarrow>
    n_rx t = quiet_io \<Longrightarrow> healthy (n_tx t) \<Longrightarrow>
    worker_turn t s (ctx (M i)) (queues (frag (M i))) = Some (r, c, q) \<Longrightarrow>
    mesh_step W M (M(i := set_ctx (M i) c q (phase_after r)))"
| stop: "i < hosts W \<Longrightarrow> phase (M i) = Running s \<Longrightarrow> \<not> thread_keep_running (ts (ctx (M i))) \<Longrightarrow>
    c = (ctx (M i))\<lparr>ts := (ts (ctx (M i)))\<lparr>exited := True\<rparr>\<rparr> \<Longrightarrow>
    mesh_step W M (M(i := set_ctx (M i) c (queues (frag (M i))) Ended))"
| transfer: "i < hosts W \<Longrightarrow> p < ports (cfg W i) \<Longrightarrow> mesh_step W M (moved W i p k M)"
| request: "i < hosts W \<Longrightarrow> is_message m \<Longrightarrow>
    mesh_step W M (M(i := (M i)\<lparr>frag := (frag (M i))\<lparr>msg_ctrl := m\<rparr>\<rparr>))"
| task: "i < hosts W \<Longrightarrow> (ty = SEND_PACKET \<Longrightarrow> sendable (msg_ctrl (frag (M i)))) \<Longrightarrow> list_all (\<lambda>io. io = quiet_io 0) (t_drain t) \<Longrightarrow>
    run_task t ty (frag (M i)) = Some (ec, fin, resp, f) \<Longrightarrow>
    mesh_step W M (M(i := (M i)\<lparr>frag := f\<rparr>))"
| pcap: "i < hosts W \<Longrightarrow> message_queue_tryread (mq_pcap (queues (frag (M i)))) = Some (Some b, mq1) \<Longrightarrow>
    message_queue_message_free b mq1 = Some mq2 \<Longrightarrow>
    mesh_step W M (M(i := (M i)\<lparr>frag := (frag (M i))\<lparr>queues := (queues (frag (M i)))\<lparr>mq_pcap := mq2\<rparr>\<rparr>\<rparr>))"

subsection \<open>What holds between steps\<close>

definition host_ok :: "wiring \<Rightarrow> nat \<Rightarrow> host \<Rightarrow> bool" where
  "host_ok W i h \<longleftrightarrow> is_message (msg_ctrl (frag h)) \<and> is_message (msg_pcap (frag h)) \<and>
     node_ctx (frag h) \<noteq> None \<and> ctx_ok (ctx h) \<and> node_config (ctx h) = cfg W i \<and>
     user_queue_ok (queues (frag h)) \<and> (\<exists>s. implements (mq_pcap (queues (frag h))) s) \<and>
     exit_code (ts (ctx h)) \<in> {NONE, FRAGMENT_PCAP_MQ_FULL} \<and>
     (phase h \<noteq> Ended \<longrightarrow> exit_code (ts (ctx h)) = NONE)"

text \<open>The bytes between two ports: what has arrived and what is still on its way.\<close>

definition channel :: "wiring \<Rightarrow> mesh \<Rightarrow> nat \<Rightarrow> nat \<Rightarrow> buf" where
  "channel W M i p =
     (let (j, r) = far W i p in rx_pending (ctx (M j)) ! r @ tx_wire (ctx (M i)) ! p)"

text \<open>The state of the packet network a mesh stands for: its nodes, and whole packets on the links.\<close>

definition phases :: "mesh \<Rightarrow> nat \<Rightarrow> phase" where
  "phases M = (\<lambda>i. phase (M i))"

definition carries :: "wiring \<Rightarrow> mesh \<Rightarrow> packets \<Rightarrow> bool" where
  "carries W M A \<longleftrightarrow> (\<forall>i < hosts W. \<forall>p < ports (cfg W i). channel W M i p = concat (A i p))"

definition mesh_ok :: "wiring \<Rightarrow> mesh \<Rightarrow> packets \<Rightarrow> bool" where
  "mesh_ok W M A \<longleftrightarrow> (\<forall>i < hosts W. host_ok W i (M i)) \<and> carries W M A \<and> reachable_packets W (phases M, A)"

text \<open>A step of the mesh that the packet network takes too, or does not see.\<close>

definition mesh_next :: "wiring \<Rightarrow> mesh \<Rightarrow> packets \<Rightarrow> mesh \<Rightarrow> bool" where
  "mesh_next W M A M' \<longleftrightarrow> (\<forall>i < hosts W. host_ok W i (M' i)) \<and> (\<exists>A'. carries W M' A' \<and>
     ((phases M', A') = (phases M, A) \<or> packet_step W (phases M, A) (phases M', A')))"

lemma phases_update [simp]: "phases (M(i := h)) = (phases M)(i := phase h)"
  by (auto simp: phases_def)

lemma mesh_okD:
  assumes W: "well_wired W" and ok: "mesh_ok W M A" and i: "i < hosts W"
  shows "host_ok W i (M i)" "links_proper (truth W (phases M)) W A"
    "phase (M i) = Running s \<Longrightarrow> honest_state (truth W (phases M)) (nbr_of W i) (cfg W i) s"
proof -
  have "packets_ok W (phases M, A)" using ok reachable_packets_ok [OF W] by (simp add: mesh_ok_def)
  then show "links_proper (truth W (phases M)) W A"
    "phase (M i) = Running s \<Longrightarrow> honest_state (truth W (phases M)) (nbr_of W i) (cfg W i) s"
    using i by (auto simp: packets_ok_def host_honest_def phases_def)
  show "host_ok W i (M i)" using ok i by (simp add: mesh_ok_def)
qed

lemma host_nextI:
  assumes ok: "mesh_ok W M A" and h: "host_ok W i h'" and c: "carries W (M(i := h')) A'"
    and st: "phase h' = phase (M i) \<and> A' = A \<or> packet_step W (phases M, A) ((phases M)(i := phase h'), A')"
  shows "mesh_next W M A (M(i := h'))"
proof -
  have "phase h' = phase (M i) \<Longrightarrow> (phases M)(i := phase h') = phases M" by (auto simp: phases_def)
  then show ?thesis using assms by (auto simp: mesh_next_def mesh_ok_def)
qed

lemma carries_rx:
  assumes c: "carries W M A" and a: "a < hosts W" "p < ports (cfg W a)" "far W a p = (j, r)"
  shows "rx_pending (ctx (M j)) ! r @ tx_wire (ctx (M a)) ! p = concat (A a p)"
proof -
  have "channel W M a p = concat (A a p)" using c a(1,2) by (simp add: carries_def)
  then show ?thesis by (simp add: channel_def a(3))
qed

text \<open>
  What a step of host \<open>i\<close> does to the links: \<open>new p\<close> joins the link of its port \<open>p\<close>, and \<open>B\<close> is what
  it has left of the links that end at it.
\<close>

lemma host_carries:
  assumes W: "well_wired W" and i: "i < hosts W" and c: "carries W M A"
    and tx: "\<And>p. p < ports (cfg W i) \<Longrightarrow> tx_wire (ctx h') ! p = tx_wire (ctx (M i)) ! p @ concat (new p)"
    and same: "\<And>a p. fst (far W a p) \<noteq> i \<Longrightarrow> B a p = A a p"
    and rx: "\<And>a p r. a < hosts W \<Longrightarrow> p < ports (cfg W a) \<Longrightarrow> far W a p = (i, r) \<Longrightarrow>
      rx_pending (ctx h') ! r @ tx_wire (ctx (M a)) ! p = concat (B a p)"
  shows "carries W (M(i := h')) (B(i := (\<lambda>p. B i p @ new p)))"
  unfolding carries_def
proof (intro allI impI)
  fix a p assume a: "a < hosts W" "p < ports (cfg W a)"
  obtain j r where far: "far W a p = (j, r)" by fastforce
  note f = far_props [OF W a far]
  note old = carries_rx [OF c a far]
  consider "a = i" | "a \<noteq> i" "j = i" | "a \<noteq> i" "j \<noteq> i" by blast
  then show "channel W (M(i := h')) a p = concat ((B(i := (\<lambda>p. B i p @ new p))) a p)"
  proof cases
    case 1
    then have "B i p = A i p" using same far f(2) by simp
    then show ?thesis using 1 tx a(2) old f(2) far by (simp add: channel_def flip: append_assoc)
  next
    case 2
    then show ?thesis using rx [OF a] far by (simp add: channel_def)
  next
    case 3
    then have "B a p = A a p" using same far by simp
    then show ?thesis using 3 old by (simp add: channel_def far)
  qed
qed

subsection \<open>Turns of a node\<close>

lemma set_ctx_sel [simp]:
  "ctx (set_ctx h c q ph) = c" "queues (frag (set_ctx h c q ph)) = q" "phase (set_ctx h c q ph) = ph"
  "node_ctx (frag (set_ctx h c q ph)) = Some c" "msg_ctrl (frag (set_ctx h c q ph)) = msg_ctrl (frag h)"
  "msg_pcap (frag (set_ctx h c q ph)) = msg_pcap (frag h)"
  by (simp_all add: set_ctx_def ctx_def)

text \<open>The rely of \<open>Node_Thread\<close> holds for every host.\<close>

lemma mesh_turn_ready:
  assumes W: "well_wired W" and ok: "mesh_ok W M A" and i: "i < hosts W"
  shows "turn_ready (truth W (phases M)) (nbr_of W i) (ctx (M i)) (queues (frag (M i)))"
proof -
  note d = mesh_okD [OF W ok i]
  have "arriving (truth W (phases M)) (nbr_of W i r) (rx_pending (ctx (M i)) ! r)" if r: "r < ports (cfg W i)" for r
  proof -
    obtain j p where far: "far W i r = (j, p)" by fastforce
    note f = far_props [OF W i r far]
    have "rx_pending (ctx (M i)) ! r @ tx_wire (ctx (M j)) ! p = concat (A j p)"
      using carries_rx [OF _ f(1,3,4)] ok by (simp add: mesh_ok_def)
    moreover have "frames_of (truth W (phases M)) (node_addr (cfg W j)) (A j p)"
      using d(2) f(1,3) by (simp add: links_proper_def)
    ultimately show ?thesis unfolding arriving_def nbr_of_def far fst_conv by blast
  qed
  then show ?thesis using d(1) by (simp add: turn_ready_def host_ok_def)
qed

text \<open>What a turn receives is what an iteration of the packet network takes.\<close>

lemma received_takes:
  assumes W: "well_wired W" and i: "i < hosts W" and c: "carries W M A" and A: "links_proper L W A"
    and h: "host_ok W i (M i)" and r: "received_from L (nbr_of W i) (ctx (M i)) q r c1 q1"
  shows "\<exists>B. takes W i (turn_iteration t r) A B \<and> (\<forall>a p. fst (far W a p) \<noteq> i \<longrightarrow> B a p = A a p) \<and>
    (\<forall>a p x. a < hosts W \<longrightarrow> p < ports (cfg W a) \<longrightarrow> far W a p = (i, x) \<longrightarrow>
       rx_pending c1 ! x @ tx_wire (ctx (M a)) ! p = concat (B a p))"
proof -
  let ?P = "rx_pending (ctx (M i))"
  have cf: "node_config (ctx (M i)) = cfg W i" "length ?P = ports (cfg W i)" using h by (auto simp: host_ok_def ctx_ok_def)
  note rx = carries_rx [OF c]
  have same: ?thesis if "takes W i (turn_iteration t r) A A" "rx_pending c1 = ?P"
    using that rx by (intro exI [of _ A]) simp
  show ?thesis
  proof (cases r)
    case (Packet port b)
    show ?thesis
    proof (cases "port = user_port (cfg W i)")
      case True
      then show ?thesis
        using r cf Packet
        by (intro same) (auto simp: received_from_def takes_def turn_iteration_def acceptable_def user_handed_def)
    next
      case False
      let ?n = "unat port"
      have n: "?n < ports (cfg W i)" "complete_packet (?P ! ?n)" "b = take (frame_len (?P ! ?n)) (?P ! ?n)"
        "rx_pending c1 = ?P[?n := drop (frame_len (?P ! ?n)) (?P ! ?n)]"
        using r cf(1) Packet False by (auto simp: received_from_def Let_def)
      obtain j p where far: "far W i ?n = (j, p)" by fastforce
      note f = far_props [OF W i n(1) far]
      have "frames_of L (node_addr (cfg W j)) (A j p)" using A f(1,3) by (simp add: links_proper_def)
      from stream_head(2) [OF rx [OF f(1,3,4)] this n(2)] obtain gs where
        gs: "A j p = b # gs" "drop (frame_len (?P ! ?n)) (?P ! ?n) @ tx_wire (ctx (M j)) ! p = concat gs"
        using n(3) by auto
      let ?B = "A(j := (A j)(p := gs))"
      have "takes W i (turn_iteration t r) A ?B"
        using Packet False n(1) far gs(1) by (simp add: takes_def turn_iteration_def)
      moreover have "\<forall>a p. fst (far W a p) \<noteq> i \<longrightarrow> ?B a p = A a p" using f(4) by auto
      moreover have "rx_pending c1 ! x @ tx_wire (ctx (M a)) ! p' = concat (?B a p')"
        if a: "a < hosts W" "p' < ports (cfg W a)" "far W a p' = (i, x)" for a p' x
      proof (cases "x = ?n")
        case True
        then have "(a, p') = (j, p)" using far_props(4) [OF W a] far by auto
        then show ?thesis using True n gs(2) cf(2) by simp
      next
        case False
        then have "(a, p') \<noteq> (j, p)" using a(3) f(4) by auto
        then show ?thesis using False rx [OF a] n(4) by auto
      qed
      ultimately show ?thesis by blast
    qed
  qed (use r same in \<open>auto simp: received_from_def takes_def turn_iteration_def\<close>)
qed

lemma phase_after_if: "phase_after (if ok then Some s else None) = phase_if ok s"
  by (simp add: phase_after_def phase_if_def)

lemma turn_keeps:
  assumes W: "well_wired W" and ok: "mesh_ok W M A" and i: "i < hosts W" and ph: "phase (M i) = Running s"
    and io: "n_rx t = quiet_io" "healthy (n_tx t)"
    and run: "worker_turn t s (ctx (M i)) (queues (frag (M i))) = Some (r, c, q)"
  shows "mesh_next W M A (M(i := set_ctx (M i) c q (phase_after r)))"
proof -
  let ?h' = "set_ctx (M i) c q (phase_after r)" and ?c = "ctx (M i)" and ?q = "queues (frag (M i))"
  let ?L = "truth W (phases M)" and ?nbr = "nbr_of W i"
  note d = mesh_okD [OF W ok i]
  have c: "node_config ?c = cfg W i" using d(1) by (simp add: host_ok_def)
  note w = wired_host [OF W i, folded c] and rdy = mesh_turn_ready [OF W ok i]
  from worker_turn_runs [OF rdy d(3) [OF ph, folded c] w(2,1) io] run obtain fin s' evs rr
    where r: "r = (if fin then Some s' else None)"
      and runs: "turn_runs ?L ?nbr t s ?c ?q fin s' evs rr c q" by auto
  obtain c1 q1 where rec: "received_from ?L ?nbr ?c ?q rr c1 q1"
    and body: "loop_body (cfg W i) s (turn_iteration t rr) = Some (s', evs)"
    and sd: "sends_done evs c1 q1 (fin, c, q)" using runs c by (auto simp: turn_runs_def)
  obtain pre post where pre: "evs = pre @ post" "fin \<longrightarrow> post = []"
    "\<forall>p < ports (cfg W i). tx_wire c ! p = tx_wire c1 ! p @ concat (outgoing pre p)"
    using sd rec c by (auto simp: sends_done_def send_log_def received_from_def same_links_def)
  have car: "carries W M A" using ok by (simp add: mesh_ok_def)
  obtain B where B: "takes W i (turn_iteration t rr) A B" "\<And>a p. fst (far W a p) \<noteq> i \<Longrightarrow> B a p = A a p"
    "\<And>a p x. a < hosts W \<Longrightarrow> p < ports (cfg W a) \<Longrightarrow> far W a p = (i, x) \<Longrightarrow>
       rx_pending c1 ! x @ tx_wire (ctx (M a)) ! p = concat (B a p)"
    using received_takes [OF W i car d(2,1) rec] by blast
  have wires: "tx_wire c1 = tx_wire ?c" "rx_pending c = rx_pending c1"
    using rec sd by (simp_all add: received_from_def same_links_def sends_done_def send_frame_def)
  have "carries W (M(i := ?h')) (push i pre B)"
    unfolding push_def by (rule host_carries [OF W i car]) (use pre(3) B(2,3) wires in simp_all)
  moreover have "packet_step W (phases M, A) ((phases M)(i := phase ?h'), push i pre B)"
    using packet_step.handle [OF i _ B(1) body [unfolded pre(1)], of "phases M" fin] ph pre(2) r
    by (simp add: phases_def phase_after_if)
  moreover have "host_ok W i ?h'"
    using d(1) turn_runs_thread [OF runs] turn_runs_ready [OF rdy runs] r ph
    by (cases fin) (auto simp: host_ok_def thread_after_def turn_ready_def phase_after_def)
  ultimately show ?thesis by (intro host_nextI [OF ok]) auto
qed

lemma start_keeps:
  assumes W: "well_wired W" and ok: "mesh_ok W M A" and i: "i < hosts W" and ph: "phase (M i) = Waiting"
    and io: "healthy io"
    and run: "worker_start e t io ((ctx (M i))\<lparr>ts := (ts (ctx (M i)))\<lparr>thread_started := True\<rparr>\<rparr>)
      (queues (frag (M i))) = Some (r, c, q)"
  shows "mesh_next W M A (M(i := set_ctx (M i) c q (phase_after r)))"
proof -
  let ?h' = "set_ctx (M i) c q (phase_after r)" and ?q = "queues (frag (M i))"
  let ?c = "(ctx (M i))\<lparr>ts := (ts (ctx (M i)))\<lparr>thread_started := True\<rparr>\<rparr>"
  let ?L = "truth W (phases M)"
  have h: "host_ok W i (M i)" by (rule mesh_okD [OF W ok i])
  have car: "carries W M A" using ok by (simp add: mesh_ok_def)
  have c: "node_config ?c = cfg W i" "ctx_ok ?c" using h by (auto simp: host_ok_def ctx_ok_def)
  have rdy: "turn_ready ?L (nbr_of W i) ?c ?q"
    using mesh_turn_ready [OF W ok i] by (simp add: turn_ready_def ctx_ok_def)
  show ?thesis
  proof (cases "state_init (alloc e) (fst t) (fst (snd t)) (snd (snd t)) (cfg W i)")
    case None
    then have r: "r = None" "c = ?c" "q = ?q" using run c(1) by (simp_all add: worker_start_def)
    have "carries W (M(i := ?h')) (A(i := (\<lambda>p. A i p @ (\<lambda>_. []) p)))"
      by (rule host_carries [OF W i car]) (use r carries_rx [OF car] in simp_all)
    then have "carries W (M(i := ?h')) A" by simp
    moreover have "packet_step W (phases M, A) ((phases M)(i := phase ?h'), A)"
      using packet_step.no_memory [OF i] ph r by (simp add: phases_def phase_after_def)
    moreover have "host_ok W i ?h'" using h r c ph by (auto simp: host_ok_def phase_after_def)
    ultimately show ?thesis by (intro host_nextI [OF ok]) auto
  next
    case (Some s)
    let ?evs = "broadcast_stp e (cfg W i) s (- 1)"
    obtain sp where "implements (mq_pcap ?q) sp" using rdy by (auto simp: turn_ready_def)
    from send_events_done [OF c(2) this io proper_readable [OF broadcast_stp_proper [where L = ?L]]]
    obtain fin c1 q1 where e: "send_events io ?evs ?c ?q = Some (fin, c1, q1)" "sends_done ?evs ?c ?q (fin, c1, q1)"
      by (metis prod_cases3)
    then have r: "r = (if fin then Some s else None)" "c1 = c" "q1 = q"
      using run Some c(1) by (simp_all add: worker_start_def)
    note sd = e(2) [unfolded r(2,3)]
    obtain pre post where pre: "?evs = pre @ post" "fin \<longrightarrow> post = []"
      "\<forall>p < ports (cfg W i). tx_wire c ! p = tx_wire (ctx (M i)) ! p @ concat (outgoing pre p)"
      using sd c(1) by (auto simp: sends_done_def send_log_def)
    have "rx_pending c = rx_pending (ctx (M i))" using sd by (simp add: sends_done_def send_frame_def)
    then have "carries W (M(i := ?h')) (push i pre A)"
      unfolding push_def by (intro host_carries [OF W i car]) (use pre(3) carries_rx [OF car] in simp_all)
    moreover have "packet_step W (phases M, A) ((phases M)(i := phase ?h'), push i pre A)"
      using packet_step.hello [OF i _ Some pre(1), of "phases M" fin] ph pre(2) r
      by (simp add: phases_def phase_after_if)
    moreover have "host_ok W i ?h'"
      using h sends_ready [OF rdy sd] sd r(1) c(1) ph
      by (cases fin) (auto simp: host_ok_def turn_ready_def sends_done_def send_frame_def phase_after_def)
    ultimately show ?thesis by (intro host_nextI [OF ok]) auto
  qed
qed

subsection \<open>Steps beside the nodes\<close>

text \<open>Some whole frames at the head of a stream are gone.\<close>

definition drops :: "buf \<Rightarrow> buf \<Rightarrow> bool" where
  "drops P P' \<longleftrightarrow> (\<forall>L me later fs. P @ later = concat fs \<longrightarrow> frames_of L me fs \<longrightarrow>
     (\<exists>k. P' @ later = concat (drop k fs)))"

lemma drops_refl: "drops P P"
  unfolding drops_def by (metis drop0)

lemma drops_head: "complete_packet P \<Longrightarrow> drops P (drop (frame_len P) P)"
  unfolding drops_def
proof (intro allI impI)
  fix L me later fs
  assume "complete_packet P" "P @ later = concat fs" "frames_of L me fs"
  from stream_head(2) [OF this(2,3,1)] obtain gs where
    "fs = take (frame_len P) P # gs" "drop (frame_len P) P @ later = concat gs" by blast
  then show "\<exists>k. drop (frame_len P) P @ later = concat (drop k fs)" by (intro exI [of _ 1]) simp
qed

lemma drops_trans: "drops P Q \<Longrightarrow> drops Q R \<Longrightarrow> drops P R"
  unfolding drops_def
proof (intro allI impI)
  fix L me later fs
  assume q: "\<forall>L me later fs. P @ later = concat fs \<longrightarrow> frames_of L me fs \<longrightarrow> (\<exists>k. Q @ later = concat (drop k fs))"
    and r: "\<forall>L me later fs. Q @ later = concat fs \<longrightarrow> frames_of L me fs \<longrightarrow> (\<exists>k. R @ later = concat (drop k fs))"
    and s: "P @ later = concat fs" "frames_of L me fs"
  obtain k where k: "Q @ later = concat (drop k fs)" using q s by blast
  have "frames_of L me (drop k fs)" using s(2) by (auto simp: frames_of_def dest: in_set_dropD)
  then obtain j where "R @ later = concat (drop j (drop k fs))" using r k by blast
  then show "\<exists>k. R @ later = concat (drop k fs)" by (metis drop_drop)
qed

text \<open>The links that end at a host lose what its ports' buffers lose.\<close>

lemma lost_carries:
  assumes W: "well_wired W" and ok: "mesh_ok W M A" and i: "i < hosts W"
    and tx: "tx_wire (ctx h') = tx_wire (ctx (M i))"
    and rx: "\<And>r. r < ports (cfg W i) \<Longrightarrow> drops (rx_pending (ctx (M i)) ! r) (rx_pending (ctx h') ! r)"
  shows "\<exists>k. carries W (M(i := h')) (lost W i k A)"
proof -
  note A = mesh_okD(2) [OF W ok i]
  have car: "carries W M A" using ok by (simp add: mesh_ok_def)
  let ?left = "\<lambda>r k. case far W i r of (a, p) \<Rightarrow>
    rx_pending (ctx h') ! r @ tx_wire (ctx (M a)) ! p = concat (drop k (A a p))"
  have left: "\<exists>k. ?left r k" if r: "r < ports (cfg W i)" for r
  proof -
    obtain a p where far: "far W i r = (a, p)" by fastforce
    note f = far_props [OF W i r far]
    have "rx_pending (ctx (M i)) ! r @ tx_wire (ctx (M a)) ! p = concat (A a p)"
      by (rule carries_rx [OF car f(1,3,4)])
    moreover have "frames_of (truth W (phases M)) (node_addr (cfg W a)) (A a p)"
      using A f(1,3) by (simp add: links_proper_def)
    ultimately have "\<exists>k. rx_pending (ctx h') ! r @ tx_wire (ctx (M a)) ! p = concat (drop k (A a p))"
      using rx [OF r, unfolded drops_def, rule_format] by blast
    then show ?thesis by (simp add: far)
  qed
  have "\<forall>r. \<exists>k. r < ports (cfg W i) \<longrightarrow> ?left r k"
  proof
    show "\<exists>k. r < ports (cfg W i) \<longrightarrow> ?left r k" for r
      using left [of r] by (cases "r < ports (cfg W i)") (simp_all only: simp_thms)
  qed
  from choice [OF this] obtain k where "\<forall>r. r < ports (cfg W i) \<longrightarrow> ?left r (k r)" ..
  note k = this [rule_format]
  have "carries W (M(i := h')) ((lost W i k A)(i := (\<lambda>p. lost W i k A i p @ (\<lambda>_. []) p)))"
  proof (rule host_carries [OF W i car])
    fix a p r assume a: "a < hosts W" "p < ports (cfg W a)" "far W a p = (i, r)"
    note f = far_props [OF W a]
    show "rx_pending (ctx h') ! r @ tx_wire (ctx (M a)) ! p = concat (lost W i k A a p)"
      using k [OF f(3)] f(4) a(3) by (simp add: lost_def)
  qed (use tx in \<open>simp_all add: lost_def\<close>)
  then have "carries W (M(i := h')) (lost W i k A)" by simp
  then show ?thesis by blast
qed

text \<open>Steps that leave the node alone: packets may be lost, or nothing happens.\<close>

definition same_node :: "host \<Rightarrow> host \<Rightarrow> bool" where
  "same_node h h' \<longleftrightarrow> phase h' = phase h \<and> tx_wire (ctx h') = tx_wire (ctx h)"

lemma quiet_step:
  assumes W: "well_wired W" and ok: "mesh_ok W M A" and i: "i < hosts W" and h': "host_ok W i h'"
    and same: "same_node (M i) h'"
    and rx: "\<And>r. r < ports (cfg W i) \<Longrightarrow> drops (rx_pending (ctx (M i)) ! r) (rx_pending (ctx h') ! r)"
  shows "mesh_next W M A (M(i := h'))"
proof -
  have s: "phase h' = phase (M i)" "tx_wire (ctx h') = tx_wire (ctx (M i))" using same by (simp_all add: same_node_def)
  obtain k where "carries W (M(i := h')) (lost W i k A)" using lost_carries [OF W ok i s(2) rx] by blast
  moreover have "(phases M)(i := phase h') = phases M" using s(1) by (auto simp: phases_def)
  then have "packet_step W (phases M, A) ((phases M)(i := phase h'), lost W i k A)"
    using packet_step.lose [OF i] by simp
  ultimately show ?thesis by (intro host_nextI [OF ok h']) auto
qed

lemma still_step:
  assumes W: "well_wired W" and ok: "mesh_ok W M A" and i: "i < hosts W" and h': "host_ok W i h'"
    and same: "same_node (M i) h'" and rx: "rx_pending (ctx h') = rx_pending (ctx (M i))"
  shows "mesh_next W M A (M(i := h'))"
proof -
  have car: "carries W M A" using ok by (simp add: mesh_ok_def)
  have "carries W (M(i := h')) (A(i := (\<lambda>p. A i p @ (\<lambda>_. []) p)))"
    by (rule host_carries [OF W i car]) (use same rx carries_rx [OF car] in \<open>simp_all add: same_node_def\<close>)
  then have "carries W (M(i := h')) A" by simp
  then show ?thesis using same by (intro host_nextI [OF ok h']) (auto simp: same_node_def)
qed

lemma stop_keeps:
  assumes W: "well_wired W" and ok: "mesh_ok W M A" and i: "i < hosts W" and ph: "phase (M i) = Running s"
    and c: "c = (ctx (M i))\<lparr>ts := (ts (ctx (M i)))\<lparr>exited := True\<rparr>\<rparr>"
  shows "mesh_next W M A (M(i := set_ctx (M i) c (queues (frag (M i))) Ended))" (is "mesh_next W M A (M(i := ?h'))")
proof -
  have h: "host_ok W i (M i)" by (rule mesh_okD [OF W ok i])
  have car: "carries W M A" using ok by (simp add: mesh_ok_def)
  have "carries W (M(i := ?h')) (A(i := (\<lambda>p. A i p @ (\<lambda>_. []) p)))"
    by (rule host_carries [OF W i car]) (use c carries_rx [OF car] in simp_all)
  then have "carries W (M(i := ?h')) A" by simp
  moreover have "packet_step W (phases M, A) ((phases M)(i := phase ?h'), A)"
    using packet_step.finish [OF i] ph by (simp add: phases_def)
  moreover have "host_ok W i ?h'" using h ph by (auto simp: host_ok_def c ctx_ok_def)
  ultimately show ?thesis by (intro host_nextI [OF ok]) auto
qed

lemma request_keeps:
  assumes W: "well_wired W" and ok: "mesh_ok W M A" and i: "i < hosts W" and m: "is_message m"
  shows "mesh_next W M A (M(i := (M i)\<lparr>frag := (frag (M i))\<lparr>msg_ctrl := m\<rparr>\<rparr>))"
  using mesh_okD(1) [OF W ok i] m
  by (intro still_step [OF W ok i]) (auto simp: host_ok_def ctx_def same_node_def)

lemma pcap_keeps:
  assumes W: "well_wired W" and ok: "mesh_ok W M A" and i: "i < hosts W"
    and d: "message_queue_tryread (mq_pcap (queues (frag (M i)))) = Some (Some b, mq1)"
      "message_queue_message_free b mq1 = Some mq2"
  shows "mesh_next W M A (M(i := (M i)\<lparr>frag := (frag (M i))\<lparr>queues := (queues (frag (M i)))\<lparr>mq_pcap := mq2\<rparr>\<rparr>\<rparr>))"
proof -
  have h: "host_ok W i (M i)" by (rule mesh_okD [OF W ok i])
  then obtain s where s: "implements (mq_pcap (queues (frag (M i)))) s" by (auto simp: host_ok_def)
  let ?s1 = "s\<lparr>queued := tl (queued s), held := take 1 (queued s) @ mq_spec.held s\<rparr>"
  have "spec_call Dequeue s = Some (first (queued s), ?s1)" by simp
  from mq_call_refines [OF s this] have 1: "first (queued s) = Some b" "implements mq1 ?s1" using d(1) by auto
  then have "b \<in> set (mq_spec.held ?s1)" by (cases "queued s") (auto simp: first_def)
  then have "\<exists>s2. spec_call (Release_block b) ?s1 = Some (None, s2)" by simp
  then obtain s2 where "implements mq2 s2" using mq_call_refines [OF 1(2)] d(2) by fastforce
  moreover have "user_queue_ok (q\<lparr>mq_pcap := mq2\<rparr>) = user_queue_ok q" for q
    by (simp add: user_queue_ok_def itc_ok_def)
  ultimately show ?thesis
    using h by (intro still_step [OF W ok i]) (auto simp: host_ok_def ctx_def same_node_def)
qed

subsection \<open>Tasks\<close>

lemma host_frag_ok: "host_ok W i h \<Longrightarrow> frag_ok True (frag h)"
  by (auto simp: host_ok_def frag_ok_def ctx_def user_queue_ok_def)

lemma drain_drops:
  "list_all (\<lambda>io. io = quiet_io 0) ios \<Longrightarrow> MAX_MIXNET_PACKET_SIZE \<le> length b \<Longrightarrow>
   drain_loop ios P b = Some (ec, b', P') \<Longrightarrow> drops P P'"
proof (induction ios arbitrary: P b)
  case (Cons io ios)
  from recv_once_any [OF Cons.prems(2), of 0 P] obtain b1 where
    r: "packet_recv_once (quiet_io 0) P b = Some
      (if complete_packet P then (NONE, b1, drop (frame_len P) P)
       else (if bad_stream P then MALFORMED_MESSAGE else RECV_ZERO_PENDING, b1, P))"
    and l: "length b1 = length b" by blast
  show ?case
  proof (cases "complete_packet P")
    case True
    then have "drain_loop ios (drop (frame_len P) P) b1 = Some (ec, b', P')" using Cons.prems r by simp
    with Cons.IH [of b1 "drop (frame_len P) P"] Cons.prems(1,2) l show ?thesis
      using drops_trans [OF drops_head [OF True]] by simp
  next
    case False
    then show ?thesis using Cons.prems r drops_refl by (auto split: if_splits)
  qed
qed simp

lemma built_from_user:
  assumes m: "is_message m" "sendable m"
    and b: "build_user_packet (map un [0..<MAX_MIXNET_PACKET_SIZE]) m = Some x"
  shows "from_user x"
proof -
  have l: "length m = 65535" using m(1) by (simp add: is_message_def)
  let ?n = "unat (rd16 m 14)"
  have n: "?n \<le> 3564" "rd16 m 8 \<noteq> 0" using m(2) by (simp_all add: sendable_def)
  have s: "length (slice m 16 ?n) = ?n" using l n by (simp add: slice_def)
  have "\<exists>y. build_user_packet (map un [0..<MAX_MIXNET_PACKET_SIZE]) m = Some y \<and>
      packet_for (rd16 m 8) (rd16 m 10) (rd16 m 12) (slice m 16 ?n) y"
    by (rule build_user_packet_for [OF l]) (use n s in simp_all)
  then have "packet_for (rd16 m 8) (rd16 m 10) (rd16 m 12) (slice m 16 ?n) x" using b by auto
  then show ?thesis
    using n by (auto simp: packet_for_def from_user_def user_request_def pkt_block_def pkt_total_size_def
        pkt_type_def frame_len_def split: if_splits)
qed

lemma send_packet_queue:
  assumes q: "user_queue_ok (queues f)" and m: "is_message (msg_ctrl f)" "sendable (msg_ctrl f)"
    and r: "task_send_packet mk un f = Some (ec, f')"
  shows "user_queue_ok (queues f')" and "node_ctx f' = node_ctx f"
proof -
  obtain s where s: "itc_ok (queues f) s" "\<forall>p \<in> set (queued s). from_user (the (user_cells (queues f) p))"
    using q by (auto simp: user_queue_ok_def)
  show "node_ctx f' = node_ctx f"
    using r by (auto simp: task_send_packet_def Let_def bind_eq_Some_conv split: if_splits option.splits)
  show "user_queue_ok (queues f')"
  proof (cases mk)
    case False
    then show ?thesis using r q by (simp add: task_send_packet_def)
  next
    case True
    then obtain x where x: "build_user_packet (map un [0..<MAX_MIXNET_PACKET_SIZE]) (msg_ctrl f) = Some x"
      using r by (auto simp: task_send_packet_def bind_eq_Some_conv)
    show ?thesis
    proof (cases "free_list s")
      case Nil
      have "implements (mq_user (queues f)) s" using s(1) by (simp add: itc_ok_def)
      from alloc_then_write(1) [OF this Nil] show ?thesis
        using r True x q by (simp add: task_send_packet_def Let_def)
    next
      case (Cons p ps)
      from packet_enqueued [OF s(1) Cons x] r True obtain mq where
        f': "queues f' = (queues f)\<lparr>user_cells := (user_cells (queues f))(p := Some x), mq_user := mq\<rparr>"
        "itc_ok (queues f') (s\<lparr>free_list := ps, queued := queued s @ [p]\<rparr>)" by auto
      then show ?thesis
        using s(2) built_from_user [OF m x] unfolding user_queue_ok_def
        by (intro exI [of _ "s\<lparr>free_list := ps, queued := queued s @ [p]\<rparr>"]) auto
    qed
  qed
qed

text \<open>What a task may change of the node context.\<close>

definition task_frame :: "fragment \<Rightarrow> fragment \<Rightarrow> bool" where
  "task_frame f f' \<longleftrightarrow> (\<exists>c c'. node_ctx f = Some c \<and> node_ctx f' = Some c' \<and>
     node_config c' = node_config c \<and> tx_wire c' = tx_wire c \<and> exit_code (ts c') = exit_code (ts c) \<and>
     (\<forall>r < nports c. drops (rx_pending c ! r) (rx_pending c' ! r)))"

lemma task_frameI:
  "node_ctx f = Some c \<Longrightarrow> node_ctx f' = Some c' \<Longrightarrow> node_config c' = node_config c \<Longrightarrow>
   tx_wire c' = tx_wire c \<Longrightarrow> exit_code (ts c') = exit_code (ts c) \<Longrightarrow> rx_pending c' = rx_pending c \<Longrightarrow>
   task_frame f f'"
  by (auto simp: task_frame_def drops_refl)

lemma link_task_frame:
  assumes f: "frag_ok True f" and ios: "list_all (\<lambda>io. io = quiet_io 0) ios"
    and r: "task_update_link_state ios nid v f = Some (ec, f')"
  shows "task_frame f f'" and "queues f' = queues f"
proof -
  obtain c where c: "node_ctx f = Some c" using f by (auto simp: frag_ok_def)
  have nid: "nid < num_neighbors (node_config c)"
    using r c by (auto simp: task_update_link_state_def split: if_splits)
  obtain links where l: "set_at (link_states c) (unat nid) v = Some links"
    using r c nid by (auto simp: task_update_link_state_def bind_eq_Some_conv)
  show "queues f' = queues f"
    using r by (auto simp: task_update_link_state_def Let_def bind_eq_Some_conv split: if_splits)
  show "task_frame f f'"
  proof (cases v)
    case True
    then show ?thesis
      using r c nid l
      by (intro task_frameI [where c' = "c\<lparr>link_states := links\<rparr>", OF c]) (auto simp: task_update_link_state_def)
  next
    case False
    let ?P = "rx_pending c ! unat nid"
    have n: "unat nid < length (rx_pending c)"
      using frag_ok_ctxD [OF f c] nid by (simp add: ctx_ok_def word_less_nat_alt)
    obtain e b P' where d: "drain_loop ios ?P (msg_ctrl f) = Some (e, b, P')"
      and f': "node_ctx f' = Some (c\<lparr>link_states := links, rx_pending := (rx_pending c)[unat nid := P']\<rparr>)"
      using r c nid l False n by (auto simp: task_update_link_state_def Let_def bind_eq_Some_conv access_simps)
    have "MAX_MIXNET_PACKET_SIZE \<le> length (msg_ctrl f)" using f by (simp add: frag_ok_def is_message_def)
    from drain_drops [OF ios this d] show ?thesis
      using c f' n drops_refl by (auto simp: task_frame_def nth_list_update)
  qed
qed

lemma end_task_frame:
  assumes "frag_ok True f" and r: "task_end_testcase both f = Some (ec, f')"
  shows "task_frame f f'" and "mq_user (queues f') = mq_user (queues f)" and "user_cells (queues f') = user_cells (queues f)"
proof -
  obtain c where c: "node_ctx f = Some c" using assms(1) by (auto simp: frag_ok_def)
  let ?c = "c\<lparr>ts := (ts c)\<lparr>thread_keep_running := False\<rparr>\<rparr>"
  have "node_ctx f' = Some ?c \<and> mq_user (queues f') = mq_user (queues f) \<and> user_cells (queues f') = user_cells (queues f)"
    using r c by (auto simp: task_end_testcase_def Let_def bind_eq_Some_conv split: option.splits)
  then show "task_frame f f'" "mq_user (queues f') = mq_user (queues f)" "user_cells (queues f') = user_cells (queues f)"
    by (auto intro: task_frameI [where c' = ?c, OF c])
qed

lemma subscribe_task_frame:
  assumes "frag_ok True f" and r: "task_update_pcap_subscription v f = Some (ec, f')"
  shows "task_frame f f'" and "queues f' = queues f"
proof -
  obtain c where c: "node_ctx f = Some c" using assms(1) by (auto simp: frag_ok_def)
  then show "task_frame f f'"
    using r by (intro task_frameI [where c' = "c\<lparr>is_pcap_subscribed := v\<rparr>", OF c])
      (auto simp: task_update_pcap_subscription_def)
  show "queues f' = queues f" using r c by (auto simp: task_update_pcap_subscription_def)
qed

lemma run_task_frame:
  assumes f: "frag_ok True f" and q: "user_queue_ok (queues f)"
    and m: "ty = SEND_PACKET \<Longrightarrow> sendable (msg_ctrl f)" and ios: "list_all (\<lambda>io. io = quiet_io 0) (t_drain t)"
    and r: "run_task t ty f = Some (ec, fin, resp, f')"
  shows "task_frame f f' \<and> user_queue_ok (queues f')"
proof -
  obtain c where c: "node_ctx f = Some c" using f by (auto simp: frag_ok_def)
  have same: "task_frame f f" by (rule task_frameI [OF c c]) simp_all
  have msg: "is_message (msg_ctrl f)" using f by (simp add: frag_ok_def)
  consider (link) "ty = CHANGE_LINK_STATE" | (sub) "ty = PCAP_SUBSCRIPTION" | (send) "ty = SEND_PACKET"
    | (fin) "ty = END_TESTCASE" | (other) "f' = f"
    using r by (cases ty) (simp_all add: run_task_def)
  then show ?thesis
  proof cases
    case link
    then obtain nid v ec' where "task_update_link_state (t_drain t) nid v f = Some (ec', f')"
      using r by (auto simp: run_task_def bind_eq_Some_conv)
    from link_task_frame [OF f ios this] show ?thesis using q by simp
  next
    case sub
    then obtain v ec' where "task_update_pcap_subscription v f = Some (ec', f')"
      using r by (auto simp: run_task_def bind_eq_Some_conv)
    from subscribe_task_frame [OF f this] show ?thesis using q by simp
  next
    case send
    then obtain ec' where "task_send_packet (t_malloc t) (t_uninit t) f = Some (ec', f')"
      using r by (auto simp: run_task_def bind_eq_Some_conv)
    note s = send_packet_queue [OF q msg m [OF send] this]
    have "task_frame f f'" using s(2) c by (intro task_frameI [OF c]) simp_all
    with s(1) show ?thesis by simp
  next
    case fin
    then obtain ec' where "task_end_testcase (t_both_exited t) f = Some (ec', f')"
      using r by (auto simp: run_task_def bind_eq_Some_conv)
    from end_task_frame [OF f this] show ?thesis using q user_queue_frame [of "queues f'" "queues f"] by simp
  next
    case other
    then show ?thesis using same q by simp
  qed
qed

lemma task_keeps:
  assumes W: "well_wired W" and ok: "mesh_ok W M A" and i: "i < hosts W"
    and m: "ty = SEND_PACKET \<Longrightarrow> sendable (msg_ctrl (frag (M i)))"
    and ios: "list_all (\<lambda>io. io = quiet_io 0) (t_drain t)"
    and r: "run_task t ty (frag (M i)) = Some (ec, fin, resp, f)"
  shows "mesh_next W M A (M(i := (M i)\<lparr>frag := f\<rparr>))"
proof -
  have h: "host_ok W i (M i)" by (rule mesh_okD [OF W ok i])
  have fo: "frag_ok True (frag (M i))" by (rule host_frag_ok [OF h])
  have qo: "user_queue_ok (queues (frag (M i)))" using h by (simp add: host_ok_def)
  have f: "frag_ok True f" by (rule run_task_ok [OF fo r])
  from run_task_frame [OF fo qo m ios r] obtain c c' where
    c: "node_ctx (frag (M i)) = Some c" "node_ctx f = Some c'" "node_config c' = node_config c" "tx_wire c' = tx_wire c"
      "exit_code (ts c') = exit_code (ts c)" "\<forall>r < nports c. drops (rx_pending c ! r) (rx_pending c' ! r)"
    and q: "user_queue_ok (queues f)" by (auto simp: task_frame_def)
  then show ?thesis
    using h f frag_ok_ctxD [OF f c(2)]
    by (intro quiet_step [OF W ok i]) (auto simp: host_ok_def frag_ok_def ctx_def same_node_def)
qed

subsection \<open>Bytes in flight\<close>

lemma moved_sel:
  assumes far: "far W i p = (j, r)" and "j \<noteq> i"
  shows "phase (moved W i p k M x) = phase (M x)" "queues (frag (moved W i p k M x)) = queues (frag (M x))"
    "msg_ctrl (frag (moved W i p k M x)) = msg_ctrl (frag (M x))" "msg_pcap (frag (moved W i p k M x)) = msg_pcap (frag (M x))"
    "tx_wire (ctx (moved W i p k M x)) = (if x = i then (tx_wire (ctx (M i)))[p := drop k (tx_wire (ctx (M i)) ! p)] else tx_wire (ctx (M x)))"
    "rx_pending (ctx (moved W i p k M x)) = (if x = j
       then (rx_pending (ctx (M j)))[r := rx_pending (ctx (M j)) ! r @ take k (tx_wire (ctx (M i)) ! p)]
       else rx_pending (ctx (M x)))"
    "node_config (ctx (moved W i p k M x)) = node_config (ctx (M x))" "ts (ctx (moved W i p k M x)) = ts (ctx (M x))"
    "ctx_ok (ctx (moved W i p k M x)) = ctx_ok (ctx (M x))"
    "node_ctx (frag (moved W i p k M x)) = None \<longleftrightarrow> x \<noteq> i \<and> x \<noteq> j \<and> node_ctx (frag (M x)) = None"
  using assms(2) by (auto simp: moved_def far ctx_ok_def Let_def)

lemma transfer_keeps:
  assumes W: "well_wired W" and ok: "mesh_ok W M A" and i: "i < hosts W" and p: "p < ports (cfg W i)"
  shows "mesh_next W M A (moved W i p k M)"
proof -
  let ?M = "moved W i p k M"
  obtain j r where far: "far W i p = (j, r)" by fastforce
  note f = far_props [OF W i p far]
  note m = moved_sel [OF far f(2)]
  have hosts: "host_ok W a (?M a)" if "a < hosts W" for a
    using mesh_okD(1) [OF W ok that] by (auto simp: host_ok_def m)
  have len: "p < length (tx_wire (ctx (M i)))" "r < length (rx_pending (ctx (M j)))"
    using mesh_okD(1) [OF W ok i] mesh_okD(1) [OF W ok f(1)] p f(3) by (auto simp: host_ok_def ctx_ok_def)
  have "channel W ?M a q = channel W M a q" if a: "a < hosts W" "q < ports (cfg W a)" for a q
  proof -
    obtain b s where fb: "far W a q = (b, s)" by fastforce
    note g = far_props [OF W a fb]
    have "(a, q) = (i, p) \<longleftrightarrow> (b, s) = (j, r)" using f(4) g(4) far fb by auto
    then show ?thesis
      using len fb g(2) by (cases "a = i"; cases "b = j") (auto simp: channel_def m nth_list_update)
  qed
  then have "carries W ?M A" using ok by (simp add: mesh_ok_def carries_def)
  moreover have "phases ?M = phases M" by (simp add: phases_def m)
  ultimately show ?thesis using hosts by (auto simp: mesh_next_def)
qed

lemma mesh_step_keeps:
  assumes W: "well_wired W" and ok: "mesh_ok W M A" and st: "mesh_step W M M'"
  shows "mesh_next W M A M'"
  using st
proof cases
  case start
  then show ?thesis using start_keeps [OF W ok] by simp
next
  case turn
  then show ?thesis using turn_keeps [OF W ok] by simp
next
  case stop
  then show ?thesis using stop_keeps [OF W ok] by blast
next
  case transfer
  then show ?thesis using transfer_keeps [OF W ok] by simp
next
  case request
  then show ?thesis using request_keeps [OF W ok] by simp
next
  case task
  then show ?thesis using task_keeps [OF W ok] by blast
next
  case pcap
  then show ?thesis using pcap_keeps [OF W ok] by simp
qed

lemma mesh_next_ok: "mesh_ok W M A \<Longrightarrow> mesh_next W M A M' \<Longrightarrow> \<exists>A'. mesh_ok W M' A'"
  using reachable_packets.more unfolding mesh_ok_def mesh_next_def by (metis prod.inject)

subsection \<open>Reachable networks\<close>

definition fresh_host :: "wiring \<Rightarrow> nat \<Rightarrow> host \<Rightarrow> bool" where
  "fresh_host W i h \<longleftrightarrow> phase h = Waiting \<and> is_message (msg_ctrl (frag h)) \<and> is_message (msg_pcap (frag h)) \<and>
     (\<exists>c. node_ctx (frag h) = Some c \<and> ctx_ok c \<and> node_config c = cfg W i \<and> ts c = thread_state_new \<and>
        (\<forall>p < ports (cfg W i). rx_pending c ! p = [] \<and> tx_wire c ! p = [])) \<and>
     (\<exists>s. itc_ok (queues (frag h)) s \<and> queued s = []) \<and> (\<exists>s. implements (mq_pcap (queues (frag h))) s)"

inductive reachable_mesh :: "wiring \<Rightarrow> mesh \<Rightarrow> bool" for W :: wiring where
  fresh: "(\<And>i. i < hosts W \<Longrightarrow> fresh_host W i (M i)) \<Longrightarrow> reachable_mesh W M"
| more: "reachable_mesh W M \<Longrightarrow> mesh_step W M M' \<Longrightarrow> reachable_mesh W M'"

lemma fresh_mesh_ok:
  assumes W: "well_wired W" and f: "\<And>i. i < hosts W \<Longrightarrow> fresh_host W i (M i)"
  shows "\<exists>A. mesh_ok W M A"
proof -
  have "host_ok W i (M i)" if "i < hosts W" for i
    using f [OF that] by (fastforce simp: fresh_host_def host_ok_def ctx_def thread_state_new_def user_queue_ok_def)
  moreover have "channel W M i p = []" if i: "i < hosts W" "p < ports (cfg W i)" for i p
  proof -
    obtain j r where far: "far W i p = (j, r)" by fastforce
    note g = far_props [OF W i far]
    show ?thesis
      using f [OF i(1)] f [OF g(1)] i(2) g(3) by (auto simp: fresh_host_def channel_def far ctx_def)
  qed
  then have "carries W M (\<lambda>_ _. [])" by (simp add: carries_def)
  moreover have "\<forall>i < hosts W. phases M i = Waiting" using f by (simp add: phases_def fresh_host_def)
  then have "reachable_packets W (phases M, \<lambda>_ _. [])" by (rule reachable_packets.quiet)
  ultimately show ?thesis unfolding mesh_ok_def by blast
qed

lemma reachable_mesh_ok:
  assumes W: "well_wired W" and "reachable_mesh W M"
  shows "\<exists>A. mesh_ok W M A"
  using assms(2)
proof (induction rule: reachable_mesh.induct)
  case (fresh M)
  then show ?case using fresh_mesh_ok [OF W] by blast
next
  case (more M M')
  then show ?case using mesh_next_ok mesh_step_keeps [OF W] by blast
qed

text \<open>
  C3. The fragments implement the network of packets. Whatever state of the packet network a
  reachable mesh stands for -- the same nodes in the same states, and on each link whole packets
  that make up exactly the bytes that have left one port and not yet been taken at the other -- each
  step of a fragment, be it the start or a turn of its node's thread, a task of its main thread,
  its pcap thread, or the movement of some bytes, is a step of that network or none at all.
\<close>

theorem mesh_refines_packets:
  assumes "well_wired W" and "reachable_mesh W M" and "reachable_packets W (phases M, A)" and "carries W M A"
    and "mesh_step W M M'"
  shows "\<exists>A'. carries W M' A' \<and>
    ((phases M', A') = (phases M, A) \<or> packet_step W (phases M, A) (phases M', A'))"
proof -
  obtain B where "mesh_ok W M B" using reachable_mesh_ok [OF assms(1,2)] by blast
  then have "mesh_ok W M A" using assms(3,4) by (simp add: mesh_ok_def)
  from mesh_step_keeps [OF assms(1) this assms(5)] show ?thesis by (simp add: mesh_next_def)
qed

text \<open>
  C4. A network of fragments is safe. In every state it can reach -- threads started one after
  the other, turns of the nodes, tasks of the orchestrator, pcap threads and the movement of bytes
  in pieces of any size interleaved in any order -- each link carries a sequence of whole packets
  whose size fits their type, however much of it has arrived; each running node is well formed,
  its table holds least routes, every address it has for a neighbour is the neighbour's, and every
  row of its topology is what the node of that address has for links; its next turn returns
  whatever it finds; and no node's thread has ended with an error but for a pcap queue whose pool
  was empty.
\<close>

theorem mesh_is_safe:
  assumes "well_wired W" and "reachable_mesh W M" and "i < hosts W"
  shows "(\<forall>p < ports (cfg W i). \<exists>fs. channel W M i p = concat fs \<and> list_all valid_frame fs) \<and>
    exit_code (ts (ctx (M i))) \<in> {NONE, FRAGMENT_PCAP_MQ_FULL} \<and>
    (\<forall>s. phase (M i) = Running s \<longrightarrow> wf_state (cfg W i) s \<and> fib_valid (cfg W i) s \<and>
       (\<forall>p < ports (cfg W i). neighbor_addr s ! p \<in> {INVALID_MIXADDR, nbr_of W i p}) \<and>
       (\<forall>a ls. rows (topology s) a = Some ls \<longrightarrow>
          (\<exists>j < hosts W. a = node_addr (cfg W j) \<and> ls = true_links (nbr_of W j) (cfg W j))) \<and>
       (\<forall>t. n_rx t = quiet_io \<longrightarrow> healthy (n_tx t) \<longrightarrow>
          worker_turn t s (ctx (M i)) (queues (frag (M i))) \<noteq> None))"
proof -
  obtain A where ok: "mesh_ok W M A" using reachable_mesh_ok [OF assms(1,2)] by blast
  note d = mesh_okD [OF assms(1) ok assms(3)]
  have c: "node_config (ctx (M i)) = cfg W i" using d(1) by (simp add: host_ok_def)
  have "worker_turn t s (ctx (M i)) (queues (frag (M i))) \<noteq> None"
    if "phase (M i) = Running s" "n_rx t = quiet_io" "healthy (n_tx t)" for s t
    using worker_turn_runs [OF mesh_turn_ready [OF assms(1) ok assms(3)] d(3) [OF that(1), folded c] _ _ that(2,3)]
      wired_host [OF assms(1,3)] c by auto
  moreover have "\<exists>fs. channel W M i p = concat fs \<and> list_all valid_frame fs" if "p < ports (cfg W i)" for p
    using ok d(2) assms(3) that
    by (auto simp: mesh_ok_def carries_def links_proper_def frames_of_def list_all_iff)
  moreover have "wf_state (cfg W i) s \<and> fib_valid (cfg W i) s \<and>
      (\<forall>p < ports (cfg W i). neighbor_addr s ! p \<in> {INVALID_MIXADDR, nbr_of W i p}) \<and>
      (\<forall>a ls. rows (topology s) a = Some ls \<longrightarrow>
         (\<exists>j < hosts W. a = node_addr (cfg W j) \<and> ls = true_links (nbr_of W j) (cfg W j)))"
    if "phase (M i) = Running s" for s
    using d(3) [OF that] unfolding honest_state_def truth_def by blast
  ultimately show ?thesis using d(1) by (auto simp: host_ok_def)
qed

subsection \<open>An example\<close>

text \<open>The fragments of two nodes joined by a link, before their threads start.\<close>

definition pair_topology :: "nat \<Rightarrow> topology_request" where
  "pair_topology i = \<lparr>mixaddr = if i = 0 then 1 else 2, t_num_neighbors = 1, t_do_random_routing = False,
     t_mixing_factor = 1, t_root_hello_interval_ms = 2000, t_reelection_interval_ms = 20000,
     t_link_costs = [1]\<rparr>"

definition pair_mesh :: mesh where
  "pair_mesh i = \<lparr>frag = example_fragment\<lparr>node_ctx := Some (init_node_context (pair_topology i)), queues := example_itc\<rparr>,
     phase = Waiting\<rparr>"

lemma pair_ctx:
  "node_config (init_node_context (pair_topology i)) = pair_cfg i"
  "ts (init_node_context (pair_topology i)) = thread_state_new"
  "rx_pending (init_node_context (pair_topology i)) = [[]]" "tx_wire (init_node_context (pair_topology i)) = [[]]"
  by (simp_all add: init_node_context_def pair_topology_def pair_cfg_def example_config_def Let_def)

lemma pair_mesh_fresh: "reachable_mesh pair_wiring pair_mesh"
proof (rule reachable_mesh.fresh)
  fix i
  have "itc_ok example_itc idle_spec \<and> queued idle_spec = []" using example_itc_ok by (simp add: idle_spec_def)
  moreover have "implements (mq_pcap example_itc) idle_spec" using example_queue_idle by (simp add: example_itc_def)
  moreover have "is_message (replicate 65535 0)" by (simp add: is_message_def)
  ultimately show "fresh_host pair_wiring i (pair_mesh i)"
    using pair_ctx init_node_context_ok
    by (auto simp: fresh_host_def pair_mesh_def pair_simps example_fragment_def fragment_new_def)
qed

lemma worker_start_returns:
  assumes "ctx_ok c" and "implements (mq_pcap q) s" and "healthy io"
  shows "\<exists>r. worker_start e t io c q = Some r"
proof (cases "state_init (alloc e) (fst t) (fst (snd t)) (snd (snd t)) (node_config c)")
  case (Some st)
  have "all_sent readable (broadcast_stp e (node_config c) st (- 1))"
    by (rule proper_readable [OF broadcast_stp_proper [where L = "\<lambda>_ _. True"]])
  from send_events_done [OF assms this] Some show ?thesis by (auto simp: worker_start_def)
qed (simp add: worker_start_def)

lemma pair_mesh_starts: "\<exists>M'. mesh_step pair_wiring pair_mesh M' \<and> phase (M' 0) \<noteq> Waiting"
proof -
  let ?c = "(ctx (pair_mesh 0))\<lparr>ts := (ts (ctx (pair_mesh 0)))\<lparr>thread_started := True\<rparr>\<rparr>"
  have "ctx_ok ?c" using init_node_context_ok [of "pair_topology 0"] by (simp add: ctx_def pair_mesh_def ctx_ok_def)
  moreover have "implements (mq_pcap (queues (frag (pair_mesh 0)))) idle_spec"
    using example_queue_idle by (simp add: pair_mesh_def example_itc_def)
  ultimately obtain r c q where
    "worker_start calm_env (0, 0, 0) easy_io ?c (queues (frag (pair_mesh 0))) = Some (r, c, q)"
    using worker_start_returns [OF _ _ easy_io_healthy] by (metis prod_cases3)
  from mesh_step.start [where i = 0 and M = pair_mesh and W = pair_wiring, OF _ _ easy_io_healthy this]
  have "mesh_step pair_wiring pair_mesh (pair_mesh(0 := set_ctx (pair_mesh 0) c q (phase_after r)))"
    by (simp add: pair_simps pair_mesh_def)
  moreover have "phase_after r \<noteq> Waiting" by (simp add: phase_after_def split: option.split)
  ultimately show ?thesis by (intro exI) auto
qed

lemma mesh_refines_packets_witness:
  "\<exists>M' A'. mesh_step pair_wiring pair_mesh M' \<and> carries pair_wiring M' A' \<and>
     packet_step pair_wiring (phases pair_mesh, \<lambda>_ _. []) (phases M', A')"
proof -
  obtain M' where M': "mesh_step pair_wiring pair_mesh M'" "phase (M' 0) \<noteq> Waiting" using pair_mesh_starts by blast
  have w: "phases pair_mesh = (\<lambda>_. Waiting)" by (simp add: phases_def pair_mesh_def)
  then have "reachable_packets pair_wiring (phases pair_mesh, \<lambda>_ _. [])" by (simp add: reachable_packets.quiet)
  moreover have "carries pair_wiring pair_mesh (\<lambda>_ _. [])"
    by (simp add: carries_def channel_def pair_simps ctx_def pair_mesh_def pair_ctx)
  moreover have "phases M' \<noteq> phases pair_mesh" using M'(2) w by (metis phases_def)
  ultimately show ?thesis
    using mesh_refines_packets [OF pair_wired pair_mesh_fresh _ _ M'(1)] M'(1) by blast
qed

lemma mesh_is_safe_witness:
  "\<exists>M'. mesh_step pair_wiring pair_mesh M' \<and> exit_code (ts (ctx (M' 0))) \<in> {NONE, FRAGMENT_PCAP_MQ_FULL} \<and>
     (\<exists>fs. channel pair_wiring M' 0 0 = concat fs \<and> list_all valid_frame fs)"
proof -
  obtain M' where M': "mesh_step pair_wiring pair_mesh M'" using pair_mesh_starts by blast
  from mesh_is_safe [OF pair_wired reachable_mesh.more [OF pair_mesh_fresh this], of 0] M'
  show ?thesis by (auto simp: pair_simps)
qed

end
