(* ===== verification/Wiring.thy ===== *)
theory Wiring
  imports Mesh
begin

text \<open>
  From the graph of a testcase to the network that runs: the configurations the orchestrator hands
  out and the connections the fragments make are those of a well-wired network. Nothing here models
  code of its own; the theory composes the states of \<open>Orchestrator\<close> and \<open>Fragment\<close>.
\<close>

subsection \<open>The network of a testcase\<close>

text \<open>Port \<open>p\<close> of node \<open>i\<close> leads to its p-th neighbour, to the port that leads back.\<close>

definition testcase_wiring :: "testcase \<Rightarrow> wiring" where
  "testcase_wiring tc = (let g = tc_graph tc in
     \<lparr>hosts = unat (num_nodes g),
      cfg = (\<lambda>i. node_config (init_node_context (topology_of tc i))),
      far = (\<lambda>i p. let k = unat (adjacency g ! i ! p) in
        (k, the (neighbor_position (of_nat i) (adjacency g ! k))))\<rparr>)"

definition good_testcase :: "testcase \<Rightarrow> bool" where
  "good_testcase tc \<longleftrightarrow> graph_ok (tc_graph tc) \<and>
     (\<forall>adj \<in> set (adjacency (tc_graph tc)). length adj < 256) \<and>
     distinct (map g_mixaddr (nodes (tc_graph tc))) \<and>
     INVALID_MIXADDR \<notin> g_mixaddr ` set (nodes (tc_graph tc))"

lemma neighbor_position_Some: "i \<in> set js \<Longrightarrow> \<exists>r. neighbor_position i js = Some r \<and> r < length js \<and> js ! r = i"
  using neighbor_position_None [of i js] neighbor_position_nth [of i js] by auto

lemma neighbor_position_unique:
  "distinct js \<Longrightarrow> p < length js \<Longrightarrow> neighbor_position (js ! p) js = Some p"
  using neighbor_position_Some [of "js ! p" js] nth_eq_iff_index_eq [of js] by auto

lemma testcase_wiring_sel:
  "hosts (testcase_wiring tc) = unat (num_nodes (tc_graph tc))"
  "node_addr (cfg (testcase_wiring tc) i) = g_mixaddr (nodes (tc_graph tc) ! i)"
  "num_neighbors (cfg (testcase_wiring tc) i) = of_nat (length (adjacency (tc_graph tc) ! i))"
  "far (testcase_wiring tc) i p = (unat (adjacency (tc_graph tc) ! i ! p),
     the (neighbor_position (of_nat i) (adjacency (tc_graph tc) ! unat (adjacency (tc_graph tc) ! i ! p))))"
  by (simp_all add: testcase_wiring_def init_node_context_def topology_of_def Let_def)

lemma graph_edge:
  assumes "graph_ok g" and "i < unat (num_nodes g)" and "p < length (adjacency g ! i)"
  shows "unat (adjacency g ! i ! p) < unat (num_nodes g)" "unat (adjacency g ! i ! p) \<noteq> i"
    "of_nat i \<in> set (adjacency g ! unat (adjacency g ! i ! p))"
proof -
  let ?k = "adjacency g ! i ! p"
  have i: "unat (of_nat i :: u16) = i" using assms(2) unat_u16_less [of "num_nodes g"] by (intro unat_of_nat_u16) simp
  have "linked_to g (of_nat i) ?k"
    using assms(2,3) i by (simp add: linked_to_def word_less_nat_alt)
  then have "(of_nat i :: u16) \<noteq> ?k" "linked_to g ?k (of_nat i)" using assms(1) by (auto simp: graph_ok_def)
  moreover from this(1) have "unat ?k \<noteq> i" using i by (metis word_unat_eq_iff)
  ultimately show "unat ?k < unat (num_nodes g)" "unat ?k \<noteq> i" "of_nat i \<in> set (adjacency g ! unat ?k)"
    using i by (auto simp: linked_to_def word_less_nat_alt)
qed

lemma testcase_ports:
  assumes "good_testcase tc" and "i < unat (num_nodes (tc_graph tc))"
  shows "ports (cfg (testcase_wiring tc) i) = length (adjacency (tc_graph tc) ! i)"
    "length (adjacency (tc_graph tc) ! i) < 256"
proof -
  have "adjacency (tc_graph tc) ! i \<in> set (adjacency (tc_graph tc))"
    using assms by (intro nth_mem) (simp add: good_testcase_def graph_ok_def)
  then show l: "length (adjacency (tc_graph tc) ! i) < 256" using assms(1) by (simp add: good_testcase_def)
  then show "ports (cfg (testcase_wiring tc) i) = length (adjacency (tc_graph tc) ! i)"
    by (simp add: testcase_wiring_sel unat_of_nat_u16)
qed

lemma testcase_wired:
  assumes tc: "good_testcase tc"
  shows "well_wired (testcase_wiring tc)"
proof -
  let ?g = "tc_graph tc" and ?W = "testcase_wiring tc"
  let ?n = "unat (num_nodes ?g)" and ?A = "adjacency ?g"
  have g: "graph_ok ?g" "length (nodes ?g) = ?n" using tc by (simp_all add: good_testcase_def graph_ok_def)
  have addr: "g_mixaddr (nodes ?g ! i) = g_mixaddr (nodes ?g ! j) \<Longrightarrow> i = j" if "i < ?n" "j < ?n" for i j
    using tc that g(2) nth_eq_iff_index_eq [of "map g_mixaddr (nodes ?g)" i j] by (simp add: good_testcase_def)
  have valid: "g_mixaddr (nodes ?g ! i) \<noteq> INVALID_MIXADDR" if "i < ?n" for i
  proof -
    have "g_mixaddr (nodes ?g ! i) \<in> g_mixaddr ` set (nodes ?g)" using that g(2) by simp
    then show ?thesis using tc unfolding good_testcase_def by metis
  qed
  have "ports (cfg ?W i) < 256 \<and> neighbors (cfg ?W i) (nbr_of ?W i) \<and>
      (\<forall>p < ports (cfg ?W i). case far ?W i p of (j, r) \<Rightarrow>
        j < hosts ?W \<and> j \<noteq> i \<and> r < ports (cfg ?W j) \<and> far ?W j r = (i, p))" if i: "i < ?n" for i
  proof -
    note p = testcase_ports [OF tc i]
    have ui: "unat (of_nat i :: u16) = i" using i unat_u16_less [of "num_nodes ?g"] by (intro unat_of_nat_u16) simp
    have dist: "distinct (?A ! i)" using g(1) i by (simp add: graph_ok_def)
    have nbr: "nbr_of ?W i p = g_mixaddr (nodes ?g ! unat (?A ! i ! p))" for p
      by (simp add: nbr_of_def testcase_wiring_sel)
    have "neighbors (cfg ?W i) (nbr_of ?W i)"
      unfolding neighbors_def nbr p(1)
    proof (intro allI impI conjI)
      fix x assume x: "x < length (?A ! i)"
      note e = graph_edge [OF g(1) i x]
      show "g_mixaddr (nodes ?g ! unat (?A ! i ! x)) \<noteq> INVALID_MIXADDR" using valid e(1) by blast
      fix y assume y: "y < length (?A ! i)"
        and "g_mixaddr (nodes ?g ! unat (?A ! i ! x)) = g_mixaddr (nodes ?g ! unat (?A ! i ! y))"
      then have "unat (?A ! i ! x) = unat (?A ! i ! y)" using addr e(1) graph_edge(1) [OF g(1) i y] by blast
      then show "x = y" using dist x y nth_eq_iff_index_eq [of "?A ! i" x y] by (simp add: word_unat_eq_iff)
    qed
    moreover have "case far ?W i p of (j, r) \<Rightarrow>
        j < hosts ?W \<and> j \<noteq> i \<and> r < ports (cfg ?W j) \<and> far ?W j r = (i, p)" if x: "p < length (?A ! i)" for p
    proof -
      let ?k = "unat (?A ! i ! p)"
      note e = graph_edge [OF g(1) i x]
      obtain r where r: "neighbor_position (of_nat i) (?A ! ?k) = Some r" "r < length (?A ! ?k)" "?A ! ?k ! r = of_nat i"
        using neighbor_position_Some [OF e(3)] by blast
      have "neighbor_position (?A ! i ! p) (?A ! i) = Some p" using neighbor_position_unique [OF dist x] .
      then show ?thesis
        using e r ui testcase_ports(1) [OF tc e(1)] by (simp add: testcase_wiring_sel)
    qed
    ultimately show ?thesis using p by simp
  qed
  moreover have "inj_on (\<lambda>i. node_addr (cfg ?W i)) {..<hosts ?W}"
    using addr by (auto simp: inj_on_def testcase_wiring_sel)
  ultimately show ?thesis by (simp add: well_wired_def testcase_wiring_sel(1))
qed

text \<open>
  C13. The network of a testcase is well wired. If its graph is sound, its addresses distinct and
  valid and its degrees below 256, then the configurations that the fragments make of the TOPOLOGY
  requests give each node one port per neighbour; port \<open>p\<close> leads to the p-th neighbour, whose address
  and cost it has, and from there back to the same port; and addresses identify nodes.
\<close>

theorem testcase_is_wired:
  assumes "good_testcase tc"
  shows "well_wired (testcase_wiring tc) \<and> (\<forall>i < unat (num_nodes (tc_graph tc)).
    let c = node_config (init_node_context (topology_of tc i)); adj = adjacency (tc_graph tc) ! i in
    ports c = length adj \<and> (\<forall>p < length adj.
      nbr_of (testcase_wiring tc) i p = g_mixaddr (nodes (tc_graph tc) ! unat (adj ! p)) \<and>
      link_costs c ! p = g_link_costs (nodes (tc_graph tc) ! i) ! p))"
proof -
  let ?c = "\<lambda>i. node_config (init_node_context (topology_of tc i))"
  have "ports (?c i) = length (adjacency (tc_graph tc) ! i)" if "i < unat (num_nodes (tc_graph tc))" for i
    using testcase_ports(1) [OF assms that] by (simp add: testcase_wiring_def Let_def)
  moreover have "num_neighbors (?c i) = t_num_neighbors (topology_of tc i)" for i
    by (simp add: init_node_context_def Let_def)
  moreover have "link_costs (?c i) ! p = g_link_costs (nodes (tc_graph tc) ! i) ! p" if "p < ports (?c i)" for i p
    using that by (auto simp: init_node_context_def topology_of_def Let_def)
  moreover have "nbr_of (testcase_wiring tc) i p = g_mixaddr (nodes (tc_graph tc) ! unat (adjacency (tc_graph tc) ! i ! p))" for i p
    by (simp add: nbr_of_def testcase_wiring_sel)
  ultimately show ?thesis using testcase_wired [OF assms] by (simp add: Let_def)
qed

subsection \<open>The connections\<close>

lemma put_netaddrs_writes:
  assumes m: "length m = 65535" and n: "length as \<le> 4094"
    and p: "put_netaddrs (of_nat (length as)) as m = Some m'"
  shows "length m' = 65535" "off + k \<le> 8 \<Longrightarrow> slice m' off k = slice m off k"
    "rd16 m' 8 = of_nat (length as)" "slice m' 16 (16 * length as) = concat (map enc_sockaddr as)"
proof -
  let ?w = "wr16 m 8 (of_nat (length as))"
  have "put_elems enc_sockaddr 16 as ?w = Some (splice ?w 16 (concat (map enc_sockaddr as)))"
    using m n by (intro fsaddr.put_elems_write) simp
  then have m': "m' = splice ?w 16 (concat (map enc_sockaddr as))"
    using p m by (simp add: put_netaddrs_def access_simps)
  show "length m' = 65535" using m n by (simp add: m')
  show "off + k \<le> 8 \<Longrightarrow> slice m' off k = slice m off k" "rd16 m' 8 = of_nat (length as)"
    using m n by (simp_all add: m' rd16_def slice_splice_other slice_wr_other slice_wr_same f16.dec_enc)
  show "slice m' 16 (16 * length as) = concat (map enc_sockaddr as)"
    using m n slice_splice_same [of 16 "concat (map enc_sockaddr as)" ?w] by (simp add: m')
qed

text \<open>What the orchestrator tells node \<open>i\<close>: by port, the address the neighbour there reads from.\<close>

definition client_addresses :: "orchestrator \<Rightarrow> nat \<Rightarrow> sockaddr_in list" where
  "client_addresses s i = map (\<lambda>p. case far (testcase_wiring (testcase s)) i p of
     (k, r) \<Rightarrow> mixnet_client_netaddrs (fragments s ! k) ! r) [0..<length (tc_topology s ! i)]"

definition few_neighbors :: "orchestrator \<Rightarrow> bool" where
  "few_neighbors s \<longleftrightarrow> (\<forall>adj \<in> set (tc_topology s). length adj \<le> 4094)"

lemma fill_resolve_addresses:
  assumes "fill_resolve s i m = Some m'"
  shows "unat i < length (tc_topology s)"
    "put_netaddrs (of_nat (length (client_addresses s (unat i)))) (client_addresses s (unat i)) m = Some m'"
proof -
  obtain as where i: "unat i < length (tc_topology s)"
    and as: "collect (client_address s i) (tc_topology s ! unat i) = Some as"
    and m': "put_netaddrs (of_nat (length (tc_topology s ! unat i))) as m = Some m'"
    using assms by (auto simp: fill_resolve_def get_at_def bind_eq_Some_conv split: if_splits)
  show "unat i < length (tc_topology s)" by (fact i)
  have each: "the (client_address s i k) = mixnet_client_netaddrs (fragments s ! unat k) ! the (neighbor_position i (tc_topology s ! unat k))"
    if "k \<in> set (tc_topology s ! unat i)" for k
    using as that by (fastforce simp: collect_def client_address_def get_at_def bind_eq_Some_conv split: if_splits option.splits)
  have "as = map (\<lambda>k. the (client_address s i k)) (tc_topology s ! unat i)"
    using as by (simp add: collect_def split: if_splits)
  also have "\<dots> = map (\<lambda>k. mixnet_client_netaddrs (fragments s ! unat k) !
      the (neighbor_position i (tc_topology s ! unat k))) (tc_topology s ! unat i)"
    by (rule map_cong [OF refl each])
  also have "\<dots> = client_addresses s (unat i)"
    by (rule nth_equalityI) (simp_all add: client_addresses_def testcase_wiring_sel tc_topology_def)
  finally have "as = client_addresses s (unat i)" .
  then show "put_netaddrs (of_nat (length (client_addresses s (unat i)))) (client_addresses s (unat i)) m = Some m'"
    using m' by (simp add: client_addresses_def)
qed

lemma few_addresses: "few_neighbors s \<Longrightarrow> i < length (tc_topology s) \<Longrightarrow> length (client_addresses s i) \<le> 4094"
  by (simp add: few_neighbors_def client_addresses_def)

lemma good_fill_resolve:
  assumes "few_neighbors s"
  shows "good_fill RESOLVE_MIXNET_CONNS (fill_resolve s)"
  unfolding good_fill_def
proof (intro allI impI)
  fix i m m'
  assume m: "has_code True RESOLVE_MIXNET_CONNS m" and f: "fill_resolve s i m = Some m'"
  have l: "length m = 65535" using m by (simp add: has_code_def is_message_def)
  note fa = fill_resolve_addresses [OF f]
  note n = few_addresses [OF assms fa(1)]
  note w = put_netaddrs_writes [OF l n fa(2)]
  have "rd16 m' off = rd16 m off" if "off + 2 \<le> 8" for off using w(2) [OF that] by (simp add: rd16_def)
  moreover have "unat (of_nat (length (client_addresses s (unat i))) :: u16) = length (client_addresses s (unat i))"
    using n by (intro unat_of_nat_u16) simp
  ultimately show "ready True RESOLVE_MIXNET_CONNS m' \<and> rd16 m' 4 = rd16 m 4 \<and> rd16 m' 6 = rd16 m 6"
    using m w(1,3) n by (simp add: ready_def has_code_def is_message_def payload_size_def)
qed

lemma addresses_decoded:
  assumes few: "few_neighbors s" and q: "request_for RESOLVE_MIXNET_CONNS (fill_resolve s) i m"
    and R: "received True RESOLVE_MIXNET_CONNS m R"
  shows "get16 R off_msg = Some (of_nat (length (client_addresses s (unat i))))"
    "get_netaddrs (length (client_addresses s (unat i))) R = Some (client_addresses s (unat i))"
proof -
  let ?as = "client_addresses s (unat i)"
  obtain m0 where "has_code True RESOLVE_MIXNET_CONNS m0" and f: "fill_resolve s i m0 = Some m"
    using q by (auto simp: request_for_def)
  then have l0: "length m0 = 65535" by (simp add: has_code_def is_message_def)
  note fa = fill_resolve_addresses [OF f]
  note n = few_addresses [OF few fa(1)]
  note w = put_netaddrs_writes [OF l0 n fa(2)]
  have u: "unat (of_nat (length ?as) :: u16) = length ?as" using n by (intro unat_of_nat_u16) simp
  have size: "payload_size True RESOLVE_MIXNET_CONNS m = 8 + 16 * length ?as" by (simp add: payload_size_def w(3) u)
  note r = received_reads [OF R, unfolded size]
  have l: "length R = 65535" using R by (simp add: received_def is_message_def)
  show "get16 R off_msg = Some (of_nat (length ?as))" using r(2) [of 8] w(3) l by (simp add: get16_iff)
  show "get_netaddrs (length ?as) R = Some ?as"
    unfolding get_netaddrs_def using r(1) [of 16 "16 * length ?as"] w(4) l n by (intro fsaddr.get_elems_read) auto
qed

lemma resolve_loop_pairs:
  "\<forall>a \<in> set as. \<exists>st \<in> set sts. equal_netaddrs (address st) a \<Longrightarrow> nid + length as \<le> length fds \<Longrightarrow>
   \<exists>fds'. resolve_loop sts as nid fds = Some (NONE, fds') \<and> length fds' = length fds \<and>
     (\<forall>p < length as. \<exists>st \<in> set sts. fds' ! (nid + p) = connection_fd st \<and> equal_netaddrs (address st) (as ! p)) \<and>
     (\<forall>p < nid. fds' ! p = fds ! p)"
proof (induction as arbitrary: nid fds)
  case Nil
  then show ?case by simp
next
  case (Cons a as)
  have "find (\<lambda>s. equal_netaddrs (address s) a) sts \<noteq> None"
    using Cons.prems(1) by (auto simp: find_None_iff)
  then obtain st where f: "find (\<lambda>s. equal_netaddrs (address s) a) sts = Some st" by auto
  then have st: "st \<in> set sts" "equal_netaddrs (address st) a" by (auto simp: find_Some_iff)
  let ?fds = "fds[nid := connection_fd st]"
  obtain fds' where ih: "resolve_loop sts as (Suc nid) ?fds = Some (NONE, fds')" "length fds' = length fds"
    "\<forall>p < length as. \<exists>st \<in> set sts. fds' ! (Suc nid + p) = connection_fd st \<and> equal_netaddrs (address st) (as ! p)"
    "\<forall>p < Suc nid. fds' ! p = ?fds ! p"
    using Cons.IH [of "Suc nid" ?fds] Cons.prems by auto
  have "fds' ! nid = connection_fd st" using ih(4) Cons.prems(2) by simp
  then have "\<exists>st \<in> set sts. fds' ! (nid + p) = connection_fd st \<and> equal_netaddrs (address st) ((a # as) ! p)"
    if "p < length (a # as)" for p
    using that ih(3) st by (cases p) auto
  moreover have "resolve_loop sts (a # as) nid fds = Some (NONE, fds')"
    using f ih(1) Cons.prems(2) by (simp add: access_simps)
  ultimately show ?case using ih by (intro exI [of _ fds']) simp
qed

text \<open>
  C12. Ports are connected as the graph says. After a RESOLVE round without an error, the fragment
  with index \<open>i\<close> reads, in any pieces, the bytes sent to its connection. If for each of its ports
  a connection has been accepted from the address on which the neighbour there listens for node
  \<open>i\<close>, it acknowledges; and the socket on which its node sends by port \<open>p\<close> is then a connection from
  the very address that the p-th neighbour reported for the port that leads back.
\<close>

theorem ports_follow_graph:
  assumes "few_neighbors s" and "is_message (orc_msg_ctrl s)" and "few s" and "distinct (map fd_ctrl (fragments s))"
    and "foreach_fragment_send_ctrl turn RESOLVE_MIXNET_CONNS (fill_resolve s) s = Some (NONE, s')"
    and "unat i < length (fragments s)" and "outbox s (fd_ctrl (fragments s ! unat i)) = []"
    and "frag_ok True f" and "fid f = i" and "fragment_state f = FS_RESOLVE_MIXNET_CONNECTIONS"
    and "node_ctx f = Some c" and "num_neighbors (node_config c) = of_nat (length (tc_topology s ! unat i))"
    and "node_accept_args f = Some args"
    and "\<forall>a \<in> set (client_addresses s (unat i)). \<exists>st \<in> set (states args). equal_netaddrs (address st) a"
    and "e_rx e 0 = (Some nb, evs @ [(Arrive [], t1), (Arrive [], t2)])" and "all_arrive evs"
    and "ctrl_pending f @ stream evs = outbox s' (fd_ctrl (fragments s ! unat i))"
    and "fst (e_tx e 0) = Some nb'" and "no_send_error (snd (e_tx e 0))" and "progress (snd (e_tx e 0)) = 12"
  shows "\<exists>f' c'. run_state_resolve_mixnet_connections e f = Some (NONE, f') \<and> node_ctx f' = Some c' \<and>
    (\<forall>p < length (tc_topology s ! unat i). \<exists>st \<in> set (states args). tx_socket_fds c' ! p = connection_fd st \<and>
       (case far (testcase_wiring (testcase s)) (unat i) p of (k, r) \<Rightarrow>
          equal_netaddrs (address st) (mixnet_client_netaddrs (fragments s ! k) ! r)))"
proof -
  let ?as = "client_addresses s (unat i)"
  note good = good_fill_resolve [OF assms(1)]
  from round_requests [OF good assms(2-5)] assms(6,7)
  obtain m where q: "request_for RESOLVE_MIXNET_CONNS (fill_resolve s) i m"
    and w: "outbox s' (fd_ctrl (fragments s ! unat i)) = frame_of True RESOLVE_MIXNET_CONNS m"
    by fastforce
  note rdy = request_for_ready [OF good q]
  obtain R left where R: "received True RESOLVE_MIXNET_CONNS m R" and recv: "msg_recv_blocking (e_rx e 0) (ctrl_pending f)
      (msg_ctrl f) CTRL_CONNECTION_BROKEN = Some (NONE, R, left)"
    using recv_request_received [OF assms(8) rdy(1) assms(16), of "[]"] assms(15,17) w by (force simp: frame_of_def)
  note dec = addresses_decoded [OF assms(1) q R]
  obtain m0 where "fill_resolve s i m0 = Some m" using q by (auto simp: request_for_def)
  then have top: "unat i < length (tc_topology s)" by (rule fill_resolve_addresses(1))
  have len: "length ?as = length (tc_topology s ! unat i)" by (simp add: client_addresses_def)
  have u: "unat (of_nat (length ?as) :: u16) = length ?as"
    using few_addresses [OF assms(1) top] by (intro unat_of_nat_u16) simp
  have "ctx_ok c" using assms(8,11) by (simp add: frag_ok_def)
  then have "length (tx_socket_fds c) = length ?as" using assms(12) u by (simp add: ctx_ok_def len)
  with resolve_loop_pairs [OF assms(14), of 0 "tx_socket_fds c"] obtain fds where
    fds: "resolve_loop (states args) ?as 0 (tx_socket_fds c) = Some (NONE, fds)"
      "\<forall>p < length ?as. \<exists>st \<in> set (states args). fds ! p = connection_fd st \<and> equal_netaddrs (address st) (?as ! p)"
    by auto
  let ?f = "f\<lparr>msg_ctrl := R, ctrl_pending := left, node_ctx := Some (c\<lparr>tx_socket_fds := fds\<rparr>)\<rparr>"
  have "is_message (msg_ctrl ?f)" using R by (simp add: received_def)
  then obtain a f' where sent: "send_response (e_tx e 0) True RESOLVE_MIXNET_CONNS NONE no_payload ?f = Some (NONE, f')"
    "f' = ?f\<lparr>msg_ctrl := sealed 0 a, ctrl_wire := ctrl_wire ?f @ frame_of False RESOLVE_MIXNET_CONNS a\<rparr>"
    using response_sent [OF _ _ _ _ assms(18-20), of ?f RESOLVE_MIXNET_CONNS] by (auto simp: payload_size_def)
  have "check_header (f\<lparr>msg_ctrl := R, ctrl_pending := left\<rparr>) True True RESOLVE_MIXNET_CONNS R = Some NONE"
    using assms(9) by (intro received_header [OF R rdy(2,3)]) simp_all
  then have "run_state_resolve_mixnet_connections e f = Some (NONE, f')"
    using recv dec fds(1) sent(1) assms(10-13) u
    by (simp add: run_state_resolve_mixnet_connections_def recv_request_def connection_error_def put_msg_def
        put_pending_def die_during_accept_def Let_def len [symmetric])
  moreover have "node_ctx f' = Some (c\<lparr>tx_socket_fds := fds\<rparr>)" by (simp add: sent(2))
  moreover have "case far (testcase_wiring (testcase s)) (unat i) p of (k, r) \<Rightarrow>
      equal_netaddrs (address st) (mixnet_client_netaddrs (fragments s ! k) ! r)"
    if "p < length ?as" "equal_netaddrs (address st) (?as ! p)" for p st
    using that by (simp add: client_addresses_def split: prod.splits)
  ultimately show ?thesis using fds(2) unfolding len by (intro exI [of _ f']) fastforce
qed

subsection \<open>An example\<close>

lemma one_link_good: "good_testcase one_link"
  using one_link_ok by (auto simp: good_testcase_def one_link_def graph_node_new_def INVALID_MIXADDR_def)

lemma testcase_is_wired_witness:
  "well_wired (testcase_wiring one_link) \<and> nbr_of (testcase_wiring one_link) 0 0 = 41"
  using testcase_is_wired [OF one_link_good] by (auto simp: one_link_def graph_node_new_def Let_def)

text \<open>The same two fragments, once each has reported the address of its client socket.\<close>

definition client_at :: "u16 \<Rightarrow> sockaddr_in" where
  "client_at p = \<lparr>sin_family = AF_INET, sin_port = p, sin_addr = 16777343, sin_zero = 0\<rparr>"

definition two_clients :: orchestrator where
  "two_clients = two_fragments\<lparr>fragments :=
     [fragment_metadata_new\<lparr>fd_ctrl := 7, mixnet_client_netaddrs := [client_at 5001]\<rparr>,
      fragment_metadata_new\<lparr>fd_ctrl := 8, mixnet_client_netaddrs := [client_at 5002]\<rparr>]\<rparr>"

lemma two_clients_ok:
  "is_message (orc_msg_ctrl two_clients)" "few two_clients" "distinct (map fd_ctrl (fragments two_clients))"
  "length (fragments two_clients) = 2" "outbox two_clients fd = []"
  "map fd_ctrl (fragments two_clients) = [7, 8]" "timeout_communication_ms two_clients = 1000"
  "tc_topology two_clients = [[1], [0]]" "few_neighbors two_clients" "testcase two_clients = one_link"
  "fragments two_clients = [fragment_metadata_new\<lparr>fd_ctrl := 7, mixnet_client_netaddrs := [client_at 5001]\<rparr>,
     fragment_metadata_new\<lparr>fd_ctrl := 8, mixnet_client_netaddrs := [client_at 5002]\<rparr>]"
  using two_fragments_ok
  by (simp_all add: two_clients_def two_fragments_def orchestrator_new_def few_def fragment_metadata_new_def tc_topology_def one_link_def few_neighbors_def)

lemma resolve_round:
  "\<exists>s'. foreach_fragment_send_ctrl (fast (\<lambda>_. 24)) RESOLVE_MIXNET_CONNS (fill_resolve two_clients) two_clients = Some (NONE, s')"
proof -
  obtain m0 where m0: "orc_prepare_header 0 RESOLVE_MIXNET_CONNS (orc_msg_ctrl two_clients) = Some m0"
    "has_code True RESOLVE_MIXNET_CONNS m0" using prepared_header [OF two_clients_ok(1)] by blast
  have fill: "\<exists>m'. fill_resolve two_clients (of_nat i) m = Some m' \<and> payload_size True RESOLVE_MIXNET_CONNS m' = 24"
    if i: "i < 2" and m: "has_code True RESOLVE_MIXNET_CONNS m" for i m
  proof -
    have l: "length m = 65535" using m by (simp add: has_code_def is_message_def)
    have "\<exists>a. collect (client_address two_clients (of_nat i)) (tc_topology two_clients ! i) = Some [a]"
      using less_2_cases [OF i]
      by (auto simp: collect_def client_address_def get_at_def two_clients_ok(8,11))
    then obtain a where "fill_resolve two_clients (of_nat i) m = put_netaddrs 1 [a] m"
      using less_2_cases [OF i] by (auto simp: fill_resolve_def get_at_def two_clients_ok(8))
    moreover have "\<exists>m'. put_netaddrs (of_nat (length [a])) [a] m = Some m'"
      using l by (simp add: put_netaddrs_def access_simps fsaddr.enc_length)
    then obtain m' where m': "put_netaddrs (of_nat (length [a])) [a] m = Some m'" ..
    moreover have "rd16 m' 8 = 1" using put_netaddrs_writes(3) [OF l _ m'] by simp
    ultimately show ?thesis by (simp add: payload_size_def)
  qed
  have "\<exists>s'. foreach_send_loop (fast (\<lambda>_. 24)) (fill_resolve two_clients) CTRL_CONNECTION_BROKEN 1000 0 [7, 8] NONE 2
      (two_clients\<lparr>orc_msg_ctrl := m0\<rparr>) = Some (NONE, 2 - of_nat (length [7 :: int, 8]), s')"
    by (rule fast_round [OF good_fill_resolve [OF two_clients_ok(9)] fill]) (simp_all add: m0(2))
  then show ?thesis
    by (auto simp: foreach_fragment_send_ctrl_def foreach_fragment_send_generic_def two_clients_ok m0(1)
        simp del: foreach_send_loop.simps)
qed

lemma ports_follow_graph_witness:
  "\<exists>s' e f f' c. foreach_fragment_send_ctrl (fast (\<lambda>_. 24)) RESOLVE_MIXNET_CONNS (fill_resolve two_clients) two_clients = Some (NONE, s') \<and>
     run_state_resolve_mixnet_connections e f = Some (NONE, f') \<and> node_ctx f' = Some c \<and> tx_socket_fds c ! 0 = 12"
proof -
  obtain s' where s': "foreach_fragment_send_ctrl (fast (\<lambda>_. 24)) RESOLVE_MIXNET_CONNS (fill_resolve two_clients) two_clients = Some (NONE, s')"
    using resolve_round by blast
  let ?c = "init_node_context (topology_of one_link 1)"
  let ?args = "(accept_args_new 3 False 0 1)\<lparr>states := [\<lparr>connection_fd = 12, address = client_at 5001\<rparr>]\<rparr>"
  let ?f = "example_fragment\<lparr>fid := 1, fragment_state := FS_RESOLVE_MIXNET_CONNECTIONS, node_ctx := Some ?c,
      node_accept_args := Some ?args\<rparr>"
  let ?w = "outbox s' (fd_ctrl (fragments two_clients ! unat (1 :: u16)))"
  let ?e = "no_socket_env\<lparr>e_rx := (\<lambda>_. (Some False, [(Arrive (take 5 ?w), 0), (Arrive (drop 5 ?w), 0)] @
      [(Arrive [], 0), (Arrive [], 0)])), e_tx := (\<lambda>_. (Some False, [(Sent 12, 0)]))\<rparr>"
  note f = two_clients_ok
  have "frag_ok True ?f" using example_fragment_ok init_node_context_ok by (simp add: frag_ok_def)
  moreover have "unat (1 :: u16) < length (fragments two_clients)" using f(4) by simp
  moreover have "ctrl_pending ?f @ stream [(Arrive (take 5 ?w), 0 :: u64), (Arrive (drop 5 ?w), 0)] = ?w"
    by (simp add: stream_def arrived_def example_fragment_def fragment_new_def del: One_nat_def)
  moreover have "num_neighbors (node_config ?c) = of_nat (length (tc_topology two_clients ! unat (1 :: u16)))"
    by (simp add: init_node_context_def topology_of_def one_link_def f(8) Let_def)
  moreover have "client_addresses two_clients (unat (1 :: u16)) = [client_at 5001]"
    by (simp add: client_addresses_def f(8,10) f(11) testcase_wiring_sel one_link_def)
  ultimately show ?thesis
    using ports_follow_graph [OF f(9) f(1-3) s', of 1 ?f ?c ?args ?e False
        "[(Arrive (take 5 ?w), 0), (Arrive (drop 5 ?w), 0)]" 0 0 False] f(5,8) s'
    by (fastforce simp: all_arrive_def no_send_error_def no_socket_env_def equal_netaddrs_def)
qed

end
