(* ===== verification/Ownership.thy ===== *)
theory Ownership
  imports Node "HOL-Library.Multiset"
begin

text \<open>
  Who owns which packet block. The handlers write only the size, the type and what lies behind
  the header of a packet, never its reserved bytes; with the size of the block these identify a
  block from its arrival to its end. A ledger of the blocks a node owns then checks every
  event: a block is handed over or freed only while the node owns it. The lemmas show that a
  whole run passes this check and ends owning nothing. Nothing here models code of its own.
\<close>

subsection \<open>Identity and ledger\<close>

definition ident :: "buf \<Rightarrow> nat \<times> buf" where
  "ident b = (length b, slice b off_reserved 8)"

text \<open>The ledger after some events; \<open>None\<close> when one of them releases a block that is not owned.\<close>

fun ledger :: "(nat \<times> buf) multiset \<Rightarrow> ev list \<Rightarrow> (nat \<times> buf) multiset option" where
  "ledger M [] = Some M"
| "ledger M (Alloc b # evs) = ledger (add_mset (ident b) M) evs"
| "ledger M (Send p b # evs) = (if ident b \<in># M then ledger (M - {#ident b#}) evs else None)"
| "ledger M (Free b # evs) = (if ident b \<in># M then ledger (M - {#ident b#}) evs else None)"

lemma ledger_append: "ledger M (xs @ ys) = ledger M xs \<bind> (\<lambda>N. ledger N ys)"
  by (induction M xs rule: ledger.induct) auto

lemma ledger_frame: "ledger M evs = Some N \<Longrightarrow> ledger (K + M) evs = Some (K + N)"
proof (induction M evs arbitrary: N rule: ledger.induct)
  case (2 M b evs)
  then show ?case by simp
next
  case (3 M p b evs)
  then show ?case by (auto simp: split: if_splits)
next
  case (4 M b evs)
  then show ?case by (auto simp: split: if_splits)
qed simp

text \<open>\<open>settles M evs N\<close>: the events turn owning \<open>M\<close>, whatever else is owned, into owning \<open>N\<close>.\<close>

definition settles :: "(nat \<times> buf) multiset \<Rightarrow> ev list \<Rightarrow> (nat \<times> buf) multiset \<Rightarrow> bool" where
  "settles M evs N \<longleftrightarrow> ledger M evs = Some N"

lemma settles_basic [simp]:
  "settles M [] N \<longleftrightarrow> N = M"
  "settles M (Alloc b # evs) N \<longleftrightarrow> settles (add_mset (ident b) M) evs N"
  "settles (add_mset (ident b) M) (Send p b # evs) N \<longleftrightarrow> settles M evs N"
  "settles (add_mset (ident b) M) (Free b # evs) N \<longleftrightarrow> settles M evs N"
  by (auto simp: settles_def)

lemma settles_append: "settles M xs K \<Longrightarrow> settles K ys N \<Longrightarrow> settles M (xs @ ys) N"
  by (simp add: settles_def ledger_append)

lemma settles_frame: "settles M evs N \<Longrightarrow> settles (add_mset x M) evs (add_mset x N)"
  using ledger_frame [of M evs N "{#x#}"] by (simp add: settles_def)

lemma settles_then:
  "settles M evs N \<Longrightarrow> settles (add_mset (ident b) M) (evs @ [Send p b]) N"
  "settles M evs N \<Longrightarrow> settles (add_mset (ident b) M) (evs @ [Free b]) N"
  using settles_append [OF settles_frame [of M evs N "ident b"], of "[Send p b]" N]
    settles_append [OF settles_frame [of M evs N "ident b"], of "[Free b]" N]
  by simp_all

lemma settles_concat: "(\<And>x. x \<in> set xs \<Longrightarrow> settles M (f x) M) \<Longrightarrow> settles M (concat (map f xs)) M"
  by (induction xs) (auto intro: settles_append)

text \<open>What the mixing buffer holds.\<close>

definition held_ids :: "node_state \<Rightarrow> (nat \<times> buf) multiset" where
  "held_ids s = (case mix s of None \<Rightarrow> {#} | Some q \<Rightarrow> mset (map (\<lambda>m. ident (slot_packet m)) q))"

subsection \<open>The writes of a handler\<close>

lemma ident_write:
  "write_at b off xs = Some b' \<Longrightarrow> 12 \<le> off \<Longrightarrow> ident b' = ident b"
  by (auto simp: write_at_def ident_def slice_splice_other split: if_splits)

lemma ident_size:
  "put16 b 0 v = Some b' \<Longrightarrow> ident b' = ident b"
  by (auto simp: put16_def write_at_def ident_def slice_def splice_def split: if_splits)

lemma ident_put:
  "put16 b off v = Some b' \<Longrightarrow> 12 \<le> off \<Longrightarrow> ident b' = ident b"
  "put64 b off w = Some b' \<Longrightarrow> 12 \<le> off \<Longrightarrow> ident b' = ident b"
  by (auto simp: put16_def put64_def dest: ident_write)

lemma ident_put_ping:
  assumes "put_ping e b n = Some b'"
  shows "ident b' = ident b"
proof -
  from assms obtain b1 b2 where "write_at b (off_ping n) [1] = Some b1"
    "write_at b1 (off_ping n + 1) [0] = Some b2" "put64 b2 (off_ping n + 2) (now e) = Some b'"
    by (auto simp: put_ping_def bind_eq_Some_conv)
  from ident_write [OF this(1)] ident_write [OF this(2)] ident_put(2) [OF this(3)] show ?thesis by simp
qed

lemma bind_SomeE:
  assumes "m \<bind> f = Some y"
  obtains x where "m = Some x" "f x = Some y"
  using assms by (auto simp: bind_eq_Some_conv)

lemma if_NoneE:
  assumes "(if P then Some None else m) = Some (Some x)"
  obtains "\<not> P" "m = Some (Some x)"
  using assms by (auto split: if_splits)

lemma ident_insert_route:
  assumes "insert_route e b hops = Some (Some x)"
  shows "ident x = ident b"
proof -
  from assms obtain ty n k w b1 b2 b3 b4 b5 b6 where
    1: "(if ty = DATA_code then read_at b n k \<bind> write_at b (off_rh_route (length hops))
         else Some b) = Some b1"
    and 2: "(if length hops > 0 then write_at b1 (off_rh_route 0) (enc_route hops) else Some b1) = Some b2"
    and 3: "put16 b2 off_rh_route_length (of_nat (length hops)) = Some b3"
    and 4: "put16 b3 off_rh_hop_index 0 = Some b4"
    and 5: "put16 b4 off_total_size w = Some b5"
    and 6: "(if ty = PING_code then put_ping e b5 (length hops) else Some b5) = Some b6"
    and 7: "Some (Some b6) = Some (Some x)"
    unfolding insert_route_def Let_def
    by (elim bind_SomeE if_NoneE) (rule that; assumption)
  have "ident b1 = ident b" using 1 ident_write by (auto simp: bind_eq_Some_conv split: if_splits)
  moreover have "ident b2 = ident b1" using 2 ident_write by (auto split: if_splits)
  moreover have "ident b3 = ident b2" "ident b4 = ident b3" using 3 4 by (simp_all add: ident_put)
  moreover have "ident b5 = ident b4" using 5 by (simp add: ident_size)
  moreover have "ident x = ident b5" using 6 7 ident_put_ping by (auto split: if_splits)
  ultimately show ?thesis by simp
qed

subsection \<open>Sending on\<close>

lemma settles_batch:
  "settles (mset (map (\<lambda>m. ident (slot_packet m)) ms) + M)
     (concat (map (\<lambda>m. send_packet (unat (slot_port m)) (slot_packet m)) ms)) M"
  by (induction ms) (simp_all add: send_packet_def)

lemma send_to_next_hop_settles:
  assumes "send_to_next_hop c s b = Some (s', evs)"
  shows "settles (add_mset (ident b) (held_ids s)) evs (held_ids s')"
proof -
  obtain hop where hop: "rh_next_hop b = Some hop"
    using assms by (auto simp: send_to_next_hop_def bind_eq_Some_conv)
  show ?thesis
  proof (cases "port_of c s hop")
    case None
    then show ?thesis using assms hop by (auto simp: send_to_next_hop_def)
  next
    case (Some p)
    show ?thesis
    proof (cases "mix s")
      case None
      then show ?thesis using assms hop Some by (auto simp: send_to_next_hop_def send_packet_def held_ids_def)
    next
      case (Some q)
      let ?m = "\<lparr>slot_port = of_nat p, slot_packet = b\<rparr>" and ?id = "\<lambda>m. ident (slot_packet m)"
      have r: "s' = s\<lparr>mix := Some (fst (mix_put c q ?m))\<rparr>"
        "evs = concat (map (\<lambda>m. send_packet (unat (slot_port m)) (slot_packet m)) (snd (mix_put c q ?m)))"
        using assms hop Some \<open>port_of c s hop = Some p\<close>
        by (auto simp: send_to_next_hop_def Let_def split: prod.splits if_splits)
      have "mset (map ?id (snd (mix_put c q ?m) @ fst (mix_put c q ?m))) = mset (map ?id (q @ [?m]))"
        unfolding mx.put_fifo ..
      then have "add_mset (ident b) (mset (map ?id q)) =
          mset (map ?id (snd (mix_put c q ?m))) + mset (map ?id (fst (mix_put c q ?m)))"
        by simp
      then show ?thesis
        unfolding r using settles_batch Some by (simp add: held_ids_def)
    qed
  qed
qed

lemma tree_loop_settles: "tree_loop e s ex b ps = Some evs \<Longrightarrow> settles M evs M"
  by (induction ps arbitrary: evs)
     (auto simp: bind_eq_Some_conv send_packet_def split: if_splits option.splits)

lemma broadcast_on_tree_settles: "broadcast_on_tree e c s ex b = Some evs \<Longrightarrow> settles M evs M"
  unfolding broadcast_on_tree_def by (rule tree_loop_settles)

lemma broadcast_stp_settles [simp]: "settles M (broadcast_stp e c s ex) M"
  unfolding broadcast_stp_def
  by (rule settles_concat) (auto simp: send_packet_def split: option.split)

subsection \<open>The handlers\<close>

lemma held_ids_frame: "mix s' = mix s \<Longrightarrow> held_ids s' = held_ids s"
  by (simp add: held_ids_def)

lemma broadcast_then:
  assumes "broadcast_on_tree e c s1 ex b = Some evs"
  shows "settles (add_mset (ident b) M) (evs @ [Send p b]) M"
    and "settles (add_mset (ident b) M) (evs @ [Free b]) M"
  using broadcast_on_tree_settles [OF assms] by (auto intro: settles_then)

lemma handle_flood_settles:
  assumes "handle_flood e c s port b = Some (s', evs)"
  shows "settles (add_mset (ident b) (held_ids s)) evs (held_ids s')"
  using assms broadcast_then
  by (auto simp: handle_flood_def bind_eq_Some_conv send_packet_def split: if_splits)

lemma held_ids_learn_row [simp]: "held_ids (learn_row ok c s a ls) = held_ids s"
  by (simp add: held_ids_def learn_row_frame)

lemma handle_lsa_settles:
  assumes "handle_lsa e c s port b = Some (s', evs)"
  shows "settles (add_mset (ident b) (held_ids s)) evs (held_ids s')"
  using assms broadcast_then
  by (auto simp: handle_lsa_def bind_eq_Some_conv Let_def split: if_splits)

lemma originate_lsa_settles:
  assumes "originate_lsa e c s = Some (s', evs)"
  shows "settles (held_ids s) evs (held_ids s')"
  using assms broadcast_then
  by (auto simp: originate_lsa_def bind_eq_Some_conv Let_def split: if_splits option.splits)

lemma stp_chain_settles:
  assumes "stp_chain e c s port r l a = Some (s', evs)"
  shows "mix s' = mix s \<and> settles M evs M"
  using assms broadcast_stp_settles
  by (auto simp: stp_chain_def Let_def unblock_all_def set_blocked_def bind_eq_Some_conv state_simps
      split: if_splits)

lemma handle_stp_settles:
  assumes "handle_stp e c s port b = Some (s', evs)"
  shows "settles (add_mset (ident b) (held_ids s)) evs (held_ids s')"
proof -
  from assms obtain ad r l a s1 evs1 s2 where
    1: "stp_chain e c (s\<lparr>neighbor_addr := ad\<rparr>) (unat port) r l a = Some (s1, evs1)"
    and 2: "child_rule s1 (unat port) r l = Some s2" and s': "s' = timer_rule e s2 r a" "evs = evs1 @ [Free b]"
    by (auto simp: handle_stp_def bind_eq_Some_conv)
  have "mix s' = mix s"
    using stp_chain_settles [OF 1] 2 unfolding s'
    by (auto simp: timer_rule_def child_rule_def set_blocked_def split: if_splits)
  then show ?thesis
    using settles_then(2) [of "held_ids s" evs1 "held_ids s" b] stp_chain_settles [OF 1]
    unfolding s'(2) held_ids_frame [OF \<open>mix s' = mix s\<close>] by simp
qed

lemma ident_reverse_route: "reverse_route b n is = Some b' \<Longrightarrow> ident b' = ident b"
  by (induction "is" arbitrary: b) (auto simp: bind_eq_Some_conv Let_def dest!: ident_put)

lemma source_route_settles:
  assumes "source_route e c s b = Some (s', evs)"
  shows "settles (add_mset (ident b) (held_ids s)) evs (held_ids s')"
  using assms send_to_next_hop_settles ident_insert_route
  by (fastforce simp: source_route_def bind_eq_Some_conv split: option.splits)

lemma answer_settles:
  assumes "(if asked then make_ping_reply ok b \<bind> (\<lambda>answer.
      case answer of None \<Rightarrow> Some (s, [])
      | Some reply \<Rightarrow> send_to_next_hop c s reply \<bind> (\<lambda>(s1, evs). Some (s1, Alloc reply # evs)))
    else Some (s, [])) = Some (s', evs)"
  shows "settles (held_ids s) evs (held_ids s')"
  using assms send_to_next_hop_settles
  by (auto simp: bind_eq_Some_conv split: if_splits option.splits)

lemma arrived_settles:
  assumes "(if asked then make_ping_reply ok b \<bind> (\<lambda>answer.
      case answer of None \<Rightarrow> Some (s, [])
      | Some reply \<Rightarrow> send_to_next_hop c s reply \<bind> (\<lambda>(s1, evs). Some (s1, Alloc reply # evs)))
    else Some (s, [])) \<bind> (\<lambda>(s1, evs). Some (s1, evs @ send_packet p b)) = Some (s', evs)"
  shows "settles (add_mset (ident b) (held_ids s)) evs (held_ids s')"
  using assms
  by (elim bind_SomeE) (auto simp: send_packet_def dest!: answer_settles intro: settles_then)

lemma hop_settles:
  assumes "put16 b off_rh_hop_index v \<bind> send_to_next_hop c s = Some (s', evs)"
  shows "settles (add_mset (ident b) (held_ids s)) evs (held_ids s')"
  using assms send_to_next_hop_settles
  by (elim bind_SomeE) (force dest: ident_put)

lemma if_SomeE:
  assumes "(if P then m else n) = Some y"
  obtains "P" "m = Some y" | "\<not> P" "n = Some y"
  using assms by (auto split: if_splits)

lemma handle_routed_settles:
  assumes "handle_routed e c s port b = Some (s', evs)"
  shows "settles (add_mset (ident b) (held_ids s)) evs (held_ids s')"
proof -
  obtain ok where ok: "routed_packet_is_well_formed b (port \<noteq> user_port c) = Some ok"
    using assms unfolding handle_routed_def Let_def by (elim bind_SomeE)
  note run = assms [unfolded handle_routed_def Let_def ok bind.bind_lunit]
  show ?thesis
  proof (cases "ok \<and> port \<noteq> user_port c")
    case False
    then show ?thesis using run source_route_settles by (auto split: if_splits)
  next
    case True
    then have cases: "\<not> \<not> ok" "\<not> port = user_port c" by simp_all
    show ?thesis
      using run unfolding if_not_P [OF cases(1)] if_not_P [OF cases(2)]
      by (elim arrived_settles hop_settles bind_SomeE if_SomeE) auto
  qed
qed

lemma dispatch_settles:
  assumes "dispatch e c s port b = Some (s', evs)"
  shows "settles (add_mset (ident b) (held_ids s)) evs (held_ids s')"
proof -
  obtain ty where ty: "get16 b off_type = Some ty"
    using assms unfolding dispatch_def by (elim bind_SomeE)
  note run = assms [unfolded dispatch_def ty bind.bind_lunit]
  show ?thesis
  proof (cases "type_of_code ty")
    case None
    then show ?thesis using run by auto
  next
    case (Some k)
    then show ?thesis
      using run handle_stp_settles handle_flood_settles handle_lsa_settles handle_routed_settles
      by (cases k) simp_all
  qed
qed

lemma tree_timers_settles:
  "mix (fst (tree_timers e c s)) = mix s \<and> settles M (snd (tree_timers e c s)) M"
  by (simp add: tree_timers_def become_root_def unblock_all_def Let_def)

lemma check_timers_settles:
  assumes "check_timers e c s = Some (s', evs)"
  shows "settles (held_ids s) evs (held_ids s')"
proof -
  obtain s1 evs1 where t: "tree_timers e c s = (s1, evs1)" by fastforce
  have 1: "held_ids s1 = held_ids s" "settles M evs1 M" for M
    using tree_timers_settles [of e c s M] t by (simp_all add: held_ids_def)
  show ?thesis
  proof (cases "elapsed (now e) (lsa_start_ms s1) (root_hello_interval_ms c)")
    case True
    then obtain s2 evs2 where o: "originate_lsa e c s1 = Some (s2, evs2)"
      and s': "s' = s2\<lparr>lsa_start_ms := now e\<rparr>" "evs = evs1 @ evs2"
      using assms t by (auto simp: check_timers_def bind_eq_Some_conv)
    have "held_ids s' = held_ids s2" unfolding s' by (rule held_ids_frame) simp
    then show ?thesis
      using settles_append [OF 1(2) originate_lsa_settles [OF o, unfolded 1(1)]] unfolding s'(2) by simp
  next
    case False
    then have "s' = s1" "evs = evs1" using assms t by (simp_all add: check_timers_def)
    then show ?thesis using 1 by simp
  qed
qed

subsection \<open>A whole run\<close>

text \<open>The framework hands a block over with each packet it delivers.\<close>

definition arrival :: "iteration \<Rightarrow> ev list" where
  "arrival it = (case received it of None \<Rightarrow> [] | Some (p, b) \<Rightarrow> [Alloc b])"

text \<open>The arrivals of a run in their places among what each iteration did.\<close>

definition diary :: "iteration list \<Rightarrow> ev list list \<Rightarrow> ev list" where
  "diary its segs = concat (map2 (\<lambda>it seg. arrival it @ seg) its segs)"

lemma loop_body_settles:
  assumes "loop_body c s it = Some (s', evs)"
  shows "settles (held_ids s) (arrival it @ evs) (held_ids s')"
proof -
  obtain s1 evs1 evs2 where
    1: "(case received it of None \<Rightarrow> Some (s, [])
        | Some (port, packet) \<Rightarrow> dispatch (handler_env it) c s port packet) = Some (s1, evs1)"
    and 2: "check_timers (timer_env it) c s1 = Some (s', evs2)" and evs: "evs = evs1 @ evs2"
    using assms by (auto simp: loop_body_def elim!: bind_SomeE)
  have "settles (held_ids s) (arrival it @ evs1) (held_ids s1)"
    using 1 dispatch_settles by (auto simp: arrival_def split: option.splits)
  from settles_append [OF this check_timers_settles [OF 2]] show ?thesis by (simp add: evs)
qed

lemma main_loop_settles:
  assumes "main_loop c s its = Some (s', evs)"
  shows "\<exists>segs. evs = concat segs \<and> length segs = length its
    \<and> (\<forall>k \<le> length its. map_option snd (main_loop c s (take k its)) = Some (concat (take k segs)))
    \<and> settles (held_ids s) (diary its segs) (held_ids s')"
  using assms
proof (induction its arbitrary: s evs)
  case Nil
  then show ?case by (simp add: diary_def)
next
  case (Cons it its)
  obtain s1 evs1 evs2 where 1: "loop_body c s it = Some (s1, evs1)"
    and 2: "main_loop c s1 its = Some (s', evs2)" and evs: "evs = evs1 @ evs2"
    using Cons.prems by (auto elim!: bind_SomeE)
  obtain segs where segs: "evs2 = concat segs" "length segs = length its"
    "\<And>k. k \<le> length its \<Longrightarrow> map_option snd (main_loop c s1 (take k its)) = Some (concat (take k segs))"
    "settles (held_ids s1) (diary its segs) (held_ids s')"
    using Cons.IH [OF 2] by blast
  have "map_option snd (main_loop c s (take k (it # its))) = Some (concat (take k (evs1 # segs)))"
    if "k \<le> length (it # its)" for k
    using that 1 segs(3) [of "k - 1"] by (cases k) (auto split: prod.splits)
  moreover have "settles (held_ids s) (diary (it # its) (evs1 # segs)) (held_ids s')"
    using settles_append [OF loop_body_settles [OF 1] segs(4)] by (simp add: diary_def)
  ultimately show ?case
    using evs segs(1,2) by (intro exI [of _ "evs1 # segs"]) simp
qed

lemma state_free_settles: "settles (held_ids s) (snd (state_free s)) {#}"
proof -
  have "settles (mset (map (\<lambda>m. ident (slot_packet m)) q)) (map (\<lambda>m. Free (slot_packet m)) q) {#}"
    for q :: "mix_slot list"
    by (induction q) simp_all
  then show ?thesis by (simp add: state_free_def held_ids_def split: option.split)
qed

text \<open>
  C7. No packet block is lost or released twice over a whole run. Whatever legal packets arrive
  in whatever order, with whatever clock readings and failing allocations, a run whose state
  could be set up ends. A ledger that books in each block when the framework delivers it or the
  node allocates it, and books it out when it is handed to the framework or freed, never meets a
  block that it does not hold and is empty at the end, the packets still waiting to be mixed
  included. (The ledger knows a block by its size and its reserved bytes, which no handler
  writes. The \<open>segs\<close> are what each iteration did, in order.) A run whose state cannot be set up
  does nothing.
\<close>

theorem run_node_conserves_packets:
  assumes net: "neighbors c nbr" and legal: "\<forall>it \<in> set its. legal_iteration nbr c it"
  shows "case state_init (alloc e) (fst t) (fst (snd t)) (snd (snd t)) c of
      None \<Rightarrow> run_node e t c its = Some []
    | Some s \<Rightarrow> \<exists>segs fin.
        run_node e t c its = Some (broadcast_stp e c s (- 1) @ concat segs @ fin)
        \<and> length segs = length its
        \<and> (\<forall>k \<le> length its. map_option snd (main_loop c s (take k its)) = Some (concat (take k segs)))
        \<and> ledger {#} (broadcast_stp e c s (- 1) @ diary its segs @ fin) = Some {#}"
proof (cases "state_init (alloc e) (fst t) (fst (snd t)) (snd (snd t)) c")
  case None
  then show ?thesis by (simp add: run_node_def)
next
  case (Some s)
  note init = state_init_inv [OF Some, of nbr]
  have start: "held_ids s = {#}" using init by (simp add: held_def held_ids_def split: option.splits)
  obtain s1 evs where m: "main_loop c s its = Some (s1, evs)"
    using main_loop_sound [OF conjunct1 [OF init] net legal] by (elim handlesE)
  obtain segs where segs: "evs = concat segs" "length segs = length its"
    "\<forall>k \<le> length its. map_option snd (main_loop c s (take k its)) = Some (concat (take k segs))"
    "settles (held_ids s) (diary its segs) (held_ids s1)"
    using main_loop_settles [OF m] by blast
  have "settles {#} (broadcast_stp e c s (- 1) @ diary its segs @ snd (state_free s1)) {#}"
    using segs(4) start by (intro settles_append [OF broadcast_stp_settles] settles_append [OF _ state_free_settles]) simp
  then show ?thesis
    using Some m segs
    by (simp add: run_node_def settles_def)
       (intro exI [of _ segs] exI [of _ "snd (state_free s1)"], simp)
qed

theorem run_node_conserves_packets_witness:
  "\<exists>seg fin. run_node calm_env (0, 0, 0) example_config [bid_iteration]
      = Some (broadcast_stp calm_env example_config idle_state (- 1) @ seg @ fin)
    \<and> ledger {#} (broadcast_stp calm_env example_config idle_state (- 1) @ Alloc example_bid # seg @ fin) = Some {#}"
proof -
  have init: "state_init (alloc calm_env) (fst (0, 0, 0)) (fst (snd (0, 0, 0))) (snd (snd (0, 0, 0)))
      example_config = Some idle_state"
    using idle_state_init by (simp add: calm_env_def)
  have legal: "\<forall>it \<in> set [bid_iteration]. legal_iteration example_nbr example_config it"
    by (simp add: bid_iteration_legal)
  have d: "diary [bid_iteration] [seg] = Alloc example_bid # seg" for seg
    by (simp add: diary_def arrival_def bid_iteration_def)
  from run_node_conserves_packets [OF example_neighbors(1) legal, of calm_env "(0, 0, 0)"]
  obtain segs fin where
    run: "run_node calm_env (0, 0, 0) example_config [bid_iteration]
        = Some (broadcast_stp calm_env example_config idle_state (- 1) @ concat segs @ fin)"
      "length segs = 1"
      "ledger {#} (broadcast_stp calm_env example_config idle_state (- 1) @ diary [bid_iteration] segs @ fin) = Some {#}"
    unfolding init by auto
  from run(2) obtain seg where "segs = [seg]" by (auto simp: length_Suc_conv)
  with run(1,3) show ?thesis by (intro exI [of _ seg] exI [of _ fin]) (simp add: d)
qed

end
