(* ===== verification/Spec2Isabelle.thy ===== *)
theory Spec2Isabelle
  imports Routing_Testcase Wiring Ownership
begin

text \<open>
  Mixnet: a virtual network of processes that run a routing protocol, and the framework that
  starts, connects and tests them.

  \<^bold>\<open>The program.\<close> Every node of the virtual network is a process, a \<^emph>\<open>fragment\<close>. One of its threads
  runs \<open>run_node\<close> of \<open>src/mixnet/node.c\<close>: spanning tree (STP), flooding, link-state
  advertisements (LSA) with Dijkstra, source-routed DATA and PING packets, random detours and
  mixing. It sees the world through \<open>mixnet_send\<close> and \<open>mixnet_recv\<close>, which the class
  \<open>node_context\<close> of \<open>src/framework/fragment.cpp\<close> implements over one socket per neighbour and two
  message queues (\<open>src/external/itc\<close>) to the other threads of the process. The main thread of a
  fragment follows the requests of the \<^emph>\<open>orchestrator\<close> (\<open>src/framework/orchestrator.cpp\<close>), which
  builds the network of a testcase (\<open>src/testing/common\<close>), runs the testcase's callbacks, and
  shuts everything down. Orchestrator and fragments exchange framed messages
  (\<open>src/framework/message.cpp\<close>) over sockets (\<open>src/framework/networking.cpp\<close>).

  \<^bold>\<open>The theories\<close>, from the bottom:
  \<^item> \<open>Prelude\<close>: machine words, byte buffers with checked little-endian access, array loops, list
    lemmas; the locales \<open>field\<close> and \<open>exact_field\<close> of encoders, interpreted for the words.
  \<^item> \<open>Packets\<close>: the packed structs of \<open>mixnet/packet.h\<close> as offsets into a block.
  \<^item> \<open>Topology\<close>, \<open>Shortest_Paths\<close>, \<open>Node_State\<close>, \<open>Routes\<close>: the vertex table (\<open>id_lookup\<close>,
    \<open>graph_update\<close>), \<open>run_dijkstra\<close>, \<open>struct node_state\<close> with its packet builders, the forwarding
    table and the random detours of \<open>mixnet/node.c\<close>.
  \<^item> \<open>Stp\<close>, \<open>Flooding\<close>, \<open>Mixing\<close>, \<open>Forwarding\<close>: the packet handlers of \<open>mixnet/node.c\<close>.
  \<^item> \<open>Node\<close>: timers, dispatch and the main loop; \<open>Ownership\<close>: a ledger of the packet blocks over a
    whole run; \<open>Delivery\<close>: several nodes composed; \<open>Conduct\<close>: what a node says to its neighbours is
    well formed and true.
  \<^item> \<open>Message\<close>, \<open>Networking\<close>, \<open>Message_Queue\<close>: messages, sockets and queues of the framework.
  \<^item> \<open>Node_Context\<close>: \<open>node_send\<close> and \<open>node_recv\<close>; \<open>Fragment\<close>: the fragment's handlers, tasks and
    loop; \<open>Fragment_Run\<close>: their invariant and how a run ends; \<open>Node_Thread\<close>: the thread that runs
    \<open>run_node\<close> on top of the node context (\<open>worker_node\<close>, \<open>mixnet_send\<close>, \<open>mixnet_recv\<close>).
  \<^item> \<open>Test_Graph\<close>: the graph of a testcase; \<open>Orchestrator\<close>: rounds, states and public calls of
    the orchestrator; \<open>Orchestrator_Run\<close>: how a run ends; \<open>Requests\<close> and \<open>Testcase_Calls\<close>:
    orchestrator and fragment composed, and \<open>main\<close> of a fragment; \<open>Routing_Testcase\<close>: the oracle of
    the routing tests.
  \<^item> \<open>Packet_Network\<close>: the whole network as nodes and queues of packets; \<open>Mesh\<close>: the whole network as
    fragments, whose threads interleave, and links that carry bytes; the second is shown to
    implement the first; \<open>Wiring\<close>: the graph of a testcase and the connections made for it give such
    a network.

  Definitions carry the names of the code, with a suffix or prefix where two files use the same
  name: \<open>orc_prepare_header\<close>, \<open>orc_check_header\<close> and \<open>orc_send_packet\<close> are the orchestrator's; its
  \<open>run_state_\<close> methods carry the names of their states where the fragment has the same method
  (\<open>run_state_setup_ctrl_plane\<close> for \<open>run_state_setup_ctrl\<close>), and its states START_TESTCASE and
  END_TESTCASE are \<open>BEGIN_TESTCASE\<close> and \<open>FINISH_TESTCASE\<close>. Helpers named after no function of the
  code are blocks of the function that calls them.

  \<^bold>\<open>How the code is modelled.\<close> Packets and messages are byte lists, one per block of memory; integers
  have the width of the code and wrap around; arrays are lists of the allocated length. A function
  returns \<open>None\<close> where the code has no defined result: an access outside a block, a failed
  assert, or a call that waits for an event that does not come; \<open>recv_generic\<close> keeps the two apart
  (\<open>Faults\<close> and \<open>Waits\<close>) and is shown never to fault. Errors are values (\<open>error_code\<close>). What the code does not determine is an argument: whether an allocation
  succeeds, the clock, random numbers, what a system call returns. Loops over such events
  (receive and send loops, accept, poll, the main loops) recurse over the list of events, and the
  end of the list means that the code still waits; the theorems that promise a result
  quantify over the events and give the number that is enough. \<open>port_loop\<close> visits at most
  \<open>num_neighbors + 1\<close> ports, the code's own bound. A fragment passes through at most nine
  handlers and the orchestrator through at most twelve states before RESET, whatever the
  events, and the theorems prove it. The kernel's side of a socket is the bytes that wait in it and
  the bytes it has taken, so that two ends can be composed.

  \<^bold>\<open>What is shown.\<close> For \<open>mixnet/node.c\<close>: memory safety of every handler for arbitrary packets,
  that over a whole run each packet block is handed over or freed exactly once, an invariant of all reachable states, that the
  forwarding table holds exactly the least routes of the advertised network, the protocol rules
  of STP as an order on bids, flooding, mixing in whole batches, ping, and delivery of a DATA
  packet across the network. For the whole network: every step of the fragments is a step of a
  network of nodes that exchange whole packets; in each state that network reaches, in any order
  of steps and whatever is lost, all the nodes believe about links is true; so a node never meets
  a malformed stream, and when all run and nothing is lost, a packet is delivered after as many
  turns as the table it set out by promises, whichever way the turns fall. For the framework:
  framing survives any fragmentation, sealed messages validate, the queues refine a pool and a
  FIFO (as long as the pool's size fits in the 32 bits it is computed in), \<open>node_recv\<close> is a round
  robin that reaches every port within \<open>num_neighbors + 1\<close> calls, fragments stay sound on every path
  of their runs, and a run of the orchestrator ends with everything released or killed. For the composition: each fragment gets its own place in the
  testcase's graph, a testcase's packet and link change reach the right node and port, and a
  routing test passes exactly when it should. Each theorem stands behind the text that states it
  in words, with a concrete instance (\<open>_witness\<close>) where it has hypotheses.

  \<^bold>\<open>Contracts\<close> are locales interpreted on the code's definitions: encoders of fields
  (\<open>field\<close>, \<open>exact_field\<close>), interning of addresses (\<open>interning\<close>), batching (\<open>batching\<close>), and
  bounded queues (\<open>bounded_fifo\<close>, \<open>framed_fifo\<close>).

  \<^bold>\<open>Not modelled.\<close> Threads run as the steps of their calls: a call of a queue operation is one step,
  a turn of the node's loop is one step, and the blocking calls interleave with what other threads
  do meanwhile. The queues are lock-free (atomic increments and exchanges with spins until another
  call has finished): that their calls can be ordered one after the other is assumed. Data races
  and the spin waits on \<open>started\<close> have no model. In \<open>Mesh\<close>
  the kernel takes what is sent, in any pieces, and the connections are already made. The pcap
  thread of the orchestrator is run before the testcase's \<open>run\<close>; they touch different fields. Of a
  forked child only its PID. The vendored parser \<open>argparse.hpp\<close> is a parameter of \<open>fragment_main\<close>;
  printing, signals, sleeping and seeding have no effect a theorem could be about;
  \<open>mixnet/connection.h\<close> and \<open>mixnet/node.h\<close> only declare. The tests under \<open>testing/cp1\<close>, \<open>testing/cp2\<close>
  and \<open>testing/unit\<close> are tables and scripts for the interfaces modelled here.
\<close>

end
